(* ===== verification/Prelude.thy ===== *)
theory Prelude
  imports Main "HOL-Library.Word" "HOL-Library.Monad_Syntax"
begin

unbundle bit_operations_syntax

text \<open>
  Shared vocabulary of the development: the machine integers of the i686 target, the error
  numbers the kernel returns, and the generic lemmas on words, lists and options that the
  component theories use.

  Conventions used by every component theory:
  \<^item> a C++ integer of width w is a \<open>w word\<close>, with the wrap-around of the machine;
  \<^item> a function that can stop the machine (\<open>PANIC\<close>, a failed \<open>ASSERTH\<close>, see
    \<open>kernel/lib/klib.cpp\<close>) or that can loop returns an \<open>option\<close>: \<open>None\<close> is
    "the kernel halted or never came back", and every property proves \<open>Some\<close> where the
    code returns;
  \<^item> a function that returns a negative error number returns a sum: \<open>Inl\<close> of the error.
\<close>

section \<open>Machine integers and error numbers\<close>

type_synonym u8 = "8 word"
type_synonym u16 = "16 word"
type_synonym u32 = "32 word"
type_synonym u64 = "64 word"

text \<open>The error numbers the kernel returns; their numeric values are newlib's.\<close>

datatype errno =
    EACCES | EBADF | EBUSY | ECHILD | EFAULT | EINTR | EINVAL | EIO | EISDIR
  | EMFILE | ENOENT | ENOEXEC | ENOMEM | ENOSYS | ESPIPE | ESRCH

named_theorems kdefs "unfolding equations of the non-recursive operations"
named_theorems word_nat "readings of word expressions as natural numbers"

section \<open>Words as natural numbers\<close>

lemma unat_drop_bit [word_nat]:
  fixes x :: "'a::len word"
  shows "unat (drop_bit n x) = unat x div 2 ^ n"
  unfolding unat_drop_bit_eq by (simp only: drop_bit_eq_div)

lemma unat_push_bit_lt [word_nat]:
  fixes x :: "'a::len word"
  assumes "unat x * 2 ^ n < 2 ^ LENGTH('a)"
  shows "unat (push_bit n x) = unat x * 2 ^ n"
proof -
  have "unat (push_bit n x) = take_bit LENGTH('a) (push_bit n (unat x))"
    by (simp add: unsigned_push_bit_eq)
  also have "\<dots> = push_bit n (unat x)"
    using assms by (simp add: take_bit_nat_eq_self push_bit_eq_mult)
  finally show ?thesis by (simp add: push_bit_eq_mult)
qed

lemma unat_add_lt [word_nat]:
  fixes x y :: "'a::len word"
  assumes "unat x + unat y < 2 ^ LENGTH('a)"
  shows "unat (x + y) = unat x + unat y"
  using assms by (simp add: unat_word_ariths)

lemma unat_sub_le [word_nat]:
  fixes x y :: "'a::len word"
  assumes "unat y \<le> unat x"
  shows "unat (x - y) = unat x - unat y"
  using assms by (simp add: unat_sub word_le_nat_alt)

lemma drop_bit_less:
  fixes x :: "'a::len word"
  assumes "x \<noteq> 0" and "0 < n"
  shows "unat (drop_bit n x) < unat x"
proof -
  have "0 < unat x" using assms(1) by (simp add: unat_gt_0)
  moreover have "(1::nat) < 2 ^ n" using assms(2) by (rule one_less_power [rotated]) simp
  ultimately show ?thesis by (simp only: unat_drop_bit int_div_less_self div_less_dividend)
qed

lemma word_region_iff:
  fixes a b :: "'a::len word"
  assumes "unat b + k \<le> 2 ^ LENGTH('a)"
  shows "unat (a - b) < k \<longleftrightarrow> unat b \<le> unat a \<and> unat a < unat b + k"
proof (cases "unat b \<le> unat a")
  case True
  then show ?thesis by (auto simp: unat_sub_le)
next
  case False
  then have "unat (a - b) = unat a + 2 ^ LENGTH('a) - unat b"
    by (simp add: unat_sub_if_size word_size)
  with False assms show ?thesis by auto
qed

lemma unat_of_nat_lt [word_nat]: "n < 2 ^ LENGTH('a) \<Longrightarrow> unat (of_nat n :: 'a::len word) = n"
  by (simp add: unat_of_nat)

lemma unat_u32_lt: "unat (x :: u32) < 4294967296"
  by (rule order_less_le_trans [OF unsigned_less]) simp

section \<open>Stacks with a bound\<close>

text \<open>The interface the clients of \<open>vector\<close> and of \<open>linked_list\<close> rely on when they use them as
  stacks: \<open>rep s xs\<close> says that the object \<open>s\<close> holds \<open>xs\<close>, and pushing succeeds below \<open>cap\<close>.\<close>

primrec pushes :: "('a \<Rightarrow> 's \<Rightarrow> 's option) \<Rightarrow> 'a list \<Rightarrow> 's \<Rightarrow> 's option" where
  "pushes push [] s = Some s"
| "pushes push (x # xs) s = Option.bind (push x s) (pushes push xs)"

primrec pops :: "('s \<Rightarrow> 's option) \<Rightarrow> nat \<Rightarrow> 's \<Rightarrow> 's option" where
  "pops pop 0 s = Some s"
| "pops pop (Suc n) s = Option.bind (pop s) (pops pop n)"

locale bounded_stack =
  fixes rep :: "'s \<Rightarrow> 'a list \<Rightarrow> bool"
    and push :: "'a \<Rightarrow> 's \<Rightarrow> 's option"
    and pop :: "'s \<Rightarrow> 's option"
    and cap :: nat
  assumes push_rep: "rep s xs \<Longrightarrow> length xs < cap \<Longrightarrow> \<exists>s'. push k s = Some s' \<and> rep s' (xs @ [k])"
    and pop_rep: "rep s (xs @ [x]) \<Longrightarrow> \<exists>s'. pop s = Some s' \<and> rep s' xs"
begin

lemma pushes_rep:
  "rep s xs \<Longrightarrow> length xs + length ys \<le> cap \<Longrightarrow> \<exists>s'. pushes push ys s = Some s' \<and> rep s' (xs @ ys)"
proof (induction ys arbitrary: s xs)
  case (Cons y ys)
  obtain s1 where "push y s = Some s1" "rep s1 (xs @ [y])"
    using push_rep [OF Cons.prems(1), of y] Cons.prems(2) by auto
  moreover have "length (xs @ [y]) + length ys \<le> cap" using Cons.prems(2) by simp
  ultimately show ?case using Cons.IH [of s1 "xs @ [y]"] by auto
qed simp

lemma pops_rep: "rep s (xs @ ys) \<Longrightarrow> \<exists>s'. pops pop (length ys) s = Some s' \<and> rep s' xs"
proof (induction ys arbitrary: s rule: rev_induct)
  case (snoc y ys)
  obtain s1 where "pop s = Some s1" "rep s1 (xs @ ys)" using pop_rep [of s "xs @ ys" y] snoc.prems by auto
  then show ?case using snoc.IH by auto
qed simp

lemma pushes_pops:
  assumes "rep s xs" "length xs + length ys \<le> cap"
  shows "\<exists>s' s''. pushes push ys s = Some s' \<and> rep s' (xs @ ys) \<and> pops pop (length ys) s' = Some s'' \<and> rep s'' xs"
  using pushes_rep [OF assms] pops_rep by blast

end

end
