(* ===== verification/KMath.thy ===== *)
theory KMath
  imports Prelude
begin

text \<open>
  Integer logarithm and square root (\<open>kernel/lib/math.cpp\<close>): the table-driven \<open>ilg\<close> for
  16 and 32 bit arguments and the digit-by-digit \<open>isqrt\<close>, with the proofs that they compute
  the floor of the binary logarithm and of the square root.
\<close>

section \<open>The table and the two logarithms\<close>

definition lgtable :: "u8 list" where
  "lgtable = [-1, 0, 1, 1, 2, 2, 2, 2, 3, 3, 3, 3, 3, 3, 3, 3] @
     replicate 16 4 @ replicate 32 5 @ replicate 64 6 @ replicate 128 7"

definition ilg16 :: "u16 \<Rightarrow> u8" where
  "ilg16 v = (let x = drop_bit 8 v in
     if x \<noteq> 0 then 8 + lgtable ! unat x else lgtable ! unat v)"

definition ilg32 :: "u32 \<Rightarrow> u8" where
  "ilg32 v = (let y = drop_bit 16 v in
     if y \<noteq> 0 then
       (let x = drop_bit 8 y in if x \<noteq> 0 then 24 + lgtable ! unat x else 16 + lgtable ! unat y)
     else
       (let x = drop_bit 8 v in if x \<noteq> 0 then 8 + lgtable ! unat x else lgtable ! unat v))"

section \<open>The square root\<close>

function isqrt_scale :: "u32 \<Rightarrow> u32 \<Rightarrow> u32" where
  "isqrt_scale one v = (if v < one then isqrt_scale (drop_bit 2 one) v else one)"
  by pat_completeness auto
termination
proof (relation "measure (\<lambda>(one, v). unat one)")
  fix one v :: u32
  assume "v < one"
  then have "one \<noteq> 0" by auto
  then show "((drop_bit 2 one, v), one, v) \<in> measure (\<lambda>(one, v). unat one)"
    by (simp add: drop_bit_less)
qed simp

function isqrt_loop :: "u32 \<Rightarrow> u32 \<Rightarrow> u32 \<Rightarrow> u32" where
  "isqrt_loop v res one =
     (if one = 0 then res
      else if res + one \<le> v
      then isqrt_loop (v - (res + one)) (drop_bit 1 (res + push_bit 1 one)) (drop_bit 2 one)
      else isqrt_loop v (drop_bit 1 res) (drop_bit 2 one))"
  by pat_completeness auto
termination
  by (relation "measure (\<lambda>(v, res, one). unat one)") (simp_all add: drop_bit_less)

definition isqrt :: "u32 \<Rightarrow> u32" where
  "isqrt v = isqrt_loop v 0 (isqrt_scale (push_bit 30 1) v)"

declare isqrt_scale.simps [simp del] isqrt_loop.simps [simp del]

section \<open>The logarithm is the floor of log2\<close>

definition lg_ok :: "nat \<Rightarrow> nat \<Rightarrow> bool" where
  "lg_ok n k \<longleftrightarrow> 2 ^ k \<le> n \<and> n < 2 ^ Suc k"

lemma lgtable_small: "\<forall>i \<in> set [1..<256]. lg_ok i (unat (lgtable ! i)) \<and> unat (lgtable ! i) < 8"
  by code_simp

lemma lgtable_ok: "0 < i \<Longrightarrow> i < 256 \<Longrightarrow> lg_ok i (unat (lgtable ! i)) \<and> unat (lgtable ! i) < 8"
  using lgtable_small by simp

lemma lg_ok_shift:
  assumes "lg_ok (n div 2 ^ s) k"
  shows "lg_ok n (s + k)"
  using assms unfolding lg_ok_def power_Suc power_add
  by (auto simp: less_eq_div_iff_mult_less_eq div_less_iff_less_mult ac_simps)

lemma ilg_table_step:
  fixes v :: "'a::len word"
  assumes "0 < unat v" "unat v div 2 ^ s < 256" "0 < unat v div 2 ^ s" "s \<le> 24"
  shows "lg_ok (unat v) (unat (of_nat s + lgtable ! (unat v div 2 ^ s) :: u8))"
proof -
  let ?t = "lgtable ! (unat v div 2 ^ s)"
  have t: "lg_ok (unat v div 2 ^ s) (unat ?t)" "unat ?t < 8"
    using lgtable_ok assms(2,3) by auto
  have "unat (of_nat s :: u8) = s" using assms(4) by (simp add: unat_of_nat)
  then have "unat (of_nat s + ?t) = s + unat ?t"
    using t(2) assms(4) by (subst unat_add_lt) auto
  then show ?thesis using lg_ok_shift t(1) by simp
qed

text \<open>for every nonzero 32 bit argument \<open>ilg\<close> is the floor of the
  binary logarithm, and \<open>ilg(0)\<close> is the all-ones byte.\<close>

theorem ilg32_floor_log2:
  "(v = 0 \<longrightarrow> ilg32 v = - 1) \<and>
   (v \<noteq> 0 \<longrightarrow> 2 ^ unat (ilg32 v) \<le> unat v \<and> unat v < 2 ^ Suc (unat (ilg32 v)))"
proof (cases "v = 0")
  case True
  then show ?thesis by (simp add: ilg32_def lgtable_def)
next
  case False
  then have pos: "0 < unat v" by (simp add: unat_gt_0)
  have bound: "unat v < 2 ^ 32" using unsigned_less [of v] by simp
  have step: "lg_ok (unat v) (unat (of_nat s + lgtable ! (unat v div 2 ^ s) :: u8))"
    if "unat v div 2 ^ s < 256" "0 < unat v div 2 ^ s" "s \<le> 24" for s
    using ilg_table_step [OF pos that] .
  have zero: "drop_bit n v = 0 \<longleftrightarrow> unat v div 2 ^ n = 0" for n
    by (simp only: unat_drop_bit [symmetric] unat_eq_0)
  have "lg_ok (unat v) (unat (ilg32 v))"
  proof (cases "unat v div 2 ^ 16 = 0")
    case True
    then show ?thesis
      using step [of 0] step [of 8] pos
      by (cases "unat v div 2 ^ 8 = 0") (auto simp: ilg32_def Let_def zero unat_drop_bit)
  next
    case hi: False
    have d: "drop_bit 8 (drop_bit 16 v) = drop_bit 24 v" by simp
    show ?thesis
      using hi bound step [of 16] step [of 24]
      by (cases "unat v div 2 ^ 24 = 0") (auto simp: ilg32_def Let_def zero d unat_drop_bit)
  qed
  then show ?thesis using False by (simp add: lg_ok_def)
qed

theorem ilg32_floor_log2_witness:
  "(1000 :: u32) \<noteq> 0 \<and> 2 ^ unat (ilg32 1000) \<le> (1000 :: nat) \<and> ilg32 1000 = 9"
  using ilg32_floor_log2 [of 1000] by (simp add: ilg32_def lgtable_def)

section \<open>The square root is the floor of the root\<close>

text \<open>
  The loop on natural numbers: \<open>r\<close> is the root found so far, a multiple of \<open>2 * d\<close>, and
  \<open>d\<close> the digit under trial, so that the code's variables are \<open>v = n - r * r\<close>,
  \<open>res = 2 * d * r\<close> and \<open>one = d * d\<close>.
\<close>

definition isqrt_inv :: "nat \<Rightarrow> nat \<Rightarrow> nat \<Rightarrow> u32 \<Rightarrow> u32 \<Rightarrow> u32 \<Rightarrow> bool" where
  "isqrt_inv n r k v res one \<longleftrightarrow>
     r * r \<le> n \<and> n < (r + 2 * 2 ^ k) * (r + 2 * 2 ^ k) \<and> n < 2 ^ 32 \<and>
     r + 2 * 2 ^ k \<le> 2 ^ 16 \<and> unat v = n - r * r \<and> unat res = 2 * 2 ^ k * r \<and>
     unat one = 2 ^ k * 2 ^ k"

lemma isqrt_sum_bound:
  assumes "isqrt_inv n r k v res one"
  shows "unat res + 2 * unat one < 2 ^ 32"
proof -
  let ?d = "2 ^ k :: nat"
  have "?d \<le> 2 ^ 15" and r: "r + 2 * ?d \<le> 2 ^ 16" using assms by (auto simp: isqrt_inv_def)
  moreover have "0 < ?d" by simp
  ultimately have rd: "r + ?d \<le> 2 ^ 16 - 1" by linarith
  have "2 * ?d * r + 2 * (?d * ?d) = 2 * ?d * (r + ?d)" by (simp add: algebra_simps)
  also have "\<dots> \<le> 2 * 2 ^ 15 * (2 ^ 16 - 1)"
    using \<open>?d \<le> 2 ^ 15\<close> rd by (intro mult_le_mono) auto
  finally show ?thesis using assms by (simp add: isqrt_inv_def)
qed

lemma nat_square_sum: "(a + b) * (a + b) = a * a + (2 * b * a + b * b)" for a b :: nat
  by (simp add: algebra_simps)

lemma isqrt_guard:
  assumes "isqrt_inv n r k v res one"
  shows "res + one \<le> v \<longleftrightarrow> (r + 2 ^ k) * (r + 2 ^ k) \<le> n"
proof -
  have "unat (res + one) = unat res + unat one"
    using isqrt_sum_bound [OF assms] by (intro unat_add_lt) simp
  then have "res + one \<le> v \<longleftrightarrow> 2 * 2 ^ k * r + 2 ^ k * 2 ^ k \<le> n - r * r"
    using assms by (simp add: word_le_nat_alt isqrt_inv_def)
  also have "\<dots> \<longleftrightarrow> (r + 2 ^ k) * (r + 2 ^ k) \<le> n"
    using assms unfolding nat_square_sum isqrt_inv_def by linarith
  finally show ?thesis .
qed

lemma isqrt_taken:
  assumes inv: "isqrt_inv n r k v res one" and guard: "(r + 2 ^ k) * (r + 2 ^ k) \<le> n"
  shows "unat (v - (res + one)) = n - (r + 2 ^ k) * (r + 2 ^ k)"
    and "unat (drop_bit 1 (res + push_bit 1 one)) = 2 ^ k * (r + 2 ^ k)"
proof -
  have b: "unat res + 2 * unat one < 2 ^ 32" by (rule isqrt_sum_bound [OF inv])
  have s: "unat (res + one) = unat res + unat one" using b by (intro unat_add_lt) simp
  have "unat (v - (res + one)) = unat v - (unat res + unat one)"
    using isqrt_guard [OF inv] guard s by (subst unat_sub_le) (auto simp: word_le_nat_alt)
  then show "unat (v - (res + one)) = n - (r + 2 ^ k) * (r + 2 ^ k)"
    using inv by (simp add: isqrt_inv_def algebra_simps)
  have "unat (push_bit 1 one) = 2 * unat one"
    using b by (subst unat_push_bit_lt) auto
  then have "unat (res + push_bit 1 one) = unat res + 2 * unat one"
    using b by (subst unat_add_lt) auto
  also have "\<dots> = 2 * (2 ^ k * (r + 2 ^ k))"
    using inv by (simp add: isqrt_inv_def distrib_left)
  finally have "unat (drop_bit 1 (res + push_bit 1 one)) = (2 * (2 ^ k * (r + 2 ^ k))) div 2"
    by (simp only: unat_drop_bit power_one_right)
  then show "unat (drop_bit 1 (res + push_bit 1 one)) = 2 ^ k * (r + 2 ^ k)" by simp
qed

lemma isqrt_inv_next:
  assumes inv: "isqrt_inv n r (Suc k) v res one"
  shows "(r + 2 ^ Suc k) * (r + 2 ^ Suc k) \<le> n \<Longrightarrow>
      isqrt_inv n (r + 2 ^ Suc k) k (v - (res + one)) (drop_bit 1 (res + push_bit 1 one)) (drop_bit 2 one)"
    and "\<not> (r + 2 ^ Suc k) * (r + 2 ^ Suc k) \<le> n \<Longrightarrow>
      isqrt_inv n r k v (drop_bit 1 res) (drop_bit 2 one)"
proof -
  have one: "unat (drop_bit 2 one) = 2 ^ k * 2 ^ k"
    using inv by (simp only: unat_drop_bit) (simp add: isqrt_inv_def)
  have half: "unat (drop_bit 1 res) = 2 * 2 ^ k * r"
    using inv by (simp only: unat_drop_bit) (simp add: isqrt_inv_def)
  show "isqrt_inv n (r + 2 ^ Suc k) k (v - (res + one)) (drop_bit 1 (res + push_bit 1 one)) (drop_bit 2 one)"
    if "(r + 2 ^ Suc k) * (r + 2 ^ Suc k) \<le> n"
    using inv isqrt_taken [OF inv that] one that
    unfolding isqrt_inv_def by (simp add: algebra_simps)
  show "isqrt_inv n r k v (drop_bit 1 res) (drop_bit 2 one)"
    if "\<not> (r + 2 ^ Suc k) * (r + 2 ^ Suc k) \<le> n"
    using inv that one half unfolding isqrt_inv_def by (simp add: algebra_simps)
qed

lemma isqrt_loop_correct:
  assumes "isqrt_inv n r k v res one"
  shows "unat (isqrt_loop v res one) * unat (isqrt_loop v res one) \<le> n \<and>
         n < Suc (unat (isqrt_loop v res one)) * Suc (unat (isqrt_loop v res one))"
  using assms
proof (induction k arbitrary: r v res one)
  case 0
  have "unat one = 1" using 0 by (simp add: isqrt_inv_def)
  then have one: "one \<noteq> 0" "drop_bit 2 one = 0"
    using unat_drop_bit [of 2 one] by (auto simp add: unat_eq_0)
  have half: "unat (drop_bit 1 res) = r"
    using 0 by (simp only: unat_drop_bit) (simp add: isqrt_inv_def)
  show ?case
    using isqrt_guard [OF 0] isqrt_taken(2) [OF 0] one half 0
    by (auto simp: isqrt_loop.simps [of v res one] isqrt_loop.simps [of _ _ 0] isqrt_inv_def)
next
  case (Suc k)
  have "unat one \<noteq> 0" using Suc.prems by (simp add: isqrt_inv_def)
  then have "one \<noteq> 0" by auto
  then show ?case
    using isqrt_guard [OF Suc.prems] Suc.IH [OF isqrt_inv_next(1) [OF Suc.prems]]
      Suc.IH [OF isqrt_inv_next(2) [OF Suc.prems]]
    by (simp only: isqrt_loop.simps [of v res one] if_False split: if_split) blast
qed

lemma isqrt_scale_correct:
  assumes "v \<noteq> 0" "unat one = 2 ^ k * 2 ^ k" "unat v < 4 * (2 ^ k * 2 ^ k)"
  shows "\<exists>j\<le>k. unat (isqrt_scale one v) = 2 ^ j * 2 ^ j \<and> unat v < 4 * (2 ^ j * 2 ^ j)"
  using assms
proof (induction k arbitrary: one)
  case 0
  then have "\<not> v < one" by (simp add: word_less_nat_alt unat_gt_0)
  with 0 show ?case by (simp add: isqrt_scale.simps [of one])
next
  case (Suc k)
  have "unat (drop_bit 2 one) = 2 ^ k * 2 ^ k"
    using Suc.prems(2) by (simp only: unat_drop_bit) simp
  with Suc show ?case
    by (cases "v < one")
      (auto simp: isqrt_scale.simps [of one] word_less_nat_alt intro: le_SucI)
qed

lemma isqrt_scale_zero: "v = 0 \<Longrightarrow> isqrt_scale one v = 0"
  by (induction one v rule: isqrt_scale.induct) (subst isqrt_scale.simps, auto simp: not_less)

text \<open>\<open>isqrt\<close> terminates on every 32 bit argument and returns the floor of
  its square root.\<close>

theorem isqrt_floor:
  "unat (isqrt v) * unat (isqrt v) \<le> unat v \<and> unat v < Suc (unat (isqrt v)) * Suc (unat (isqrt v))"
proof (cases "v = 0")
  case True
  then show ?thesis by (simp add: isqrt_def isqrt_scale_zero isqrt_loop.simps [of _ _ 0])
next
  case False
  have "unat v < 2 ^ 32" using unsigned_less [of v] by simp
  then obtain j where j: "j \<le> 15" "unat (isqrt_scale (push_bit 30 1) v) = 2 ^ j * 2 ^ j"
      "unat v < 4 * (2 ^ j * 2 ^ j)"
    using isqrt_scale_correct [OF False, of "push_bit 30 1" 15] by auto
  have "(2::nat) ^ j \<le> 2 ^ 15" using j(1) by (intro power_increasing) auto
  then have "isqrt_inv (unat v) 0 j v 0 (isqrt_scale (push_bit 30 1) v)"
    using j \<open>unat v < 2 ^ 32\<close> by (simp add: isqrt_inv_def)
  then show ?thesis unfolding isqrt_def by (rule isqrt_loop_correct)
qed

end
