(* ===== verification/KString.thy ===== *)
theory KString
  imports Prelude
begin

text \<open>
  The memory and string routines of \<open>kernel/lib/string.cpp\<close>. Memory is a byte per 32 bit
  address; the block routines are the x86 string instructions they consist of (\<open>rep movs\<close>,
  \<open>rep stos\<close>) run with the direction flag the code sets; the loops over C strings may run
  on when no terminator follows and are therefore \<open>option\<close> valued.
\<close>

section \<open>Memory and the x86 string instructions\<close>

type_synonym mem = "u32 \<Rightarrow> u8"

record machine =
  mem :: mem
  df :: bool

text \<open>One \<open>movs\<close> of an element of \<open>w\<close> bytes: the element is read whole, then written.\<close>

definition movs :: "nat \<Rightarrow> u32 \<Rightarrow> u32 \<Rightarrow> mem \<Rightarrow> mem" where
  "movs w src dst m = (\<lambda>a. if unat (a - dst) < w then m (src + (a - dst)) else m a)"

definition stos :: "nat \<Rightarrow> u32 \<Rightarrow> u32 \<Rightarrow> mem \<Rightarrow> mem" where
  "stos w val dst m = (\<lambda>a. if unat (a - dst) < w then ucast (drop_bit (8 * unat (a - dst)) val) else m a)"

definition advance :: "bool \<Rightarrow> nat \<Rightarrow> u32 \<Rightarrow> u32" where
  "advance d w a = (if d then a - of_nat w else a + of_nat w)"

fun rep_movs :: "bool \<Rightarrow> nat \<Rightarrow> nat \<Rightarrow> u32 \<Rightarrow> u32 \<Rightarrow> mem \<Rightarrow> mem" where
  "rep_movs d w 0 src dst m = m"
| "rep_movs d w (Suc n) src dst m =
     rep_movs d w n (advance d w src) (advance d w dst) (movs w src dst m)"

fun rep_stos :: "bool \<Rightarrow> nat \<Rightarrow> nat \<Rightarrow> u32 \<Rightarrow> u32 \<Rightarrow> mem \<Rightarrow> mem" where
  "rep_stos d w 0 val dst m = m"
| "rep_stos d w (Suc n) val dst m = rep_stos d w n val (advance d w dst) (stos w val dst m)"

section \<open>The block routines\<close>

definition memcpy :: "u32 \<Rightarrow> u32 \<Rightarrow> u32 \<Rightarrow> machine \<Rightarrow> u32 \<times> machine" where
  "memcpy dest src num s = (dest, s\<lparr>df := False, mem := rep_movs False 1 (unat num) src dest (mem s)\<rparr>)"

definition memcpyw :: "u32 \<Rightarrow> u32 \<Rightarrow> u32 \<Rightarrow> machine \<Rightarrow> u32 \<times> machine" where
  "memcpyw dest src num s = (dest, s\<lparr>df := False, mem := rep_movs False 2 (unat num) src dest (mem s)\<rparr>)"

definition memcpyd :: "u32 \<Rightarrow> u32 \<Rightarrow> u32 \<Rightarrow> machine \<Rightarrow> u32 \<times> machine" where
  "memcpyd dest src num s = (dest, s\<lparr>df := False, mem := rep_movs False 4 (unat num) src dest (mem s)\<rparr>)"

definition memset :: "u32 \<Rightarrow> u32 \<Rightarrow> u32 \<Rightarrow> machine \<Rightarrow> u32 \<times> machine" where
  "memset ptr val num s = (ptr, s\<lparr>df := False, mem := rep_stos False 1 (unat num) val ptr (mem s)\<rparr>)"

definition memsetw :: "u32 \<Rightarrow> u32 \<Rightarrow> u32 \<Rightarrow> machine \<Rightarrow> u32 \<times> machine" where
  "memsetw ptr val num s = (ptr, s\<lparr>df := False, mem := rep_stos False 2 (unat num) val ptr (mem s)\<rparr>)"

definition memsetd :: "u32 \<Rightarrow> u32 \<Rightarrow> u32 \<Rightarrow> machine \<Rightarrow> u32 \<times> machine" where
  "memsetd ptr val num s = (ptr, s\<lparr>df := False, mem := rep_stos False 4 (unat num) val ptr (mem s)\<rparr>)"

text \<open>\<open>memmove\<close> and its wide variants share one shape; the backward copy starts at the last
  element and runs with the direction flag set, which stays set afterwards.\<close>

definition memmove_gen :: "nat \<Rightarrow> u32 \<Rightarrow> u32 \<Rightarrow> u32 \<Rightarrow> machine \<Rightarrow> u32 \<times> machine" where
  "memmove_gen w dest src num s =
     (dest,
      if src > dest then s\<lparr>df := False, mem := rep_movs False w (unat num) src dest (mem s)\<rparr>
      else if src < dest then
        (let src' = src + of_nat w * num - of_nat w; dest' = dest + of_nat w * num - of_nat w
         in s\<lparr>df := True, mem := rep_movs True w (unat num) src' dest' (mem s)\<rparr>)
      else s)"

definition memmove :: "u32 \<Rightarrow> u32 \<Rightarrow> u32 \<Rightarrow> machine \<Rightarrow> u32 \<times> machine" where
  "memmove = memmove_gen 1"

definition memmovew :: "u32 \<Rightarrow> u32 \<Rightarrow> u32 \<Rightarrow> machine \<Rightarrow> u32 \<times> machine" where
  "memmovew = memmove_gen 2"

definition memmoved :: "u32 \<Rightarrow> u32 \<Rightarrow> u32 \<Rightarrow> machine \<Rightarrow> u32 \<times> machine" where
  "memmoved = memmove_gen 4"

fun memcmp_loop :: "mem \<Rightarrow> u32 \<Rightarrow> u32 \<Rightarrow> nat \<Rightarrow> int" where
  "memcmp_loop m p1 p2 0 = 0"
| "memcmp_loop m p1 p2 (Suc n) =
     (if m p1 = m p2 then memcmp_loop m (p1 + 1) (p2 + 1) n else uint (m p1) - uint (m p2))"

definition memcmp :: "mem \<Rightarrow> u32 \<Rightarrow> u32 \<Rightarrow> u32 \<Rightarrow> int" where
  "memcmp m ptr1 ptr2 num = memcmp_loop m ptr1 ptr2 (unat num)"

section \<open>C strings\<close>

partial_function (option) skip_str :: "mem \<Rightarrow> u32 \<Rightarrow> u32 option" where
  "skip_str m s = (if m s = 0 then Some s else skip_str m (s + 1))"

definition strlen :: "mem \<Rightarrow> u32 \<Rightarrow> u32 option" where
  "strlen m s = map_option (\<lambda>e. e - s) (skip_str m s)"

partial_function (option) strcmp :: "mem \<Rightarrow> u32 \<Rightarrow> u32 \<Rightarrow> int option" where
  "strcmp m str1 str2 =
     (if m str1 \<noteq> 0 \<and> m str1 = m str2 then strcmp m (str1 + 1) (str2 + 1)
      else Some (sint (m str1) - sint (m str2)))"

fun strncmp_loop :: "mem \<Rightarrow> u32 \<Rightarrow> u32 \<Rightarrow> nat \<Rightarrow> int" where
  "strncmp_loop m str1 str2 0 = 0"
| "strncmp_loop m str1 str2 (Suc n) =
     (if m str1 \<noteq> 0 \<and> m str1 = m str2 then strncmp_loop m (str1 + 1) (str2 + 1) n
      else sint (m str1) - sint (m str2))"

definition strncmp :: "mem \<Rightarrow> u32 \<Rightarrow> u32 \<Rightarrow> u32 \<Rightarrow> int" where
  "strncmp m str1 str2 n = strncmp_loop m str1 str2 (unat n)"

partial_function (option) copy_str :: "mem \<Rightarrow> u32 \<Rightarrow> u32 \<Rightarrow> mem option" where
  "copy_str m d src =
     (let m' = m(d := m src) in if m src = 0 then Some m' else copy_str m' (d + 1) (src + 1))"

definition strcpy :: "mem \<Rightarrow> u32 \<Rightarrow> u32 \<Rightarrow> (u32 \<times> mem) option" where
  "strcpy m dest src = map_option (Pair dest) (copy_str m dest src)"

definition strcat :: "mem \<Rightarrow> u32 \<Rightarrow> u32 \<Rightarrow> (u32 \<times> mem) option" where
  "strcat m dest src = do { d \<leftarrow> skip_str m dest; map_option (Pair dest) (copy_str m d src) }"

text \<open>\<open>itoa\<close>: the digits are produced least significant first into a buffer, then reversed.
  The value is a C \<open>int\<close>; the loop only runs for positive values.\<close>

definition digit_char :: "int \<Rightarrow> u8" where
  "digit_char v = (if v < 10 then of_int (48 + v) else of_int (65 + (v - 10)))"

function itoa_digits :: "int \<Rightarrow> int \<Rightarrow> u8 list" where
  "itoa_digits base value =
     (if value > 0 \<and> base > 1 then digit_char (value mod base) # itoa_digits base (value div base) else [])"
  by pat_completeness auto
termination
  by (relation "measure (\<lambda>(base, value). nat value)") (auto simp: int_div_less_self)

declare itoa_digits.simps [simp del]

fun write_bytes :: "mem \<Rightarrow> u32 \<Rightarrow> u8 list \<Rightarrow> mem" where
  "write_bytes m a [] = m"
| "write_bytes m a (b # bs) = write_bytes (m(a := b)) (a + 1) bs"

definition itoa :: "mem \<Rightarrow> int \<Rightarrow> u32 \<Rightarrow> int \<Rightarrow> u32 \<times> mem" where
  "itoa m val str base =
     (if base < 2 \<or> base > 36 then (0, m)
      else (str, write_bytes m str (rev (itoa_digits base val) @ [0])))"

section \<open>What the block instructions do to memory\<close>

text \<open>The region of \<open>n\<close> bytes at \<open>b\<close>, for regions that do not wrap around.\<close>

abbreviation in_region :: "u32 \<Rightarrow> nat \<Rightarrow> u32 \<Rightarrow> bool" where
  "in_region b n a \<equiv> unat b \<le> unat a \<and> unat a < unat b + n"

abbreviation fits :: "u32 \<Rightarrow> nat \<Rightarrow> bool" where
  "fits b n \<equiv> unat b + n \<le> 2 ^ 32"

definition moved :: "u32 \<Rightarrow> u32 \<Rightarrow> nat \<Rightarrow> mem \<Rightarrow> mem" where
  "moved src dst n m = (\<lambda>a. if in_region dst n a then m (src + (a - dst)) else m a)"

lemma movs_moved: "fits dst w \<Longrightarrow> movs w src dst m = moved src dst w m"
  by (rule ext) (simp add: movs_def moved_def word_region_iff)

lemma unat_offset:
  assumes "fits src n" "in_region dst n a" "fits dst n"
  shows "unat (src + (a - dst)) = unat src + (unat a - unat dst)"
  using assms by (subst unat_add_lt) (auto simp: unat_sub_le)

lemma moved_0 [simp]: "moved src dst 0 m = m"
  by (auto simp: moved_def fun_eq_iff)

lemma unat_add_of_nat: "unat (b :: u32) + k < 2 ^ 32 \<Longrightarrow> unat (b + of_nat k) = unat b + k"
  by (simp add: unat_add_lt unat_of_nat_lt)

text \<open>Two adjacent copies are one copy, as long as the first does not overwrite what the
  second reads.\<close>

lemma moved_forward:
  assumes "fits src (w + k)" "fits dst (w + k)" "0 < k"
    and ord: "unat dst \<le> unat src \<or> unat src + (w + k) \<le> unat dst"
  shows "moved (src + of_nat w) (dst + of_nat w) k (moved src dst w m) = moved src dst (w + k) m"
proof
  fix a
  have us: "unat (src + of_nat w) = unat src + w" "unat (dst + of_nat w) = unat dst + w"
    using assms(1-3) by (simp_all add: unat_add_of_nat)
  have off: "src + of_nat w + (a - (dst + of_nat w)) = src + (a - dst)" by simp
  show "moved (src + of_nat w) (dst + of_nat w) k (moved src dst w m) a = moved src dst (w + k) m a"
  proof (cases "in_region dst (w + k) a")
    case True
    have o: "unat (src + (a - dst)) = unat src + (unat a - unat dst)"
      using True assms(1,2) by (intro unat_offset)
    have "in_region (dst + of_nat w) k a \<Longrightarrow> \<not> in_region dst w (src + (a - dst))"
      unfolding us o using ord True by linarith
    then show ?thesis
      using True unfolding moved_def off us by auto
  next
    case False
    then show ?thesis unfolding moved_def us by auto
  qed
qed

lemma moved_backward:
  assumes "fits src (k + w)" "fits dst (k + w)" "0 < w" "unat src < unat dst"
  shows "moved src dst k (moved (src + of_nat k) (dst + of_nat k) w m) = moved src dst (k + w) m"
proof
  fix a
  have us: "unat (src + of_nat k) = unat src + k" "unat (dst + of_nat k) = unat dst + k"
    using assms(1-3) by (simp_all add: unat_add_of_nat)
  have off: "src + of_nat k + (a - (dst + of_nat k)) = src + (a - dst)" by simp
  show "moved src dst k (moved (src + of_nat k) (dst + of_nat k) w m) a = moved src dst (k + w) m a"
  proof (cases "in_region dst (k + w) a")
    case True
    have o: "unat (src + (a - dst)) = unat src + (unat a - unat dst)"
      using True assms(1,2) by (intro unat_offset)
    have "in_region dst k a \<Longrightarrow> \<not> in_region (dst + of_nat k) w (src + (a - dst))"
      unfolding us o using assms(4) True by linarith
    then show ?thesis
      using True unfolding moved_def off us by auto
  next
    case False
    then show ?thesis unfolding moved_def us by auto
  qed
qed

lemma rep_movs_forward:
  assumes "fits src (w * n)" "fits dst (w * n)" "0 < w"
    and "unat dst \<le> unat src \<or> unat src + w * n \<le> unat dst"
  shows "rep_movs False w n src dst m = moved src dst (w * n) m"
  using assms
proof (induction n arbitrary: src dst m)
  case (Suc n)
  have fw: "fits dst w" using Suc.prems(2) by simp
  show ?case
  proof (cases "n = 0")
    case True
    with fw show ?thesis by (simp add: movs_moved)
  next
    case False
    then have "0 < w * n" using Suc.prems(3) by simp
    then have us: "unat (src + of_nat w) = unat src + w" "unat (dst + of_nat w) = unat dst + w"
      using Suc.prems(1,2) by (intro unat_add_of_nat; simp only: mult_Suc_right; linarith)+
    have "rep_movs False w (Suc n) src dst m
        = rep_movs False w n (src + of_nat w) (dst + of_nat w) (moved src dst w m)"
      by (simp add: advance_def movs_moved [OF fw])
    also have "\<dots> = moved (src + of_nat w) (dst + of_nat w) (w * n) (moved src dst w m)"
      using Suc.prems us by (intro Suc.IH) auto
    also have "\<dots> = moved src dst (w + w * n) m"
      using Suc.prems \<open>0 < w * n\<close> by (intro moved_forward) auto
    finally show ?thesis by simp
  qed
qed simp

lemma rep_movs_backward:
  assumes "fits src (w * n)" "fits dst (w * n)" "0 < w" "unat src < unat dst"
  shows "rep_movs True w n (src + of_nat (w * n) - of_nat w) (dst + of_nat (w * n) - of_nat w) m
    = moved src dst (w * n) m"
  using assms(1,2)
proof (induction n arbitrary: m)
  case (Suc n)
  let ?s = "src + of_nat (w * n)" and ?d = "dst + of_nat (w * n)"
  have e: "src + of_nat (w * Suc n) - of_nat w = ?s" "dst + of_nat (w * Suc n) - of_nat w = ?d"
    by (simp_all add: algebra_simps)
  have "unat ?d = unat dst + w * n" using Suc.prems(2) assms(3) by (intro unat_add_of_nat) auto
  then have fw: "fits ?d w" using Suc.prems(2) by simp
  have "rep_movs True w (Suc n) ?s ?d m
      = rep_movs True w n (?s - of_nat w) (?d - of_nat w) (moved ?s ?d w m)"
    by (simp only: rep_movs.simps advance_def if_True movs_moved [OF fw])
  also have "\<dots> = moved src dst (w * n) (moved ?s ?d w m)"
    using Suc.prems by (intro Suc.IH) auto
  also have "\<dots> = moved src dst (w * n + w) m"
    using Suc.prems assms(3,4) by (intro moved_backward) auto
  finally show ?case unfolding e by (simp add: add.commute)
qed simp

lemma stos_byte: "stos (Suc 0) val dst m = m(dst := ucast val)"
  by (auto simp: stos_def fun_eq_iff unat_eq_0)

lemma rep_stos_forward:
  assumes "fits dst n"
  shows "rep_stos False (Suc 0) n val dst m = (\<lambda>a. if in_region dst n a then ucast val else m a)"
  using assms
proof (induction n arbitrary: dst m)
  case 0
  then show ?case by (auto simp: fun_eq_iff)
next
  case (Suc n)
  have eq: "x = dst \<longleftrightarrow> unat x = unat dst" for x :: u32 by (rule word_unat_eq_iff)
  show ?case
  proof (cases "n = 0")
    case True
    then show ?thesis unfolding True by (auto simp: stos_byte fun_eq_iff eq)
  next
    case False
    then have u: "unat (dst + 1) = unat dst + 1"
      using Suc.prems unat_add_of_nat [of dst 1] by simp
    then have IH: "rep_stos False (Suc 0) n val (dst + 1) m'
        = (\<lambda>a. if in_region (dst + 1) n a then ucast val else m' a)" for m'
      using Suc.prems by (intro Suc.IH) auto
    show ?thesis
      using u by (auto simp: stos_byte advance_def IH fun_eq_iff eq)
  qed
qed

lemma rep_stos_zero:
  assumes "fits dst (w * n)" "0 < w"
  shows "rep_stos False w n 0 dst m = (\<lambda>a. if in_region dst (w * n) a then 0 else m a)"
  using assms(1)
proof (induction n arbitrary: dst m)
  case (Suc n)
  have st: "stos w 0 dst m = (\<lambda>a. if in_region dst w a then 0 else m a)"
    using Suc.prems by (auto simp: stos_def fun_eq_iff word_region_iff)
  show ?case
  proof (cases "n = 0")
    case False
    then have "0 < w * n" using assms(2) by simp
    moreover have "w * Suc n = w + w * n" by simp
    ultimately have u: "unat (dst + of_nat w) = unat dst + w" using Suc.prems by (intro unat_add_of_nat) linarith
    then have "rep_stos False w n 0 (dst + of_nat w) m' = (\<lambda>a. if in_region (dst + of_nat w) (w * n) a then 0 else m' a)" for m'
      using Suc.prems by (intro Suc.IH) simp
    then show ?thesis using u by (auto simp: advance_def st fun_eq_iff)
  qed (simp add: st)
qed (auto simp: fun_eq_iff)

section \<open>Correctness of the block routines\<close>

text \<open>C35: \<open>memmove\<close> copies the \<open>num\<close> bytes at \<open>src\<close> to \<open>dest\<close> for every
  overlap of the two regions, returns \<open>dest\<close> and changes no other byte.\<close>

theorem memmove_correct:
  assumes "unat src + unat num \<le> 2 ^ 32" "unat dest + unat num \<le> 2 ^ 32"
  shows "fst (memmove dest src num s) = dest \<and>
    mem (snd (memmove dest src num s)) a =
      (if unat dest \<le> unat a \<and> unat a < unat dest + unat num then mem s (src + (a - dest)) else mem s a)"
proof -
  have fwd: "rep_movs False 1 (unat num) src dest (mem s) = moved src dest (unat num) (mem s)" if "dest < src"
    using rep_movs_forward [of src 1 "unat num" dest] assms that by (simp add: word_less_nat_alt)
  have bwd: "rep_movs True 1 (unat num) (src + num - 1) (dest + num - 1) (mem s) = moved src dest (unat num) (mem s)"
    if "src < dest"
    using rep_movs_backward [of src 1 "unat num" dest] assms that by (simp add: word_less_nat_alt)
  have same: "moved src src n m = m" for n m by (auto simp: moved_def fun_eq_iff)
  have "mem (snd (memmove dest src num s)) = moved src dest (unat num) (mem s)"
    using fwd bwd same by (cases src dest rule: linorder_cases) (simp_all add: memmove_def memmove_gen_def)
  then show ?thesis by (simp add: memmove_def memmove_gen_def moved_def)
qed

theorem memmove_correct_witness:
  "unat (100 :: u32) + unat (8 :: u32) \<le> 2 ^ 32 \<and> unat (104 :: u32) + unat (8 :: u32) \<le> 2 ^ 32 \<and>
   mem (snd (memmove 104 100 8 \<lparr>mem = (\<lambda>a. ucast a), df = False\<rparr>)) 111 = 107"
  using memmove_correct [of 100 8 104 "\<lparr>mem = (\<lambda>a. ucast a), df = False\<rparr>" 111] by simp

text \<open>The backward copy leaves the direction flag set, which the i386 calling convention
  requires to be clear at every call and return.\<close>

lemma memmove_direction_flag: "src < dest \<Longrightarrow> df (snd (memmove dest src num s))"
  by (auto simp: memmove_def memmove_gen_def)

text \<open>on regions that do not overlap, copying \<open>num\<close> double words with
  \<open>memcpyd\<close> leaves exactly the memory that copying \<open>4 * num\<close> bytes with \<open>memcpy\<close> leaves,
  which is the source region at the destination.\<close>

theorem memcpyd_is_memcpy:
  assumes "unat src + 4 * unat num \<le> 2 ^ 32" "unat dest + 4 * unat num \<le> 2 ^ 32"
    and "unat src + 4 * unat num \<le> unat dest \<or> unat dest + 4 * unat num \<le> unat src"
    and "4 * unat num < 2 ^ 32"
  shows "mem (snd (memcpyd dest src num s)) = mem (snd (memcpy dest src (4 * num) s)) \<and>
    (in_region dest (4 * unat num) a \<longrightarrow> mem (snd (memcpyd dest src num s)) a = mem s (src + (a - dest)))"
proof -
  have n: "unat (4 * num) = 4 * unat num"
    using assms(4) by (simp add: unat_word_ariths)
  have "rep_movs False 4 (unat num) src dest (mem s) = moved src dest (4 * unat num) (mem s)"
    using assms by (intro rep_movs_forward) auto
  moreover have "rep_movs False (Suc 0) (4 * unat num) src dest (mem s) = moved src dest (Suc 0 * (4 * unat num)) (mem s)"
    using assms by (intro rep_movs_forward) auto
  ultimately show ?thesis by (simp add: memcpyd_def memcpy_def n moved_def)
qed

theorem memcpyd_is_memcpy_witness:
  "unat (100 :: u32) + 4 * unat (2 :: u32) \<le> unat (200 :: u32) \<and>
   mem (snd (memcpyd 200 100 2 \<lparr>mem = (\<lambda>a. ucast a), df = True\<rparr>)) 207 = 107"
  using memcpyd_is_memcpy [of 100 2 200 "\<lparr>mem = (\<lambda>a. ucast a), df = True\<rparr>" 207, THEN conjunct2]
  by simp

lemma memset_region:
  assumes "fits p (unat num)"
  shows "mem (snd (memset p val num s)) = (\<lambda>a. if in_region p (unat num) a then ucast val else mem s a)"
  using assms by (simp add: memset_def rep_stos_forward)

section \<open>C strings as lists of bytes\<close>

text \<open>\<open>cstr m a s\<close>: the bytes of \<open>s\<close>, none of them zero, stand at \<open>a\<close>, then a zero byte.\<close>

fun cstr :: "mem \<Rightarrow> u32 \<Rightarrow> u8 list \<Rightarrow> bool" where
  "cstr m a [] \<longleftrightarrow> m a = 0"
| "cstr m a (b # bs) \<longleftrightarrow> m a = b \<and> b \<noteq> 0 \<and> cstr m (a + 1) bs"

lemma skip_str_cstr: "cstr m a s \<Longrightarrow> skip_str m a = Some (a + of_nat (length s))"
proof (induction s arbitrary: a)
  case Nil
  then show ?case by (simp add: skip_str.simps)
next
  case (Cons b bs)
  then have "skip_str m a = skip_str m (a + 1)" by (subst skip_str.simps) simp
  with Cons show ?case by (simp add: add.assoc)
qed

lemma memcmp_loop_zero:
  "memcmp_loop m p1 p2 n = 0 \<longleftrightarrow> (\<forall>i<n. m (p1 + of_nat i) = m (p2 + of_nat i))"
proof (induction n arbitrary: p1 p2)
  case (Suc n)
  have "(\<forall>i<Suc n. m (p1 + of_nat i) = m (p2 + of_nat i)) \<longleftrightarrow>
      m p1 = m p2 \<and> (\<forall>i<n. m (p1 + 1 + of_nat i) = m (p2 + 1 + of_nat i))"
    by (auto simp: less_Suc_eq_0_disj add.assoc)
  then show ?case using Suc by (auto simp: word_uint_eq_iff)
qed simp

text \<open>\<open>memcmp\<close> returns zero exactly when the two regions hold the
  same bytes.\<close>

theorem memcmp_zero_iff_equal:
  "memcmp m p1 p2 num = 0 \<longleftrightarrow>
     map (\<lambda>i. m (p1 + of_nat i)) [0..<unat num] = map (\<lambda>i. m (p2 + of_nat i)) [0..<unat num]"
  by (auto simp: memcmp_def memcmp_loop_zero)

text \<open>The first difference of two strings, the terminator counting as zero.\<close>

fun first_diff :: "u8 list \<Rightarrow> u8 list \<Rightarrow> int" where
  "first_diff [] [] = 0"
| "first_diff [] (b # bs) = - sint b"
| "first_diff (a # as) [] = sint a"
| "first_diff (a # as) (b # bs) = (if a = b then first_diff as bs else sint a - sint b)"

lemma sint_eq_iff: "sint (a :: u8) = sint b \<longleftrightarrow> a = b"
  by (rule word_eq_iff_signed [symmetric])

lemma first_diff_zero:
  "0 \<notin> set s \<Longrightarrow> 0 \<notin> set t \<Longrightarrow> first_diff s t = 0 \<longleftrightarrow> s = t"
proof (induction s t rule: first_diff.induct)
  case (2 b bs)
  then show ?case using sint_eq_iff [of 0 b] by auto
next
  case (3 a as)
  then show ?case using sint_eq_iff [of a 0] by auto
qed (auto simp: sint_eq_iff)

lemma cstr_nonzero: "cstr m a s \<Longrightarrow> 0 \<notin> set s"
  by (induction s arbitrary: a) auto

lemma strcmp_first_diff:
  "cstr m a s \<Longrightarrow> cstr m b t \<Longrightarrow> strcmp m a b = Some (first_diff s t)"
  by (induction s t arbitrary: a b rule: first_diff.induct) (simp_all add: strcmp.simps [of m])

text \<open>on terminated strings \<open>strcmp\<close> returns, its result is zero
  exactly when the strings are equal, and otherwise it is the difference of the first two
  (signed) characters that differ.\<close>

theorem strcmp_zero_iff_equal:
  assumes "cstr m a s" "cstr m b t"
  shows "\<exists>r. strcmp m a b = Some r \<and> (r = 0 \<longleftrightarrow> s = t) \<and> r = first_diff s t"
  using strcmp_first_diff [OF assms] first_diff_zero cstr_nonzero assms by blast

theorem strcmp_zero_iff_equal_witness:
  "\<exists>r. strcmp ((\<lambda>_. 0)(10 := 97, 20 := 97, 21 := 98)) 10 20 = Some r \<and> r = first_diff [97] [97, 98]"
  using strcmp_zero_iff_equal [of "(\<lambda>_. 0)(10 := 97, 20 := 97, 21 := 98)" 10 "[97]" 20 "[97, 98]"]
  by auto

section \<open>Printing integers\<close>

definition digit_val :: "u8 \<Rightarrow> int" where
  "digit_val c = (if c < 58 then uint c - 48 else uint c - 55)"

definition parse_digits :: "int \<Rightarrow> u8 list \<Rightarrow> int" where
  "parse_digits base cs = foldl (\<lambda>acc c. acc * base + digit_val c) 0 cs"

lemma digit_char_uint:
  assumes "0 \<le> v" "v < 36"
  shows "uint (digit_char v) = (if v < 10 then 48 + v else 55 + v)"
proof -
  have "uint (of_int i :: u8) = i" if "0 \<le> i" "i < 256" for i
    using that by (simp add: uint_word_of_int)
  from this [of "48 + v"] this [of "65 + (v - 10)"] show ?thesis
    using assms unfolding digit_char_def by auto
qed

lemma digit_char_val: "0 \<le> v \<Longrightarrow> v < 36 \<Longrightarrow> digit_val (digit_char v) = v"
  by (auto simp: digit_val_def word_less_def digit_char_uint)

lemma digit_char_nonzero: "0 \<le> v \<Longrightarrow> v < 36 \<Longrightarrow> digit_char v \<noteq> 0"
  using digit_char_uint [of v] by (auto split: if_splits)

lemma mod_digit:
  fixes base val :: int
  assumes "1 < base" "base \<le> 36"
  shows "0 \<le> val mod base \<and> val mod base < 36"
proof -
  have "val mod base < base" "0 \<le> val mod base" using assms(1) by simp_all
  with assms(2) show ?thesis by linarith
qed

lemma parse_itoa_digits:
  "1 < base \<Longrightarrow> base \<le> 36 \<Longrightarrow> 0 \<le> val \<Longrightarrow> parse_digits base (rev (itoa_digits base val)) = val"
proof (induction base val rule: itoa_digits.induct)
  case (1 base val)
  have "digit_val (digit_char (val mod base)) = val mod base"
    using mod_digit "1.prems" by (intro digit_char_val) auto
  with 1 show ?case
    by (cases "val > 0")
      (auto simp: itoa_digits.simps [of base val] itoa_digits.simps [of base 0] parse_digits_def
         pos_imp_zdiv_nonneg_iff)
qed

lemma itoa_digits_chars:
  "1 < base \<Longrightarrow> base \<le> 36 \<Longrightarrow> 0 \<notin> set (itoa_digits base val)"
proof (induction base val rule: itoa_digits.induct)
  case (1 base val)
  have "digit_char (val mod base) \<noteq> 0"
    using mod_digit "1.prems" by (intro digit_char_nonzero) auto
  with 1 show ?case by (cases "val > 0") (auto simp: itoa_digits.simps [of base val])
qed

lemma itoa_digits_length:
  "1 < base \<Longrightarrow> val < 2 ^ n \<Longrightarrow> length (itoa_digits base val) \<le> n"
proof (induction n arbitrary: val)
  case 0
  then show ?case by (simp add: itoa_digits.simps [of base val])
next
  case (Suc n)
  have "val div base < 2 ^ n" if "0 < val"
  proof -
    have "val div base \<le> val div 2" using Suc.prems(1) that by (intro zdiv_mono2) auto
    also have "\<dots> < 2 ^ n" using Suc.prems(2) by simp
    finally show ?thesis .
  qed
  with Suc show ?case by (auto simp: itoa_digits.simps [of base val])
qed

lemma write_bytes_frame:
  "(\<forall>i<length bs. x \<noteq> a + of_nat i) \<Longrightarrow> write_bytes m a bs x = m x"
proof (induction bs arbitrary: a m)
  case (Cons b bs)
  have "x \<noteq> a" using Cons.prems [rule_format, of 0] by simp
  moreover have "x \<noteq> a + 1 + of_nat i" if "i < length bs" for i
    using Cons.prems [rule_format, of "Suc i"] that by (simp add: ac_simps)
  ultimately show ?case using Cons.IH by simp
qed simp

lemma write_bytes_cstr:
  assumes "length bs < 2 ^ 32" "0 \<notin> set bs"
  shows "cstr (write_bytes m a (bs @ [0])) a bs"
  using assms
proof (induction bs arbitrary: a m)
  case (Cons b bs)
  have "write_bytes (m(a := b)) (a + 1) (bs @ [0]) a = (m(a := b)) a"
  proof (rule write_bytes_frame, intro allI impI notI)
    fix i assume i: "i < length (bs @ [0])" and "a = a + 1 + of_nat i"
    then have "(of_nat (Suc i) :: u32) = 0" by simp
    moreover have "unat (of_nat (Suc i) :: u32) = Suc i"
      using Cons.prems(1) i by (intro unat_of_nat_lt) simp
    ultimately show False by simp
  qed
  with Cons show ?case by simp
qed simp

text \<open>for every positive \<open>int\<close> and every base from 2 to 36, \<open>itoa\<close> fills
  at most 31 of its 72 buffer bytes and writes a terminated string whose digits, read back in
  that base, are the value.\<close>

theorem itoa_roundtrip:
  assumes "2 \<le> base" "base \<le> 36" "0 < val" "val < 2 ^ 31"
  shows "\<exists>ds. fst (itoa m val str base) = str \<and> cstr (snd (itoa m val str base)) str ds \<and>
    parse_digits base ds = val \<and> length ds \<le> 31"
proof -
  let ?ds = "rev (itoa_digits base val)"
  have len: "length ?ds \<le> 31" using itoa_digits_length [of base val 31] assms by simp
  have "cstr (write_bytes m str (?ds @ [0])) str ?ds"
    using len itoa_digits_chars [of base val] assms by (intro write_bytes_cstr) auto
  then show ?thesis
    using len parse_itoa_digits [of base val] assms by (intro exI [of _ ?ds]) (simp add: itoa_def)
qed

theorem itoa_roundtrip_witness:
  "(2::int) \<le> 10 \<and> (10::int) \<le> 36 \<and> (0::int) < 1789 \<and>
   (\<exists>ds. cstr (snd (itoa (\<lambda>_. 0) 1789 500 10)) 500 ds \<and> parse_digits 10 ds = 1789)"
  using itoa_roundtrip [of 10 1789 "\<lambda>_. 0" 500] by auto

text \<open>for zero and for every negative value \<open>itoa\<close> writes the empty
  string: it prints neither the digit 0 nor a sign.\<close>

theorem itoa_nonpositive:
  assumes "2 \<le> base" "base \<le> 36" "val \<le> 0"
  shows "itoa m val str base = (str, m(str := 0)) \<and> cstr (snd (itoa m val str base)) str []"
  using assms by (simp add: itoa_def itoa_digits.simps)

theorem itoa_nonpositive_witness: "itoa (\<lambda>_. 7) 0 500 10 = (500, (\<lambda>_. 7)(500 := 0))"
  using itoa_nonpositive [of 10 0 "\<lambda>_. 7" 500] by simp

end
