(* ===== verification/Bitmap.thy ===== *)
theory Bitmap
  imports Prelude
begin

text \<open>
  The bitmap class of \<open>include/lib/bitmap.h\<close>, used for the free maps of the frame allocator
  and for the pending signals of a process. An access outside the array is \<open>None\<close>; the
  class only checks positions with the non-halting \<open>ASSERT\<close>, so nothing stops it earlier.
\<close>

section \<open>The class\<close>

record bitmap =
  words :: "u32 list"
  allocated :: bool
  nbits :: u32
  bsz :: u32

text \<open>The constructor without a caller-supplied array.\<close>

definition bitmap_new :: "u32 \<Rightarrow> bitmap" where
  "bitmap_new count =
     (let s = drop_bit 5 (count + 31) in
      if s = 0 then \<lparr>words = [], allocated = False, nbits = count, bsz = s\<rparr>
      else \<lparr>words = replicate (unat s) 0, allocated = True, nbits = count, bsz = s\<rparr>)"

definition bitmap_reset :: "u32 \<Rightarrow> u32 \<Rightarrow> u32 \<Rightarrow> bitmap \<Rightarrow> bitmap" where
  "bitmap_reset val start n b =
     (let k = (if n > bsz b - start then bsz b - start else n) in
      b\<lparr>words := take (unat start) (words b) @ replicate (unat k) val @ drop (unat start + unat k) (words b)\<rparr>)"

definition bitmap_get :: "bitmap \<Rightarrow> u32 \<Rightarrow> bool option" where
  "bitmap_get b pos =
     (let w = unat (drop_bit 5 pos) in
      if w < length (words b) then Some (words b ! w AND push_bit (unat (pos AND 31)) 1 \<noteq> 0) else None)"

definition bitmap_set :: "u32 \<Rightarrow> bool \<Rightarrow> bitmap \<Rightarrow> bitmap option" where
  "bitmap_set pos x b =
     (let w = unat (drop_bit 5 pos); m = push_bit (unat (pos AND 31)) 1 in
      if w < length (words b) then
        Some (b\<lparr>words := (words b)[w := (if x then words b ! w OR m else words b ! w AND NOT m)]\<rparr>)
      else None)"

definition bitmap_clear :: "u32 \<Rightarrow> bitmap \<Rightarrow> bitmap option" where
  "bitmap_clear pos b = bitmap_set pos False b"

text \<open>The \<open>bsf\<close> instruction: the index of the least significant set bit of a nonzero word.\<close>

fun bsf_from :: "nat \<Rightarrow> nat \<Rightarrow> u32 \<Rightarrow> nat" where
  "bsf_from i 0 w = i"
| "bsf_from i (Suc k) w = (if bit w i then i else bsf_from (Suc i) k w)"

definition bsf :: "u32 \<Rightarrow> u32" where
  "bsf w = of_nat (bsf_from 0 32 w)"

text \<open>The two scans share their loop; \<open>f\<close> is the word whose set bits are wanted (the word
  itself, or its complement). The loop index runs from \<open>start\<close> to \<open>bsz\<close>.\<close>

fun scan :: "(u32 \<Rightarrow> u32) \<Rightarrow> bitmap \<Rightarrow> nat \<Rightarrow> nat \<Rightarrow> u32" where
  "scan f b i 0 = -1"
| "scan f b i (Suc k) =
     (if f (words b ! i) \<noteq> 0 then
        (let j = bsf (f (words b ! i)) + push_bit 5 (of_nat i) in
         if j < nbits b then j else scan f b (Suc i) k)
      else scan f b (Suc i) k)"

definition first_zero :: "u32 \<Rightarrow> bitmap \<Rightarrow> u32" where
  "first_zero start b = scan (\<lambda>w. NOT w) b (unat start) (unat (bsz b) - unat start)"

definition first_one :: "u32 \<Rightarrow> bitmap \<Rightarrow> u32" where
  "first_one start b = scan (\<lambda>w. w) b (unat start) (unat (bsz b) - unat start)"

section \<open>The bits of a bitmap\<close>

definition bitmap_ok :: "bitmap \<Rightarrow> bool" where
  "bitmap_ok b \<longleftrightarrow> length (words b) = unat (bsz b) \<and> unat (nbits b) + 31 < 2 ^ 32 \<and>
     unat (bsz b) = (unat (nbits b) + 31) div 32"

definition bits_of :: "bitmap \<Rightarrow> nat \<Rightarrow> bool" where
  "bits_of b i \<longleftrightarrow> bit (words b ! (i div 32)) (i mod 32)"

lemma bitmap_new_ok:
  assumes "unat count + 31 < 2 ^ 32"
  shows "bitmap_ok (bitmap_new count) \<and> (\<forall>i<unat count. \<not> bits_of (bitmap_new count) i)"
proof -
  have "unat (count + 31) = unat count + 31" using assms by (subst unat_add_lt) auto
  then have s: "unat (drop_bit 5 (count + 31)) = (unat count + 31) div 32"
    by (simp only: unat_drop_bit) simp
  show ?thesis
    using s assms by (auto simp: bitmap_ok_def bitmap_new_def Let_def bits_of_def unat_eq_0)
qed

lemma word_index: "unat (drop_bit 5 (pos :: u32)) = unat pos div 32"
  by (simp only: unat_drop_bit) simp

lemma bit_index: "unat (pos AND (31 :: u32)) = unat pos mod 32"
proof -
  have "(31 :: u32) = mask 5" by (simp add: mask_eq_exp_minus_1)
  then have "pos AND 31 = take_bit 5 pos" by (simp only: take_bit_eq_mask)
  then have "unat (pos AND 31) = take_bit 5 (unat pos)" by (simp only: unsigned_take_bit_eq)
  then show ?thesis by (simp add: take_bit_eq_mod)
qed

lemma bit_mask_iff: "(w AND 2 ^ i \<noteq> 0) = bit (w :: u32) i"
  by (simp add: and_exp_eq_0_iff_not_bit)

lemma in_array: "bitmap_ok b \<Longrightarrow> pos < nbits b \<Longrightarrow> unat pos div 32 < length (words b)"
  by (auto simp: bitmap_ok_def word_less_nat_alt)

lemma bitmap_get_bits: "bitmap_ok b \<Longrightarrow> pos < nbits b \<Longrightarrow> bitmap_get b pos = Some (bits_of b (unat pos))"
  using in_array [of b pos] by (simp add: bitmap_get_def word_index bit_index bit_mask_iff bits_of_def)

lemma div_mod_32_eq: "(i :: nat) div 32 = j div 32 \<Longrightarrow> i mod 32 = j mod 32 \<Longrightarrow> i = j"
  by (metis div_mult_mod_eq)

lemma bitmap_set_bits:
  assumes "bitmap_ok b" "pos < nbits b"
  shows "\<exists>b'. bitmap_set pos x b = Some b' \<and> bitmap_ok b' \<and> nbits b' = nbits b \<and>
    (\<forall>q < unat (nbits b). bits_of b' q = (if q = unat pos then x else bits_of b q))"
proof -
  let ?w = "unat pos div 32" and ?i = "unat pos mod 32"
  let ?m = "2 ^ ?i :: u32"
  let ?b = "b\<lparr>words := (words b)[?w := (if x then words b ! ?w OR ?m else words b ! ?w AND NOT ?m)]\<rparr>"
  have w: "?w < length (words b)" using in_array assms by blast
  then have set: "bitmap_set pos x b = Some ?b"
    by (simp add: bitmap_set_def word_index bit_index Let_def)
  have ok: "bitmap_ok ?b" using assms(1) by (simp add: bitmap_ok_def)
  have "bits_of ?b q = (if q = unat pos then x else bits_of b q)" if "q < unat (nbits b)" for q
  proof (cases "q div 32 = ?w")
    case True
    have neq: "q mod 32 \<noteq> ?i" if "q \<noteq> unat pos"
      using that True div_mod_32_eq [of q "unat pos"] by auto
    have lt: "\<not> 32 \<le> q mod 32" by (simp add: not_le)
    show ?thesis
      using True w lt neq
      by (cases "q = unat pos") (simp_all add: bits_of_def bit_or_iff bit_and_iff bit_not_iff_eq bit_exp_iff)
  next
    case False
    then show ?thesis by (auto simp: bits_of_def)
  qed
  then show ?thesis using set ok by simp
qed

text \<open>setting or clearing a bit inside the bitmap succeeds, keeps the
  bitmap well formed, changes that bit and no other.\<close>

theorem bitmap_get_set:
  assumes "bitmap_ok b" "pos < nbits b" "q < nbits b"
  shows "\<exists>b'. bitmap_set pos x b = Some b' \<and> bitmap_ok b' \<and> nbits b' = nbits b \<and>
    bitmap_get b' q = Some (if q = pos then x else bits_of b (unat q))"
proof -
  obtain b' where "bitmap_set pos x b = Some b'" "bitmap_ok b'" "nbits b' = nbits b"
    "\<forall>q < unat (nbits b). bits_of b' q = (if q = unat pos then x else bits_of b q)"
    using bitmap_set_bits [OF assms(1,2), of x] by blast
  then show ?thesis
    using assms(3) bitmap_get_bits [of b' q] by (simp add: word_less_nat_alt word_unat_eq_iff)
qed

theorem bitmap_get_set_witness:
  "bitmap_ok (bitmap_new 40) \<and>
   (\<exists>b'. bitmap_set 3 True (bitmap_new 40) = Some b' \<and> bitmap_get b' 3 = Some True)"
proof -
  have ok: "bitmap_ok (bitmap_new 40)" using bitmap_new_ok [of 40] by simp
  have n: "nbits (bitmap_new 40) = 40" by (simp add: bitmap_new_def Let_def)
  show ?thesis using ok bitmap_get_set [OF ok, of 3 3 True] unfolding n by auto
qed

section \<open>The scans\<close>

lemma bsf_from_least:
  assumes "\<exists>i'. i \<le> i' \<and> i' < i + k \<and> bit w i'"
  shows "i \<le> bsf_from i k w \<and> bsf_from i k w < i + k \<and> bit w (bsf_from i k w) \<and>
    (\<forall>i'. i \<le> i' \<and> i' < bsf_from i k w \<longrightarrow> \<not> bit w i')"
  using assms
proof (induction i k w rule: bsf_from.induct)
  case (2 i k w)
  show ?case
  proof (cases "bit w i")
    case False
    obtain i' where i': "i \<le> i'" "i' < i + Suc k" "bit w i'" using "2.prems" by blast
    with False have "i' \<noteq> i" by auto
    with i' have "\<exists>i'. Suc i \<le> i' \<and> i' < Suc i + k \<and> bit w i'"
      by (intro exI [of _ i']) auto
    from "2.IH" [OF False this] have IH: "Suc i \<le> bsf_from (Suc i) k w" "bsf_from (Suc i) k w < Suc i + k"
      "bit w (bsf_from (Suc i) k w)" "\<forall>i'. Suc i \<le> i' \<and> i' < bsf_from (Suc i) k w \<longrightarrow> \<not> bit w i'"
      by auto
    have "\<not> bit w i'" if "i \<le> i'" "i' < bsf_from (Suc i) k w" for i'
      using that IH(4) False by (cases "i' = i") auto
    with IH False show ?thesis by simp
  qed (auto dest: leD)
qed (auto dest: leD)

lemma bsf_least:
  assumes "w \<noteq> 0"
  shows "unat (bsf w) < 32 \<and> bit w (unat (bsf w)) \<and> (\<forall>i<unat (bsf w). \<not> bit w i)"
proof -
  obtain i where "bit w i" using assms bit_eq_iff [of w 0] by auto
  moreover from this have "i < 32" using bit_imp_le_length by fastforce
  ultimately have *: "bsf_from 0 32 w < 32 \<and> bit w (bsf_from 0 32 w) \<and> (\<forall>i'<bsf_from 0 32 w. \<not> bit w i')"
    using bsf_from_least [of 0 32 w] by auto
  then have "unat (bsf w) = bsf_from 0 32 w"
    unfolding bsf_def by (intro unat_of_nat_lt) simp
  with * show ?thesis by simp
qed

text \<open>The position \<open>p\<close> is hit by a scan with \<open>f\<close>.\<close>

definition hit :: "(u32 \<Rightarrow> u32) \<Rightarrow> bitmap \<Rightarrow> nat \<Rightarrow> bool" where
  "hit f b p \<longleftrightarrow> bit (f (words b ! (p div 32))) (p mod 32)"

definition scan_post :: "(u32 \<Rightarrow> u32) \<Rightarrow> bitmap \<Rightarrow> nat \<Rightarrow> u32 \<Rightarrow> bool" where
  "scan_post f b lo r \<longleftrightarrow>
     (if r = -1 then \<forall>p. lo \<le> p \<and> p < unat (nbits b) \<longrightarrow> \<not> hit f b p
      else r < nbits b \<and> lo \<le> unat r \<and> hit f b (unat r) \<and> (\<forall>p. lo \<le> p \<and> p < unat r \<longrightarrow> \<not> hit f b p))"

lemma nbits_not_max: "bitmap_ok b \<Longrightarrow> r < nbits b \<Longrightarrow> r \<noteq> -1"
  by (auto simp: bitmap_ok_def word_less_nat_alt unsigned_minus_1_eq_mask mask_eq_exp_minus_1)

lemma scan_post_skip:
  assumes "scan_post f b (32 * Suc i) r" and "\<And>p. 32 * i \<le> p \<Longrightarrow> p < 32 * Suc i \<Longrightarrow> p < unat (nbits b) \<Longrightarrow> \<not> hit f b p"
  shows "scan_post f b (32 * i) r"
proof -
  have lift: "\<not> hit f b p" if "32 * i \<le> p" "p < unat (nbits b)" "32 * Suc i \<le> p \<longrightarrow> \<not> hit f b p" for p
    using assms(2) that by (cases "32 * Suc i \<le> p") auto
  show ?thesis
  proof (cases "r = -1")
    case True
    with assms(1) lift show ?thesis unfolding scan_post_def by (simp del: mult_Suc_right)
  next
    case False
    then have r: "r < nbits b" "32 * Suc i \<le> unat r" "hit f b (unat r)"
      "\<forall>p. 32 * Suc i \<le> p \<and> p < unat r \<longrightarrow> \<not> hit f b p"
      using assms(1) by (auto simp: scan_post_def)
    have "\<not> hit f b p" if "32 * i \<le> p" "p < unat r" for p
      using lift [of p] that r(1,4) by (auto simp: word_less_nat_alt)
    with r False show ?thesis by (auto simp: scan_post_def)
  qed
qed

lemma scan_correct:
  assumes ok: "bitmap_ok b" and "i + k = unat (bsz b)"
  shows "scan_post f b (32 * i) (scan f b i k)"
  using assms(2)
proof (induction k arbitrary: i)
  case 0
  then have "unat (nbits b) \<le> 32 * i" using ok by (auto simp: bitmap_ok_def)
  then show ?case by (auto simp: scan_post_def)
next
  case (Suc k)
  let ?w = "f (words b ! i)"
  have IH: "scan_post f b (32 * Suc i) (scan f b (Suc i) k)"
    using Suc.IH [of "Suc i"] Suc.prems by simp
  have word: "hit f b p \<longleftrightarrow> bit ?w (p - 32 * i)" if "32 * i \<le> p" "p < 32 * Suc i" for p
  proof -
    have d: "p div 32 = i" using that by (intro div_nat_eqI) auto
    then have "p mod 32 = p - 32 * i" using minus_mult_div_eq_mod [of p 32] by simp
    with d show ?thesis by (simp add: hit_def)
  qed
  show ?case
  proof (cases "?w = 0")
    case True
    then show ?thesis using scan_post_skip [OF IH] word by simp
  next
    case False
    let ?j = "bsf ?w + push_bit 5 (of_nat i)"
    have l: "unat (bsf ?w) < 32" "bit ?w (unat (bsf ?w))" "\<forall>n<unat (bsf ?w). \<not> bit ?w n"
      using bsf_least [OF False] by auto
    have "i * 32 + 32 \<le> 2 ^ 32"
      using Suc.prems ok by (auto simp: bitmap_ok_def)
    then have "unat (push_bit 5 (of_nat i) :: u32) = 32 * i"
      by (subst unat_push_bit_lt) (auto simp: unat_of_nat_lt)
    then have j: "unat ?j = unat (bsf ?w) + 32 * i"
      using l(1) \<open>i * 32 + 32 \<le> 2 ^ 32\<close> by (subst unat_add_lt) auto
    show ?thesis
    proof (cases "?j < nbits b")
      case True
      have "\<not> hit f b p" if "32 * i \<le> p" "p < unat ?j" for p
        using word [of p] l(1,3) that j by auto
      then have "scan_post f b (32 * i) ?j"
        using True nbits_not_max [OF ok True] word [of "unat ?j"] l j by (auto simp: scan_post_def)
      then show ?thesis using True False by simp
    next
      case big: False
      have "\<not> hit f b p" if "32 * i \<le> p" "p < 32 * Suc i" "p < unat (nbits b)" for p
        using word [of p] l(3) that big j by (auto simp: word_less_nat_alt)
      then show ?thesis using scan_post_skip [OF IH] big False by simp
    qed
  qed
qed

text \<open>\<open>first_one\<close> returns the least set position at or after word
  \<open>start\<close>, and the all-ones value exactly when there is none.\<close>

theorem first_one_least:
  assumes "bitmap_ok b" "start \<le> bsz b"
  shows "(if first_one start b = -1 then \<forall>p. 32 * unat start \<le> p \<and> p < unat (nbits b) \<longrightarrow> \<not> bits_of b p
    else first_one start b < nbits b \<and> bits_of b (unat (first_one start b)) \<and>
      (\<forall>p. 32 * unat start \<le> p \<and> p < unat (first_one start b) \<longrightarrow> \<not> bits_of b p))"
proof -
  have "hit (\<lambda>w. w) b = bits_of b" by (simp add: fun_eq_iff hit_def bits_of_def)
  moreover have "scan_post (\<lambda>w. w) b (32 * unat start) (first_one start b)"
    unfolding first_one_def using assms by (intro scan_correct) (auto simp: word_le_nat_alt)
  ultimately show ?thesis by (simp add: scan_post_def split: if_splits)
qed

theorem first_one_least_witness:
  "bitmap_ok \<lparr>words = [0, 8], allocated = True, nbits = 40, bsz = 2\<rparr> \<and>
   first_one 0 \<lparr>words = [0, 8], allocated = True, nbits = 40, bsz = 2\<rparr> = 35 \<and>
   bits_of \<lparr>words = [0, 8], allocated = True, nbits = 40, bsz = 2\<rparr> 35"
proof -
  let ?b = "\<lparr>words = [0, 8], allocated = True, nbits = 40, bsz = 2\<rparr>"
  have ok: "bitmap_ok ?b" by (simp add: bitmap_ok_def)
  have v: "first_one 0 ?b = 35" by code_simp
  show ?thesis using first_one_least [OF ok, of 0] ok unfolding v by (simp split: if_splits)
qed

text \<open>\<open>first_zero\<close> returns the least clear position at or after word
  \<open>start\<close>, and the all-ones value exactly when there is none.\<close>

theorem first_zero_least:
  assumes "bitmap_ok b" "start \<le> bsz b"
  shows "(if first_zero start b = -1 then \<forall>p. 32 * unat start \<le> p \<and> p < unat (nbits b) \<longrightarrow> bits_of b p
    else first_zero start b < nbits b \<and> \<not> bits_of b (unat (first_zero start b)) \<and>
      (\<forall>p. 32 * unat start \<le> p \<and> p < unat (first_zero start b) \<longrightarrow> bits_of b p))"
proof -
  have "hit (\<lambda>w. NOT w) b p \<longleftrightarrow> \<not> bits_of b p" for p
    by (simp add: hit_def bits_of_def bit_not_iff_eq not_le)
  moreover have "scan_post (\<lambda>w. NOT w) b (32 * unat start) (first_zero start b)"
    unfolding first_zero_def using assms by (intro scan_correct) (auto simp: word_le_nat_alt)
  ultimately show ?thesis by (simp add: scan_post_def split: if_splits)
qed

theorem first_zero_least_witness:
  "bitmap_ok \<lparr>words = [-1, 8], allocated = True, nbits = 40, bsz = 2\<rparr> \<and>
   first_zero 0 \<lparr>words = [-1, 8], allocated = True, nbits = 40, bsz = 2\<rparr> = 32 \<and>
   \<not> bits_of \<lparr>words = [-1, 8], allocated = True, nbits = 40, bsz = 2\<rparr> 32"
proof -
  let ?b = "\<lparr>words = [-1, 8], allocated = True, nbits = 40, bsz = 2\<rparr>"
  have ok: "bitmap_ok ?b" by (simp add: bitmap_ok_def)
  have v: "first_zero 0 ?b = 32" by code_simp
  show ?thesis using first_zero_least [OF ok, of 0] ok unfolding v by (simp split: if_splits)
qed

end
