(* ===== verification/Intrusive.thy ===== *)
theory Intrusive
  imports Prelude
begin

text \<open>
  Circular doubly linked lists with a sentinel. The kernel writes the same two operations, insert
  after a node and unlink a node, three times: for the nodes of \<open>linked_list\<close>
  (\<open>include/lib/linked_list.h\<close>), for the free lists of the frame allocator
  (\<open>page_list_entry\<close> in \<open>kernel/include/paging.h\<close>) and for the free blocks of the kernel heap
  (\<open>boundary_header\<close> in \<open>kernel/include/heap.h\<close>). The locale states what the operations do to
  the link fields; its lemmas say what they do to the list of nodes that the links form.
\<close>

section \<open>The list that the links form\<close>

text \<open>\<open>dseg n p a zs b\<close>: from \<open>a\<close> the nodes \<open>zs\<close> and then \<open>b\<close> follow along the links \<open>n\<close>, and
  the links \<open>p\<close> lead back.\<close>

primrec dseg :: "('p \<Rightarrow> 'p) \<Rightarrow> ('p \<Rightarrow> 'p) \<Rightarrow> 'p \<Rightarrow> 'p list \<Rightarrow> 'p \<Rightarrow> bool" where
  "dseg n p a [] b \<longleftrightarrow> n a = b \<and> p b = a"
| "dseg n p a (z # zs) b \<longleftrightarrow> n a = z \<and> p z = a \<and> dseg n p z zs b"

definition dring :: "('p \<Rightarrow> 'p) \<Rightarrow> ('p \<Rightarrow> 'p) \<Rightarrow> 'p \<Rightarrow> 'p list \<Rightarrow> bool" where
  "dring n p c zs \<longleftrightarrow> distinct (c # zs) \<and> dseg n p c zs c"

lemma dseg_append: "dseg n p a (zs @ z # zs') b \<longleftrightarrow> dseg n p a zs z \<and> dseg n p z zs' b"
  by (induction zs arbitrary: a) auto

lemma dseg_cong:
  assumes "\<forall>z \<in> insert a (set zs). n' z = n z" "\<forall>z \<in> insert b (set zs). p' z = p z"
  shows "dseg n' p' a zs b = dseg n p a zs b"
  using assms by (induction zs arbitrary: a) auto

lemma dseg_last: "dseg n p a zs b \<Longrightarrow> p b = last (a # zs)"
  by (induction zs arbitrary: a) auto

lemma dseg_first: "dseg n p a zs b \<Longrightarrow> n a = hd (zs @ [b])"
  by (cases zs) auto

lemma dring_cong:
  assumes "\<forall>z \<in> insert c (set zs). n' z = n z \<and> p' z = p z"
  shows "dring n' p' c zs = dring n p c zs"
  using assms dseg_cong [of c zs n' n c p' p] by (auto simp: dring_def)

lemma dring_closed:
  assumes "dring n p c zs" "z \<in> insert c (set zs)"
  shows "n z \<in> insert c (set zs)" "p z \<in> insert c (set zs)"
proof -
  have *: "z \<in> insert a (set zs) \<Longrightarrow> dseg n p a zs b \<Longrightarrow> n z \<in> insert b (set zs)" for a b z
    by (induction zs arbitrary: a) auto
  have **: "z \<in> insert b (set zs) \<Longrightarrow> dseg n p a zs b \<Longrightarrow> p z \<in> insert a (set zs)" for a b z
    by (induction zs arbitrary: a) auto
  show "n z \<in> insert c (set zs)" "p z \<in> insert c (set zs)"
    using * ** assms by (auto simp: dring_def)
qed

lemma dring_next_last: "dring n p c zs \<Longrightarrow> p c = last (c # zs)"
  by (auto simp: dring_def dest: dseg_last)

lemma dring_next_first: "dring n p c zs \<Longrightarrow> n c = hd (zs @ [c])"
  by (auto simp: dring_def dest: dseg_first)

lemma dring_prev_next: "dring n p c zs \<Longrightarrow> z \<in> insert c (set zs) \<Longrightarrow> p (n z) = z"
proof -
  have "dseg n p a zs b \<Longrightarrow> z \<in> insert a (set zs) \<Longrightarrow> p (n z) = z" for a b
    by (induction zs arbitrary: a) auto
  then show "dring n p c zs \<Longrightarrow> z \<in> insert c (set zs) \<Longrightarrow> p (n z) = z" by (auto simp: dring_def)
qed

lemma dring_unique: "dring n p c zs \<Longrightarrow> dring n p c zs' \<Longrightarrow> zs = zs'"
proof -
  have "dseg n p a zs c \<Longrightarrow> dseg n p a zs' c \<Longrightarrow> c \<notin> set zs \<Longrightarrow> c \<notin> set zs' \<Longrightarrow> zs = zs'" for a zs zs'
  proof (induction zs arbitrary: a zs')
    case Nil
    then show ?case by (cases zs') auto
  next
    case (Cons z zs)
    then show ?case by (cases zs') auto
  qed
  then show "dring n p c zs \<Longrightarrow> dring n p c zs' \<Longrightarrow> zs = zs'" by (auto simp: dring_def)
qed

text \<open>Inserting after \<open>t\<close> and unlinking, as pure changes of the two link functions.\<close>

lemma dring_insert:
  assumes ring: "dring n p c (as @ bs)" and t: "t = last (c # as)" and x: "x \<notin> insert c (set (as @ bs))"
    and n': "n' = n(x := n t, t := x)" and p': "p' = p(n t := x, x := t)"
  shows "dring n' p' c (as @ x # bs)"
proof -
  have dist: "distinct (c # as @ bs)" using ring by (simp add: dring_def)
  obtain as' where c: "c # as = as' @ [t]" using t by (metis append_butlast_last_id list.distinct(1))
  have "t \<in> insert c (set as)" using t by auto
  then have xt: "x \<noteq> t" using x by auto
  have nt: "n t = hd (bs @ [c])"
    using ring c by (cases as') (auto simp: dring_def dseg_append dest: dseg_first)
  have left: "dseg n' p' c as x"
  proof (cases as rule: rev_cases)
    case Nil
    then show ?thesis using t n' p' by auto
  next
    case (snoc as'' y)
    then have "t = y" "dseg n p c as'' t" "t \<noteq> c" "t \<notin> set as''" "n t \<notin> set as"
      using ring t dist nt by (cases bs; auto simp: dring_def dseg_append)+
    moreover have "dseg n' p' c as'' t"
      using \<open>dseg n p c as'' t\<close> calculation x dist snoc n' p'
      by (subst dseg_cong [of _ _ _ n _ _ p]) auto
    ultimately show ?thesis using snoc n' p' by (simp add: dseg_append)
  qed
  have right: "dseg n' p' x bs c"
  proof (cases bs)
    case Nil
    then show ?thesis using nt n' p' x t by auto
  next
    case (Cons b bs')
    then have "n t = b" "dseg n p b bs' c" using nt ring by (auto simp: dring_def dseg_append)
    moreover have "t \<notin> set bs" using t dist by (cases as rule: rev_cases) auto
    ultimately have "dseg n' p' b bs' c"
      using Cons dist x n' p' by (subst dseg_cong [of _ _ _ n _ _ p]) auto
    then show ?thesis using Cons \<open>n t = b\<close> \<open>t \<notin> set bs\<close> x xt n' p' by auto
  qed
  show ?thesis using left right dist x by (auto simp: dring_def dseg_append)
qed

lemma dring_remove:
  assumes ring: "dring n p c (as @ x # bs)"
    and n': "\<And>z. z \<noteq> x \<Longrightarrow> n' z = (n(p x := n x)) z" and p': "\<And>z. z \<noteq> x \<Longrightarrow> p' z = (p(n x := p x)) z"
  shows "dring n' p' c (as @ bs)"
proof -
  have dist: "distinct (c # as @ x # bs)" using ring by (simp add: dring_def)
  have l: "dseg n p c as x" and r: "dseg n p x bs c" using ring by (auto simp: dring_def dseg_append)
  have px: "p x = last (c # as)" using l by (rule dseg_last)
  have nx: "n x = hd (bs @ [c])" using r by (rule dseg_first)
  have kn: "\<forall>z \<in> S. n' z = n z" if "x \<notin> S" "p x \<notin> S" for S
    using n' that by (metis fun_upd_other)
  have kp: "\<forall>z \<in> S. p' z = p z" if "x \<notin> S" "n x \<notin> S" for S
    using p' that by (metis fun_upd_other)
  have left: "dseg n' p' c as (hd (bs @ [c]))"
  proof (cases as rule: rev_cases)
    case Nil
    then show ?thesis using px nx n' p' dist by (cases bs) auto
  next
    case (snoc as' y)
    then have y: "dseg n p c as' y" "p x = y" "y \<noteq> c" "y \<notin> set as'" using l px dist by (auto simp: dseg_append)
    have "n x \<notin> set as" using nx dist by (cases bs) auto
    then have "dseg n' p' c as' y"
      using y dist snoc kn [of "insert c (set as')"] kp [of "insert y (set as')"]
      by (subst dseg_cong [of _ _ _ n _ _ p]) auto
    moreover have "n' y = n x" "p' (n x) = y" using y(2) n' p' dist snoc nx by (cases bs; auto)+
    ultimately show ?thesis using snoc nx by (simp add: dseg_append)
  qed
  show ?thesis
  proof (cases bs)
    case Nil
    then show ?thesis using left dist by (simp add: dring_def)
  next
    case (Cons b bs')
    then have "dseg n p b bs' c" using r by simp
    moreover have "p x \<notin> set bs" using px dist by (cases as rule: rev_cases) auto
    moreover have "n x = b" using nx Cons by simp
    ultimately have "dseg n' p' b bs' c"
      using Cons dist kn [of "insert b (set bs')"] kp [of "insert c (set bs')"]
      by (subst dseg_cong [of _ _ _ n _ _ p]) auto
    then show ?thesis using left Cons dist by (auto simp: dring_def dseg_append)
  qed
qed

section \<open>The interface\<close>

locale intrusive =
  fixes nx pv :: "'s \<Rightarrow> 'p \<Rightarrow> 'p"
    and ins :: "'p \<Rightarrow> 'p \<Rightarrow> 's \<Rightarrow> 's"
    and del :: "'p \<Rightarrow> 's \<Rightarrow> 's"
  assumes nx_ins: "nx (ins t x s) = (nx s)(x := nx s t, t := x)"
    and pv_ins: "pv (ins t x s) = (pv s)(nx s t := x, x := t)"
    and nx_del: "z \<noteq> x \<Longrightarrow> nx (del x s) z = ((nx s)(pv s x := nx s x)) z"
    and pv_del: "z \<noteq> x \<Longrightarrow> pv (del x s) z = ((pv s)(nx s x := pv s x)) z"
begin

lemma ins_ring:
  assumes "dring (nx s) (pv s) c (as @ bs)" "t = last (c # as)" "x \<notin> insert c (set (as @ bs))"
  shows "dring (nx (ins t x s)) (pv (ins t x s)) c (as @ x # bs)"
  using assms by (rule dring_insert) (rule nx_ins, rule pv_ins)

lemma ins_front:
  assumes "dring (nx s) (pv s) c zs" "x \<notin> insert c (set zs)"
  shows "dring (nx (ins c x s)) (pv (ins c x s)) c (x # zs)"
  using ins_ring [of s c "[]" zs c x] assms by simp

lemma ins_other:
  assumes "dring (nx s) (pv s) c zs" "t \<notin> insert c (set zs)" "x \<notin> insert c (set zs)" "nx s t \<notin> insert c (set zs)"
  shows "dring (nx (ins t x s)) (pv (ins t x s)) c zs"
  using assms by (subst dring_cong [of _ _ _ "nx s" _ "pv s"]) (auto simp: nx_ins pv_ins)

lemma del_ring:
  assumes "dring (nx s) (pv s) c (as @ x # bs)"
  shows "dring (nx (del x s)) (pv (del x s)) c (as @ bs)"
  using assms by (rule dring_remove) (rule nx_del, assumption, rule pv_del, assumption)

lemma del_other:
  assumes "dring (nx s) (pv s) c zs" "x \<notin> insert c (set zs)"
    and "nx s x \<notin> insert c (set zs)" "pv s x \<notin> insert c (set zs)"
  shows "dring (nx (del x s)) (pv (del x s)) c zs"
proof -
  have "nx (del x s) z = nx s z \<and> pv (del x s) z = pv s z" if "z \<in> insert c (set zs)" for z
    using that assms(2-4) nx_del [of z x s] pv_del [of z x s] by (metis fun_upd_other)
  then show ?thesis using assms(1) by (subst dring_cong [of _ _ _ "nx s" _ "pv s"]) auto
qed

end

end
