(* ===== verification/LinkedList.thy ===== *)
theory LinkedList
  imports Intrusive
begin

text \<open>
  The template \<open>linked_list\<close> of \<open>include/lib/linked_list.h\<close>: nodes in a store, the sentinel
  \<open>nil\<close> inside the list object, iterators as node addresses. \<open>new\<close> takes an address that was
  never used, \<open>delete\<close> of an address that is not a live node is \<open>None\<close> (the kernel heap
  panics on it). The lemmas show that the links always form the sequence of elements.
\<close>

section \<open>Nodes and the list object\<close>

record 'a lnode =
  key :: 'a
  prev :: nat
  nxt :: nat

record 'a llist =
  heap :: "nat \<Rightarrow> 'a lnode"
  live :: "nat set"
  lsz :: u32
  brk :: nat

definition NULLP :: nat where "NULLP = 0"

text \<open>The address of the sentinel of the list.\<close>

definition NIL :: nat where "NIL = 1"

definition ll_new :: "'a \<Rightarrow> 'a llist" where
  "ll_new dflt = \<lparr>heap = (\<lambda>_. \<lparr>key = dflt, prev = NIL, nxt = NIL\<rparr>), live = {}, lsz = 0, brk = 2\<rparr>"

definition set_prev :: "nat \<Rightarrow> nat \<Rightarrow> 'a llist \<Rightarrow> 'a llist" where
  "set_prev a v s = s\<lparr>heap := (heap s)(a := (heap s a)\<lparr>prev := v\<rparr>)\<rparr>"

definition set_nxt :: "nat \<Rightarrow> nat \<Rightarrow> 'a llist \<Rightarrow> 'a llist" where
  "set_nxt a v s = s\<lparr>heap := (heap s)(a := (heap s a)\<lparr>nxt := v\<rparr>)\<rparr>"

text \<open>\<open>node::insert\<close>: link \<open>n\<close> behind \<open>this\<close>; \<open>node::remove\<close>: unlink.\<close>

definition node_insert :: "nat \<Rightarrow> nat \<Rightarrow> 'a llist \<Rightarrow> 'a llist" where
  "node_insert this n s0 =
     (let s1 = set_prev (nxt (heap s0 this)) n s0;
          s2 = set_prev n this s1;
          s3 = set_nxt n (nxt (heap s2 this)) s2
      in set_nxt this n s3)"

definition node_remove :: "nat \<Rightarrow> 'a llist \<Rightarrow> 'a llist" where
  "node_remove this s0 =
     (let s1 = set_nxt (prev (heap s0 this)) (nxt (heap s0 this)) s0
      in set_prev (nxt (heap s1 this)) (prev (heap s1 this)) s1)"

definition node_new :: "'a \<Rightarrow> 'a llist \<Rightarrow> nat \<times> 'a llist" where
  "node_new k s =
     (brk s, s\<lparr>heap := (heap s)(brk s := \<lparr>key = k, prev = NULLP, nxt = NULLP\<rparr>),
               live := insert (brk s) (live s), brk := Suc (brk s)\<rparr>)"

definition node_delete :: "nat \<Rightarrow> 'a llist \<Rightarrow> 'a llist option" where
  "node_delete n s = (if n \<in> live s then Some (s\<lparr>live := live s - {n}\<rparr>) else None)"

section \<open>Iterators\<close>

definition it_next :: "'a llist \<Rightarrow> nat \<Rightarrow> nat" where
  "it_next s n = nxt (heap s n)"

definition it_prev :: "'a llist \<Rightarrow> nat \<Rightarrow> nat" where
  "it_prev s n = prev (heap s n)"

definition it_nil :: "nat \<Rightarrow> bool" where
  "it_nil n \<longleftrightarrow> n = NULLP \<or> n = NIL"

definition it_insert :: "nat \<Rightarrow> 'a \<Rightarrow> 'a llist \<Rightarrow> nat \<times> 'a llist" where
  "it_insert n k s0 =
     (let (x, s1) = node_new k s0;
          s2 = node_insert n x s1;
          s3 = s2\<lparr>lsz := lsz s2 + 1\<rparr>
      in (nxt (heap s3 n), s3))"

definition it_erase :: "nat \<Rightarrow> 'a llist \<Rightarrow> (nat \<times> 'a llist) option" where
  "it_erase n s0 = do {
     s1 \<leftarrow> node_delete n (node_remove n s0);
     Some (NIL, s1\<lparr>lsz := lsz s1 - 1\<rparr>) }"

definition it_move_after :: "nat \<Rightarrow> nat \<Rightarrow> 'a llist \<Rightarrow> nat \<times> 'a llist" where
  "it_move_after n it s =
     (n, if nxt (heap s it) \<noteq> n then node_insert it n (node_remove n s) else s)"

section \<open>The list operations\<close>

definition ll_begin :: "'a llist \<Rightarrow> nat" where
  "ll_begin s = nxt (heap s NIL)"

definition ll_end :: "'a llist \<Rightarrow> nat" where
  "ll_end s = NIL"

partial_function (option) find_from :: "'a llist \<Rightarrow> 'a \<Rightarrow> nat \<Rightarrow> nat option" where
  "find_from s k it =
     (if it \<noteq> ll_end s \<and> key (heap s it) \<noteq> k then find_from s k (it_next s it) else Some it)"

definition ll_find :: "'a \<Rightarrow> 'a llist \<Rightarrow> nat option" where
  "ll_find k s = find_from s k (ll_begin s)"

text \<open>The range-for loop over a list: the elements from \<open>it\<close> to the end.\<close>

partial_function (option) elems_from :: "'a llist \<Rightarrow> nat \<Rightarrow> 'a list option" where
  "elems_from s it =
     (if it = ll_end s then Some []
      else Option.bind (elems_from s (it_next s it)) (\<lambda>r. Some (key (heap s it) # r)))"

definition ll_elems :: "'a llist \<Rightarrow> 'a list option" where
  "ll_elems s = elems_from s (ll_begin s)"

definition ll_count :: "'a \<Rightarrow> 'a llist \<Rightarrow> int option" where
  "ll_count k s = map_option (\<lambda>xs. fold (\<lambda>x n. if x = k then n + 1 else n) xs 0) (ll_elems s)"

definition push_front :: "'a \<Rightarrow> 'a llist \<Rightarrow> nat \<times> 'a llist" where
  "push_front k s = it_insert (ll_begin s) k s"

definition pop_front :: "'a llist \<Rightarrow> 'a llist option" where
  "pop_front s = map_option snd (it_erase (ll_begin s) s)"

definition push_back :: "'a \<Rightarrow> 'a llist \<Rightarrow> nat \<times> 'a llist" where
  "push_back k s = it_insert (prev (heap s NIL)) k s"

definition pop_back :: "'a llist \<Rightarrow> 'a llist option" where
  "pop_back s = map_option snd (it_erase (prev (heap s NIL)) s)"

definition ll_size :: "'a llist \<Rightarrow> u32" where
  "ll_size s = lsz s"

text \<open>\<open>node::dealloc\<close>, the destructor's recursion: the successors first, then the node.\<close>

partial_function (option) dealloc :: "nat \<Rightarrow> 'a llist \<Rightarrow> 'a llist option" where
  "dealloc this s =
     (if this = NIL then Some s
      else Option.bind (dealloc (nxt (heap s this)) s) (\<lambda>s'. node_delete this s'))"

definition ll_destroy :: "'a llist \<Rightarrow> 'a llist option" where
  "ll_destroy s = dealloc (nxt (heap s NIL)) s"

section \<open>The links are a doubly linked ring\<close>

abbreviation nexts :: "'a llist \<Rightarrow> nat \<Rightarrow> nat" where
  "nexts s \<equiv> \<lambda>z. nxt (heap s z)"

abbreviation prevs :: "'a llist \<Rightarrow> nat \<Rightarrow> nat" where
  "prevs s \<equiv> \<lambda>z. prev (heap s z)"

lemmas node_link_defs = node_insert_def node_remove_def set_prev_def set_nxt_def Let_def

interpretation links: intrusive nexts prevs node_insert node_remove
  by unfold_locales (auto simp: node_link_defs fun_eq_iff)

lemma key_node_insert [simp]: "key (heap (node_insert t x s) z) = key (heap s z)"
  by (auto simp: node_link_defs)

lemma key_node_remove [simp]: "key (heap (node_remove x s) z) = key (heap s z)"
  by (auto simp: node_link_defs)

lemma frame_node_insert [simp]:
  "live (node_insert t x s) = live s" "lsz (node_insert t x s) = lsz s" "brk (node_insert t x s) = brk s"
  by (auto simp: node_link_defs)

lemma frame_node_remove [simp]:
  "live (node_remove x s) = live s" "lsz (node_remove x s) = lsz s" "brk (node_remove x s) = brk s"
  by (auto simp: node_link_defs)

text \<open>The representation invariant: the nodes \<open>zs\<close> in list order.\<close>

definition ll_rep :: "'a llist \<Rightarrow> nat list \<Rightarrow> bool" where
  "ll_rep s zs \<longleftrightarrow> dring (nexts s) (prevs s) NIL zs \<and> live s = set zs \<and>
     lsz s = of_nat (length zs) \<and> NIL < brk s \<and> (\<forall>z \<in> set zs. NIL < z \<and> z < brk s)"

definition keys :: "'a llist \<Rightarrow> nat list \<Rightarrow> 'a list" where
  "keys s zs = map (\<lambda>z. key (heap s z)) zs"

lemma ll_new_rep: "ll_rep (ll_new d) []"
  by (simp add: ll_rep_def ll_new_def dring_def NIL_def)

lemma keys_append [simp]: "keys s (as @ bs) = keys s as @ keys s bs"
  by (simp add: keys_def)

lemma keys_simps [simp]: "keys s [] = []" "keys s (z # zs) = key (heap s z) # keys s zs"
  by (simp_all add: keys_def)

lemma it_insert_rep:
  assumes rep: "ll_rep s (as @ bs)" and n: "n = last (NIL # as)"
  shows "\<exists>s'. it_insert n k s = (brk s, s') \<and> ll_rep s' (as @ brk s # bs) \<and>
    keys s' (as @ brk s # bs) = keys s as @ k # keys s bs"
proof -
  let ?s1 = "s\<lparr>heap := (heap s)(brk s := \<lparr>key = k, prev = NULLP, nxt = NULLP\<rparr>),
               live := insert (brk s) (live s), brk := Suc (brk s)\<rparr>"
  let ?s2 = "node_insert n (brk s) ?s1"
  have fresh: "brk s \<notin> insert NIL (set (as @ bs))" using rep by (auto simp: ll_rep_def)
  have ring1: "dring (nexts ?s1) (prevs ?s1) NIL (as @ bs)"
    using rep fresh by (subst dring_cong [of _ _ _ "nexts s" _ "prevs s"]) (auto simp: ll_rep_def)
  have ring2: "dring (nexts ?s2) (prevs ?s2) NIL (as @ brk s # bs)"
    using links.ins_ring [OF ring1 n fresh] .
  have nx: "nxt (heap ?s2 n) = brk s" by (simp add: node_link_defs)
  have ins: "it_insert n k s = (brk s, ?s2\<lparr>lsz := lsz ?s2 + 1\<rparr>)"
    by (simp add: it_insert_def node_new_def Let_def) (simp add: node_link_defs)
  have "ll_rep (?s2\<lparr>lsz := lsz ?s2 + 1\<rparr>) (as @ brk s # bs)"
    using rep ring2 by (auto simp: ll_rep_def less_SucI)
  moreover have "keys (?s2\<lparr>lsz := lsz ?s2 + 1\<rparr>) (as @ brk s # bs) = keys s as @ k # keys s bs"
    using fresh by (auto simp: keys_def)
  ultimately show ?thesis using ins by blast
qed

lemma it_erase_rep:
  assumes rep: "ll_rep s (as @ x # bs)"
  shows "\<exists>s'. it_erase x s = Some (NIL, s') \<and> ll_rep s' (as @ bs) \<and>
    keys s' (as @ bs) = keys s as @ keys s bs"
proof -
  have ring: "dring (nexts s) (prevs s) NIL (as @ x # bs)" and lv: "live s = set (as @ x # bs)"
    using rep by (auto simp: ll_rep_def)
  have dist: "x \<notin> set as" "x \<notin> set bs" using ring by (auto simp: dring_def)
  let ?s2 = "node_remove x s\<lparr>live := live s - {x}, lsz := lsz s - 1\<rparr>"
  have "it_erase x s = Some (NIL, ?s2)"
    using lv by (simp add: it_erase_def node_delete_def)
  moreover have "ll_rep ?s2 (as @ bs)"
    using rep links.del_ring [OF ring] dist by (auto simp: ll_rep_def)
  moreover have "keys ?s2 (as @ bs) = keys s as @ keys s bs" by (auto simp: keys_def)
  ultimately show ?thesis by blast
qed

text \<open>Every list of nodes has its first and its last where \<open>begin()\<close> and \<open>nil.prev\<close> point.\<close>

lemma ll_begin_rep: "ll_rep s zs \<Longrightarrow> ll_begin s = hd (zs @ [NIL])"
  by (auto simp: ll_rep_def ll_begin_def dest: dring_next_first)

lemma ll_last_rep: "ll_rep s zs \<Longrightarrow> prev (heap s NIL) = last (NIL # zs)"
  by (auto simp: ll_rep_def dest: dring_next_last)

lemma ll_rep_dseg: "ll_rep s zs \<Longrightarrow> dseg (nexts s) (prevs s) NIL zs NIL"
  by (simp add: ll_rep_def dring_def)

lemma ll_rep_not_nil: "ll_rep s zs \<Longrightarrow> NIL \<notin> set zs"
  by (simp add: ll_rep_def dring_def)

text \<open>Traversals along \<open>next\<close> end at the sentinel.\<close>

lemma elems_from_dseg:
  "dseg (nexts s) p a zs NIL \<Longrightarrow> NIL \<notin> set zs \<Longrightarrow> elems_from s (nexts s a) = Some (keys s zs)"
proof (induction zs arbitrary: a)
  case Nil
  then show ?case by (subst elems_from.simps) (simp add: ll_end_def)
next
  case (Cons z zs)
  then have "elems_from s (nexts s z) = Some (keys s zs)" by simp
  with Cons.prems show ?case by (subst elems_from.simps) (simp add: ll_end_def it_next_def)
qed

lemma ll_elems_rep: "ll_rep s zs \<Longrightarrow> ll_elems s = Some (keys s zs)"
  unfolding ll_elems_def ll_begin_def
  by (rule elems_from_dseg [OF ll_rep_dseg ll_rep_not_nil])

lemma find_from_dseg:
  "dseg (nexts s) p a zs NIL \<Longrightarrow> NIL \<notin> set zs \<Longrightarrow>
     find_from s k (nexts s a) = Some (hd (dropWhile (\<lambda>z. key (heap s z) \<noteq> k) zs @ [NIL]))"
proof (induction zs arbitrary: a)
  case Nil
  then show ?case by (subst find_from.simps) (simp add: ll_end_def)
next
  case (Cons z zs)
  then have "find_from s k (nexts s z) = Some (hd (dropWhile (\<lambda>z. key (heap s z) \<noteq> k) zs @ [NIL]))"
    by simp
  with Cons.prems show ?case by (subst find_from.simps) (simp add: ll_end_def it_next_def)
qed

lemma ll_find_rep:
  "ll_rep s zs \<Longrightarrow> ll_find k s = Some (hd (dropWhile (\<lambda>z. key (heap s z) \<noteq> k) zs @ [NIL]))"
  unfolding ll_find_def ll_begin_def
  by (rule find_from_dseg [OF ll_rep_dseg ll_rep_not_nil])

lemma count_fold: "fold (\<lambda>x n. if x = k then n + 1 else n) xs m = m + int (count_list xs k)"
  by (induction xs arbitrary: m) auto

lemma ll_count_rep: "ll_rep s zs \<Longrightarrow> ll_count k s = Some (int (count_list (keys s zs) k))"
  by (simp add: ll_count_def ll_elems_rep count_fold)

lemma dealloc_dseg:
  "dseg (nexts s) p a zs NIL \<Longrightarrow> NIL \<notin> set zs \<Longrightarrow> distinct zs \<Longrightarrow> set zs \<subseteq> live s \<Longrightarrow>
     dealloc (nexts s a) s = Some (s\<lparr>live := live s - set zs\<rparr>)"
proof (induction zs arbitrary: a)
  case Nil
  then show ?case by (subst dealloc.simps) simp
next
  case (Cons z zs)
  then have IH: "dealloc (nexts s z) s = Some (s\<lparr>live := live s - set zs\<rparr>)" by simp
  have "live s - set zs - {z} = live s - insert z (set zs)" by blast
  with Cons.prems IH show ?case by (subst dealloc.simps) (simp add: node_delete_def)
qed

lemma ll_destroy_rep: "ll_rep s zs \<Longrightarrow> ll_destroy s = Some (s\<lparr>live := {}\<rparr>)"
proof -
  assume r: "ll_rep s zs"
  have "distinct zs" "live s = set zs" using r by (simp_all add: ll_rep_def dring_def)
  then show ?thesis
    using dealloc_dseg [OF ll_rep_dseg [OF r] ll_rep_not_nil [OF r]] by (simp add: ll_destroy_def)
qed

section \<open>What the list operations do to the sequence of elements\<close>

text \<open>A list object that holds the elements \<open>xs\<close>.\<close>

definition ll_holds :: "'a llist \<Rightarrow> 'a list \<Rightarrow> bool" where
  "ll_holds s xs \<longleftrightarrow> (\<exists>zs. ll_rep s zs \<and> keys s zs = xs)"

lemma ll_holdsI: "ll_rep s zs \<Longrightarrow> keys s zs = xs \<Longrightarrow> ll_holds s xs"
  by (auto simp: ll_holds_def)

lemma ll_holdsE: "ll_holds s xs \<Longrightarrow> (\<And>zs. ll_rep s zs \<Longrightarrow> xs = keys s zs \<Longrightarrow> P) \<Longrightarrow> P"
  by (auto simp: ll_holds_def)

lemma length_keys [simp]: "length (keys s zs) = length zs"
  by (simp add: keys_def)

lemma keys_Nil_iff [simp]: "keys s zs = [] \<longleftrightarrow> zs = []" "[] = keys s zs \<longleftrightarrow> zs = []"
  by (auto simp: keys_def)

lemma push_back_holds: "ll_holds s xs \<Longrightarrow> ll_holds (snd (push_back k s)) (xs @ [k])"
proof (erule ll_holdsE)
  fix zs assume r: "ll_rep s zs" and xs: "xs = keys s zs"
  obtain s' where "it_insert (prev (heap s NIL)) k s = (brk s, s')" "ll_rep s' (zs @ [brk s])"
    "keys s' (zs @ [brk s]) = keys s zs @ [k]"
    using it_insert_rep [of s zs "[]"] r ll_last_rep [OF r] by auto
  then show "ll_holds (snd (push_back k s)) (xs @ [k])"
    using xs by (auto simp: push_back_def intro: ll_holdsI)
qed

lemma push_front_holds:
  "ll_holds s xs \<Longrightarrow> ll_holds (snd (push_front k s)) (take 1 xs @ k # drop 1 xs)"
proof (erule ll_holdsE)
  fix zs assume r: "ll_rep s zs" and xs: "xs = keys s zs"
  have "ll_begin s = last (NIL # take 1 zs)" using ll_begin_rep [OF r] by (cases zs) auto
  then obtain s' where "it_insert (ll_begin s) k s = (brk s, s')" "ll_rep s' (take 1 zs @ brk s # drop 1 zs)"
    "keys s' (take 1 zs @ brk s # drop 1 zs) = keys s (take 1 zs) @ k # keys s (drop 1 zs)"
    using it_insert_rep [of s "take 1 zs" "drop 1 zs"] r by auto
  then show "ll_holds (snd (push_front k s)) (take 1 xs @ k # drop 1 xs)"
    using xs by (auto simp: push_front_def keys_def take_map drop_map intro!: ll_holdsI)
qed

lemma pop_front_holds: "ll_holds s (x # xs) \<Longrightarrow> \<exists>s'. pop_front s = Some s' \<and> ll_holds s' xs"
proof (erule ll_holdsE)
  fix zs assume r: "ll_rep s zs" and "x # xs = keys s zs"
  then obtain z zs' where zs: "zs = z # zs'" "xs = keys s zs'" by (cases zs) auto
  then obtain s' where "it_erase z s = Some (NIL, s')" "ll_rep s' zs'" "keys s' zs' = keys s zs'"
    using it_erase_rep [of s "[]"] r by auto
  then show ?thesis using zs ll_begin_rep [OF r] by (auto simp: pop_front_def intro: ll_holdsI)
qed

lemma pop_back_holds: "ll_holds s (xs @ [x]) \<Longrightarrow> \<exists>s'. pop_back s = Some s' \<and> ll_holds s' xs"
proof (erule ll_holdsE)
  fix zs assume r: "ll_rep s zs" and k: "xs @ [x] = keys s zs"
  then obtain z zs' where zs: "zs = zs' @ [z]" by (cases zs rule: rev_cases) auto
  then obtain s' where "it_erase z s = Some (NIL, s')" "ll_rep s' zs'" "keys s' zs' = keys s zs'"
    using it_erase_rep [of s zs' z "[]"] r by auto
  then show ?thesis using k zs ll_last_rep [OF r] by (auto simp: pop_back_def intro: ll_holdsI)
qed

lemma pop_empty: "ll_holds s [] \<Longrightarrow> pop_front s = None \<and> pop_back s = None"
  by (auto simp: ll_holds_def pop_front_def pop_back_def it_erase_def node_delete_def ll_begin_def
      ll_rep_def dring_def)

text \<open>\<open>move_after\<close> takes the node out of its place and puts it behind the other one.\<close>

lemma last_prefix_unique:
  "distinct (c # as @ bs) \<Longrightarrow> as @ bs = cs @ ds \<Longrightarrow> last (c # as) = last (c # cs) \<Longrightarrow> as = cs"
proof (induction as arbitrary: c cs)
  case Nil
  then show ?case using last_in_set [of cs] by (cases "cs = []") auto
next
  case (Cons a as)
  show ?case
  proof (cases cs)
    case Nil
    then show ?thesis using Cons.prems(1,3) last_in_set [of "a # as"] by (simp split: if_splits)
  next
    case (Cons b cs')
    then have "b = a" "as @ bs = cs' @ ds" using Cons.prems(2) by simp_all
    moreover have "last (a # as) = last (a # cs')" using Cons.prems(3) Cons \<open>b = a\<close> by simp
    ultimately show ?thesis using Cons.IH [of a cs'] Cons.prems(1) Cons by simp
  qed
qed

lemma it_move_after_rep:
  assumes rep: "ll_rep s (as @ x # bs)" and eq: "as @ bs = cs @ ds" and it: "it = last (NIL # cs)"
  shows "\<exists>s'. it_move_after x it s = (x, s') \<and> ll_rep s' (cs @ x # ds) \<and>
    keys s' (cs @ x # ds) = keys s cs @ key (heap s x) # keys s ds"
proof -
  have ring: "dring (nexts s) (prevs s) NIL (as @ x # bs)" using rep by (simp add: ll_rep_def)
  have st: "set cs \<union> set ds = set as \<union> set bs" "length cs + length ds = length as + length bs"
    using arg_cong [OF eq, of set] arg_cong [OF eq, of length] by simp_all
  have "x \<notin> insert NIL (set as \<union> set bs)" using ring by (auto simp: dring_def)
  then have fr: "x \<notin> insert NIL (set (cs @ ds))" using st by simp
  have dist: "distinct (NIL # as @ bs)" using ring by (auto simp: dring_def)
  show ?thesis
  proof (cases "nxt (heap s it) = x")
    case True
    have "it \<in> insert NIL (set cs)" using it by simp
    then have "it \<in> insert NIL (set (as @ x # bs))" using st(1) by auto
    have "prev (heap s x) = it"
      using dring_prev_next [OF ring \<open>it \<in> insert NIL (set (as @ x # bs))\<close>] True by simp
    moreover have "prev (heap s x) = last (NIL # as)"
      using ring by (auto simp: dring_def dseg_append dest: dseg_last)
    ultimately have "as = cs" using last_prefix_unique [OF dist eq] it by simp
    then show ?thesis using True rep eq by (auto simp: it_move_after_def)
  next
    case False
    let ?s2 = "node_insert it x (node_remove x s)"
    have "dring (nexts (node_remove x s)) (prevs (node_remove x s)) NIL (cs @ ds)"
      using links.del_ring [OF ring] eq by simp
    then have "dring (nexts ?s2) (prevs ?s2) NIL (cs @ x # ds)" using links.ins_ring it fr by blast
    moreover have "set (as @ x # bs) = set (cs @ x # ds)" "length (as @ x # bs) = length (cs @ x # ds)"
      using st by simp_all
    ultimately have "ll_rep ?s2 (cs @ x # ds)"
      using rep unfolding ll_rep_def by (elim conjE) (simp only: frame_node_insert frame_node_remove simp_thms)
    then show ?thesis using False by (auto simp: it_move_after_def keys_def)
  qed
qed

text \<open>The list as a stack of any depth.\<close>

interpretation lstack: bounded_stack ll_holds "\<lambda>k s. Some (snd (push_back k s))" pop_back cap
  by unfold_locales (auto intro: push_back_holds pop_back_holds)

lemma ll_holds_new: "ll_holds (ll_new d) []"
  by (rule ll_holdsI [OF ll_new_rep]) simp

lemma ll_holds_elems: "ll_holds s xs \<Longrightarrow> ll_elems s = Some xs"
  by (auto elim!: ll_holdsE simp: ll_elems_rep)

text \<open>\<open>find\<close> stops at the first element equal to the key, or at the end.\<close>

lemma ll_find_holds:
  assumes "ll_holds s xs"
  shows "\<exists>it. ll_find k s = Some it \<and> (k \<in> set xs \<longrightarrow> \<not> it_nil it \<and> key (heap s it) = k)
    \<and> (k \<notin> set xs \<longrightarrow> it = ll_end s)"
proof (rule ll_holdsE [OF assms])
  fix zs assume r: "ll_rep s zs" and xs: "xs = keys s zs"
  let ?ds = "dropWhile (\<lambda>z. key (heap s z) \<noteq> k) zs"
  show ?thesis
  proof (cases "k \<in> set xs")
    case True
    then have ne: "?ds \<noteq> []" using xs by (auto simp: keys_def)
    then have "hd ?ds \<in> set zs" using set_dropWhileD [OF hd_in_set [OF ne]] by blast
    then have "NIL < hd ?ds" using r by (simp add: ll_rep_def)
    moreover have "key (heap s (hd ?ds)) = k" using hd_dropWhile [OF ne] by simp
    moreover have "ll_find k s = Some (hd ?ds)" using ne ll_find_rep [OF r, of k] by (metis hd_append2)
    ultimately show ?thesis using True by (auto simp: it_nil_def NULLP_def NIL_def)
  next
    case False
    then have "?ds = []" using xs by (auto simp: keys_def)
    then have "ll_find k s = Some NIL" using ll_find_rep [OF r, of k] by (metis append_Nil list.sel(1))
    then show ?thesis using False by (simp add: ll_end_def)
  qed
qed

text \<open>C32: a \<open>linked_list\<close> that holds the sequence \<open>xs\<close> enumerates \<open>xs\<close>, its
  \<open>push_back\<close> appends, \<open>pop_front\<close> and \<open>pop_back\<close> of a nonempty list succeed and drop the first
  and the last element, \<open>find\<close> returns an element equal to the key exactly when there is one,
  \<open>count\<close> counts the equal elements, and the destructor deletes every node.\<close>

theorem linked_list_sequence:
  "ll_holds s xs \<Longrightarrow>
     ll_elems s = Some xs \<and> ll_holds (snd (push_back k s)) (xs @ [k]) \<and>
     (xs \<noteq> [] \<longrightarrow> (\<exists>s'. pop_front s = Some s' \<and> ll_holds s' (tl xs)) \<and>
                   (\<exists>s'. pop_back s = Some s' \<and> ll_holds s' (butlast xs))) \<and>
     (\<exists>it. ll_find k s = Some it \<and> (k \<in> set xs \<longrightarrow> \<not> it_nil it \<and> key (heap s it) = k) \<and>
        (k \<notin> set xs \<longrightarrow> it = ll_end s)) \<and>
     ll_count k s = Some (int (count_list xs k)) \<and>
     (\<exists>s'. ll_destroy s = Some s' \<and> live s' = {})"
  (is "_ \<Longrightarrow> _ \<and> _ \<and> (_ \<longrightarrow> ?pops) \<and> _ \<and> _ \<and> _")
proof -
  assume h: "ll_holds s xs"
  have "?pops" if "xs \<noteq> []"
    using that h pop_front_holds [of s "hd xs" "tl xs"] pop_back_holds [of s "butlast xs" "last xs"]
    by simp
  moreover have "ll_count k s = Some (int (count_list xs k))" "\<exists>s'. ll_destroy s = Some s' \<and> live s' = {}"
    using h by (auto elim!: ll_holdsE simp: ll_count_rep ll_destroy_rep)
  ultimately show ?thesis
    using ll_holds_elems [OF h] push_back_holds [OF h] ll_find_holds [OF h] by blast
qed

lemma ll_holds_three: "ll_holds (snd (push_back 5 (snd (push_back 3 (ll_new 0))))) [3, 5 :: nat]"
  using lstack.pushes_rep [OF ll_holds_new, where ys = "[3, 5]"] by auto

theorem linked_list_sequence_witness:
  "\<exists>s'. pop_front (snd (push_back 5 (snd (push_back 3 (ll_new 0))))) = Some s' \<and> ll_holds s' [5 :: nat]"
  using linked_list_sequence [OF ll_holds_three] by simp

text \<open>\<open>push_front\<close> is \<open>begin().insert(k)\<close> and \<open>insert\<close> links behind the
  iterator, so on a nonempty list the element becomes the second one, not the first.\<close>

theorem push_front_second:
  "ll_holds s (x # xs) \<Longrightarrow> ll_elems (snd (push_front k s)) = Some (x # k # xs)"
  using push_front_holds [of s "x # xs" k] by (auto dest: ll_holds_elems)

theorem push_front_second_witness:
  "ll_elems (snd (push_front 9 (snd (push_back 5 (snd (push_back 3 (ll_new 0))))))) = Some [3, 9, 5 :: nat]"
  by (rule push_front_second [OF ll_holds_three])

end
