(* ===== verification/Vec.thy ===== *)
theory Vec
  imports Prelude
begin

text \<open>
  The template \<open>vector\<close> of \<open>include/lib/vector.h\<close>. The buffer is a list of cells, \<open>None\<close> being raw
  memory that holds no constructed object; \<open>_begin\<close> and \<open>_end\<close> are offsets from \<open>_membegin\<close>, and
  \<open>valloc\<close> says whether the four pointers are set. \<open>malloc\<close> is assumed to return a buffer. An
  operation is \<open>None\<close> where the code halts on \<open>ASSERTH\<close> or constructs an element past the end of
  the buffer.
\<close>

section \<open>The object\<close>

record 'a vec =
  vmem :: "'a option list"
  vb :: nat
  ve :: nat
  valloc :: bool
  contract :: bool
  maxcap :: u32

definition capacity :: "'a vec \<Rightarrow> nat" where
  "capacity v = length (vmem v)"

definition vsize :: "'a vec \<Rightarrow> nat" where
  "vsize v = ve v - vb v"

definition vempty :: "'a vec \<Rightarrow> bool" where
  "vempty v \<longleftrightarrow> vsize v = 0"

text \<open>The cells between \<open>_begin\<close> and \<open>_end\<close>.\<close>

definition vcells :: "'a vec \<Rightarrow> 'a option list" where
  "vcells v = drop (vb v) (take (ve v) (vmem v))"

definition vec_new :: "u32 \<Rightarrow> bool \<Rightarrow> u32 \<Rightarrow> 'a vec" where
  "vec_new n0 contr mc =
     (let n = (if n0 > mc then mc else n0)
      in if n > 0 then \<lparr>vmem = replicate (unat n) None, vb = 0, ve = 0, valloc = True, contract = contr, maxcap = mc\<rparr>
         else \<lparr>vmem = [], vb = 0, ve = 0, valloc = False, contract = contr, maxcap = mc\<rparr>)"

definition vec_of_list :: "'a list \<Rightarrow> 'a vec option" where
  "vec_of_list il = (if length il > 0
     then Some \<lparr>vmem = map Some il, vb = 0, ve = length il, valloc = True, contract = True, maxcap = - 1\<rparr>
     else None)"

definition vec_copy :: "'a vec \<Rightarrow> 'a vec" where
  "vec_copy x = \<lparr>vmem = vcells x @ replicate (capacity x - length (vcells x)) None, vb = 0, ve = length (vcells x),
     valloc = True, contract = contract x, maxcap = maxcap x\<rparr>"

definition vec_move :: "'a vec \<Rightarrow> 'a vec \<times> 'a vec" where
  "vec_move x = (x, x\<lparr>vmem := [], vb := 0, ve := 0, valloc := False\<rparr>)"

section \<open>Growing and shrinking the buffer\<close>

definition expand_capacity :: "'a vec \<Rightarrow> u32" where
  "expand_capacity v = (of_nat (capacity v) * 3) div 2 + of_nat (capacity v) mod 2"

definition resize_container :: "nat \<Rightarrow> 'a vec \<Rightarrow> 'a vec" where
  "resize_container n v =
     (if n = capacity v then v
      else if n < 1 \<and> valloc v then v\<lparr>vmem := [], vb := 0, ve := 0, valloc := False\<rparr>
      else let moved = (if \<not> valloc v then [] else if n < vsize v then take n (vcells v) else vcells v)
           in v\<lparr>vmem := moved @ replicate (n - length moved) None, vb := 0, ve := length moved, valloc := True\<rparr>)"

text \<open>\<open>_push\<close>: the position for a new last element, or the null pointer when the vector is full.\<close>

definition push_slot :: "'a vec \<Rightarrow> nat option \<times> 'a vec" where
  "push_slot v =
     (if of_nat (vsize v) \<ge> maxcap v then (None, v)
      else let pos = ve v in
        if pos \<ge> capacity v then
          let oldcap = of_nat (capacity v) :: u32;
              newcap = expand_capacity v;
              newcap = (if newcap < oldcap + 1 then oldcap + 1 else newcap);
              newcap = (if newcap > maxcap v then maxcap v else newcap);
              v' = resize_container (unat newcap) v;
              pos = vb v' + unat oldcap
          in (Some pos, v'\<lparr>ve := pos + 1\<rparr>)
        else (Some pos, v\<lparr>ve := pos + 1\<rparr>))"

text \<open>Constructing an element at an offset of the buffer.\<close>

definition construct :: "nat \<Rightarrow> 'a \<Rightarrow> 'a vec \<Rightarrow> 'a vec option" where
  "construct pos k v = (if pos < capacity v then Some (v\<lparr>vmem := (vmem v)[pos := Some k]\<rparr>) else None)"

definition vpush_back :: "'a \<Rightarrow> 'a vec \<Rightarrow> (nat option \<times> 'a vec) option" where
  "vpush_back k v =
     (case push_slot v of
        (None, v') \<Rightarrow> Some (None, v')
      | (Some pos, v') \<Rightarrow> map_option (\<lambda>v''. (Some pos, v'')) (construct pos k v'))"

definition shrink :: "'a vec \<Rightarrow> 'a vec" where
  "shrink v = (let sz = vsize v in
     if contract v \<and> 4 * of_nat sz \<le> (of_nat (capacity v) :: u32) then resize_container (if sz < 1 then 1 else sz) v else v)"

definition vpop_front :: "'a vec \<Rightarrow> 'a vec option" where
  "vpop_front v = (if vb v < ve v
     then Some (shrink (v\<lparr>vmem := (vmem v)[vb v := None], vb := vb v + 1\<rparr>)) else None)"

definition vpop_back :: "'a vec \<Rightarrow> 'a vec option" where
  "vpop_back v = (if ve v > vb v
     then Some (shrink (v\<lparr>vmem := (vmem v)[ve v - 1 := None], ve := ve v - 1\<rparr>)) else None)"

definition vclear :: "'a vec \<Rightarrow> 'a vec" where
  "vclear v = (let v' = v\<lparr>vmem := replicate (capacity v) None, vb := 0, ve := 0\<rparr>
     in if contract v' \<and> capacity v' > 1 then resize_container 1 v' else v')"

definition vresize :: "u32 \<Rightarrow> 'a \<Rightarrow> 'a vec \<Rightarrow> 'a vec" where
  "vresize n val v = (if n > maxcap v then v else
     let v' = resize_container (unat n) v
     in v'\<lparr>vmem := take (ve v') (vmem v') @ replicate (capacity v' - ve v') (Some val), ve := capacity v'\<rparr>)"

definition vreserve :: "u32 \<Rightarrow> 'a vec \<Rightarrow> 'a vec" where
  "vreserve n v = (if unat n > capacity v \<and> n \<le> maxcap v then resize_container (unat n) v else v)"

definition set_contract :: "bool \<Rightarrow> 'a vec \<Rightarrow> 'a vec" where
  "set_contract b v = v\<lparr>contract := b\<rparr>"

definition set_max_capacity :: "u32 \<Rightarrow> 'a vec \<Rightarrow> 'a vec" where
  "set_max_capacity m v = v\<lparr>maxcap := m\<rparr>"

text \<open>\<open>operator[]\<close>: out of range halts, and so does reading raw memory in this model.\<close>

definition vget :: "nat \<Rightarrow> 'a vec \<Rightarrow> 'a option" where
  "vget ix v = (if ix < vsize v then vmem v ! (vb v + ix) else None)"

definition vset :: "nat \<Rightarrow> 'a \<Rightarrow> 'a vec \<Rightarrow> 'a vec option" where
  "vset ix k v = (if ix < vsize v then Some (v\<lparr>vmem := (vmem v)[vb v + ix := Some k]\<rparr>) else None)"

definition vfront :: "'a vec \<Rightarrow> 'a option" where
  "vfront v = (if vb v < capacity v then vmem v ! vb v else None)"

definition vback :: "'a vec \<Rightarrow> 'a option" where
  "vback v = (if 0 < ve v \<and> ve v \<le> capacity v then vmem v ! (ve v - 1) else None)"

fun vfind_from :: "'a option list \<Rightarrow> 'a \<Rightarrow> nat \<Rightarrow> nat" where
  "vfind_from [] k i = i"
| "vfind_from (x # xs) k i = (if x \<noteq> Some k then vfind_from xs k (i + 1) else i)"

definition vfind :: "'a \<Rightarrow> 'a vec \<Rightarrow> nat" where
  "vfind k v = vfind_from (vcells v) k (vb v)"

definition vcount :: "'a \<Rightarrow> 'a vec \<Rightarrow> int" where
  "vcount k v = fold (\<lambda>x n. if x = Some k then n + 1 else n) (vcells v) 0"

section \<open>What the vector holds\<close>

definition vec_holds :: "'a vec \<Rightarrow> 'a list \<Rightarrow> bool" where
  "vec_holds v xs \<longleftrightarrow> vb v \<le> ve v \<and> ve v \<le> capacity v \<and> capacity v < 2 ^ 32 \<and>
     vcells v = map Some xs \<and> (valloc v \<longleftrightarrow> vmem v \<noteq> [])"

lemma vec_holds_length: "vec_holds v xs \<Longrightarrow> vsize v = length xs"
  by (auto simp: vec_holds_def vsize_def capacity_def vcells_def dest!: arg_cong [of _ _ length])

lemma length_vcells: "vb v \<le> ve v \<Longrightarrow> ve v \<le> capacity v \<Longrightarrow> length (vcells v) = vsize v"
  by (simp add: vcells_def vsize_def capacity_def)

lemma vec_new_holds: "vec_holds (vec_new n c m) [] \<and> vb (vec_new n c m) = 0"
  using unat_u32_lt [of m] unat_u32_lt [of n]
  by (auto simp: vec_holds_def vec_new_def capacity_def vcells_def Let_def unat_gt_0)

lemma maxcap_vec_new [simp]: "maxcap (vec_new n c m) = m"
  by (simp add: vec_new_def Let_def)

lemma resize_container_holds:
  assumes "vec_holds v xs" "n < 2 ^ 32"
  shows "vec_holds (resize_container n v) (if n = capacity v then xs else take n xs)"
proof -
  have sz: "vsize v = length xs" "vcells v = map Some xs" using assms vec_holds_length by (auto simp: vec_holds_def)
  have z: "xs = []" if "\<not> valloc v" using that assms by (auto simp: vec_holds_def vcells_def)
  show ?thesis
  proof (cases "n = capacity v")
    case True
    then show ?thesis using assms by (simp add: resize_container_def)
  next
    case False
    then show ?thesis
      using assms sz z
      by (auto simp: resize_container_def vec_holds_def Let_def take_map)
         (auto simp: vcells_def capacity_def)
  qed
qed


lemma shrink_holds: "vec_holds v xs \<Longrightarrow> vec_holds (shrink v) xs"
proof -
  assume h: "vec_holds v xs"
  have "length xs < 2 ^ 32" using h vec_holds_length [OF h] by (auto simp: vec_holds_def vsize_def)
  then show ?thesis
    using h resize_container_holds [OF h, of 1] resize_container_holds [OF h, of "length xs"]
    by (auto simp: shrink_def Let_def vec_holds_length split: if_splits)
qed

lemma resize_container_frame [simp]:
  "maxcap (resize_container n v) = maxcap v" "contract (resize_container n v) = contract v"
  by (simp_all add: resize_container_def Let_def)

lemma shrink_frame [simp]: "maxcap (shrink v) = maxcap v"
  by (simp add: shrink_def Let_def)

lemma vb_resize_container: "vb v = 0 \<Longrightarrow> vb (resize_container n v) = 0"
  by (simp add: resize_container_def Let_def)

lemma vb_shrink: "vb v = 0 \<Longrightarrow> vb (shrink v) = 0"
  by (simp add: shrink_def Let_def vb_resize_container)

text \<open>Popping drops an element at either end.\<close>

lemma vpop_back_holds:
  assumes "vec_holds v (xs @ [x])"
  shows "\<exists>v'. vpop_back v = Some v' \<and> vec_holds v' xs \<and> maxcap v' = maxcap v \<and> (vb v = 0 \<longrightarrow> vb v' = 0)"
proof -
  let ?v = "v\<lparr>vmem := (vmem v)[ve v - 1 := None], ve := ve v - 1\<rparr>"
  have sz: "vsize v = Suc (length xs)" using vec_holds_length [OF assms] by simp
  have c: "vb v \<le> ve v" "ve v \<le> capacity v" "vcells v = map Some xs @ [Some x]" using assms by (auto simp: vec_holds_def)
  have "ve v - 1 = vb v + length xs" using sz by (simp add: vsize_def)
  then have "vcells ?v = take (length xs) (vcells v)"
    using c(1,2) sz by (simp add: vcells_def vsize_def take_drop add.commute)
  then have "vec_holds ?v xs"
    using assms c sz by (auto simp: vec_holds_def capacity_def vsize_def)
  then show ?thesis using shrink_holds vb_shrink sz by (fastforce simp: vpop_back_def vsize_def)
qed

lemma vpop_front_holds:
  assumes "vec_holds v (x # xs)"
  shows "\<exists>v'. vpop_front v = Some v' \<and> vec_holds v' xs \<and> maxcap v' = maxcap v"
proof -
  let ?v = "v\<lparr>vmem := (vmem v)[vb v := None], vb := vb v + 1\<rparr>"
  have sz: "vsize v = Suc (length xs)" using vec_holds_length [OF assms] by simp
  have c: "vb v \<le> ve v" "ve v \<le> capacity v" "vcells v = Some x # map Some xs" using assms by (auto simp: vec_holds_def)
  have "vcells ?v = drop 1 (vcells v)"
    using c(1,2) sz by (simp add: vcells_def vsize_def take_update_swap)
  then have "vec_holds ?v xs"
    using assms c sz by (auto simp: vec_holds_def capacity_def vsize_def)
  then show ?thesis using shrink_holds sz by (fastforce simp: vpop_front_def vsize_def)
qed

text \<open>Pushing appends as long as nothing was popped at the front.\<close>

lemma construct_holds:
  assumes "vcells v = map Some xs" "vb v = 0" "ve v = length xs" "length xs < capacity v"
    and "capacity v < 2 ^ 32" "valloc v \<longleftrightarrow> vmem v \<noteq> []"
  shows "\<exists>v'. construct (length xs) k (v\<lparr>ve := length xs + 1\<rparr>) = Some v' \<and> vec_holds v' (xs @ [k]) \<and>
    maxcap v' = maxcap v \<and> vb v' = 0"
proof -
  have "take (length xs) (vmem v) = map Some xs" using assms by (simp add: vcells_def)
  then have "take (Suc (length xs)) ((vmem v)[length xs := Some k]) = map Some xs @ [Some k]"
    using assms(4) by (simp add: take_Suc_conv_app_nth capacity_def)
  then show ?thesis
    using assms by (auto simp: construct_def vec_holds_def capacity_def vcells_def)
qed

lemma vpush_back_full: "vec_holds v xs \<Longrightarrow> unat (maxcap v) \<le> length xs \<Longrightarrow> vpush_back k v = Some (None, v)"
proof -
  assume h: "vec_holds v xs" and "unat (maxcap v) \<le> length xs"
  moreover have "length xs < 2 ^ 32" using h vec_holds_length [OF h] by (auto simp: vec_holds_def vsize_def)
  ultimately have "of_nat (vsize v) \<ge> maxcap v" 
    using vec_holds_length [OF h] by (simp add: word_le_nat_alt unat_of_nat_lt)
  then show ?thesis by (simp add: vpush_back_def push_slot_def)
qed

lemma vpush_back_holds:
  assumes h: "vec_holds v xs" and b: "vb v = 0" and room: "length xs < unat (maxcap v)"
  shows "\<exists>v'. vpush_back k v = Some (Some (length xs), v') \<and> vec_holds v' (xs @ [k]) \<and>
    maxcap v' = maxcap v \<and> vb v' = 0"
proof -
  have sz: "ve v = length xs" "vsize v = length xs" using b vec_holds_length [OF h] by (auto simp: vsize_def)
  have cap: "capacity v < 2 ^ 32" "length xs \<le> capacity v" "vcells v = map Some xs" "valloc v \<longleftrightarrow> vmem v \<noteq> []"
    using h sz by (auto simp: vec_holds_def)
  have lt: "length xs < 2 ^ 32" using cap by simp
  then have go: "\<not> of_nat (vsize v) \<ge> maxcap v" using room sz by (simp add: word_le_nat_alt unat_of_nat_lt)
  show ?thesis
  proof (cases "length xs < capacity v")
    case True
    then show ?thesis
      using go sz construct_holds [OF cap(3) b sz(1) True cap(1,4), of k]
      by (auto simp: vpush_back_def push_slot_def Let_def)
  next
    case False
    then have full: "capacity v = length xs" using cap by simp
    define oc :: u32 where "oc = of_nat (capacity v)"
    define n1 where "n1 = (if expand_capacity v < oc + 1 then oc + 1 else expand_capacity v)"
    define n2 where "n2 = (if n1 > maxcap v then maxcap v else n1)"
    have oc: "unat oc = length xs" using lt full by (simp add: oc_def unat_of_nat_lt)
    have "unat (oc + 1) = Suc (length xs)" using oc room unat_u32_lt [of "maxcap v"] by (simp add: unat_add_lt)
    then have n2: "length xs < unat n2" "unat n2 < 2 ^ 32"
      using room unat_u32_lt [of n2] by (auto simp: n2_def n1_def word_less_nat_alt not_less)
    let ?v = "resize_container (unat n2) v"
    have capn: "capacity ?v = unat n2"
      using n2 full cap(3) sz by (auto simp: resize_container_def capacity_def Let_def)
    have rh: "vec_holds ?v xs" using resize_container_holds [OF h n2(2)] n2(1) full by simp
    have vb': "vb ?v = 0" using b by (rule vb_resize_container)
    have sz': "ve ?v = length xs" using vec_holds_length [OF rh] vb' by (simp add: vsize_def)
    have "push_slot v = (Some (vb ?v + unat oc), ?v\<lparr>ve := vb ?v + unat oc + 1\<rparr>)"
      using go False sz(1) unfolding push_slot_def Let_def n2_def n1_def oc_def by simp
    then have slot: "push_slot v = (Some (length xs), ?v\<lparr>ve := length xs + 1\<rparr>)" using vb' oc by simp
    have "vcells ?v = map Some xs" "valloc ?v \<longleftrightarrow> vmem ?v \<noteq> []" "length xs < capacity ?v" "capacity ?v < 2 ^ 32"
      using rh capn n2 by (auto simp: vec_holds_def)
    then show ?thesis
      using slot construct_holds [of ?v xs k] vb' sz' by (auto simp: vpush_back_def)
  qed
qed

lemma vclear_holds: "vec_holds v xs \<Longrightarrow> vec_holds (vclear v) []"
proof -
  assume "vec_holds v xs"
  then have "vec_holds (v\<lparr>vmem := replicate (capacity v) None, vb := 0, ve := 0\<rparr>) []"
    by (auto simp: vec_holds_def capacity_def vcells_def)
  from this resize_container_holds [OF this, of 1] show ?thesis
    by (simp add: vclear_def Let_def split: if_splits)
qed

lemma vresize_holds:
  assumes h: "vec_holds v xs" and b: "vb v = 0" and n: "n \<le> maxcap v"
  shows "vec_holds (vresize n val v) (take (unat n) xs @ replicate (unat n - length xs) val)"
proof -
  let ?v = "resize_container (unat n) v"
  have "length xs \<le> capacity v" using h vec_holds_length [OF h] by (auto simp: vec_holds_def vsize_def)
  then have rh: "vec_holds ?v (take (unat n) xs)"
    using resize_container_holds [OF h, of "unat n"] unat_u32_lt [of n] by (simp split: if_splits)
  have vb': "vb ?v = 0" using b by (rule vb_resize_container)
  have sz: "ve ?v = length (take (unat n) xs)" using vec_holds_length [OF rh] vb' by (simp add: vsize_def)
  have cap: "capacity ?v = unat n"
    using vec_holds_length [OF h] h
    by (auto simp: resize_container_def capacity_def Let_def vec_holds_def vsize_def vcells_def)
  have "take (ve ?v) (vmem ?v) = map Some (take (unat n) xs)" using rh vb' by (simp add: vec_holds_def vcells_def)
  then show ?thesis
    using rh sz cap vb' n by (auto simp: vresize_def Let_def vec_holds_def vcells_def capacity_def not_less)
qed

lemma vget_holds: "vec_holds v xs \<Longrightarrow> i < length xs \<Longrightarrow> vget i v = Some (xs ! i)"
proof -
  assume h: "vec_holds v xs" and i: "i < length xs"
  have "ve v - vb v = length xs" "vb v \<le> ve v" "ve v \<le> length (vmem v)"
    using h vec_holds_length [OF h] by (auto simp: vec_holds_def vsize_def capacity_def)
  then have "vmem v ! (vb v + i) = vcells v ! i" using i by (simp add: vcells_def)
  then show ?thesis using h i vec_holds_length [OF h] by (simp add: vget_def vec_holds_def)
qed

section \<open>The vector as a stack\<close>

definition vpush :: "'a \<Rightarrow> 'a vec \<Rightarrow> 'a vec option" where
  "vpush k v = (case vpush_back k v of Some (Some pos, v') \<Rightarrow> Some v' | _ \<Rightarrow> None)"

definition vec_stack :: "nat \<Rightarrow> 'a vec \<Rightarrow> 'a list \<Rightarrow> bool" where
  "vec_stack M v xs \<longleftrightarrow> vec_holds v xs \<and> vb v = 0 \<and> unat (maxcap v) = M"

interpretation vstack: bounded_stack "vec_stack M" vpush vpop_back M
proof
  show "\<exists>s'. vpush k s = Some s' \<and> vec_stack M s' (xs @ [k])" if "vec_stack M s xs" "length xs < M" for s xs k
    using that vpush_back_holds [of s xs k] by (auto simp: vec_stack_def vpush_def)
  show "\<exists>s'. vpop_back s = Some s' \<and> vec_stack M s' xs" if "vec_stack M s (xs @ [x])" for s xs x
    using that vpop_back_holds [of s xs x] by (auto simp: vec_stack_def)
qed

text \<open>on a new vector of any initial capacity whose maximum capacity is at least
  the number of elements, pushing them one after the other succeeds and the vector then holds
  exactly them, in order, through every reallocation; as many \<open>pop_back\<close>s then succeed and leave it
  empty.\<close>

theorem vector_stack:
  assumes "length xs \<le> unat mc"
  shows "\<exists>v v'. pushes vpush xs (vec_new n c mc) = Some v \<and> vec_holds v xs \<and>
    pops vpop_back (length xs) v = Some v' \<and> vec_holds v' []"
proof -
  have "vec_stack (unat mc) (vec_new n c mc) []"
    using vec_new_holds [of n c mc] by (simp add: vec_stack_def)
  from vstack.pushes_pops [OF this, of xs] assms show ?thesis by (auto simp: vec_stack_def)
qed

theorem vector_stack_witness:
  "\<exists>v v'. pushes vpush [7, 8, 9 :: nat] (vec_new 1 True 16) = Some v \<and> vec_holds v [7, 8, 9] \<and>
    pops vpop_back 3 v = Some v' \<and> vec_holds v' []"
  using vector_stack [of "[7, 8, 9 :: nat]" 16 1 True] by (simp add: numeral_3_eq_3)

text \<open>C34: on a vector that holds \<open>xs\<close>, \<open>operator[]\<close> returns the element at each
  index below the size and halts at the others, \<open>pop_front\<close> and \<open>pop_back\<close> drop an element whether or
  not they shrink the buffer, \<open>clear\<close> empties it; when nothing was popped at the front, \<open>push_back\<close>
  appends below the maximum capacity and returns the null pointer at it, and \<open>resize\<close> within the
  maximum capacity cuts the vector or fills it up.\<close>

theorem vector_operations:
  assumes h: "vec_holds v xs"
  shows "(\<forall>i. vget i v = (if i < length xs then Some (xs ! i) else None)) \<and>
    (xs \<noteq> [] \<longrightarrow> (\<exists>v'. vpop_front v = Some v' \<and> vec_holds v' (tl xs)) \<and>
                  (\<exists>v'. vpop_back v = Some v' \<and> vec_holds v' (butlast xs))) \<and>
    (xs = [] \<longrightarrow> vpop_front v = None \<and> vpop_back v = None) \<and>
    vec_holds (vclear v) [] \<and>
    (unat (maxcap v) \<le> length xs \<longrightarrow> vpush_back k v = Some (None, v)) \<and>
    (vb v = 0 \<longrightarrow>
       (length xs < unat (maxcap v) \<longrightarrow>
          (\<exists>v'. vpush_back k v = Some (Some (length xs), v') \<and> vec_holds v' (xs @ [k]))) \<and>
       (n \<le> maxcap v \<longrightarrow> vec_holds (vresize n k v) (take (unat n) xs @ replicate (unat n - length xs) k)))"
proof -
  have "vget i v = (if i < length xs then Some (xs ! i) else None)" for i
    using vget_holds [OF h] vec_holds_length [OF h] by (simp add: vget_def)
  moreover have "(\<exists>v'. vpop_front v = Some v' \<and> vec_holds v' (tl xs)) \<and>
      (\<exists>v'. vpop_back v = Some v' \<and> vec_holds v' (butlast xs))" if "xs \<noteq> []"
    using that h vpop_front_holds [of v "hd xs" "tl xs"] vpop_back_holds [of v "butlast xs" "last xs"] by auto
  moreover have "vpop_front v = None \<and> vpop_back v = None" if "xs = []"
    using that vec_holds_length [OF h] by (auto simp: vpop_front_def vpop_back_def vsize_def)
  ultimately show ?thesis
    using vclear_holds [OF h] vpush_back_full [OF h] vpush_back_holds [OF h, of k] vresize_holds [OF h] by auto
qed

theorem vector_operations_witness:
  "vec_holds (vresize 2 5 (vec_new 0 True 8)) [5, 5 :: nat]"
proof -
  have "replicate 2 (5 :: nat) = [5, 5]" by (simp add: numeral_2_eq_2)
  moreover have "vb (vec_new 0 True 8 :: nat vec) = 0" using vec_new_holds by blast
  ultimately show ?thesis
    using vector_operations [OF conjunct1 [OF vec_new_holds], of 0 True 8 "5 :: nat" 2] by simp
qed

text \<open>after a \<open>pop_front\<close> the buffer is full while \<open>_begin\<close> is not its
  start; \<open>_push\<close> then puts the element at \<open>_begin + oldcap\<close>. With room to grow this leaves a cell
  that was never constructed inside the vector, and at the maximum capacity the element is
  constructed past the end of the buffer.\<close>

theorem vector_push_after_pop_front:
  "Option.bind (Option.bind (pushes vpush [1, 2, 3, 4 :: nat] (vec_new 4 True 8)) vpop_front)
      (\<lambda>v. map_option (\<lambda>(p, v'). vcells v') (vpush_back 5 v))
     = Some [Some 2, Some 3, Some 4, None, Some 5] \<and>
   Option.bind (Option.bind (pushes vpush [1, 2 :: nat] (vec_new 2 True 2)) vpop_front) (vpush_back 3) = None"
  by code_simp

end
