(* ===== verification/VFS.thy ===== *)
theory VFS
  imports Prelude
begin

text \<open>
  The virtual file system of \<open>kernel/include/fs.h\<close>, \<open>kernel/fs/vfs.cpp\<close> and \<open>kernel/fs/devfs.cpp\<close>.
  Nodes and superblocks are addresses in a store, which stands for the objects behind the
  \<open>shared_ptr\<close>s; the \<open>linked_list\<close>s of children and of bind points are lists, as theory
  \<open>LinkedList\<close> shows. A lookup is \<open>None\<close> when the kernel faults on a null superblock root or does
  not return (a file system bound below itself), \<open>Some None\<close> is the null pointer.
\<close>

section \<open>Inodes, nodes, superblocks, files\<close>

definition MAX_NAME_LEN :: nat where "MAX_NAME_LEN = 256"

definition S_IFMT :: u32 where "S_IFMT = 0xF000"
definition S_IFCHR :: u32 where "S_IFCHR = 0x2000"
definition S_IFDIR :: u32 where "S_IFDIR = 0x4000"
definition S_IFBLK :: u32 where "S_IFBLK = 0x6000"
definition S_IFREG :: u32 where "S_IFREG = 0x8000"
definition S_IFLNK :: u32 where "S_IFLNK = 0xA000"

record inode =
  ino :: u32
  uid :: u32
  gid :: u32
  isize :: u32
  mode :: u32
  dirty :: bool

text \<open>Which override of the virtual function \<open>open\<close> a node has.\<close>

datatype node_class = Plain_node | Tty_node

record vnode =
  ind :: "inode option"
  parent :: "nat option"
  nname :: string
  bind_points :: "nat list"
  children :: "nat list"
  ncls :: node_class

record superblock =
  sb_size :: u32
  type_name :: string
  sb_mode :: u32
  sb_root :: "nat option"

record vfs =
  nodes :: "vnode list"
  sbs :: "superblock list"

datatype file_class = Plain_file | Tty_file

record vfile =
  fnd :: nat
  oflags :: u32
  fmode :: u32
  position :: u32
  fcls :: file_class

definition S_ISDIR :: "u32 \<Rightarrow> bool" where "S_ISDIR m \<longleftrightarrow> m AND S_IFMT = S_IFDIR"

definition is_pipe_mode :: "u32 \<Rightarrow> bool" where
  "is_pipe_mode m \<longleftrightarrow> m AND S_IFMT \<noteq> S_IFREG \<and> m AND S_IFMT \<noteq> S_IFBLK \<and> m AND S_IFMT \<noteq> S_IFLNK"

section \<open>Looking a name up in a directory\<close>

definition is_dir :: "vfs \<Rightarrow> nat \<Rightarrow> bool" where
  "is_dir s n \<longleftrightarrow> (case ind (nodes s ! n) of None \<Rightarrow> False | Some i \<Rightarrow> S_ISDIR (mode i))"

definition find_child :: "vfs \<Rightarrow> nat \<Rightarrow> string \<Rightarrow> nat option" where
  "find_child s n name = find (\<lambda>c. ind (nodes s ! c) \<noteq> None \<and> nname (nodes s ! c) = name) (children (nodes s ! n))"

text \<open>\<open>node::get\<close>: the bind points still to try, then the children.\<close>

partial_function (option) get_binds :: "vfs \<Rightarrow> nat list \<Rightarrow> nat \<Rightarrow> string \<Rightarrow> nat option option" where
  "get_binds s bs n name =
     (case bs of
        [] \<Rightarrow> Some (find_child s n name)
      | b # bs' \<Rightarrow>
          (case sb_root (sbs s ! b) of
             None \<Rightarrow> None
           | Some r \<Rightarrow>
               Option.bind
                 (if is_dir s r then get_binds s (bind_points (nodes s ! r)) r name else Some None)
                 (\<lambda>res. case res of Some x \<Rightarrow> Some (Some x) | None \<Rightarrow> get_binds s bs' n name)))"

definition node_get :: "vfs \<Rightarrow> nat \<Rightarrow> string \<Rightarrow> nat option option" where
  "node_get s n name = (if is_dir s n then get_binds s (bind_points (nodes s ! n)) n name else Some None)"

definition sb_get :: "vfs \<Rightarrow> nat \<Rightarrow> string \<Rightarrow> nat option option" where
  "sb_get s b name = Option.bind (sb_root (sbs s ! b)) (\<lambda>r. node_get s r name)"

section \<open>Walking a path\<close>

text \<open>The inner loop of \<open>node::walk\<close>: the characters of the next name, at most \<open>k\<close>, and the rest.\<close>

fun take_name :: "nat \<Rightarrow> string \<Rightarrow> string \<times> string" where
  "take_name k [] = ([], [])"
| "take_name 0 (c # cs) = ([], c # cs)"
| "take_name (Suc k) (c # cs) =
     (if c = CHR ''/'' then ([], c # cs) else let (n, r) = take_name k cs in (c # n, r))"

definition skip_slash :: "string \<Rightarrow> string" where
  "skip_slash p = (case p of c # cs \<Rightarrow> if c = CHR ''/'' then cs else p | [] \<Rightarrow> [])"

lemma take_name_append: "take_name k p = (n, r) \<Longrightarrow> p = n @ r \<and> length n \<le> k \<and> CHR ''/'' \<notin> set n"
  by (induction k p arbitrary: n r rule: take_name.induct) (auto split: if_splits prod.splits)

lemma take_name_progress: "p \<noteq> [] \<Longrightarrow> length (snd (take_name 256 (skip_slash p))) < length p"
proof -
  assume "p \<noteq> []"
  then obtain c cs where p: "p = c # cs" by (cases p) auto
  obtain n r where nr: "take_name 256 (skip_slash p) = (n, r)" by fastforce
  then have "skip_slash p = n @ r" using take_name_append by blast
  moreover have "n \<noteq> []" if "c \<noteq> CHR ''/''"
    using nr that p by (auto simp: skip_slash_def numeral_eq_Suc split: prod.splits)
  ultimately have "length r < length p"
    using p by (cases "c = CHR ''/''") (auto simp: skip_slash_def Cons_eq_append_conv)
  then show ?thesis using nr by simp
qed

function walk :: "vfs \<Rightarrow> nat option \<Rightarrow> string \<Rightarrow> nat option option" where
  "walk s nd path =
     (case nd of None \<Rightarrow> Some None | Some n \<Rightarrow>
      if path = [] then Some (Some n)
      else let (name, rest) = take_name 256 (skip_slash path) in
        if length name \<ge> MAX_NAME_LEN \<and> rest \<noteq> [] \<and> hd rest \<noteq> CHR ''/'' then Some None
        else if name = [] \<or> name = ''.'' then walk s (Some n) rest
        else if name = ''..'' then walk s (parent (nodes s ! n)) rest
        else Option.bind (node_get s n name) (\<lambda>m. walk s m rest))"
  by pat_completeness auto
termination
proof (relation "measure (\<lambda>(s, nd, p). length p)", goal_cases)
  case 1
  show ?case by simp
qed (use take_name_progress in \<open>(simp; metis prod.sel(2))+\<close>)

definition node_walk :: "vfs \<Rightarrow> nat \<Rightarrow> string \<Rightarrow> nat option option" where
  "node_walk s n path = walk s (Some n) path"

definition sb_walk :: "vfs \<Rightarrow> nat \<Rightarrow> string \<Rightarrow> nat option option" where
  "sb_walk s b path = Option.bind (sb_root (sbs s ! b)) (\<lambda>r. node_walk s r path)"

section \<open>Changing the tree\<close>

definition add_node :: "vnode \<Rightarrow> vfs \<Rightarrow> nat \<times> vfs" where
  "add_node v s = (length (nodes s), s\<lparr>nodes := nodes s @ [v]\<rparr>)"

definition add_child :: "nat \<Rightarrow> nat \<Rightarrow> vfs \<Rightarrow> vfs" where
  "add_child this child s =
     (let s1 = s\<lparr>nodes := (nodes s)[child := (nodes s ! child)\<lparr>parent := Some this\<rparr>]\<rparr>
      in s1\<lparr>nodes := (nodes s1)[this := (nodes s1 ! this)\<lparr>children := children (nodes s1 ! this) @ [child]\<rparr>]\<rparr>)"

definition bind_sb :: "nat \<Rightarrow> nat \<Rightarrow> vfs \<Rightarrow> vfs" where
  "bind_sb this b s =
     s\<lparr>nodes := (nodes s)[this := (nodes s ! this)\<lparr>bind_points := bind_points (nodes s ! this) @ [b]\<rparr>]\<rparr>"

text \<open>A default constructed node, and the inode the initialisers fill in.\<close>

definition new_node :: vnode where
  "new_node = \<lparr>ind = None, parent = None, nname = [], bind_points = [], children = [], ncls = Plain_node\<rparr>"

definition new_inode :: "u32 \<Rightarrow> u32 \<Rightarrow> inode" where
  "new_inode i m = \<lparr>ino = i, uid = 0, gid = 0, isize = 0, mode = m, dirty = False\<rparr>"

definition ROOT_SB :: nat where "ROOT_SB = 0"

definition vfs_empty :: vfs where
  "vfs_empty = \<lparr>nodes = [], sbs = [\<lparr>sb_size = 0, type_name = [], sb_mode = 0, sb_root = None\<rparr>]\<rparr>"

definition fs_init :: "vfs \<Rightarrow> vfs" where
  "fs_init s0 =
     (let (r, s1) = add_node (new_node\<lparr>ind := Some (new_inode 0 (S_IFDIR OR 511)), nname := ''root''\<rparr>) s0;
          s2 = s1\<lparr>sbs := (sbs s1)[ROOT_SB := (sbs s1 ! ROOT_SB)\<lparr>sb_size := 0, type_name := ''vfs_root'',
                 sb_mode := S_IFDIR OR 511, sb_root := Some r\<rparr>]\<rparr>;
          (d, s3) = add_node (new_node\<lparr>ind := Some (new_inode 1 (S_IFDIR OR 511)), nname := ''dev''\<rparr>) s2
      in add_child r d s3)"

definition devfs_init :: "vfs \<Rightarrow> vfs option" where
  "devfs_init s0 =
     (let (r, s1) = add_node (new_node\<lparr>ind := Some (new_inode 0 (S_IFDIR OR 511)), nname := ''dev''\<rparr>) s0;
          (t, s2) = add_node (new_node\<lparr>ind := Some (new_inode 1 (S_IFCHR OR 384)), nname := ''tty'',
                              ncls := Tty_node\<rparr>) s1;
          s3 = add_child r t s2;
          b = length (sbs s3);
          s4 = s3\<lparr>sbs := sbs s3 @ [\<lparr>sb_size = 0, type_name = ''devfs'', sb_mode = S_IFDIR OR 511, sb_root = Some r\<rparr>]\<rparr>
      in case sb_walk s4 ROOT_SB ''/dev'' of
           Some (Some d) \<Rightarrow> Some (bind_sb d b s4)
         | _ \<Rightarrow> None)"

section \<open>Files\<close>

text \<open>\<open>node::open\<close> of a node: \<open>-ENOSYS\<close> unless the class overrides it.\<close>

definition node_open :: "vfs \<Rightarrow> nat \<Rightarrow> errno + vfile" where
  "node_open s n = (case ncls (nodes s ! n) of
     Plain_node \<Rightarrow> Inl ENOSYS
   | Tty_node \<Rightarrow> Inr \<lparr>fnd = n, oflags = 0, fmode = S_IFCHR OR 384, position = 0, fcls = Tty_file\<rparr>)"

definition is_pipe :: "vfs \<Rightarrow> vfile \<Rightarrow> bool" where
  "is_pipe s f = (case ind (nodes s ! fnd f) of None \<Rightarrow> True | Some i \<Rightarrow> is_pipe_mode (mode i))"

definition file_seek :: "vfs \<Rightarrow> u32 \<Rightarrow> vfile \<Rightarrow> errno + vfile" where
  "file_seek s newpos f = (if is_pipe s f then Inl ESPIPE else Inr (f\<lparr>position := newpos\<rparr>))"

text \<open>\<open>tty_file::read\<close> takes characters until a newline or until the buffer is full; \<open>keys\<close> are the
  characters \<open>getch\<close> will return, and running out of them means waiting for ever.\<close>

fun tty_read_loop :: "nat \<Rightarrow> u8 list \<Rightarrow> (u8 list \<times> u8 list) option" where
  "tty_read_loop 0 keys = Some ([], keys)"
| "tty_read_loop (Suc n) [] = None"
| "tty_read_loop (Suc n) (ch # keys) =
     (if ch = 10 then Some ([], keys)
      else map_option (\<lambda>(buf, rest). (ch # buf, rest)) (tty_read_loop n keys))"

definition file_read :: "vfile \<Rightarrow> nat \<Rightarrow> u8 list \<Rightarrow> (errno + (u8 list \<times> vfile)) option \<times> u8 list" where
  "file_read f count keys = (case fcls f of
     Plain_file \<Rightarrow> (Some (Inl EINVAL), keys)
   | Tty_file \<Rightarrow> (case tty_read_loop count keys of
        None \<Rightarrow> (None, [])
      | Some (buf, rest) \<Rightarrow> (Some (Inr (buf, f\<lparr>position := 0\<rparr>)), rest)))"

text \<open>\<open>tty_file::write\<close> puts every byte on the console, whose \<open>put\<close> is a parameter here.\<close>

definition file_write :: "(u8 \<Rightarrow> 'c \<Rightarrow> 'c) \<Rightarrow> vfile \<Rightarrow> u8 list \<Rightarrow> 'c \<Rightarrow> (errno + (u32 \<times> vfile)) \<times> 'c" where
  "file_write put f buf con = (case fcls f of
     Plain_file \<Rightarrow> (Inl EINVAL, con)
   | Tty_file \<Rightarrow> (Inr (of_nat (length buf), f\<lparr>position := 0\<rparr>), fold put buf con))"

section \<open>Walking is resolving the components of the path\<close>

fun split_path :: "string \<Rightarrow> string list" where
  "split_path [] = [[]]"
| "split_path (c # cs) =
     (if c = CHR ''/'' then [] # split_path cs
      else case split_path cs of w # ws \<Rightarrow> (c # w) # ws | [] \<Rightarrow> [[c]])"

definition components :: "string \<Rightarrow> string list" where
  "components p = filter (\<lambda>w. w \<noteq> []) (split_path p)"

fun resolve :: "vfs \<Rightarrow> nat option \<Rightarrow> string list \<Rightarrow> nat option option" where
  "resolve s nd [] = Some nd"
| "resolve s None (w # ws) = Some None"
| "resolve s (Some n) (w # ws) =
     (if length w > MAX_NAME_LEN then Some None
      else if w = ''.'' then resolve s (Some n) ws
      else if w = ''..'' then resolve s (parent (nodes s ! n)) ws
      else Option.bind (node_get s n w) (\<lambda>m. resolve s m ws))"

lemma resolve_None [simp]: "resolve s None ws = Some None"
  by (cases ws) auto

lemma split_path_word:
  "split_path p = takeWhile (\<lambda>c. c \<noteq> CHR ''/'') p #
     (case dropWhile (\<lambda>c. c \<noteq> CHR ''/'') p of [] \<Rightarrow> [] | _ # r \<Rightarrow> split_path r)"
  by (induction p) (auto split: list.splits)

lemma components_slash [simp]: "components (CHR ''/'' # p) = components p"
  by (simp add: components_def)

lemma components_Nil [simp]: "components [] = []"
  by (simp add: components_def)

lemma components_skip_slash: "components (skip_slash p) = components p"
  by (cases p) (auto simp: skip_slash_def)

lemma components_word:
  "components p = (let w = takeWhile (\<lambda>c. c \<noteq> CHR ''/'') p in
     (if w = [] then [] else [w]) @ components (dropWhile (\<lambda>c. c \<noteq> CHR ''/'') p))"
proof (cases "dropWhile (\<lambda>c. c \<noteq> CHR ''/'') p")
  case Nil
  then show ?thesis
    by (subst components_def, subst split_path_word) (simp add: Let_def del: dropWhile_eq_Nil_conv)
next
  case (Cons a r)
  then have "a = CHR ''/''" by (metis (mono_tags, lifting) hd_dropWhile list.distinct(1) list.sel(1))
  then show ?thesis
    using Cons by (subst components_def, subst split_path_word) (simp add: Let_def components_def)
qed

lemma take_name_eq: "take_name k p = (let w = take k (takeWhile (\<lambda>c. c \<noteq> CHR ''/'') p) in (w, drop (length w) p))"
  by (induction k p rule: take_name.induct) (auto simp: Let_def split: prod.splits)

lemma drop_word: "drop (length (takeWhile P p)) p = dropWhile P p"
  by (induction p) auto

text \<open>One iteration of the loop reads one component, or a name that is too long.\<close>

lemma take_name_components:
  assumes "take_name 256 p = (name, rest)"
  shows "if length name \<ge> MAX_NAME_LEN \<and> rest \<noteq> [] \<and> hd rest \<noteq> CHR ''/''
    then \<exists>w ws. components p = w # ws \<and> length w > MAX_NAME_LEN
    else components p = (if name = [] then [] else [name]) @ components rest \<and> length name \<le> MAX_NAME_LEN"
proof -
  let ?P = "\<lambda>c. c \<noteq> CHR ''/''"
  let ?w = "takeWhile ?P p"
  have n: "name = take 256 ?w" "rest = drop (length name) p" using assms by (auto simp: take_name_eq Let_def)
  show ?thesis
  proof (cases "length ?w \<le> 256")
    case True
    then have "name = ?w" "rest = dropWhile ?P p" using n by (simp_all add: drop_word)
    moreover have "rest \<noteq> [] \<Longrightarrow> hd rest = CHR ''/''" using calculation hd_dropWhile [of ?P p] by auto
    ultimately show ?thesis using True components_word [of p] by (auto simp: MAX_NAME_LEN_def Let_def)
  next
    case False
    then have len: "length name = 256" using n by simp
    have "p ! 256 = ?w ! 256" using False by (simp add: takeWhile_nth)
    then have "p ! 256 \<noteq> CHR ''/''" using False nth_mem [of 256 ?w] set_takeWhileD [of "?w ! 256" ?P p] by auto
    moreover have "256 < length p" using False length_takeWhile_le [of ?P p] by linarith
    ultimately have "rest \<noteq> []" "hd rest \<noteq> CHR ''/''" using n len by (auto simp: hd_drop_conv_nth)
    then show ?thesis
      using False len components_word [of p] by (auto simp: MAX_NAME_LEN_def Let_def)
  qed
qed

declare walk.simps [simp del]

lemma walk_resolve: "walk s nd p = resolve s nd (components p)"
proof (induction s nd p rule: walk.induct)
  case (1 s nd p)
  show ?case
  proof (cases nd)
    case None
    then show ?thesis by (simp add: walk.simps)
  next
    case (Some n)
    show ?thesis
    proof (cases "p = []")
      case True
      then show ?thesis using Some by (simp add: walk.simps)
    next
      case False
      obtain name rest where tn: "take_name 256 (skip_slash p) = (name, rest)" by fastforce
      note IH = "1.IH" [OF Some False tn [symmetric] refl]
      note comp = take_name_components [OF tn]
      have step: "walk s nd p =
          (if length name \<ge> MAX_NAME_LEN \<and> rest \<noteq> [] \<and> hd rest \<noteq> CHR ''/'' then Some None
           else if name = [] \<or> name = ''.'' then walk s (Some n) rest
           else if name = ''..'' then walk s (parent (nodes s ! n)) rest
           else Option.bind (node_get s n name) (\<lambda>m. walk s m rest))"
        by (subst walk.simps) (simp add: Some False tn)
      show ?thesis
      proof (cases "length name \<ge> MAX_NAME_LEN \<and> rest \<noteq> [] \<and> hd rest \<noteq> CHR ''/''")
        case True
        then show ?thesis using comp step Some by (auto simp: components_skip_slash)
      next
        case ok: False
        then have c: "components p = (if name = [] then [] else [name]) @ components rest" "length name \<le> MAX_NAME_LEN"
          using comp by (auto simp: components_skip_slash)
        show ?thesis using ok IH c Some unfolding step by (auto intro!: Option.bind_cong)
      qed
    qed
  qed
qed

section \<open>Lookups return\<close>

text \<open>Every address in the store is one of its objects.\<close>

definition vfs_wf :: "vfs \<Rightarrow> bool" where
  "vfs_wf s \<longleftrightarrow>
     (\<forall>n < length (nodes s).
        (case parent (nodes s ! n) of None \<Rightarrow> True | Some p \<Rightarrow> p < length (nodes s)) \<and>
        (\<forall>c \<in> set (children (nodes s ! n)). c < length (nodes s)) \<and>
        (\<forall>b \<in> set (bind_points (nodes s ! n)). b < length (sbs s))) \<and>
     (\<forall>b < length (sbs s). case sb_root (sbs s ! b) of None \<Rightarrow> True | Some r \<Rightarrow> r < length (nodes s))"

text \<open>Every bound superblock has a root and no file system is bound below itself, witnessed by a
  rank that drops at every bind point.\<close>

definition binds_ranked :: "(nat \<Rightarrow> nat) \<Rightarrow> vfs \<Rightarrow> bool" where
  "binds_ranked rank s \<longleftrightarrow>
     (\<forall>n < length (nodes s). \<forall>b \<in> set (bind_points (nodes s ! n)).
        case sb_root (sbs s ! b) of None \<Rightarrow> False | Some r \<Rightarrow> rank r < rank n)"

definition in_store :: "vfs \<Rightarrow> nat option \<Rightarrow> bool" where
  "in_store s nd \<longleftrightarrow> (case nd of None \<Rightarrow> True | Some n \<Rightarrow> n < length (nodes s))"

lemma vfs_wf_root:
  "vfs_wf s \<Longrightarrow> n < length (nodes s) \<Longrightarrow> b \<in> set (bind_points (nodes s ! n)) \<Longrightarrow> sb_root (sbs s ! b) = Some r
     \<Longrightarrow> r < length (nodes s)"
  unfolding vfs_wf_def by fastforce

lemma find_child_in_store: "vfs_wf s \<Longrightarrow> n < length (nodes s) \<Longrightarrow> in_store s (find_child s n name)"
  by (auto simp: find_child_def in_store_def vfs_wf_def find_Some_iff split: option.split)

lemma parent_in_store: "vfs_wf s \<Longrightarrow> n < length (nodes s) \<Longrightarrow> in_store s (parent (nodes s ! n))"
  by (auto simp: vfs_wf_def in_store_def)

lemma get_binds_returns:
  "vfs_wf s \<Longrightarrow> binds_ranked rank s \<Longrightarrow> n < length (nodes s) \<Longrightarrow> set bs \<subseteq> set (bind_points (nodes s ! n)) \<Longrightarrow>
     \<exists>res. get_binds s bs n name = Some res \<and> in_store s res"
proof (induction "rank n" arbitrary: n bs rule: less_induct)
  case less
  show ?case using less.prems(4)
  proof (induction bs)
    case Nil
    show ?case using find_child_in_store [OF less.prems(1,3)] by (subst get_binds.simps) simp
  next
    case (Cons b bs)
    have b: "b \<in> set (bind_points (nodes s ! n))" using Cons.prems by simp
    then obtain r where r: "sb_root (sbs s ! b) = Some r" "rank r < rank n"
      using less.prems(2,3) unfolding binds_ranked_def by (fastforce split: option.splits)
    have "r < length (nodes s)" using vfs_wf_root [OF less.prems(1,3) b r(1)] .
    then obtain res where "get_binds s (bind_points (nodes s ! r)) r name = Some res" "in_store s res"
      using less.hyps [OF r(2) less.prems(1,2)] by blast
    moreover obtain res' where "get_binds s bs n name = Some res'" "in_store s res'" using Cons by auto
    ultimately show ?case by (subst get_binds.simps) (auto simp: r split: option.split)
  qed
qed

lemma node_get_returns:
  "vfs_wf s \<Longrightarrow> binds_ranked rank s \<Longrightarrow> n < length (nodes s) \<Longrightarrow>
     \<exists>res. node_get s n name = Some res \<and> in_store s res"
  using get_binds_returns by (auto simp: node_get_def in_store_def)

lemma resolve_returns:
  "vfs_wf s \<Longrightarrow> binds_ranked rank s \<Longrightarrow> in_store s nd \<Longrightarrow> \<exists>res. resolve s nd ws = Some res \<and> in_store s res"
proof (induction ws arbitrary: nd)
  case (Cons w ws)
  show ?case
  proof (cases nd)
    case (Some n)
    then have n: "n < length (nodes s)" using Cons.prems(3) by (simp add: in_store_def)
    obtain m where "node_get s n w = Some m" "in_store s m"
      using node_get_returns [OF Cons.prems(1,2) n] by blast
    then show ?thesis
      using Some Cons parent_in_store [OF Cons.prems(1) n] by (auto simp: in_store_def)
  qed (simp add: in_store_def)
qed simp

text \<open>C33: \<open>node::walk\<close> of any path, with repeated slashes, dots and over-long names,
  is the resolution of the sequence of its nonempty components from left to right.\<close>

theorem walk_components: "node_walk s n p = resolve s (Some n) (components p)"
  by (simp add: node_walk_def walk_resolve)

text \<open>in a well formed store without cyclic bindings \<open>node::walk\<close> returns for every
  path, with the null pointer or a node of the store.\<close>

theorem walk_returns:
  "vfs_wf s \<Longrightarrow> binds_ranked rank s \<Longrightarrow> n < length (nodes s) \<Longrightarrow>
     \<exists>res. node_walk s n p = Some res \<and> in_store s res"
  using resolve_returns [of s rank "Some n"] by (simp add: node_walk_def walk_resolve in_store_def)

declare get_binds.simps [code]

definition booted :: vfs where
  "booted = (case devfs_init (fs_init vfs_empty) of Some s \<Rightarrow> s | None \<Rightarrow> vfs_empty)"

theorem walk_returns_witness: "\<exists>res. node_walk booted 0 ''dev/tty'' = Some res \<and> in_store booted res"
proof -
  have "vfs_wf booted" "binds_ranked (\<lambda>n. if n = 1 then 1 else 0) booted" "0 < length (nodes booted)"
    by code_simp+
  then show ?thesis by (rule walk_returns)
qed

section \<open>The tree at boot\<close>

text \<open>after \<open>fs::init\<close> and \<open>devfs::init\<close> (neither of which faults) the path
  \<open>/dev/tty\<close> leads through the bind point to the terminal node, whose \<open>open\<close> gives a terminal file,
  while opening the directory \<open>/dev\<close> is \<open>-ENOSYS\<close>. The root of the bound file system has no
  parent, so \<open>..\<close> out of it finds nothing although \<open>..\<close> out of \<open>/dev\<close> does.\<close>

theorem devfs_tty:
  "devfs_init (fs_init vfs_empty) = Some booted \<and> sb_walk booted ROOT_SB ''/dev/tty'' = Some (Some 3) \<and>
   map_sum id fcls (node_open booted 3) = Inr Tty_file \<and>
   Option.bind (sb_walk booted ROOT_SB ''/dev'') (map_option (node_open booted)) = Some (Inl ENOSYS) \<and>
   sb_walk booted ROOT_SB ''//dev/./../dev//tty'' = Some (Some 3) \<and>
   sb_walk booted ROOT_SB ''/dev/tty/../../dev'' = Some None"
  by code_simp

text \<open>A child added under a name no other child and no bound file system has is found by it.\<close>

lemma find_append_None: "find P xs = None \<Longrightarrow> find P (xs @ ys) = find P ys"
  by (induction xs) (auto split: if_splits)

lemma add_child_get:
  assumes "is_dir s n" "bind_points (nodes s ! n) = []" "n < length (nodes s)" "c < length (nodes s)" "c \<noteq> n"
    and "ind (nodes s ! c) \<noteq> None" "find_child s n (nname (nodes s ! c)) = None" "n \<notin> set (children (nodes s ! n))"
  shows "node_get (add_child n c s) n (nname (nodes s ! c)) = Some (Some c)"
proof -
  let ?s = "add_child n c s"
  have keep: "ind (nodes ?s ! d) = ind (nodes s ! d) \<and> nname (nodes ?s ! d) = nname (nodes s ! d)" for d
    using assms(3-5) by (cases "d = c"; cases "d = n") (auto simp: add_child_def Let_def nth_list_update)
  have ch: "children (nodes ?s ! n) = children (nodes s ! n) @ [c]" "bind_points (nodes ?s ! n) = []"
    using assms(2-5) by (auto simp: add_child_def Let_def)
  have "is_dir ?s n" using assms(1) keep by (simp add: is_dir_def)
  moreover have "find_child ?s n (nname (nodes s ! c)) = Some c"
    using assms(6,7) keep by (simp add: find_child_def ch find_append_None)
  ultimately show ?thesis by (simp add: node_get_def ch) (subst get_binds.simps, simp)
qed

section \<open>Reading the terminal\<close>

lemma tty_read_loop_eq:
  "tty_read_loop n keys =
     (let buf = takeWhile (\<lambda>c. c \<noteq> 10) (take n keys) in
      if length buf = n then Some (buf, drop n keys)
      else if length buf < length keys then Some (buf, drop (length buf + 1) keys) else None)"
  by (induction n keys rule: tty_read_loop.induct) (auto simp: Let_def)

text \<open>reading from the terminal returns the characters typed before the newline,
  at most \<open>count\<close> of them, consumes the newline only when it ended the line, and blocks for ever
  exactly when fewer than \<open>count\<close> characters and no newline are coming. The count of bytes and the
  characters left are accounted for.\<close>

theorem tty_read_line:
  "file_read f count keys = (case fcls f of
     Plain_file \<Rightarrow> (Some (Inl EINVAL), keys)
   | Tty_file \<Rightarrow>
      let buf = takeWhile (\<lambda>c. c \<noteq> 10) (take count keys) in
      if length buf = count then (Some (Inr (buf, f\<lparr>position := 0\<rparr>)), drop count keys)
      else if 10 \<in> set keys then (Some (Inr (buf, f\<lparr>position := 0\<rparr>)), drop (length buf + 1) keys)
      else (None, []))"
proof -
  have "length (takeWhile (\<lambda>c. c \<noteq> 10) (take count keys)) < length keys \<longleftrightarrow> 10 \<in> set keys"
    if "length (takeWhile (\<lambda>c. c \<noteq> 10) (take count keys)) \<noteq> count"
    using that
  proof (induction count arbitrary: keys)
    case (Suc n)
    then show ?case by (cases keys) auto
  qed simp
  then show ?thesis by (simp add: file_read_def tty_read_loop_eq Let_def split: file_class.split)
qed

end
