(* ===== verification/Buddy.thy ===== *)
theory Buddy
  imports Intrusive Bitmap
begin

text \<open>
  The physical frame allocator of \<open>kernel/mem/paging.cpp\<close>: one list of free blocks and one bitmap
  per order, over one \<open>page_list_entry\<close> per frame (\<open>kernel/include/paging.h\<close>). A list link is the
  sentinel of an order or the entry of a frame. Frame numbers are natural numbers, as all are below
  \<open>2^20\<close>. The operations are \<open>None\<close> where the kernel halts or a bitmap is accessed outside its
  array.

  The invariant ties the lists, the order fields and the bitmaps to a set of free and a set of
  allocated blocks that are aligned and pairwise disjoint; the lemmas show that \<open>alloc_frames\<close> and
  \<open>free_frames\<close> keep it.
\<close>

section \<open>The state\<close>

definition BUDDY_MAX_ORDER :: nat where "BUDDY_MAX_ORDER = 10"
definition PAGE_SHIFT :: nat where "PAGE_SHIFT = 12"

datatype ple = NilE nat | Pg nat

record buddy =
  pnext :: "ple \<Rightarrow> ple"
  pprev :: "ple \<Rightarrow> ple"
  porder :: "nat \<Rightarrow> nat"
  bmap :: "nat \<Rightarrow> bitmap"
  num_avail :: "nat \<Rightarrow> int"
  memory_size :: u32

definition ple_insert :: "ple \<Rightarrow> ple \<Rightarrow> buddy \<Rightarrow> buddy" where
  "ple_insert this x s0 =
     (let s1 = s0\<lparr>pprev := (pprev s0)(pnext s0 this := x)\<rparr>;
          s2 = s1\<lparr>pprev := (pprev s1)(x := this)\<rparr>;
          s3 = s2\<lparr>pnext := (pnext s2)(x := pnext s2 this)\<rparr>
      in s3\<lparr>pnext := (pnext s3)(this := x)\<rparr>)"

definition ple_remove :: "ple \<Rightarrow> buddy \<Rightarrow> buddy" where
  "ple_remove this s0 =
     (let s1 = s0\<lparr>pnext := (pnext s0)(pprev s0 this := pnext s0 this)\<rparr>
      in s1\<lparr>pprev := (pprev s1)(pnext s1 this := pprev s1 this)\<rparr>)"

interpretation frames: intrusive pnext pprev ple_insert ple_remove
  by unfold_locales (auto simp: ple_insert_def ple_remove_def Let_def fun_eq_iff)

definition get_buddy :: "nat \<Rightarrow> nat \<Rightarrow> nat" where
  "get_buddy x order = x XOR push_bit order 1"

definition map_set :: "nat \<Rightarrow> nat \<Rightarrow> bool \<Rightarrow> buddy \<Rightarrow> buddy option" where
  "map_set x pos v s = map_option (\<lambda>b. s\<lparr>bmap := (bmap s)(x := b)\<rparr>) (bitmap_set (of_nat pos) v (bmap s x))"

section \<open>Allocation\<close>

function find_order :: "buddy \<Rightarrow> nat \<Rightarrow> nat" where
  "find_order s x = (if x \<le> BUDDY_MAX_ORDER \<and> pnext s (NilE x) = NilE x then find_order s (x + 1) else x)"
  by pat_completeness auto
termination by (relation "measure (\<lambda>(s, x). Suc BUDDY_MAX_ORDER - x)") auto

declare find_order.simps [simp del]

text \<open>Putting the block \<open>idx\<close> on the free list of order \<open>x\<close>, as allocation, freeing and
  initialisation all do.\<close>

definition put_free :: "nat \<Rightarrow> nat \<Rightarrow> buddy \<Rightarrow> buddy option" where
  "put_free idx x s0 = do {
     let s1 = s0\<lparr>porder := (porder s0)(idx := x)\<rparr>;
     let s2 = ple_insert (NilE x) (Pg idx) s1;
     s3 \<leftarrow> map_set x (idx div 2 ^ x) True s2;
     Some (s3\<lparr>num_avail := (num_avail s3)(x := num_avail s3 x + 1)\<rparr>) }"

fun split_loop :: "nat \<Rightarrow> nat \<Rightarrow> nat \<Rightarrow> buddy \<Rightarrow> buddy option" where
  "split_loop order idx 0 s = Some s"
| "split_loop order idx (Suc x) s =
     (if x \<ge> order then Option.bind (put_free (get_buddy idx x) x s) (split_loop order idx x) else Some s)"

definition alloc_frames :: "nat \<Rightarrow> buddy \<Rightarrow> (nat option \<times> buddy) option" where
  "alloc_frames order s0 =
     (if order > BUDDY_MAX_ORDER then None
      else let x = find_order s0 order in
        if x > BUDDY_MAX_ORDER then Some (None, s0)
        else case pnext s0 (NilE x) of
          NilE y \<Rightarrow> None
        | Pg idx \<Rightarrow> do {
            let s1 = ple_remove (Pg idx) s0;
            let s2 = s1\<lparr>num_avail := (num_avail s1)(x := num_avail s1 x - 1)\<rparr>;
            s3 \<leftarrow> split_loop order idx x s2;
            let s4 = s3\<lparr>porder := (porder s3)(idx := order)\<rparr>;
            s5 \<leftarrow> map_set order (idx div 2 ^ order) False s4;
            Some (Some (idx * 2 ^ PAGE_SHIFT), s5) })"

section \<open>Freeing\<close>

definition frames_total :: "buddy \<Rightarrow> nat" where
  "frames_total s = unat (memory_size s) div 2 ^ PAGE_SHIFT"

text \<open>The loop of \<open>free_frames\<close>: merge with free buddies as long as there are any. It returns the
  block and the order reached.\<close>

function merge_loop :: "nat \<Rightarrow> nat \<Rightarrow> buddy \<Rightarrow> (nat \<times> nat \<times> buddy) option" where
  "merge_loop idx x s =
     (if x \<le> BUDDY_MAX_ORDER then
        let b = get_buddy idx x in
        if b < frames_total s \<and> porder s b = x then
          (case bitmap_get (bmap s x) (of_nat (b div 2 ^ x)) of
             None \<Rightarrow> None
           | Some False \<Rightarrow> Some (idx, x, s)
           | Some True \<Rightarrow>
               Option.bind (map_set x (b div 2 ^ x) False (ple_remove (Pg b) s))
                 (\<lambda>s2. merge_loop (if b < idx then b else idx) (x + 1)
                    (s2\<lparr>num_avail := (num_avail s2)(x := num_avail s2 x - 1)\<rparr>)))
        else Some (idx, x, s)
      else Some (idx, x, s))"
  by pat_completeness auto
termination by (relation "measure (\<lambda>(i, x, s). Suc BUDDY_MAX_ORDER - x)") auto

declare merge_loop.simps [simp del]

definition free_frames :: "u32 \<Rightarrow> buddy \<Rightarrow> (u32 \<times> buddy) option" where
  "free_frames p s0 =
     (if \<not> p < memory_size s0 then None
      else let idx = unat p div 2 ^ PAGE_SHIFT in
        if porder s0 idx > BUDDY_MAX_ORDER then None
        else do {
          (i, x, s1) \<leftarrow> merge_loop idx (porder s0 idx) s0;
          let ord = min x BUDDY_MAX_ORDER;
          s2 \<leftarrow> put_free i ord s1;
          Some (push_bit ord 1, s2) })"

section \<open>Initialisation\<close>

text \<open>The entries start with order \<open>0xff\<close>, the lists empty, the maps clear.\<close>

definition buddy_empty :: "u32 \<Rightarrow> buddy" where
  "buddy_empty mem_sz =
     \<lparr>pnext = (\<lambda>e. e), pprev = (\<lambda>e. e), porder = (\<lambda>_. 255),
      bmap = (\<lambda>i. bitmap_new (of_nat (unat mem_sz div 2 ^ PAGE_SHIFT div 2 ^ i))), num_avail = (\<lambda>_. 0),
      memory_size = mem_sz\<rparr>"

fun fit_order :: "nat \<Rightarrow> nat \<Rightarrow> nat \<Rightarrow> nat" where
  "fit_order i mem 0 = 0"
| "fit_order i mem (Suc x) = (if i + 2 ^ Suc x > mem then fit_order i mem x else Suc x)"

function make_blocks :: "nat \<Rightarrow> nat \<Rightarrow> nat \<Rightarrow> buddy \<Rightarrow> buddy option" where
  "make_blocks mem i x s =
     (if i < mem then
        let x' = fit_order i mem x in Option.bind (put_free i x' s) (make_blocks mem (i + 2 ^ x') x')
      else Some s)"
  by pat_completeness auto
termination by (relation "measure (\<lambda>(mem, i, x, s). mem - i)") (auto simp: diff_less_mono2)

declare make_blocks.simps [simp del]

text \<open>The part of \<open>paging::init\<close> that sets the allocator up; \<open>first\<close> is the first frame above the
  kernel image and the placement area, a multiple of 1024.\<close>

definition buddy_init :: "u32 \<Rightarrow> nat \<Rightarrow> buddy option" where
  "buddy_init mem_sz first = make_blocks (unat mem_sz div 2 ^ PAGE_SHIFT) first BUDDY_MAX_ORDER (buddy_empty mem_sz)"

section \<open>Blocks and tilings\<close>

type_synonym block = "nat \<times> nat"

definition frames_of :: "block \<Rightarrow> nat set" where
  "frames_of b = {fst b ..< fst b + 2 ^ snd b}"

definition block_wf :: "nat \<Rightarrow> block \<Rightarrow> bool" where
  "block_wf N b \<longleftrightarrow> snd b \<le> 10 \<and> 2 ^ snd b dvd fst b \<and> fst b + 2 ^ snd b \<le> N"

definition covered :: "block set \<Rightarrow> nat set" where
  "covered B = (\<Union>b \<in> B. frames_of b)"

definition apart :: "block set \<Rightarrow> bool" where
  "apart B \<longleftrightarrow> (\<forall>b \<in> B. \<forall>c \<in> B. b \<noteq> c \<longrightarrow> frames_of b \<inter> frames_of c = {})"

text \<open>The blocks are aligned, disjoint, and fill whole groups of 1024 frames.\<close>

definition chunked :: "nat \<Rightarrow> nat set \<Rightarrow> bool" where
  "chunked N C \<longleftrightarrow> (\<forall>p \<in> C. \<forall>q < N. q div 1024 = p div 1024 \<longrightarrow> q \<in> C)"

definition tiling :: "nat \<Rightarrow> block set \<Rightarrow> bool" where
  "tiling N B \<longleftrightarrow> (\<forall>b \<in> B. block_wf N b) \<and> apart B \<and> chunked N (covered B)"

definition blocks_ok :: "nat \<Rightarrow> block set \<Rightarrow> bool" where
  "blocks_ok N B \<longleftrightarrow> (\<forall>b \<in> B. block_wf N b) \<and> apart B"

lemma frames_of_iff [simp]: "p \<in> frames_of (i, k) \<longleftrightarrow> i \<le> p \<and> p < i + 2 ^ k"
  by (simp add: frames_of_def)

lemma frames_of_div: "2 ^ k dvd i \<Longrightarrow> p \<in> frames_of (i, k) \<longleftrightarrow> p div 2 ^ k = i div 2 ^ k"
proof -
  assume "2 ^ k dvd i"
  then obtain m where i: "i = 2 ^ k * m" by blast
  have "p \<in> frames_of (i, k) \<longleftrightarrow> m * 2 ^ k \<le> p \<and> p < Suc m * 2 ^ k" using i by (simp add: algebra_simps)
  also have "\<dots> \<longleftrightarrow> p div 2 ^ k = m"
  proof
    assume "m * 2 ^ k \<le> p \<and> p < Suc m * 2 ^ k"
    then show "p div 2 ^ k = m" by (intro div_nat_eqI) (simp_all add: mult.commute)
  next
    assume "p div 2 ^ k = m"
    moreover have "p = p div 2 ^ k * 2 ^ k + p mod 2 ^ k" by (rule div_mult_mod_eq [symmetric])
    moreover have "p mod 2 ^ k < 2 ^ k" by simp
    ultimately show "m * 2 ^ k \<le> p \<and> p < Suc m * 2 ^ k" by (metis add.commute add_less_cancel_left le_add1 mult_Suc)
  qed
  finally show ?thesis using i by simp
qed

lemma covered_insert [simp]: "covered (insert b B) = frames_of b \<union> covered B"
  by (simp add: covered_def)

lemma covered_Un [simp]: "covered (B \<union> C) = covered B \<union> covered C"
  by (auto simp: covered_def)

lemma head_in_frames [simp]: "i \<in> frames_of (i, k)"
  by simp

lemma apart_subset: "apart B \<Longrightarrow> C \<subseteq> B \<Longrightarrow> apart C"
  unfolding apart_def by blast

lemma apartD: "apart B \<Longrightarrow> b \<in> B \<Longrightarrow> c \<in> B \<Longrightarrow> p \<in> frames_of b \<Longrightarrow> p \<in> frames_of c \<Longrightarrow> b = c"
  unfolding apart_def by blast

lemma apart_insert:
  assumes "b \<notin> B"
  shows "apart (insert b B) \<longleftrightarrow> apart B \<and> frames_of b \<inter> covered B = {}"
proof
  assume a: "apart (insert b B)"
  have "c = b" if "c \<in> B" "p \<in> frames_of b" "p \<in> frames_of c" for c p
    using apartD [OF a, of c b p] that by blast
  then have "frames_of b \<inter> covered B = {}" using assms unfolding covered_def by blast
  then show "apart B \<and> frames_of b \<inter> covered B = {}" using apart_subset [OF a] by blast
next
  assume a: "apart B \<and> frames_of b \<inter> covered B = {}"
  then have "frames_of b \<inter> frames_of c = {}" if "c \<in> B" for c using that unfolding covered_def by blast
  then show "apart (insert b B)" using a unfolding apart_def by (metis Int_commute insert_iff)
qed

lemma blocks_ok_subset: "tiling N B \<Longrightarrow> C \<subseteq> B \<Longrightarrow> blocks_ok N C"
  unfolding tiling_def blocks_ok_def using apart_subset by blast

lemma apart_head: "apart B \<Longrightarrow> (i, k) \<in> B \<Longrightarrow> (j, m) \<in> B \<Longrightarrow> i \<in> frames_of (j, m) \<Longrightarrow> i = j \<and> k = m"
  by (drule apartD [of _ "(i, k)" "(j, m)" i]) simp_all

subsection \<open>Buddies\<close>

lemma get_buddy_mult: "get_buddy (2 ^ k * m) k = 2 ^ k * (if even m then m + 1 else m - 1)"
proof -
  have "get_buddy (2 ^ k * m) k = push_bit k m XOR push_bit k 1"
    by (simp add: get_buddy_def push_bit_eq_mult mult.commute)
  also have "\<dots> = push_bit k (m XOR Suc 0)" by (simp only: push_bit_xor One_nat_def)
  also have "m XOR Suc 0 = (if even m then m + 1 else m - 1)" by (simp only: xor_Suc_0_eq) simp
  finally show ?thesis by (simp add: push_bit_eq_mult mult.commute)
qed

lemma get_buddy_even: "2 ^ Suc k dvd i \<Longrightarrow> get_buddy i k = i + 2 ^ k"
proof -
  assume "2 ^ Suc k dvd i"
  then obtain n where "i = 2 ^ k * (2 * n)" by (auto simp: mult.assoc)
  then show ?thesis using get_buddy_mult [of k "2 * n"] by simp
qed

lemma get_buddy_cases:
  assumes "2 ^ k dvd i"
  obtains "2 ^ Suc k dvd i" "get_buddy i k = i + 2 ^ k"
  | j where "2 ^ Suc k dvd j" "i = j + 2 ^ k" "get_buddy i k = j"
proof -
  obtain m where m: "i = 2 ^ k * m" using assms by blast
  show ?thesis
  proof (cases "even m")
    case True
    then obtain n where "m = 2 * n" by blast
    then have "2 ^ Suc k dvd i" using m by simp
    then show ?thesis using that(1) get_buddy_even by blast
  next
    case False
    then obtain n where n: "m = 2 * n + 1" by (auto elim: oddE)
    then have "i = 2 ^ Suc k * n + 2 ^ k" using m by (simp add: algebra_simps)
    moreover have "get_buddy i k = 2 ^ Suc k * n" using get_buddy_mult [of k m] m n by simp
    ultimately show ?thesis using that(2) [of "2 ^ Suc k * n"] by simp
  qed
qed

lemma frames_of_halves: "frames_of (i, Suc k) = frames_of (i, k) \<union> frames_of (i + 2 ^ k, k)"
  by (auto simp: frames_of_def)

lemma halves_disjoint: "frames_of (i, k) \<inter> frames_of (i + 2 ^ k, k) = {}"
  by (auto simp: frames_of_def)

text \<open>The pair of a block and its buddy is a block of the next order.\<close>

lemma buddy_pair:
  assumes "2 ^ k dvd i" "b = get_buddy i k"
  shows "frames_of (min i b, Suc k) = frames_of (i, k) \<union> frames_of (b, k)"
    "frames_of (i, k) \<inter> frames_of (b, k) = {}" "2 ^ Suc k dvd min i b" "2 ^ k dvd b" "b \<noteq> i"
    "min i b = (if b < i then b else i)" "max i b = min i b + 2 ^ k" "b div 2 ^ Suc k = i div 2 ^ Suc k"
proof -
  have *: "frames_of (min i b, Suc k) = frames_of (i, k) \<union> frames_of (b, k) \<and>
    frames_of (i, k) \<inter> frames_of (b, k) = {} \<and> 2 ^ Suc k dvd min i b \<and> 2 ^ k dvd b \<and> b \<noteq> i \<and>
    min i b = (if b < i then b else i) \<and> max i b = min i b + 2 ^ k"
    using assms(1)
  proof (cases rule: get_buddy_cases)
    case 1
    then show ?thesis using assms halves_disjoint [of i k] by (auto simp: frames_of_halves min_def)
  next
    case (2 j)
    moreover have "2 ^ k dvd j" using 2(1) by (meson dvd_trans le_imp_power_dvd lessI less_imp_le)
    ultimately show ?thesis using assms halves_disjoint [of j k] by (auto simp: frames_of_halves min_def)
  qed
  have "i \<in> frames_of (min i b, Suc k)" "b \<in> frames_of (min i b, Suc k)" using * by auto
  then have "b div 2 ^ Suc k = i div 2 ^ Suc k" using * frames_of_div by metis
  with * show "frames_of (min i b, Suc k) = frames_of (i, k) \<union> frames_of (b, k)"
    "frames_of (i, k) \<inter> frames_of (b, k) = {}" "2 ^ Suc k dvd min i b" "2 ^ k dvd b" "b \<noteq> i"
    "min i b = (if b < i then b else i)" "max i b = min i b + 2 ^ k" "b div 2 ^ Suc k = i div 2 ^ Suc k"
    by blast+
qed

lemma tiling_split:
  assumes t: "tiling N (insert (i, Suc k) B)" and n: "(i, Suc k) \<notin> B"
  shows "tiling N (insert (i, k) (insert (get_buddy i k, k) B))" "get_buddy i k = i + 2 ^ k"
    "(i, k) \<notin> insert (get_buddy i k, k) B" "(get_buddy i k, k) \<notin> B"
proof -
  have wf: "Suc k \<le> 10" "2 ^ Suc k dvd i" "i + 2 ^ Suc k \<le> N" using t by (auto simp: tiling_def block_wf_def)
  then have dv: "2 ^ k dvd i" by (meson dvd_trans le_imp_power_dvd lessI less_imp_le)
  show b: "get_buddy i k = i + 2 ^ k" using wf(2) by (rule get_buddy_even)
  have ap: "apart B" "frames_of (i, Suc k) \<inter> covered B = {}" using t n by (auto simp: tiling_def apart_insert)
  have "i \<in> frames_of (i, Suc k)" "i + 2 ^ k \<in> frames_of (i, Suc k)" by simp_all
  then have heads: "i \<notin> covered B" "i + 2 ^ k \<notin> covered B" using ap(2) by blast+
  show nb: "(get_buddy i k, k) \<notin> B" "(i, k) \<notin> insert (get_buddy i k, k) B"
    using heads b head_in_frames unfolding covered_def by fastforce+
  have "apart (insert (i, k) (insert (get_buddy i k, k) B))"
    using ap nb b halves_disjoint [of i k] by (auto simp: apart_insert frames_of_halves)
  moreover have "covered (insert (i, k) (insert (get_buddy i k, k) B)) = covered (insert (i, Suc k) B)"
    using b by (auto simp: frames_of_halves)
  ultimately show "tiling N (insert (i, k) (insert (get_buddy i k, k) B))"
    using t wf dv b by (auto simp: tiling_def block_wf_def)
qed

lemma tiling_merge:
  assumes t: "tiling N (insert (i, k) B)" and n: "(i, k) \<notin> B" and b: "b = get_buddy i k" "(b, k) \<in> B" and k: "k < 10"
  shows "tiling N (insert (min i b, Suc k) (B - {(b, k)}))" "(min i b, Suc k) \<notin> B"
    "covered (insert (min i b, Suc k) (B - {(b, k)})) = covered (insert (i, k) B)"
proof -
  have dv: "2 ^ k dvd i" using t by (auto simp: tiling_def block_wf_def)
  note bp = buddy_pair [OF dv b(1)]
  have B: "B = insert (b, k) (B - {(b, k)})" using b by blast
  have ap: "apart (insert (i, k) B)" using t by (simp add: tiling_def)
  then have apB: "apart B" "frames_of (i, k) \<inter> covered B = {}" using n by (simp_all add: apart_insert)
  have cB: "covered B = frames_of (b, k) \<union> covered (B - {(b, k)})" using B by (metis covered_insert)
  have ap': "apart (B - {(b, k)})" "frames_of (b, k) \<inter> covered (B - {(b, k)}) = {}"
    using apB(1) B apart_insert [of "(b, k)" "B - {(b, k)}"] by simp_all
  have ap'': "frames_of (i, k) \<inter> covered (B - {(b, k)}) = {}" using apB(2) cB by blast
  show nin: "(min i b, Suc k) \<notin> B"
  proof
    assume m: "(min i b, Suc k) \<in> B"
    have "i \<in> frames_of (min i b, Suc k)" using bp(1) by simp
    then show False using apart_head [OF ap, of i k "min i b" "Suc k"] m by simp
  qed
  show cov: "covered (insert (min i b, Suc k) (B - {(b, k)})) = covered (insert (i, k) B)"
    using bp(1) cB by (simp only: covered_insert) blast
  have "max i b + 2 ^ k \<le> N" using t b by (auto simp: tiling_def block_wf_def max_def)
  then have "block_wf N (min i b, Suc k)" using bp k by (auto simp: block_wf_def)
  moreover have "apart (insert (min i b, Suc k) (B - {(b, k)}))"
    using nin ap' ap'' bp(1) by (subst apart_insert) (auto simp del: frames_of_iff)
  ultimately show "tiling N (insert (min i b, Suc k) (B - {(b, k)}))"
    using t cov by (auto simp: tiling_def)
qed

section \<open>The invariant of the allocator\<close>

text \<open>\<open>F x\<close> are the heads of the blocks on the free list of order \<open>x\<close>, \<open>A\<close> the allocated blocks.\<close>

definition free_blocks :: "(nat \<Rightarrow> nat list) \<Rightarrow> block set" where
  "free_blocks F = {(i, k). k \<le> 10 \<and> i \<in> set (F k)}"

definition lists_ok :: "buddy \<Rightarrow> (nat \<Rightarrow> nat list) \<Rightarrow> bool" where
  "lists_ok s F \<longleftrightarrow> (\<forall>x \<le> 10. dring (pnext s) (pprev s) (NilE x) (map Pg (F x)) \<and> num_avail s x = int (length (F x)))"

definition maps_ok :: "buddy \<Rightarrow> bool" where
  "maps_ok s \<longleftrightarrow> (\<forall>x \<le> 10. bitmap_ok (bmap s x) \<and> unat (nbits (bmap s x)) = frames_total s div 2 ^ x)"

definition marked :: "buddy \<Rightarrow> block set \<Rightarrow> bool \<Rightarrow> bool" where
  "marked s B v \<longleftrightarrow> (\<forall>i k. (i, k) \<in> B \<longrightarrow> porder s i = k \<and> bits_of (bmap s k) (i div 2 ^ k) = v)"

definition repr :: "buddy \<Rightarrow> (nat \<Rightarrow> nat list) \<Rightarrow> block set \<Rightarrow> bool" where
  "repr s F A \<longleftrightarrow> lists_ok s F \<and> maps_ok s \<and> marked s (free_blocks F) True \<and> marked s A False"

text \<open>No group of frames outside the blocks looks like a free block of the largest order.\<close>

definition junk_ok :: "buddy \<Rightarrow> nat set \<Rightarrow> bool" where
  "junk_ok s C \<longleftrightarrow> (\<forall>h < frames_total s. 1024 dvd h \<longrightarrow> h \<notin> C \<longrightarrow> porder s h = 10 \<longrightarrow>
     h + 1024 \<le> frames_total s \<and> \<not> bits_of (bmap s 10) (h div 1024))"

definition buddy_inv :: "buddy \<Rightarrow> (nat \<Rightarrow> nat list) \<Rightarrow> block set \<Rightarrow> bool" where
  "buddy_inv s F A \<longleftrightarrow> repr s F A \<and> free_blocks F \<inter> A = {} \<and> tiling (frames_total s) (free_blocks F \<union> A) \<and>
     junk_ok s (covered (free_blocks F \<union> A))"

lemma markedD: "marked s B v \<Longrightarrow> (i, k) \<in> B \<Longrightarrow> porder s i = k \<and> bits_of (bmap s k) (i div 2 ^ k) = v"
  unfolding marked_def by blast

lemma markedI: "(\<And>i k. (i, k) \<in> B \<Longrightarrow> porder s i = k \<and> bits_of (bmap s k) (i div 2 ^ k) = v) \<Longrightarrow> marked s B v"
  unfolding marked_def by blast

lemma marked_subset: "marked s B v \<Longrightarrow> C \<subseteq> B \<Longrightarrow> marked s C v"
  unfolding marked_def by blast

lemma frames_total_lt: "frames_total s < 2 ^ 32"
  unfolding frames_total_def
  by (rule le_less_trans [OF div_le_dividend]) (use unat_u32_lt [of "memory_size s"] in simp)

lemma block_index: "block_wf N (i, k) \<Longrightarrow> i div 2 ^ k < N div 2 ^ k"
proof -
  assume w: "block_wf N (i, k)"
  then have "(i + 2 ^ k) div 2 ^ k \<le> N div 2 ^ k" by (intro div_le_mono) (simp add: block_wf_def)
  moreover have "(i + 2 ^ k) div 2 ^ k = Suc (i div 2 ^ k)" by (simp add: div_add_self2)
  ultimately show ?thesis by (simp only: Suc_le_eq)
qed

lemma aligned_index: "2 ^ k dvd i \<Longrightarrow> 2 ^ k dvd j \<Longrightarrow> i div 2 ^ k = j div 2 ^ k \<Longrightarrow> i = (j :: nat)"
  by (metis dvd_mult_div_cancel)

lemma repr_disjoint: "repr s F A \<Longrightarrow> free_blocks F \<inter> A = {}"
proof -
  assume "repr s F A"
  then have "marked s (free_blocks F) True" "marked s A False" by (simp_all add: repr_def)
  then have "(i, k) \<notin> A" if "(i, k) \<in> free_blocks F" for i k using that markedD by blast
  then show ?thesis by auto
qed

text \<open>Writing a bit of one of the maps.\<close>

lemma map_set_ok:
  assumes "maps_ok s" "x \<le> 10" "pos < frames_total s div 2 ^ x"
  shows "\<exists>b. map_set x pos v s = Some (s\<lparr>bmap := (bmap s)(x := b)\<rparr>) \<and> bitmap_ok b \<and> nbits b = nbits (bmap s x) \<and>
    (\<forall>q < frames_total s div 2 ^ x. bits_of b q = (if q = pos then v else bits_of (bmap s x) q))"
proof -
  have n: "bitmap_ok (bmap s x)" "unat (nbits (bmap s x)) = frames_total s div 2 ^ x"
    using assms by (simp_all add: maps_ok_def)
  have "pos < 2 ^ 32" using assms(3) frames_total_lt [of s] div_le_dividend [of "frames_total s" "2 ^ x"] by linarith
  then have u: "unat (of_nat pos :: u32) = pos" by (intro unat_of_nat_lt) simp
  then have "(of_nat pos :: u32) < nbits (bmap s x)" using n assms(3) by (simp add: word_less_nat_alt)
  from bitmap_set_bits [OF n(1) this, of v] u n(2) show ?thesis by (auto simp: map_set_def)
qed

lemma bitmap_get_block:
  assumes "maps_ok s" "x \<le> 10" "pos < frames_total s div 2 ^ x"
  shows "bitmap_get (bmap s x) (of_nat pos) = Some (bits_of (bmap s x) pos)"
proof -
  have n: "bitmap_ok (bmap s x)" "unat (nbits (bmap s x)) = frames_total s div 2 ^ x"
    using assms by (simp_all add: maps_ok_def)
  have "pos < 2 ^ 32" using assms(3) frames_total_lt [of s] div_le_dividend [of "frames_total s" "2 ^ x"] by linarith
  then have u: "unat (of_nat pos :: u32) = pos" by (intro unat_of_nat_lt) simp
  then have "(of_nat pos :: u32) < nbits (bmap s x)" using n assms(3) by (simp add: word_less_nat_alt)
  from bitmap_get_bits [OF n(1) this] u show ?thesis by simp
qed

subsection \<open>The lists\<close>

lemma ple_insert_frame [simp]:
  "porder (ple_insert a b s) = porder s" "bmap (ple_insert a b s) = bmap s"
  "num_avail (ple_insert a b s) = num_avail s" "memory_size (ple_insert a b s) = memory_size s"
  by (simp_all add: ple_insert_def Let_def)

lemma ple_remove_frame [simp]:
  "porder (ple_remove a s) = porder s" "bmap (ple_remove a s) = bmap s"
  "num_avail (ple_remove a s) = num_avail s" "memory_size (ple_remove a s) = memory_size s"
  by (simp_all add: ple_remove_def Let_def)

lemma free_blocks_insert: "x \<le> 10 \<Longrightarrow> free_blocks (F(x := i # F x)) = insert (i, x) (free_blocks F)"
  by (auto simp: free_blocks_def split: if_splits)

lemma free_blocks_remove:
  "distinct (F x) \<Longrightarrow> free_blocks (F(x := remove1 i (F x))) = free_blocks F - {(i, x)}"
  by (auto simp: free_blocks_def split: if_splits)

lemma lists_disjoint:
  "apart (free_blocks F) \<Longrightarrow> x \<le> 10 \<Longrightarrow> y \<le> 10 \<Longrightarrow> i \<in> set (F x) \<Longrightarrow> i \<in> set (F y) \<Longrightarrow> x = y"
  using apart_head [of "free_blocks F" i x i y] by (auto simp: free_blocks_def)

lemma lists_insert:
  assumes l: "lists_ok s F" and ap: "apart (free_blocks F)" and x: "x \<le> 10"
    and fresh: "\<forall>y \<le> 10. i \<notin> set (F y)"
  shows "lists_ok ((ple_insert (NilE x) (Pg i) s)\<lparr>num_avail := (num_avail s)(x := num_avail s x + 1)\<rparr>) (F(x := i # F x))"
proof -
  have "dring (pnext (ple_insert (NilE x) (Pg i) s)) (pprev (ple_insert (NilE x) (Pg i) s)) (NilE y)
          (map Pg ((F(x := i # F x)) y))" if y: "y \<le> 10" for y
  proof (cases "y = x")
    case True
    have "dring (pnext s) (pprev s) (NilE x) (map Pg (F x))" "Pg i \<notin> insert (NilE x) (set (map Pg (F x)))"
      using l x fresh by (auto simp: lists_ok_def)
    from frames.ins_front [OF this] show ?thesis using True by simp
  next
    case False
    have ring: "dring (pnext s) (pprev s) (NilE y) (map Pg (F y))"
      "dring (pnext s) (pprev s) (NilE x) (map Pg (F x))" using l x y by (auto simp: lists_ok_def)
    have "pnext s (NilE x) \<in> insert (NilE x) (set (map Pg (F x)))" using dring_closed(1) [OF ring(2)] by blast
    then have "pnext s (NilE x) \<notin> insert (NilE y) (set (map Pg (F y)))"
      using False lists_disjoint [OF ap x y] by auto
    moreover have "NilE x \<notin> insert (NilE y) (set (map Pg (F y)))" "Pg i \<notin> insert (NilE y) (set (map Pg (F y)))"
      using False fresh y by auto
    ultimately show ?thesis using frames.ins_other [OF ring(1)] False by simp
  qed
  then show ?thesis using l by (auto simp: lists_ok_def)
qed

lemma lists_remove:
  assumes l: "lists_ok s F" and ap: "apart (free_blocks F)" and x: "x \<le> 10" and i: "i \<in> set (F x)"
  shows "lists_ok ((ple_remove (Pg i) s)\<lparr>num_avail := (num_avail s)(x := num_avail s x - 1)\<rparr>)
    (F(x := remove1 i (F x)))"
proof -
  have ring: "dring (pnext s) (pprev s) (NilE y) (map Pg (F y))" if "y \<le> 10" for y
    using that l by (auto simp: lists_ok_def)
  obtain as bs where F: "F x = as @ i # bs" "i \<notin> set as" using i by (meson split_list_first)
  then have rm: "remove1 i (F x) = as @ bs" by (simp add: remove1_append)
  have "dring (pnext (ple_remove (Pg i) s)) (pprev (ple_remove (Pg i) s)) (NilE y)
          (map Pg ((F(x := remove1 i (F x))) y))" if y: "y \<le> 10" for y
  proof (cases "y = x")
    case True
    have "dring (pnext s) (pprev s) (NilE x) (map Pg as @ Pg i # map Pg bs)" using ring [OF x] F by simp
    from frames.del_ring [OF this] show ?thesis using True rm by simp
  next
    case False
    have "pnext s (Pg i) \<in> insert (NilE x) (set (map Pg (F x)))" "pprev s (Pg i) \<in> insert (NilE x) (set (map Pg (F x)))"
      using dring_closed [OF ring [OF x], of "Pg i"] i by auto
    then have "pnext s (Pg i) \<notin> insert (NilE y) (set (map Pg (F y)))" "pprev s (Pg i) \<notin> insert (NilE y) (set (map Pg (F y)))"
      using False lists_disjoint [OF ap x y] by auto
    moreover have "Pg i \<notin> insert (NilE y) (set (map Pg (F y)))" using False lists_disjoint [OF ap x y i] by auto
    ultimately show ?thesis using frames.del_other [OF ring [OF y]] False by simp
  qed
  moreover have "length (F x) = Suc (length (remove1 i (F x)))" using F rm by simp
  ultimately show ?thesis using l by (auto simp: lists_ok_def)
qed

subsection \<open>Putting a block on a list and taking it off\<close>

lemma put_free_repr:
  assumes r: "repr s F A" and t: "blocks_ok (frames_total s) (insert (i, x) (free_blocks F \<union> A))"
    and n: "(i, x) \<notin> free_blocks F \<union> A"
  shows "\<exists>s'. put_free i x s = Some s' \<and> repr s' (F(x := i # F x)) A \<and> memory_size s' = memory_size s \<and>
    porder s' = (porder s)(i := x) \<and>
    (\<forall>q < frames_total s div 1024. bits_of (bmap s' 10) q = (x = 10 \<and> q = i div 1024 \<or> bits_of (bmap s 10) q))"
proof -
  have wf: "block_wf (frames_total s) (i, x)" and x: "x \<le> 10" and dv: "2 ^ x dvd i"
    using t by (auto simp: blocks_ok_def block_wf_def)
  have ap: "apart (insert (i, x) (free_blocks F \<union> A))" using t by (simp add: blocks_ok_def)
  have other: "j \<noteq> i" if "(j, k) \<in> free_blocks F \<union> A" for j k
    using apart_head [OF ap, of i x j k] that n by auto
  let ?s1 = "s\<lparr>porder := (porder s)(i := x)\<rparr>"
  let ?s2 = "ple_insert (NilE x) (Pg i) ?s1"
  have mo: "maps_ok ?s2" using r by (simp add: repr_def maps_ok_def frames_total_def)
  have tot: "frames_total ?s2 = frames_total s" by (simp add: frames_total_def)
  obtain b where b: "map_set x (i div 2 ^ x) True ?s2 = Some (?s2\<lparr>bmap := (bmap ?s2)(x := b)\<rparr>)" "bitmap_ok b"
    "nbits b = nbits (bmap s x)"
    "\<forall>q < frames_total s div 2 ^ x. bits_of b q = (if q = i div 2 ^ x then True else bits_of (bmap s x) q)"
    using map_set_ok [OF mo x, of "i div 2 ^ x" True] block_index [OF wf] tot by auto
  let ?s' = "?s2\<lparr>bmap := (bmap s)(x := b), num_avail := (num_avail s)(x := num_avail s x + 1)\<rparr>"
  have pf: "put_free i x s = Some ?s'" using b(1) by (simp add: put_free_def Let_def)
  have tot': "frames_total ?s' = frames_total s" by (simp add: frames_total_def)
  have "\<forall>y \<le> 10. i \<notin> set (F y)" using other by (auto simp: free_blocks_def)
  moreover have "lists_ok ?s1 F" using r by (simp add: repr_def lists_ok_def)
  moreover have apF: "apart (free_blocks F)" using apart_subset [OF ap] by blast
  ultimately have "lists_ok (?s2\<lparr>num_avail := (num_avail ?s1)(x := num_avail ?s1 x + 1)\<rparr>) (F(x := i # F x))"
    using x by (intro lists_insert) simp_all
  then have lists: "lists_ok ?s' (F(x := i # F x))" by (simp add: lists_ok_def)
  have maps: "maps_ok ?s'" using mo b(2,3) tot' by (auto simp: maps_ok_def tot)
  have keep: "porder ?s' j = k \<and> bits_of (bmap ?s' k) (j div 2 ^ k) = v"
    if jk: "(j, k) \<in> free_blocks F \<union> A" and old: "porder s j = k \<and> bits_of (bmap s k) (j div 2 ^ k) = v" for j k v
  proof -
    have wj: "block_wf (frames_total s) (j, k)" using t jk by (simp add: blocks_ok_def)
    have "j div 2 ^ k \<noteq> i div 2 ^ x" if "k = x"
      using that other [OF jk] wj dv aligned_index [of x j i] by (auto simp: block_wf_def)
    then show ?thesis using old other [OF jk] b(4) block_index [OF wj] by auto
  qed
  have mk: "marked s (free_blocks F) True" "marked s A False" using r by (simp_all add: repr_def)
  have "marked ?s' A False" by (rule markedI, rule keep, simp) (rule markedD [OF mk(2)])
  moreover have "marked ?s' (insert (i, x) (free_blocks F)) True"
  proof (rule markedI)
    fix j k assume jk: "(j, k) \<in> insert (i, x) (free_blocks F)"
    show "porder ?s' j = k \<and> bits_of (bmap ?s' k) (j div 2 ^ k) = True"
    proof (cases "(j, k) = (i, x)")
      case True
      then show ?thesis using b(4) block_index [OF wf] by simp
    next
      case False
      then have "(j, k) \<in> free_blocks F" using jk by blast
      then show ?thesis using keep [of j k True] markedD [OF mk(1)] by blast
    qed
  qed
  ultimately have "repr ?s' (F(x := i # F x)) A"
    using lists maps unfolding repr_def free_blocks_insert [OF x] by blast
  then show ?thesis using pf b(4) by auto
qed

lemma take_free_repr:
  assumes r: "repr s F A" and ap: "apart (free_blocks F \<union> A)" and x: "x \<le> 10" and i: "i \<in> set (F x)"
  defines "F' \<equiv> F(x := remove1 i (F x))"
  shows "repr ((ple_remove (Pg i) s)\<lparr>num_avail := (num_avail s)(x := num_avail s x - 1)\<rparr>) F' A"
    "free_blocks F' = free_blocks F - {(i, x)}" "free_blocks F = insert (i, x) (free_blocks F')"
    "(i, x) \<notin> free_blocks F' \<union> A"
proof -
  have "distinct (F x)" using r x by (auto simp: repr_def lists_ok_def dring_def distinct_map)
  then show fb: "free_blocks F' = free_blocks F - {(i, x)}" unfolding F'_def by (rule free_blocks_remove)
  then show "free_blocks F = insert (i, x) (free_blocks F')" using x i by (auto simp: free_blocks_def)
  have mk: "marked s (free_blocks F) True" "marked s A False" using r by (simp_all add: repr_def)
  have "(i, x) \<in> free_blocks F" using x i by (simp add: free_blocks_def)
  then have "(i, x) \<notin> A" using markedD [OF mk(1)] markedD [OF mk(2)] by blast
  then show "(i, x) \<notin> free_blocks F' \<union> A" using fb by simp
  let ?s = "(ple_remove (Pg i) s)\<lparr>num_avail := (num_avail s)(x := num_avail s x - 1)\<rparr>"
  have "apart (free_blocks F)" using apart_subset [OF ap] by blast
  then have "lists_ok ?s F'" using r x i unfolding F'_def by (intro lists_remove) (simp_all add: repr_def)
  moreover have "maps_ok ?s" using r by (simp add: repr_def maps_ok_def frames_total_def)
  moreover have "marked ?s (free_blocks F') True" "marked ?s A False"
    using mk fb by (simp_all add: marked_def)
  ultimately show "repr ?s F' A" by (simp add: repr_def)
qed

text \<open>Marking a block as allocated.\<close>

lemma mark_allocated_repr:
  assumes r: "repr s F A" and t: "blocks_ok (frames_total s) (insert (i, x) (free_blocks F \<union> A))"
    and n: "(i, x) \<notin> free_blocks F \<union> A"
  shows "\<exists>s'. map_set x (i div 2 ^ x) False (s\<lparr>porder := (porder s)(i := x)\<rparr>) = Some s' \<and>
    repr s' F (insert (i, x) A) \<and> memory_size s' = memory_size s \<and> porder s' = (porder s)(i := x) \<and>
    (\<forall>q < frames_total s div 1024. bits_of (bmap s' 10) q \<longrightarrow> bits_of (bmap s 10) q)"
proof -
  have wf: "block_wf (frames_total s) (i, x)" and x: "x \<le> 10" and dv: "2 ^ x dvd i"
    using t by (auto simp: blocks_ok_def block_wf_def)
  have ap: "apart (insert (i, x) (free_blocks F \<union> A))" using t by (simp add: blocks_ok_def)
  have other: "j \<noteq> i" if "(j, k) \<in> free_blocks F \<union> A" for j k
    using apart_head [OF ap, of i x j k] that n by auto
  let ?s1 = "s\<lparr>porder := (porder s)(i := x)\<rparr>"
  have mo: "maps_ok ?s1" using r by (simp add: repr_def maps_ok_def frames_total_def)
  have tot: "frames_total ?s1 = frames_total s" by (simp add: frames_total_def)
  obtain b where b: "map_set x (i div 2 ^ x) False ?s1 = Some (?s1\<lparr>bmap := (bmap s)(x := b)\<rparr>)" "bitmap_ok b"
    "nbits b = nbits (bmap s x)"
    "\<forall>q < frames_total s div 2 ^ x. bits_of b q = (if q = i div 2 ^ x then False else bits_of (bmap s x) q)"
    using map_set_ok [OF mo x, of "i div 2 ^ x" False] block_index [OF wf] tot by auto
  let ?s' = "?s1\<lparr>bmap := (bmap s)(x := b)\<rparr>"
  have tot': "frames_total ?s' = frames_total s" by (simp add: frames_total_def)
  have lists: "lists_ok ?s' F" using r by (simp add: repr_def lists_ok_def)
  have maps: "maps_ok ?s'" using mo b(2,3) tot' by (auto simp: maps_ok_def tot)
  have keep: "porder ?s' j = k \<and> bits_of (bmap ?s' k) (j div 2 ^ k) = v"
    if jk: "(j, k) \<in> free_blocks F \<union> A" and old: "porder s j = k \<and> bits_of (bmap s k) (j div 2 ^ k) = v" for j k v
  proof -
    have wj: "block_wf (frames_total s) (j, k)" using t jk by (simp add: blocks_ok_def)
    have "j div 2 ^ k \<noteq> i div 2 ^ x" if "k = x"
      using that other [OF jk] wj dv aligned_index [of x j i] by (auto simp: block_wf_def)
    then show ?thesis using old other [OF jk] b(4) block_index [OF wj] by auto
  qed
  have mk: "marked s (free_blocks F) True" "marked s A False" using r by (simp_all add: repr_def)
  have "marked ?s' (free_blocks F) True" by (rule markedI, rule keep, simp) (rule markedD [OF mk(1)])
  moreover have "porder ?s' i = x \<and> bits_of (bmap ?s' x) (i div 2 ^ x) = False"
    using b(4) block_index [OF wf] by simp
  then have "marked ?s' (insert (i, x) A) False"
    using keep markedD [OF mk(2)] by (intro markedI) (metis Pair_inject UnI2 insert_iff)
  ultimately have "repr ?s' F (insert (i, x) A)" using lists maps by (simp add: repr_def)
  then show ?thesis using b(1,4) by auto
qed

subsection \<open>Frames outside the blocks\<close>

lemma junk_ok_step:
  assumes j: "junk_ok s C" and m: "memory_size s' = memory_size s" and p: "porder s' = (porder s)(i := x)"
    and bits: "\<forall>q < frames_total s div 1024. bits_of (bmap s' 10) q \<longrightarrow> x = 10 \<and> q = i div 1024 \<or> bits_of (bmap s 10) q"
    and i: "i \<in> C" "2 ^ x dvd i"
  shows "junk_ok s' C"
proof -
  have tot: "frames_total s' = frames_total s" using m by (simp add: frames_total_def)
  show ?thesis unfolding junk_ok_def tot
  proof (intro allI impI)
    fix h assume h: "h < frames_total s" "1024 dvd h" "h \<notin> C" "porder s' h = 10"
    then have "porder s h = 10" using p i by (auto split: if_splits)
    then have o: "h + 1024 \<le> frames_total s" "\<not> bits_of (bmap s 10) (h div 1024)" using j h by (simp_all add: junk_ok_def)
    have "h div 1024 < frames_total s div 1024" using block_index [of "frames_total s" h 10] o h by (simp add: block_wf_def)
    moreover have "\<not> (x = 10 \<and> h div 1024 = i div 1024)"
      using aligned_index [of 10 h i] h i by auto
    ultimately show "h + 1024 \<le> frames_total s \<and> \<not> bits_of (bmap s' 10) (h div 1024)" using o bits by blast
  qed
qed

section \<open>Allocation is correct\<close>

lemma split_loop_ok:
  assumes "repr s F A" "tiling (frames_total s) (insert (i, x) (free_blocks F \<union> A))"
    and "(i, x) \<notin> free_blocks F \<union> A" "junk_ok s C" "C = covered (insert (i, x) (free_blocks F \<union> A))" "order \<le> x"
  shows "\<exists>s' F'. split_loop order i x s = Some s' \<and> repr s' F' A \<and> memory_size s' = memory_size s \<and>
    tiling (frames_total s) (insert (i, order) (free_blocks F' \<union> A)) \<and> (i, order) \<notin> free_blocks F' \<union> A \<and>
    junk_ok s' C \<and> frames_of (i, x) \<union> covered (free_blocks F) = frames_of (i, order) \<union> covered (free_blocks F')"
  using assms
proof (induction x arbitrary: s F)
  case 0
  then show ?case by (intro exI [of _ s] exI [of _ F]) simp
next
  case (Suc x)
  show ?case
  proof (cases "order = Suc x")
    case True
    then show ?thesis using Suc.prems by (intro exI [of _ s] exI [of _ F]) simp
  next
    case False
    then have ox: "order \<le> x" using Suc.prems(6) by simp
    let ?b = "get_buddy i x"
    note sp = tiling_split [OF Suc.prems(2,3)]
    have dvb: "2 ^ x dvd ?b" and x10: "x \<le> 10" using sp(1) by (auto simp: tiling_def block_wf_def)
    have nb: "(?b, x) \<notin> free_blocks F \<union> A" using sp(4) .
    have "blocks_ok (frames_total s) (insert (?b, x) (free_blocks F \<union> A))"
      using blocks_ok_subset [OF sp(1)] by blast
    from put_free_repr [OF Suc.prems(1) this nb] obtain s1 where
      s1: "put_free ?b x s = Some s1" "repr s1 (F(x := ?b # F x)) A" "memory_size s1 = memory_size s"
        "porder s1 = (porder s)(?b := x)"
        "\<forall>q < frames_total s div 1024. bits_of (bmap s1 10) q = (x = 10 \<and> q = ?b div 1024 \<or> bits_of (bmap s 10) q)"
      by blast
    define F1 where "F1 = F(x := ?b # F x)"
    have fb: "free_blocks F1 = insert (?b, x) (free_blocks F)" using x10 unfolding F1_def by (rule free_blocks_insert)
    have tot: "frames_total s1 = frames_total s" using s1(3) by (simp add: frames_total_def)
    have cov: "frames_of (i, x) \<union> covered (free_blocks F1) = frames_of (i, Suc x) \<union> covered (free_blocks F)"
      using sp(2) unfolding fb by (simp only: frames_of_halves covered_insert Un_assoc)
    have C: "C = covered (insert (i, x) (free_blocks F1 \<union> A))"
      using cov Suc.prems(5) by (simp only: covered_insert covered_Un) blast
    have j1: "junk_ok s1 C"
      by (rule junk_ok_step [OF Suc.prems(4) s1(3,4) _ _ dvb]) (use s1(5) C fb in \<open>auto simp del: frames_of_iff\<close>)
    have t1: "tiling (frames_total s1) (insert (i, x) (free_blocks F1 \<union> A))" "(i, x) \<notin> free_blocks F1 \<union> A"
      using sp(1,3) by (simp_all add: fb tot)
    from Suc.IH [OF s1(2) [folded F1_def] t1 j1 C ox] obtain s' F' where
      "split_loop order i x s1 = Some s'" "repr s' F' A" "memory_size s' = memory_size s1"
      "tiling (frames_total s) (insert (i, order) (free_blocks F' \<union> A))" "(i, order) \<notin> free_blocks F' \<union> A"
      "junk_ok s' C" "frames_of (i, x) \<union> covered (free_blocks F1) = frames_of (i, order) \<union> covered (free_blocks F')"
      unfolding tot by blast
    then show ?thesis using s1(1,3) cov ox by (intro exI [of _ s'] exI [of _ F']) simp
  qed
qed

lemma find_order_spec:
  "order \<le> 11 \<Longrightarrow> order \<le> find_order s order \<and> find_order s order \<le> 11 \<and>
     (\<forall>y. order \<le> y \<longrightarrow> y < find_order s order \<longrightarrow> pnext s (NilE y) = NilE y) \<and>
     (find_order s order \<le> 10 \<longrightarrow> pnext s (NilE (find_order s order)) \<noteq> NilE (find_order s order))"
proof (induction "11 - order" arbitrary: order)
  case 0
  then show ?case by (simp add: find_order.simps BUDDY_MAX_ORDER_def)
next
  case (Suc n)
  show ?case
  proof (cases "pnext s (NilE order) = NilE order")
    case True
    have "order \<le> 10" using Suc.hyps(2) by simp
    then have eq: "find_order s order = find_order s (Suc order)"
      using True by (subst find_order.simps) (simp add: BUDDY_MAX_ORDER_def)
    have IH: "Suc order \<le> find_order s (Suc order)" "find_order s (Suc order) \<le> 11"
      "\<forall>y. Suc order \<le> y \<longrightarrow> y < find_order s (Suc order) \<longrightarrow> pnext s (NilE y) = NilE y"
      "find_order s (Suc order) \<le> 10 \<longrightarrow> pnext s (NilE (find_order s (Suc order))) \<noteq> NilE (find_order s (Suc order))"
      using Suc.hyps(1) [of "Suc order"] Suc.hyps(2) by simp_all
    have "pnext s (NilE y) = NilE y" if "order \<le> y" "y < find_order s (Suc order)" for y
      using that IH(3) True by (cases "y = order") simp_all
    then show ?thesis unfolding eq using IH by (intro conjI) (auto simp: le_Suc_eq)
  next
    case False
    then show ?thesis using Suc.hyps(2) by (simp add: find_order.simps [of s order])
  qed
qed

lemma list_empty_iff: "lists_ok s F \<Longrightarrow> x \<le> 10 \<Longrightarrow> pnext s (NilE x) = NilE x \<longleftrightarrow> F x = []"
  by (cases "F x") (auto simp: lists_ok_def dest!: spec [of _ x] dring_next_first)

lemma list_first: "lists_ok s F \<Longrightarrow> x \<le> 10 \<Longrightarrow> F x = i # is \<Longrightarrow> pnext s (NilE x) = Pg i"
  by (auto simp: lists_ok_def dest!: spec [of _ x] dring_next_first)

lemma alloc_frames_none:
  assumes "buddy_inv s F A" "order \<le> 10" "\<forall>x. order \<le> x \<longrightarrow> x \<le> 10 \<longrightarrow> F x = []"
  shows "alloc_frames order s = Some (None, s)"
proof -
  have l: "lists_ok s F" using assms by (simp add: buddy_inv_def repr_def)
  have "\<not> find_order s order \<le> 10"
  proof
    assume x: "find_order s order \<le> 10"
    then show False using find_order_spec [of order s] assms(2,3) list_empty_iff [OF l x] by auto
  qed
  then show ?thesis using assms(2) by (simp add: alloc_frames_def BUDDY_MAX_ORDER_def)
qed

lemma alloc_frames_some:
  assumes inv: "buddy_inv s F A" and "order \<le> 10" and ex: "\<exists>x. order \<le> x \<and> x \<le> 10 \<and> F x \<noteq> []"
  shows "\<exists>i s' F'. alloc_frames order s = Some (Some (i * 2 ^ PAGE_SHIFT), s') \<and>
    buddy_inv s' F' (insert (i, order) A) \<and> memory_size s' = memory_size s \<and> (i, order) \<notin> A \<and>
    frames_of (i, order) \<inter> covered (free_blocks F') = {} \<and>
    covered (free_blocks F) = frames_of (i, order) \<union> covered (free_blocks F')"
proof -
  have r: "repr s F A" and t: "tiling (frames_total s) (free_blocks F \<union> A)" and ap: "apart (free_blocks F \<union> A)"
    and j: "junk_ok s (covered (free_blocks F \<union> A))" and l: "lists_ok s F"
    using inv by (auto simp: buddy_inv_def repr_def tiling_def)
  define x where "x = find_order s order"
  have x: "order \<le> x" "x \<le> 10" "F x \<noteq> []"
  proof -
    note spec = find_order_spec [of order s]
    obtain y where y: "order \<le> y" "y \<le> 10" "pnext s (NilE y) \<noteq> NilE y" using ex list_empty_iff [OF l] by blast
    show x1: "order \<le> x" using spec assms(2) by (simp add: x_def)
    have "\<not> y < x" using spec y assms(2) by (auto simp: x_def)
    then show x2: "x \<le> 10" using y by simp
    show "F x \<noteq> []" using spec x2 list_empty_iff [OF l x2] assms(2) by (simp add: x_def)
  qed
  then obtain i "is" where Fx: "F x = i # is" by (cases "F x") auto
  then have i: "i \<in> set (F x)" by simp
  define F1 where "F1 = F(x := remove1 i (F x))"
  let ?s1 = "(ple_remove (Pg i) s)\<lparr>num_avail := (num_avail s)(x := num_avail s x - 1)\<rparr>"
  note tk = take_free_repr [OF r ap x(2) i, folded F1_def]
  have tot: "frames_total ?s1 = frames_total s" by (simp add: frames_total_def)
  have U: "insert (i, x) (free_blocks F1 \<union> A) = free_blocks F \<union> A" using tk(3) by simp
  have j1: "junk_ok ?s1 (covered (free_blocks F \<union> A))" using j by (simp add: junk_ok_def tot)
  obtain s2 F2 where s2: "split_loop order i x ?s1 = Some s2" "repr s2 F2 A" "memory_size s2 = memory_size s"
    "tiling (frames_total s) (insert (i, order) (free_blocks F2 \<union> A))" "(i, order) \<notin> free_blocks F2 \<union> A"
    "junk_ok s2 (covered (free_blocks F \<union> A))"
    "frames_of (i, x) \<union> covered (free_blocks F1) = frames_of (i, order) \<union> covered (free_blocks F2)"
    using split_loop_ok [OF tk(1) _ tk(4) j1 _ x(1)] t unfolding U tot by auto
  have tot2: "frames_total s2 = frames_total s" using s2(3) by (simp add: frames_total_def)
  have "blocks_ok (frames_total s2) (insert (i, order) (free_blocks F2 \<union> A))"
    using blocks_ok_subset [OF s2(4)] tot2 by simp
  from mark_allocated_repr [OF s2(2) this s2(5)] obtain s3 where
    s3: "map_set order (i div 2 ^ order) False (s2\<lparr>porder := (porder s2)(i := order)\<rparr>) = Some s3"
      "repr s3 F2 (insert (i, order) A)" "memory_size s3 = memory_size s2" "porder s3 = (porder s2)(i := order)"
      "\<forall>q < frames_total s2 div 1024. bits_of (bmap s3 10) q \<longrightarrow> bits_of (bmap s2 10) q" by blast
  have alloc: "alloc_frames order s = Some (Some (i * 2 ^ PAGE_SHIFT), s3)"
    using assms(2) x(2) s2(1) s3(1) list_first [OF l x(2) Fx]
    by (simp add: alloc_frames_def BUDDY_MAX_ORDER_def Let_def flip: x_def)
  have cov: "covered (free_blocks F) = frames_of (i, order) \<union> covered (free_blocks F2)"
    using s2(7) unfolding tk(3) by simp
  have dv: "2 ^ order dvd i" using s2(4) by (auto simp: tiling_def block_wf_def)
  have "i \<in> covered (free_blocks F \<union> A)" using cov by simp
  then have "junk_ok s3 (covered (free_blocks F \<union> A))"
    by (rule junk_ok_step [OF s2(6) s3(3,4) _ _ dv, rotated]) (use s3(5) in blast)
  moreover have "covered (free_blocks F \<union> A) = covered (free_blocks F2 \<union> insert (i, order) A)"
    using cov by (simp only: covered_Un covered_insert) blast
  ultimately have j3: "junk_ok s3 (covered (free_blocks F2 \<union> insert (i, order) A))" by simp
  have "frames_total s3 = frames_total s" using s3(3) tot2 by (simp add: frames_total_def)
  then have t3: "tiling (frames_total s3) (free_blocks F2 \<union> insert (i, order) A)" using s2(4) by simp
  have "buddy_inv s3 F2 (insert (i, order) A)"
    using s3(2) t3 j3 repr_disjoint [OF s3(2)] unfolding buddy_inv_def by blast
  moreover have "frames_of (i, order) \<inter> covered (free_blocks F2) = {}"
    using s2(4,5) by (simp add: tiling_def apart_insert) blast
  ultimately show ?thesis using alloc cov s2(3,5) s3(3) by (intro exI [of _ i] exI [of _ s3] exI [of _ F2]) simp
qed

section \<open>Freeing is correct\<close>

text \<open>A buddy that looks free is free: the order field and the bit of the map are those of a block on
  the list.\<close>

lemma buddy_looks_free:
  assumes r: "repr s F A" and t: "tiling (frames_total s) (insert (i, x) (free_blocks F \<union> A))"
    and j: "junk_ok s (covered (insert (i, x) (free_blocks F \<union> A)))" and n: "(i, x) \<notin> free_blocks F \<union> A"
    and b: "b = get_buddy i x" "b < frames_total s" "porder s b = x"
  shows "block_wf (frames_total s) (b, x)" "bits_of (bmap s x) (b div 2 ^ x) \<Longrightarrow> b \<in> set (F x)"
proof -
  have x: "x \<le> 10" and dv: "2 ^ x dvd i" and iN: "i < frames_total s"
    using t by (auto simp: tiling_def block_wf_def intro: less_le_trans [of i "i + 2 ^ x"])
  note bp = buddy_pair [OF dv b(1)]
  have ap: "apart (insert (i, x) (free_blocks F \<union> A))" using t by (simp add: tiling_def)
  have chunk: "chunked (frames_total s) (covered (insert (i, x) (free_blocks F \<union> A)))" using t by (simp add: tiling_def)
  have out: "b \<notin> frames_of (i, x)" using bp(2) head_in_frames [of b x] by blast
  have "block_wf (frames_total s) (b, x) \<and> (bits_of (bmap s x) (b div 2 ^ x) \<longrightarrow> b \<in> set (F x))"
  proof (cases "b \<in> covered (free_blocks F \<union> A)")
    case True
    then obtain c where "c \<in> free_blocks F \<union> A" "b \<in> frames_of c" unfolding covered_def by blast
    then obtain k m where km: "(k, m) \<in> free_blocks F \<union> A" "b \<in> frames_of (k, m)" by (cases c) blast
    have wk: "block_wf (frames_total s) (k, m)" using t km(1) by (simp add: tiling_def)
    then have dk: "2 ^ m dvd k" by (simp add: block_wf_def)
    have "m \<le> x"
    proof (rule ccontr)
      assume "\<not> m \<le> x"
      then obtain d where "m = Suc x + d" using less_iff_Suc_add [of x m] by auto
      then have "b div 2 ^ m = i div 2 ^ m" using bp(8) by (metis div_mult2_eq power_add)
      then have "i \<in> frames_of (k, m)" using km(2) frames_of_div [OF dk] by simp
      then show False using apart_head [OF ap, of i x k m] km(1) n by auto
    qed
    then have "2 ^ m dvd b" using bp(4) by (meson dvd_trans le_imp_power_dvd)
    then have "k = b" using km(2) aligned_index [OF _ dk] frames_of_div [OF dk] by auto
    then have kb: "(b, m) \<in> free_blocks F \<union> A" using km(1) by simp
    have mk: "marked s (free_blocks F) True" "marked s A False" using r by (simp_all add: repr_def)
    then have "m = x" using kb b(3) markedD by blast
    then show ?thesis
      using kb wk \<open>k = b\<close> markedD [OF mk(2), of b x] by (auto simp: free_blocks_def)
  next
    case False
    then have un: "b \<notin> covered (insert (i, x) (free_blocks F \<union> A))" using out by simp
    have "x = 10"
    proof (rule ccontr)
      assume "x \<noteq> 10"
      then obtain d where "10 = Suc x + d" using x less_iff_Suc_add [of x 10] by auto
      then have "b div 2 ^ 10 = i div 2 ^ 10" using bp(8) by (metis div_mult2_eq power_add)
      then have "b div 1024 = i div 1024" by simp
      moreover have "i \<in> covered (insert (i, x) (free_blocks F \<union> A))" by simp
      ultimately show False using chunk un b(2) unfolding chunked_def by blast
    qed
    moreover have "1024 dvd b" using bp(4) \<open>x = 10\<close> by simp
    ultimately show ?thesis using j un b(2,3) by (auto simp: junk_ok_def block_wf_def)
  qed
  then show "block_wf (frames_total s) (b, x)" "bits_of (bmap s x) (b div 2 ^ x) \<Longrightarrow> b \<in> set (F x)" by blast+
qed

text \<open>Taking a buddy off its list and clearing its bit.\<close>

lemma take_buddy_repr:
  assumes r: "repr s F A" and ap: "apart (free_blocks F \<union> A)" and wf: "block_wf (frames_total s) (b, x)"
    and b: "b \<in> set (F x)" and all: "\<forall>c \<in> free_blocks F \<union> A. block_wf (frames_total s) c"
  defines "F1 \<equiv> F(x := remove1 b (F x))"
  shows "\<exists>s1. Option.bind (map_set x (b div 2 ^ x) False (ple_remove (Pg b) s))
        (\<lambda>s2. g (s2\<lparr>num_avail := (num_avail s2)(x := num_avail s2 x - 1)\<rparr>)) = g s1 \<and> repr s1 F1 A \<and>
      memory_size s1 = memory_size s \<and> porder s1 = porder s \<and>
      (\<forall>q < frames_total s div 1024. bits_of (bmap s1 10) q = (bits_of (bmap s 10) q \<and> \<not> (x = 10 \<and> q = b div 1024))) \<and>
      free_blocks F1 = free_blocks F - {(b, x)} \<and> free_blocks F = insert (b, x) (free_blocks F1) \<and>
      (b, x) \<notin> free_blocks F1 \<union> A"
proof -
  have x: "x \<le> 10" and dv: "2 ^ x dvd b" using wf by (simp_all add: block_wf_def)
  let ?s1 = "(ple_remove (Pg b) s)\<lparr>num_avail := (num_avail s)(x := num_avail s x - 1)\<rparr>"
  note tk = take_free_repr [OF r ap x b, folded F1_def]
  have tot: "frames_total ?s1 = frames_total s" by (simp add: frames_total_def)
  have mo: "maps_ok (ple_remove (Pg b) s)" using r by (simp add: repr_def maps_ok_def frames_total_def)
  obtain m where m: "map_set x (b div 2 ^ x) False (ple_remove (Pg b) s) = Some ((ple_remove (Pg b) s)\<lparr>bmap := (bmap s)(x := m)\<rparr>)"
    "bitmap_ok m" "nbits m = nbits (bmap s x)"
    "\<forall>q < frames_total s div 2 ^ x. bits_of m q = (if q = b div 2 ^ x then False else bits_of (bmap s x) q)"
    using map_set_ok [OF mo x, of "b div 2 ^ x" False] block_index [OF wf] by (auto simp: frames_total_def)
  let ?s2 = "(ple_remove (Pg b) s)\<lparr>bmap := (bmap s)(x := m), num_avail := (num_avail s)(x := num_avail s x - 1)\<rparr>"
  have keep: "porder ?s2 j = k \<and> bits_of (bmap ?s2 k) (j div 2 ^ k) = v"
    if jk: "(j, k) \<in> free_blocks F1 \<union> A" and old: "porder s j = k \<and> bits_of (bmap s k) (j div 2 ^ k) = v" for j k v
  proof -
    have wj: "block_wf (frames_total s) (j, k)" using all jk tk(3) by blast
    have "j \<noteq> b \<or> k \<noteq> x" using tk(4) jk by blast
    then have "j div 2 ^ k \<noteq> b div 2 ^ x" if "k = x"
      using that wj dv aligned_index [of x j b] by (auto simp: block_wf_def)
    then show ?thesis using old m(4) block_index [OF wj] by auto
  qed
  have "lists_ok ?s2 F1" using tk(1) by (simp add: repr_def lists_ok_def)
  moreover have "maps_ok ?s2" using tk(1) m(2,3) by (auto simp: repr_def maps_ok_def frames_total_def)
  moreover have mk: "marked s (free_blocks F1) True" "marked s A False"
    using r marked_subset tk(2) by (auto simp: repr_def)
  have "marked ?s2 (free_blocks F1) True" by (rule markedI, rule keep, simp) (rule markedD [OF mk(1)])
  moreover have "marked ?s2 A False" by (rule markedI, rule keep, simp) (rule markedD [OF mk(2)])
  ultimately have "repr ?s2 F1 A" by (simp add: repr_def)
  moreover have "Option.bind (map_set x (b div 2 ^ x) False (ple_remove (Pg b) s))
      (\<lambda>s2. g (s2\<lparr>num_avail := (num_avail s2)(x := num_avail s2 x - 1)\<rparr>)) = g ?s2" using m(1) by simp
  moreover have "\<forall>q < frames_total s div 1024. bits_of (bmap ?s2 10) q = (bits_of (bmap s 10) q \<and> \<not> (x = 10 \<and> q = b div 1024))"
    using m(4) by auto
  ultimately show ?thesis using tk(2-4) by (intro exI [of _ ?s2]) simp
qed

lemma junk_ok_less:
  assumes "junk_ok s C" "memory_size s' = memory_size s" "porder s' = porder s"
    and "\<forall>q < frames_total s div 1024. bits_of (bmap s' 10) q \<longrightarrow> bits_of (bmap s 10) q"
  shows "junk_ok s' C"
proof -
  have tot: "frames_total s' = frames_total s" using assms(2) by (simp add: frames_total_def)
  have "h div 1024 < frames_total s div 1024" if "h + 1024 \<le> frames_total s" "1024 dvd h" for h
    using block_index [of "frames_total s" h 10] that by (simp add: block_wf_def)
  then show ?thesis using assms(1,3,4) unfolding junk_ok_def tot by metis
qed

text \<open>What the merge loop leaves in hand: the block \<open>(i', min x' 10)\<close>; when the loop merged two
  blocks of the largest order, the frames \<open>L\<close> are in no block any more.\<close>

definition merged :: "buddy \<Rightarrow> (nat \<Rightarrow> nat list) \<Rightarrow> block set \<Rightarrow> nat \<Rightarrow> nat \<Rightarrow> nat \<Rightarrow> nat \<Rightarrow> buddy \<Rightarrow> bool" where
  "merged s F A i x i' x' s' \<longleftrightarrow> (\<exists>F' L. let y = min x' 10 in
     repr s' F' A \<and> memory_size s' = memory_size s \<and>
     tiling (frames_total s) (insert (i', y) (free_blocks F' \<union> A)) \<and> (i', y) \<notin> free_blocks F' \<union> A \<and>
     junk_ok s' (covered (insert (i', y) (free_blocks F' \<union> A))) \<and>
     frames_of (i, x) \<union> covered (free_blocks F) = frames_of (i', y) \<union> covered (free_blocks F') \<union> L \<and>
     L \<inter> covered (insert (i', y) (free_blocks F' \<union> A)) = {} \<and>
     (if get_buddy (i div 1024 * 1024) 10 \<in> set (F 10) \<and> x' = 11 then L = frames_of (i' + 1024, 10) else L = {} \<and> x' \<le> 10))"

lemma merge_stop:
  assumes "repr s F A" "tiling (frames_total s) (insert (i, x) (free_blocks F \<union> A))" "(i, x) \<notin> free_blocks F \<union> A"
    and "junk_ok s (covered (insert (i, x) (free_blocks F \<union> A)))"
  shows "merged s F A i x i x s"
proof -
  have x: "x \<le> 10" using assms(2) by (simp add: tiling_def block_wf_def)
  then have "min x 10 = x" by simp
  then show ?thesis
    using assms x unfolding merged_def by (intro exI [of _ F] exI [of _ "{}"]) (simp add: Let_def)
qed

text \<open>Merging at the largest order keeps one of the two blocks.\<close>

lemma merge_top:
  assumes r1: "repr s1 F1 A" and ms: "memory_size s1 = memory_size s" and po: "porder s1 = porder s"
    and t: "tiling (frames_total s) (insert (i, 10) (free_blocks F \<union> A))" and n: "(i, 10) \<notin> free_blocks F \<union> A"
    and j: "junk_ok s (covered (insert (i, 10) (free_blocks F \<union> A)))"
    and h: "porder s i = 10 \<longrightarrow> \<not> bits_of (bmap s 10) (i div 1024)"
    and b: "b = get_buddy i 10" "b \<in> set (F 10)"
    and bits: "\<forall>q < frames_total s div 1024. bits_of (bmap s1 10) q = (bits_of (bmap s 10) q \<and> q \<noteq> b div 1024)"
    and F1: "free_blocks F = insert (b, 10) (free_blocks F1)" "(b, 10) \<notin> free_blocks F1 \<union> A"
  shows "merged s F A i 10 (min i b) 11 s1"
proof -
  let ?B = "free_blocks F1 \<union> A"
  let ?m = "min i b" and ?h = "max i b"
  have dv: "2 ^ 10 dvd i" using t by (simp add: tiling_def block_wf_def)
  note bp = buddy_pair [OF dv b(1)]
  have tot: "frames_total s1 = frames_total s" using ms by (simp add: frames_total_def)
  have h1024: "?h = ?m + 1024" using bp(7) by simp
  have fb: "free_blocks F \<union> A = insert (b, 10) ?B" using F1(1) by simp
  have ap: "apart (insert (i, 10) (insert (b, 10) ?B))" "frames_of (i, 10) \<inter> (frames_of (b, 10) \<union> covered ?B) = {}"
    "frames_of (b, 10) \<inter> covered ?B = {}" "(i, 10) \<notin> ?B"
    using t n F1(2) unfolding fb by (auto simp: tiling_def apart_insert simp del: frames_of_iff)
  have mh: "frames_of (?m, 10) \<union> frames_of (?h, 10) = frames_of (i, 10) \<union> frames_of (b, 10)"
    "frames_of (?m, 10) \<inter> frames_of (?h, 10) = {}" "frames_of (?h, 10) \<inter> covered ?B = {}" "(?m, 10) \<notin> ?B"
    "insert (?m, 10) ?B \<subseteq> insert (i, 10) (insert (b, 10) ?B)"
    using ap F1(2) bp(2) by (auto simp: min_def max_def simp del: frames_of_iff)
  have wfh: "block_wf (frames_total s) (?h, 10)" using t unfolding fb by (simp add: tiling_def max_def)
  have cov: "covered (insert (i, 10) (free_blocks F \<union> A)) = covered (insert (?m, 10) ?B) \<union> frames_of (?h, 10)"
    using mh(1) unfolding fb by (simp only: covered_insert) blast
  have dis: "covered (insert (?m, 10) ?B) \<inter> frames_of (?h, 10) = {}"
    using mh(2,3) by (simp only: covered_insert) blast
  have "chunked (frames_total s) (covered (insert (?m, 10) ?B))"
    unfolding chunked_def
  proof (intro ballI allI impI)
    fix p q assume pq: "p \<in> covered (insert (?m, 10) ?B)" "q < frames_total s" "q div 1024 = p div 1024"
    then have "q \<in> covered (insert (?m, 10) ?B) \<union> frames_of (?h, 10)"
      using t cov unfolding tiling_def chunked_def by blast
    moreover have "p \<notin> frames_of (?h, 10)" using pq dis by blast
    then have "q \<notin> frames_of (?h, 10)"
      using pq(3) wfh frames_of_div [of 10 ?h] by (simp add: block_wf_def del: frames_of_iff)
    ultimately show "q \<in> covered (insert (?m, 10) ?B)" by blast
  qed
  then have t': "tiling (frames_total s) (insert (?m, 10) ?B)"
    using blocks_ok_subset [OF t, of "insert (?m, 10) ?B"] mh(5) unfolding fb by (simp add: tiling_def blocks_ok_def)
  have "junk_ok s1 (covered (insert (?m, 10) ?B))"
    unfolding junk_ok_def tot po
  proof (intro allI impI)
    fix k assume k: "k < frames_total s" "1024 dvd k" "k \<notin> covered (insert (?m, 10) ?B)" "porder s k = 10"
    show "k + 1024 \<le> frames_total s \<and> \<not> bits_of (bmap s1 10) (k div 1024)"
    proof (cases "k \<in> frames_of (?h, 10)")
      case True
      have "1024 dvd ?h" using wfh by (simp add: block_wf_def)
      then have "k = ?h" using True k(2) frames_of_div [of 10 ?h k] aligned_index [of 10 k ?h] by simp
      then have "k = b \<or> k = i" by (auto simp: max_def)
      then have "bits_of (bmap s 10) (k div 1024) \<longrightarrow> k div 1024 = b div 1024" using h k(4) by blast
      then show ?thesis
        using bits block_index [OF wfh] wfh \<open>k = ?h\<close> by (auto simp: block_wf_def)
    next
      case False
      then have "k \<notin> covered (insert (i, 10) (free_blocks F \<union> A))" using k(3) cov by blast
      then have o: "k + 1024 \<le> frames_total s" "\<not> bits_of (bmap s 10) (k div 1024)"
        using j k unfolding junk_ok_def by blast+
      have "k div 1024 < frames_total s div 1024" using block_index [of "frames_total s" k 10] o k by (simp add: block_wf_def)
      then show ?thesis using o bits by blast
    qed
  qed
  moreover have "frames_of (i, 10) \<union> covered (free_blocks F) = frames_of (?m, 10) \<union> covered (free_blocks F1) \<union> frames_of (?m + 1024, 10)"
    using mh(1) h1024 unfolding F1(1) by (simp only: covered_insert) blast
  moreover have "frames_of (?m + 1024, 10) \<inter> covered (insert (?m, 10) ?B) = {}" using dis h1024 by (simp only: Int_commute)
  moreover have "get_buddy (i div 1024 * 1024) 10 \<in> set (F 10)" using b dv by simp
  ultimately show ?thesis
    unfolding merged_def using r1 ms t' mh(4)
    by (intro exI [of _ F1] exI [of _ "frames_of (?m + 1024, 10)"]) (simp add: Let_def del: frames_of_iff covered_insert covered_Un)
qed

lemma merged_trans:
  assumes m: "merged s1 F1 A k (Suc x) i' x' s'" and ms: "memory_size s1 = memory_size s"
    and cov: "frames_of (k, Suc x) \<union> covered (free_blocks F1) = frames_of (i, x) \<union> covered (free_blocks F)"
    and same: "F1 10 = F 10" "k div 1024 = i div 1024"
  shows "merged s F A i x i' x' s'"
proof -
  have "frames_total s1 = frames_total s" using ms by (simp add: frames_total_def)
  then show ?thesis using m unfolding merged_def Let_def ms cov same by simp
qed

lemma merge_loop_ok:
  assumes "repr s F A" "tiling (frames_total s) (insert (i, x) (free_blocks F \<union> A))" "(i, x) \<notin> free_blocks F \<union> A"
    and "junk_ok s (covered (insert (i, x) (free_blocks F \<union> A)))"
    and "porder s i = 10 \<longrightarrow> x = 10 \<and> \<not> bits_of (bmap s 10) (i div 1024)"
  shows "\<exists>i' x' s'. merge_loop i x s = Some (i', x', s') \<and> merged s F A i x i' x' s'"
  using assms
proof (induction "10 - x" arbitrary: i x s F)
  case 0
  have x: "x = 10" using 0(1) 0(3) by (simp add: tiling_def block_wf_def)
  let ?b = "get_buddy i 10"
  have dv: "2 ^ 10 dvd i" using 0(3) x by (simp add: tiling_def block_wf_def)
  have stop: "merged s F A i x i x s" using 0(2-5) by (rule merge_stop)
  show ?case
  proof (cases "?b < frames_total s \<and> porder s ?b = 10")
    case True
    note lf = buddy_looks_free [OF 0(2,3,5,4), unfolded x, OF refl conjunct1 [OF True] conjunct2 [OF True]]
    have mo: "maps_ok s" using 0(2) by (simp add: repr_def)
    have get: "bitmap_get (bmap s 10) (of_nat (?b div 2 ^ 10)) = Some (bits_of (bmap s 10) (?b div 2 ^ 10))"
      using bitmap_get_block [OF mo _ block_index [OF lf(1)]] by simp
    show ?thesis
    proof (cases "bits_of (bmap s 10) (?b div 2 ^ 10)")
      case bit: True
      then have bF: "?b \<in> set (F 10)" by (rule lf(2))
      have all: "\<forall>c \<in> free_blocks F \<union> A. block_wf (frames_total s) c" using 0(3) by (simp add: tiling_def)
      have ap: "apart (free_blocks F \<union> A)" using 0(3) apart_subset by (auto simp: tiling_def)
      from take_buddy_repr [OF 0(2) ap lf(1) bF all, where g = "merge_loop (if ?b < i then ?b else i) 11"]
      obtain s1 where s1: "Option.bind (map_set 10 (?b div 2 ^ 10) False (ple_remove (Pg ?b) s))
          (\<lambda>s2. merge_loop (if ?b < i then ?b else i) 11 (s2\<lparr>num_avail := (num_avail s2)(10 := num_avail s2 10 - 1)\<rparr>))
             = merge_loop (if ?b < i then ?b else i) 11 s1"
        "repr s1 (F(10 := remove1 ?b (F 10))) A" "memory_size s1 = memory_size s" "porder s1 = porder s"
        "\<forall>q < frames_total s div 1024. bits_of (bmap s1 10) q = (bits_of (bmap s 10) q \<and> \<not> (10 = (10 :: nat) \<and> q = ?b div 1024))"
        "free_blocks F = insert (?b, 10) (free_blocks (F(10 := remove1 ?b (F 10))))"
        "(?b, 10) \<notin> free_blocks (F(10 := remove1 ?b (F 10))) \<union> A" by blast
      have "merge_loop i 10 s = merge_loop (min i ?b) 11 s1"
        using True bit get s1(1) buddy_pair(6) [OF dv refl]
        by (subst merge_loop.simps) (simp add: Let_def BUDDY_MAX_ORDER_def)
      moreover have "merge_loop (min i ?b) 11 s1 = Some (min i ?b, 11, s1)"
        by (subst merge_loop.simps) (simp add: BUDDY_MAX_ORDER_def)
      moreover have "merged s F A i 10 (min i ?b) 11 s1"
        using 0(3-6) s1(5) unfolding x
        by (intro merge_top [OF s1(2-4) _ _ _ _ refl bF _ s1(6,7)]) simp_all
      ultimately show ?thesis unfolding x by auto
    next
      case False
      then have "merge_loop i x s = Some (i, x, s)"
        using True get by (subst merge_loop.simps) (simp add: Let_def BUDDY_MAX_ORDER_def x)
      then show ?thesis using stop by blast
    qed
  next
    case False
    then have "merge_loop i x s = Some (i, x, s)"
      by (subst merge_loop.simps) (auto simp: Let_def BUDDY_MAX_ORDER_def x)
    then show ?thesis using stop by blast
  qed
next
  case (Suc m)
  have x: "x < 10" using Suc(2) by simp
  let ?b = "get_buddy i x"
  have dv: "2 ^ x dvd i" using Suc(4) by (simp add: tiling_def block_wf_def)
  have stop: "merged s F A i x i x s" using Suc(3-6) by (rule merge_stop)
  show ?case
  proof (cases "?b < frames_total s \<and> porder s ?b = x")
    case True
    note lf = buddy_looks_free [OF Suc(3,4,6,5) refl conjunct1 [OF True] conjunct2 [OF True]]
    have mo: "maps_ok s" using Suc(3) by (simp add: repr_def)
    have get: "bitmap_get (bmap s x) (of_nat (?b div 2 ^ x)) = Some (bits_of (bmap s x) (?b div 2 ^ x))"
      using bitmap_get_block [OF mo _ block_index [OF lf(1)]] x by simp
    show ?thesis
    proof (cases "bits_of (bmap s x) (?b div 2 ^ x)")
      case bit: True
      then have bF: "?b \<in> set (F x)" by (rule lf(2))
      have all: "\<forall>c \<in> free_blocks F \<union> A. block_wf (frames_total s) c" using Suc(4) by (simp add: tiling_def)
      have ap: "apart (free_blocks F \<union> A)" using Suc(4) apart_subset by (auto simp: tiling_def)
      define F1 where "F1 = F(x := remove1 ?b (F x))"
      from take_buddy_repr [OF Suc(3) ap lf(1) bF all, where g = "merge_loop (if ?b < i then ?b else i) (x + 1)"]
      obtain s1 where s1: "Option.bind (map_set x (?b div 2 ^ x) False (ple_remove (Pg ?b) s))
          (\<lambda>s2. merge_loop (if ?b < i then ?b else i) (x + 1) (s2\<lparr>num_avail := (num_avail s2)(x := num_avail s2 x - 1)\<rparr>))
             = merge_loop (if ?b < i then ?b else i) (x + 1) s1"
        "repr s1 F1 A" "memory_size s1 = memory_size s" "porder s1 = porder s"
        "\<forall>q < frames_total s div 1024. bits_of (bmap s1 10) q = bits_of (bmap s 10) q"
        "free_blocks F = insert (?b, x) (free_blocks F1)" "(?b, x) \<notin> free_blocks F1 \<union> A"
        using x unfolding F1_def by auto
      let ?k = "min i ?b"
      have B: "free_blocks F1 \<union> A = (free_blocks F \<union> A) - {(?b, x)}" using s1(6,7) by auto
      have bin: "(?b, x) \<in> free_blocks F \<union> A" using s1(6) by simp
      note tm = tiling_merge [OF Suc(4,5) refl bin x, folded B]
      have tot: "frames_total s1 = frames_total s" using s1(3) by (simp add: frames_total_def)
      have step: "merge_loop i x s = merge_loop ?k (Suc x) s1"
        using True bit get s1(1) x buddy_pair(6) [OF dv refl]
        by (subst merge_loop.simps) (simp add: Let_def BUDDY_MAX_ORDER_def)
      have kn: "(?k, Suc x) \<notin> free_blocks F1 \<union> A" using tm(2) B by blast
      have j1: "junk_ok s1 (covered (insert (?k, Suc x) (free_blocks F1 \<union> A)))"
        unfolding tm(3) using junk_ok_less [OF Suc(6) s1(3,4)] s1(5) by simp
      have "porder s1 ?k \<noteq> 10" using True Suc(7) s1(4) x by (simp add: min_def)
      moreover have "m = 10 - Suc x" using Suc(2) by simp
      ultimately obtain i' x' s' where res: "merge_loop ?k (Suc x) s1 = Some (i', x', s')" "merged s1 F1 A ?k (Suc x) i' x' s'"
        using Suc.hyps(1) [of "Suc x" s1 F1 ?k] s1(2) tm(1) kn j1 unfolding tot by blast
      have "frames_of (?k, Suc x) \<union> covered (free_blocks F1) = frames_of (i, x) \<union> covered (free_blocks F)"
        using buddy_pair(1) [OF dv refl] unfolding s1(6) by (simp only: covered_insert) blast
      moreover have "?k div 1024 = i div 1024"
      proof -
        obtain d where d: "10 = Suc x + d" using x less_iff_Suc_add [of x 10] by auto
        have "?b div 2 ^ 10 = i div 2 ^ 10" using buddy_pair(8) [OF dv refl] d by (metis div_mult2_eq power_add)
        then show ?thesis by (simp add: min_def)
      qed
      moreover have "F1 10 = F 10" using x by (simp add: F1_def)
      ultimately have "merged s F A i x i' x' s'" using merged_trans [OF res(2) s1(3)] by blast
      then show ?thesis using step res(1) by auto
    next
      case False
      then have "merge_loop i x s = Some (i, x, s)"
        using True get x by (subst merge_loop.simps) (simp add: Let_def BUDDY_MAX_ORDER_def)
      then show ?thesis using stop by blast
    qed
  next
    case False
    then have "merge_loop i x s = Some (i, x, s)"
      by (subst merge_loop.simps) (auto simp: Let_def)
    then show ?thesis using stop by blast
  qed
qed

lemma merge_loop_mono: "merge_loop i x s = Some (i', x', s') \<Longrightarrow> x \<le> x'"
proof (induction i x s rule: merge_loop.induct)
  case (1 i x s)
  show ?case
    using "1.prems" "1.IH"
    by (subst (asm) merge_loop.simps)
       (fastforce simp: Let_def split: if_splits option.splits bool.splits Option.bind_splits)
qed

lemma merge_loop_top:
  assumes "merge_loop i 10 s = Some (i', x', s')" "get_buddy i 10 < frames_total s" "porder s (get_buddy i 10) = 10"
    and "bitmap_get (bmap s 10) (of_nat (get_buddy i 10 div 1024)) = Some True"
  shows "x' \<ge> 11"
  using assms merge_loop_mono [of _ 11]
  by (subst (asm) merge_loop.simps) (auto simp: Let_def BUDDY_MAX_ORDER_def split: Option.bind_splits)

lemma free_frames_ok:
  assumes inv: "buddy_inv s F A" and a: "(i, k) \<in> A"
  shows "\<exists>y s' F' L. free_frames (of_nat (i * 2 ^ PAGE_SHIFT)) s = Some (push_bit y 1, s') \<and> k \<le> y \<and> y \<le> 10 \<and>
    buddy_inv s' F' (A - {(i, k)}) \<and> memory_size s' = memory_size s \<and>
    frames_of (i, k) \<union> covered (free_blocks F) = covered (free_blocks F') \<union> L \<and> L \<inter> covered (free_blocks F') = {} \<and>
    (if get_buddy (i div 1024 * 1024) 10 \<in> set (F 10) then L = {} \<or> (\<exists>h. L = frames_of (h, 10)) else L = {}) \<and>
    (k = 10 \<and> get_buddy i 10 \<in> set (F 10) \<longrightarrow> L \<noteq> {})"
proof -
  let ?A = "A - {(i, k)}"
  let ?p = "of_nat (i * 2 ^ PAGE_SHIFT) :: u32"
  have r: "repr s F A" and t: "tiling (frames_total s) (free_blocks F \<union> A)" and j: "junk_ok s (covered (free_blocks F \<union> A))"
    using inv by (simp_all add: buddy_inv_def)
  have wf: "block_wf (frames_total s) (i, k)" using t a by (simp add: tiling_def)
  have mk: "marked s (free_blocks F) True" "marked s A False" using r by (simp_all add: repr_def)
  have po: "porder s i = k" "\<not> bits_of (bmap s k) (i div 2 ^ k)" using markedD [OF mk(2) a] by simp_all
  have "(Suc i) * 2 ^ PAGE_SHIFT \<le> frames_total s * 2 ^ PAGE_SHIFT"
    using wf by (intro mult_right_mono) (simp_all add: block_wf_def Suc_le_eq less_le_trans [of i "i + 2 ^ k"])
  also have "\<dots> \<le> unat (memory_size s)" by (simp add: frames_total_def)
  finally have lt: "i * 2 ^ PAGE_SHIFT < unat (memory_size s)" by (simp add: PAGE_SHIFT_def)
  then have up: "unat ?p = i * 2 ^ PAGE_SHIFT"
    by (intro unat_of_nat_lt) (use unat_u32_lt [of "memory_size s"] in simp)
  have ipos: "unat ?p div 2 ^ PAGE_SHIFT = i" unfolding up by simp
  have A: "insert (i, k) (free_blocks F \<union> ?A) = free_blocks F \<union> A" using a by blast
  have "repr s F ?A" using r marked_subset [OF mk(2)] by (simp add: repr_def)
  moreover have "(i, k) \<notin> free_blocks F \<union> ?A" using repr_disjoint [OF r] a by blast
  moreover have "porder s i = 10 \<longrightarrow> k = 10 \<and> \<not> bits_of (bmap s 10) (i div 1024)" using po by auto
  ultimately obtain i' x' s1 where m: "merge_loop i k s = Some (i', x', s1)" "merged s F ?A i k i' x' s1"
    using merge_loop_ok [of s F ?A i k] t j unfolding A by blast
  define y where "y = min x' 10"
  obtain F1 L where ml: "repr s1 F1 ?A" "memory_size s1 = memory_size s"
     "tiling (frames_total s) (insert (i', y) (free_blocks F1 \<union> ?A))" "(i', y) \<notin> free_blocks F1 \<union> ?A"
     "junk_ok s1 (covered (insert (i', y) (free_blocks F1 \<union> ?A)))"
     "frames_of (i, k) \<union> covered (free_blocks F) = frames_of (i', y) \<union> covered (free_blocks F1) \<union> L"
     "L \<inter> covered (insert (i', y) (free_blocks F1 \<union> ?A)) = {}"
     "if get_buddy (i div 1024 * 1024) 10 \<in> set (F 10) \<and> x' = 11 then L = frames_of (i' + 1024, 10) else L = {} \<and> x' \<le> 10"
    using m(2) unfolding merged_def Let_def y_def by blast
  have tot: "frames_total s1 = frames_total s" using ml(2) by (simp add: frames_total_def)
  have y: "y \<le> 10" "2 ^ y dvd i'" using ml(3) by (simp_all add: tiling_def block_wf_def)
  define F2 where "F2 = F1(y := i' # F1 y)"
  have fb: "free_blocks F2 = insert (i', y) (free_blocks F1)" using y(1) unfolding F2_def by (rule free_blocks_insert)
  have "blocks_ok (frames_total s1) (insert (i', y) (free_blocks F1 \<union> ?A))" using blocks_ok_subset [OF ml(3)] tot by simp
  from put_free_repr [OF ml(1) this ml(4)] obtain s2 where s2: "put_free i' y s1 = Some s2" "repr s2 F2 ?A"
    "memory_size s2 = memory_size s1" "porder s2 = (porder s1)(i' := y)"
    "\<forall>q < frames_total s1 div 1024. bits_of (bmap s2 10) q = (y = 10 \<and> q = i' div 1024 \<or> bits_of (bmap s1 10) q)"
    unfolding F2_def by blast
  have "junk_ok s2 (covered (insert (i', y) (free_blocks F1 \<union> ?A)))"
    by (rule junk_ok_step [OF ml(5) s2(3,4) _ _ y(2)]) (use s2(5) in auto)
  then have "buddy_inv s2 F2 ?A"
    using s2(2,3) ml(2,3) repr_disjoint [OF s2(2)] fb by (simp add: buddy_inv_def frames_total_def)
  moreover have "free_frames ?p s = Some (push_bit y 1, s2)"
    using lt up po(1) wf m(1) s2(1)
    by (simp add: free_frames_def word_less_nat_alt Let_def ipos BUDDY_MAX_ORDER_def block_wf_def y_def)
  moreover have "frames_of (i, k) \<union> covered (free_blocks F) = covered (free_blocks F2) \<union> L"
    using ml(6) unfolding fb by (simp only: covered_insert)
  moreover have "L \<inter> covered (free_blocks F2) = {}" using ml(7) unfolding fb by (simp only: covered_insert covered_Un) blast
  moreover have "k \<le> y" using merge_loop_mono [OF m(1)] wf by (simp add: y_def block_wf_def)
  moreover have "k = 10 \<and> get_buddy i 10 \<in> set (F 10) \<longrightarrow> L \<noteq> {}"
  proof
    assume b: "k = 10 \<and> get_buddy i 10 \<in> set (F 10)"
    let ?b = "get_buddy i 10"
    have "(?b, 10) \<in> free_blocks F" using b by (simp add: free_blocks_def)
    then have bw: "block_wf (frames_total s) (?b, 10)" "porder s ?b = 10" "bits_of (bmap s 10) (?b div 2 ^ 10)"
      using t markedD [OF mk(1), of ?b 10] by (simp_all add: tiling_def)
    have "maps_ok s" using r by (simp add: repr_def)
    then have "bitmap_get (bmap s 10) (of_nat (?b div 1024)) = Some True"
      using bitmap_get_block [of s 10, OF _ _ block_index [OF bw(1)]] bw(3) by simp
    then have "x' \<ge> 11" using merge_loop_top [of i s] m(1) b bw by (simp add: block_wf_def)
    then have "L = frames_of (i' + 1024, 10)" using ml(8) by (auto split: if_splits)
    then show "L \<noteq> {}" using head_in_frames [of "i' + 1024" 10] by blast
  qed
  ultimately show ?thesis using ml(2,8) s2(3) y(1)
    by (intro exI [of _ y] exI [of _ s2] exI [of _ F2] exI [of _ L]) (auto split: if_splits)
qed

section \<open>Initialisation establishes the invariant\<close>

lemma fit_order_ok: "i < N \<Longrightarrow> fit_order i N x \<le> x \<and> i + 2 ^ fit_order i N x \<le> N"
  by (induction x) (auto simp: le_SucI)

lemma empty_repr: "repr (buddy_empty m) (\<lambda>_. []) {}"
proof -
  let ?N = "unat m div 2 ^ PAGE_SHIFT"
  have N: "?N < 2 ^ 20" using unat_u32_lt [of m] by (intro less_mult_imp_div_less) (simp add: PAGE_SHIFT_def)
  have small: "?N div 2 ^ x < 2 ^ 20" for x using le_less_trans [OF div_le_dividend N] .
  have u: "unat (of_nat (?N div 2 ^ x) :: u32) = ?N div 2 ^ x" "?N div 2 ^ x + 31 < 2 ^ 32" for x
    using small [of x] by (intro unat_of_nat_lt, simp_all)
  have "bitmap_ok (bitmap_new (of_nat (?N div 2 ^ x)))" for x
    using bitmap_new_ok [of "of_nat (?N div 2 ^ x)"] u by simp
  moreover have "nbits (bitmap_new c) = c" for c by (simp add: bitmap_new_def Let_def)
  ultimately show ?thesis
    using u by (simp add: repr_def lists_ok_def maps_ok_def marked_def free_blocks_def buddy_empty_def dring_def frames_total_def)
qed

lemma make_blocks_ok:
  assumes "repr s F {}" "blocks_ok (frames_total s) (free_blocks F)" "covered (free_blocks F) = {first ..< i}"
    and "first \<le> i" "i \<le> frames_total s" "2 ^ x dvd i" "x \<le> 10" "\<forall>p. p \<notin> covered (free_blocks F) \<longrightarrow> porder s p = 255"
  shows "\<exists>s' F'. make_blocks (frames_total s) i x s = Some s' \<and> repr s' F' {} \<and> memory_size s' = memory_size s \<and>
    blocks_ok (frames_total s) (free_blocks F') \<and> covered (free_blocks F') = {first ..< frames_total s} \<and>
    (\<forall>p. p \<notin> covered (free_blocks F') \<longrightarrow> porder s' p = 255)"
  using assms
proof (induction "frames_total s - i" arbitrary: s F i x rule: less_induct)
  case less
  show ?case
  proof (cases "i < frames_total s")
    case True
    let ?x = "fit_order i (frames_total s) x"
    have fo: "?x \<le> x" "i + 2 ^ ?x \<le> frames_total s" using fit_order_ok [OF True] by simp_all
    have dv: "2 ^ ?x dvd i" using less.prems(6) fo(1) by (meson dvd_trans le_imp_power_dvd)
    have wf: "block_wf (frames_total s) (i, ?x)" using fo dv less.prems(7) by (simp add: block_wf_def)
    have dis: "frames_of (i, ?x) \<inter> covered (free_blocks F) = {}" using less.prems(3) by (auto simp: frames_of_def)
    then have n: "(i, ?x) \<notin> free_blocks F" unfolding covered_def by (auto dest!: arg_cong [of _ _ "\<lambda>S. i \<in> S"] simp: Int_iff)
    have bo: "blocks_ok (frames_total s) (insert (i, ?x) (free_blocks F))"
      using less.prems(2) wf dis n by (simp add: blocks_ok_def apart_insert)
    obtain s1 where s1: "put_free i ?x s = Some s1" "repr s1 (F(?x := i # F ?x)) {}" "memory_size s1 = memory_size s"
      "porder s1 = (porder s)(i := ?x)"
      using put_free_repr [OF less.prems(1), of i ?x] bo n unfolding Un_empty_right by blast
    define F1 where "F1 = F(?x := i # F ?x)"
    have fb: "free_blocks F1 = insert (i, ?x) (free_blocks F)"
      using wf unfolding F1_def by (intro free_blocks_insert) (simp add: block_wf_def)
    have tot: "frames_total s1 = frames_total s" using s1(3) by (simp add: frames_total_def)
    have cov: "covered (free_blocks F1) = {first ..< i + 2 ^ ?x}"
      using less.prems(3,4) unfolding fb covered_insert frames_of_def fst_conv snd_conv
      by (simp add: ivl_disj_un_two(3) Un_commute)
    have p8: "\<forall>p. p \<notin> covered (free_blocks F1) \<longrightarrow> porder s1 p = 255"
      using less.prems(8) s1(4) unfolding fb by auto
    have dec: "frames_total s1 - (i + 2 ^ ?x) < frames_total s - i" using True tot by (simp add: diff_less_mono2)
    have p2: "blocks_ok (frames_total s1) (free_blocks F1)" using bo fb tot by simp
    have rest: "first \<le> i + 2 ^ ?x" "i + 2 ^ ?x \<le> frames_total s1" "2 ^ ?x dvd i + 2 ^ ?x" "?x \<le> 10"
      using less.prems(4,7) fo dv tot by simp_all
    obtain s' F' where "make_blocks (frames_total s) (i + 2 ^ ?x) ?x s1 = Some s'" "repr s' F' {}"
      "memory_size s' = memory_size s1" "blocks_ok (frames_total s) (free_blocks F')"
      "covered (free_blocks F') = {first ..< frames_total s}" "\<forall>p. p \<notin> covered (free_blocks F') \<longrightarrow> porder s' p = 255"
      using less.hyps [OF dec s1(2) [folded F1_def] p2 cov rest p8] unfolding tot by blast
    then show ?thesis using s1(1,3) True by (intro exI [of _ s'] exI [of _ F']) (simp add: make_blocks.simps [of _ i])
  next
    case False
    then have "i = frames_total s" using less.prems(5) by simp
    then show ?thesis using less.prems by (intro exI [of _ s] exI [of _ F]) (simp add: make_blocks.simps)
  qed
qed

lemma buddy_init_ok:
  assumes "1024 dvd first" "first \<le> unat m div 2 ^ PAGE_SHIFT"
  shows "\<exists>s F. buddy_init m first = Some s \<and> buddy_inv s F {} \<and> memory_size s = m \<and>
    covered (free_blocks F) = {first ..< frames_total s}"
proof -
  have tot: "frames_total (buddy_empty m) = unat m div 2 ^ PAGE_SHIFT" by (simp add: frames_total_def buddy_empty_def)
  have e: "free_blocks (\<lambda>_. []) = {}" by (simp add: free_blocks_def)
  obtain s F where s: "buddy_init m first = Some s" "repr s F {}" "memory_size s = m"
    "blocks_ok (frames_total (buddy_empty m)) (free_blocks F)"
    "covered (free_blocks F) = {first ..< frames_total (buddy_empty m)}" "\<forall>p. p \<notin> covered (free_blocks F) \<longrightarrow> porder s p = 255"
  proof -
    have "blocks_ok (frames_total (buddy_empty m)) (free_blocks (\<lambda>_. []))" "covered (free_blocks (\<lambda>_. [])) = {first ..< first}"
      by (simp_all add: e blocks_ok_def apart_def covered_def)
    moreover have "first \<le> frames_total (buddy_empty m)" "2 ^ 10 dvd first" using assms tot by simp_all
    moreover have "porder (buddy_empty m) p = 255" "memory_size (buddy_empty m) = m" for p by (simp_all add: buddy_empty_def)
    ultimately show ?thesis
      using make_blocks_ok [OF empty_repr [of m], of first first 10] that
      by (auto simp: buddy_init_def BUDDY_MAX_ORDER_def tot)
  qed
  have tot': "frames_total s = frames_total (buddy_empty m)" using s(3) by (simp add: frames_total_def buddy_empty_def)
  obtain c where c: "first = 1024 * c" using assms(1) by blast
  have "chunked (frames_total s) {first ..< frames_total s}"
    unfolding chunked_def
  proof (intro ballI allI impI)
    fix p q assume pq: "p \<in> {first ..< frames_total s}" "q < frames_total s" "q div 1024 = p div 1024"
    then have "c \<le> p div 1024" using c by (simp add: less_eq_div_iff_mult_less_eq mult.commute)
    then have "c \<le> q div 1024" using pq(3) by metis
    then have "c * 1024 \<le> q" by (simp add: less_eq_div_iff_mult_less_eq)
    then show "q \<in> {first ..< frames_total s}" using c \<open>q < frames_total s\<close> by simp
  qed
  then have "tiling (frames_total s) (free_blocks F)" using s(4,5) tot' by (simp add: tiling_def blocks_ok_def)
  moreover have "junk_ok s (covered (free_blocks F))" using s(6) by (simp add: junk_ok_def)
  ultimately have "buddy_inv s F {}" using s(2) by (simp add: buddy_inv_def)
  then show ?thesis using s(1,3,5) tot' by auto
qed

section \<open>The allocator as its clients see it\<close>

text \<open>\<open>owns s A U\<close>: the allocator \<open>s\<close> has handed out the blocks \<open>A\<close> and has the frames \<open>U\<close> free.\<close>

definition owns :: "buddy \<Rightarrow> block set \<Rightarrow> nat set \<Rightarrow> bool" where
  "owns s A U \<longleftrightarrow> (\<exists>F. buddy_inv s F A \<and> U = covered (free_blocks F))"

text \<open>A source of single frames, which is what page tables need.\<close>

locale frame_source =
  fixes own :: "'s \<Rightarrow> block set \<Rightarrow> nat set \<Rightarrow> bool"
    and alloc :: "'s \<Rightarrow> (nat option \<times> 's) option"
  assumes alloc_own: "own s A U \<Longrightarrow>
      (if U = {} then alloc s = Some (None, s)
       else \<exists>i s'. i \<in> U \<and> alloc s = Some (Some (i * 2 ^ PAGE_SHIFT), s') \<and> own s' (insert (i, 0) A) (U - {i}))"
    and own_apart: "own s A U \<Longrightarrow> apart A \<and> covered A \<inter> U = {}"
begin

text \<open>A frame just allocated is in no block that was handed out before.\<close>

lemma alloc_fresh:
  assumes "own s A U" "alloc s = Some (Some p, s')"
  shows "\<exists>i. p = i * 2 ^ PAGE_SHIFT \<and> i \<in> U \<and> i \<notin> covered A \<and> own s' (insert (i, 0) A) (U - {i})"
  using alloc_own [OF assms(1)] own_apart [OF assms(1)] assms(2) by (auto split: if_splits)

end

lemma alloc_owns:
  assumes "owns s A U" "order \<le> 10"
  shows "alloc_frames order s = Some (None, s) \<and> (order = 0 \<longrightarrow> U = {}) \<or>
    (\<exists>i s'. alloc_frames order s = Some (Some (i * 2 ^ PAGE_SHIFT), s') \<and> frames_of (i, order) \<subseteq> U \<and>
       (i, order) \<notin> A \<and> memory_size s' = memory_size s \<and> owns s' (insert (i, order) A) (U - frames_of (i, order)))"
proof -
  obtain F where F: "buddy_inv s F A" "U = covered (free_blocks F)" using assms(1) by (auto simp: owns_def)
  show ?thesis
  proof (cases "\<exists>x. order \<le> x \<and> x \<le> 10 \<and> F x \<noteq> []")
    case True
    from alloc_frames_some [OF F(1) assms(2) this] obtain i s' F' where
      "alloc_frames order s = Some (Some (i * 2 ^ PAGE_SHIFT), s')" "buddy_inv s' F' (insert (i, order) A)"
      "memory_size s' = memory_size s" "(i, order) \<notin> A" "frames_of (i, order) \<inter> covered (free_blocks F') = {}"
      "covered (free_blocks F) = frames_of (i, order) \<union> covered (free_blocks F')" by blast
    moreover from this have "U - frames_of (i, order) = covered (free_blocks F')" unfolding F(2) by blast
    ultimately show ?thesis unfolding owns_def F(2) by blast
  next
    case False
    then have "alloc_frames order s = Some (None, s)" using alloc_frames_none [OF F(1) assms(2)] by auto
    moreover have "free_blocks F = {}" if "order = 0" using False that by (auto simp: free_blocks_def)
    ultimately show ?thesis using F(2) by (auto simp: covered_def)
  qed
qed

lemma owns_apart: "owns s A U \<Longrightarrow> apart A \<and> covered A \<inter> U = {}"
proof -
  assume "owns s A U"
  then obtain F where F: "apart (free_blocks F \<union> A)" "free_blocks F \<inter> A = {}" "U = covered (free_blocks F)"
    by (auto simp: owns_def buddy_inv_def tiling_def)
  have "a = b" if "p \<in> frames_of a" "p \<in> frames_of b" "a \<in> A" "b \<in> free_blocks F" for a b p
    using apartD [OF F(1)] that by blast
  then have "covered A \<inter> U = {}" using F(2,3) unfolding covered_def by blast
  then show ?thesis using apart_subset [OF F(1)] by blast
qed

interpretation single_frames: frame_source owns "alloc_frames 0"
proof
  show "if U = {} then alloc_frames 0 s = Some (None, s)
        else \<exists>i s'. i \<in> U \<and> alloc_frames 0 s = Some (Some (i * 2 ^ PAGE_SHIFT), s') \<and> owns s' (insert (i, 0) A) (U - {i})"
    if "owns s A U" for s A U
  proof -
    have "frames_of (i, 0) = {i}" for i by (auto simp: frames_of_def)
    then show ?thesis using alloc_owns [OF that, of 0] by auto
  qed
  show "apart A \<and> covered A \<inter> U = {}" if "owns s A U" for s A U using that by (rule owns_apart)
qed

text \<open>C1: for every order \<open>alloc_frames\<close> returns. It returns the null pointer and
  changes nothing, at order zero only if no frame is free; or it returns the address of an aligned
  block of \<open>2^order\<close> frames that were free, none of which belongs to a block handed out before, and
  the allocator then has exactly the other free frames.\<close>

theorem alloc_frames_disjoint:
  assumes "owns s A U" "order \<le> 10"
  shows "alloc_frames order s = Some (None, s) \<and> (order = 0 \<longrightarrow> U = {}) \<or>
    (\<exists>i s'. alloc_frames order s = Some (Some (i * 2 ^ PAGE_SHIFT), s') \<and> 2 ^ order dvd i \<and>
       frames_of (i, order) \<subseteq> U \<and> frames_of (i, order) \<inter> covered A = {} \<and>
       owns s' (insert (i, order) A) (U - frames_of (i, order)))"
proof -
  have "2 ^ order dvd i" if "owns s' (insert (i, order) A) V" for i s' V
    using that by (auto simp: owns_def buddy_inv_def tiling_def block_wf_def)
  moreover have "frames_of (i, order) \<inter> covered A = {}" if "frames_of (i, order) \<subseteq> U" for i
    using that owns_apart [OF assms(1)] by blast
  ultimately show ?thesis using alloc_owns [OF assms] by blast
qed

lemma owns_init:
  assumes "1024 dvd first" "first \<le> unat m div 2 ^ PAGE_SHIFT"
  shows "\<exists>s. buddy_init m first = Some s \<and> owns s {} {first ..< unat m div 2 ^ PAGE_SHIFT} \<and> memory_size s = m"
  using buddy_init_ok [OF assms] unfolding owns_def by (metis frames_total_def)

theorem alloc_frames_disjoint_witness:
  "\<exists>s i s'. buddy_init 0x1000000 1024 = Some s \<and> alloc_frames 0 s = Some (Some (i * 2 ^ PAGE_SHIFT), s') \<and>
     owns s' {(i, 0)} ({1024 ..< 4096} - frames_of (i, 0))"
proof -
  obtain s where s: "buddy_init 0x1000000 1024 = Some s" "owns s {} {1024 ..< 4096}"
    using owns_init [where first = 1024 and m = "0x1000000"] by (auto simp: PAGE_SHIFT_def)
  then show ?thesis using alloc_frames_disjoint [OF s(2), of 0] by auto
qed



text \<open>when a block of the largest order is freed and its buddy is a free block of
  that order, the loop of \<open>free_frames\<close> merges the two, but the result is put back as one block of
  the largest order: 1024 frames that were free or just freed are in no list afterwards, and the
  number of free frames has not grown.\<close>

theorem free_frames_leak:
  assumes inv: "buddy_inv s F A" and a: "(i, 10) \<in> A" and b: "get_buddy i 10 \<in> set (F 10)"
  shows "\<exists>y s' F' L. free_frames (of_nat (i * 2 ^ PAGE_SHIFT)) s = Some (push_bit y 1, s') \<and>
    buddy_inv s' F' (A - {(i, 10)}) \<and> card L = 1024 \<and> L \<inter> covered (free_blocks F') = {} \<and>
    frames_of (i, 10) \<union> covered (free_blocks F) = covered (free_blocks F') \<union> L"
proof -
  have "(i, 10) \<in> free_blocks F \<union> A" "tiling (frames_total s) (free_blocks F \<union> A)" using inv a by (simp_all add: buddy_inv_def)
  then have "1024 dvd i" unfolding tiling_def block_wf_def by force
  then have ib: "i div 1024 * 1024 = i" by simp
  have card: "card (frames_of (h, 10)) = 1024" for h by (simp add: frames_of_def)
  obtain y s' F' L where "free_frames (of_nat (i * 2 ^ PAGE_SHIFT)) s = Some (push_bit y 1, s')"
    "buddy_inv s' F' (A - {(i, 10)})" "L \<inter> covered (free_blocks F') = {}" "L = {} \<or> (\<exists>h. L = frames_of (h, 10))" "L \<noteq> {}"
    "frames_of (i, 10) \<union> covered (free_blocks F) = covered (free_blocks F') \<union> L"
    using free_frames_ok [OF inv a, unfolded ib if_P [OF b]] b by blast
  moreover from this have "card L = 1024" using card by auto
  ultimately show ?thesis by blast
qed

lemma leak_state: "\<exists>s F. buddy_inv s F {(3072, 10)} \<and> F 10 = [2048]"
proof -
  let ?m = "0x1000000 :: u32"
  let ?F = "(\<lambda>_. [])(10 := [2048])"
  have e: "free_blocks (\<lambda>_. []) = {}" by (simp add: free_blocks_def)
  have fb: "free_blocks ?F = {(2048, 10)}" by (auto simp: free_blocks_def split: if_splits)
  have N: "frames_total (buddy_empty ?m) = 4096" by (simp add: frames_total_def buddy_empty_def PAGE_SHIFT_def)
  have dis: "frames_of (3072, 10) \<inter> frames_of (2048, 10) = {}" by (auto simp: frames_of_def)
  have bo: "blocks_ok 4096 {(2048, 10)}" "blocks_ok 4096 (insert (3072, 10) ({(2048, 10)} \<union> {}))"
    using dis by (auto simp: blocks_ok_def block_wf_def apart_def)
  obtain s1 where s1: "repr s1 ?F {}" "memory_size s1 = memory_size (buddy_empty ?m)" "porder s1 = (porder (buddy_empty ?m))(2048 := 10)"
    using put_free_repr [OF empty_repr [of ?m], of 2048 10] bo(1) unfolding e N by auto
  have N1: "frames_total s1 = 4096" using s1(2) N by (simp add: frames_total_def)
  obtain s2 where s2: "repr s2 ?F {(3072, 10)}" "memory_size s2 = memory_size s1" "porder s2 = (porder s1)(3072 := 10)"
    using mark_allocated_repr [OF s1(1), of 3072 10] bo(2) unfolding fb N1 by auto
  have N2: "frames_total s2 = 4096" using s2(2) N1 by (simp add: frames_total_def)
  have cov: "covered {(3072, 10), (2048, 10)} = {2048 ..< 4096}" by (auto simp: covered_def frames_of_def)
  have "chunked 4096 {2048 ..< 4096}"
    unfolding chunked_def
  proof (intro ballI allI impI)
    fix p q :: nat assume pq: "p \<in> {2048 ..< 4096}" "q < 4096" "q div 1024 = p div 1024"
    then have "2 \<le> p div 1024" by (simp add: less_eq_div_iff_mult_less_eq)
    then have "2 \<le> q div 1024" using pq(3) by metis
    then show "q \<in> {2048 ..< 4096}" using pq(2) by (simp add: less_eq_div_iff_mult_less_eq)
  qed
  then have "tiling 4096 {(3072, 10), (2048, 10)}"
    using bo(2) unfolding tiling_def blocks_ok_def cov by simp
  moreover have "junk_ok s2 {2048 ..< 4096}"
    using s1(3) s2(3) by (auto simp: junk_ok_def buddy_empty_def)
  ultimately have "buddy_inv s2 ?F {(3072, 10)}"
    using s2(1) unfolding buddy_inv_def fb N2 insert_is_Un [of "(3072, 10)", symmetric] Un_insert_right Un_empty_right cov by auto
  then show ?thesis by (intro exI [of _ s2] exI [of _ ?F]) simp
qed

theorem free_frames_leak_witness:
  "\<exists>s F y s' F' L. buddy_inv s F {(3072, 10)} \<and>
     free_frames (of_nat (3072 * 2 ^ PAGE_SHIFT)) s = Some (push_bit y 1, s') \<and> buddy_inv s' F' {} \<and> card L = 1024 \<and>
     frames_of (3072, 10) \<union> covered (free_blocks F) = covered (free_blocks F') \<union> L"
proof -
  obtain s F where s: "buddy_inv s F {(3072, 10)}" "F 10 = [2048]" using leak_state by blast
  have "get_buddy 3072 10 = 2048" by (simp add: get_buddy_def push_bit_eq_mult)
  then have "get_buddy 3072 10 \<in> set (F 10)" using s(2) by simp
  from free_frames_leak [OF s(1) _ this] s(1) show ?thesis by auto
qed

end
