(* ===== verification/Paging.thy ===== *)
theory Paging
  imports Buddy
begin

text \<open>
  Page tables and page directories of \<open>kernel/include/paging.h\<close> and \<open>kernel/mem/paging.cpp\<close>. A page
  or directory entry is its 32 bit value; tables and directories are objects in a store, since
  directories share tables after a \<open>clone\<close> with \<open>CLONE_VM\<close>. \<open>kmalloc\<close> of a table or a directory
  gives an address that was not used before, whose physical frame is the parameter \<open>phys_of\<close>.
  The contents of physical memory are a function from frames to their 1024 double words.
\<close>

section \<open>Pages and entries\<close>

definition PAGE_PRESENT :: u32 where "PAGE_PRESENT = 1"
definition PAGE_RW :: u32 where "PAGE_RW = 2"
definition PAGE_US :: u32 where "PAGE_US = 4"
definition PAGE_WRITETHROUGH :: u32 where "PAGE_WRITETHROUGH = 8"
definition PAGE_NOCACHE :: u32 where "PAGE_NOCACHE = 16"
definition PAGE_SIZE :: u32 where "PAGE_SIZE = 4096"
definition CLONE_VM :: u32 where "CLONE_VM = 0x100"

text \<open>The bit fields of \<open>union page\<close> and \<open>union page_dir_entry\<close>.\<close>

definition pg_present :: "u32 \<Rightarrow> bool" where "pg_present v \<longleftrightarrow> bit v 0"
definition pg_rw :: "u32 \<Rightarrow> bool" where "pg_rw v \<longleftrightarrow> bit v 1"
definition pg_user :: "u32 \<Rightarrow> bool" where "pg_user v \<longleftrightarrow> bit v 2"
definition pde_ps :: "u32 \<Rightarrow> bool" where "pde_ps v \<longleftrightarrow> bit v 7"
definition pg_addr :: "u32 \<Rightarrow> u32" where "pg_addr v = drop_bit 12 v"

definition set_addr :: "u32 \<Rightarrow> u32 \<Rightarrow> u32" where
  "set_addr a v = (v AND 0xFFF) OR push_bit 12 (a AND 0xFFFFF)"

section \<open>The state\<close>

record pdir =
  entries :: "nat \<Rightarrow> u32"
  tables :: "nat \<Rightarrow> nat option"
  phys_addr :: u32

record paging =
  frames :: buddy
  tabs :: "nat \<Rightarrow> nat \<Rightarrow> u32"
  dirs :: "nat \<Rightarrow> pdir"
  next_obj :: nat
  cur_dir :: nat
  phys_mem :: "nat \<Rightarrow> nat \<Rightarrow> u32"

definition KERNEL_DIR :: nat where "KERNEL_DIR = 0"

definition set_dir :: "nat \<Rightarrow> pdir \<Rightarrow> paging \<Rightarrow> paging" where
  "set_dir d v s = s\<lparr>dirs := (dirs s)(d := v)\<rparr>"

definition write_page :: "nat \<Rightarrow> nat \<Rightarrow> u32 \<Rightarrow> paging \<Rightarrow> paging" where
  "write_page t k v s = s\<lparr>tabs := (tabs s)(t := (tabs s t)(k := v))\<rparr>"

section \<open>Finding and creating pages\<close>

text \<open>\<open>kmalloc(sizeof(page_table), KMALLOC_ALIGN, &phys)\<close> and clearing the table.\<close>

definition new_table :: "paging \<Rightarrow> nat \<times> paging" where
  "new_table s = (next_obj s, s\<lparr>tabs := (tabs s)(next_obj s := (\<lambda>_. 0)), next_obj := Suc (next_obj s)\<rparr>)"

text \<open>\<open>page_dir::get_page\<close>: the table and the index of the page, or the null pointer.\<close>

definition get_page :: "(nat \<Rightarrow> u32) \<Rightarrow> nat \<Rightarrow> u32 \<Rightarrow> bool \<Rightarrow> u32 \<Rightarrow> paging \<Rightarrow> (nat \<times> nat) option \<times> paging" where
  "get_page phys_of d addr make_table flags s =
     (let idx = unat (drop_bit 10 addr); k = unat (addr AND 1023) in
      case tables (dirs s d) idx of
        Some t \<Rightarrow> (Some (t, k), s)
      | None \<Rightarrow>
          if make_table then
            let (t, s1) = new_table s;
                D = dirs s1 d
            in (Some (t, k),
                set_dir d (D\<lparr>tables := (tables D)(idx := Some t),
                            entries := (entries D)(idx := set_addr (drop_bit 12 (phys_of t)) flags)\<rparr>) s1)
          else (None, s))"

text \<open>A lookup that creates nothing.\<close>

definition find_page :: "paging \<Rightarrow> nat \<Rightarrow> u32 \<Rightarrow> (nat \<times> nat) option" where
  "find_page s d addr = map_option (\<lambda>t. (t, unat (addr AND 1023))) (tables (dirs s d) (unat (drop_bit 10 addr)))"

definition page_value :: "paging \<Rightarrow> nat \<Rightarrow> u32 \<Rightarrow> u32 option" where
  "page_value s d addr = map_option (\<lambda>(t, k). tabs s t k) (find_page s d addr)"

text \<open>The loop of \<open>map_pages\<close> runs while \<open>i < start + sz\<close>, a sum that wraps around.\<close>

definition page_range :: "u32 \<Rightarrow> u32 \<Rightarrow> u32 list" where
  "page_range start sz = map of_nat [unat start ..< unat (start + sz)]"

fun map_loop :: "(nat \<Rightarrow> u32) \<Rightarrow> nat \<Rightarrow> u32 \<Rightarrow> bool \<Rightarrow> u32 \<Rightarrow> u32 list \<Rightarrow> paging \<Rightarrow> bool \<times> paging" where
  "map_loop phys_of d addr make_table flags [] s = (True, s)"
| "map_loop phys_of d addr make_table flags (i # is) s =
     (case get_page phys_of d i make_table (PAGE_PRESENT OR PAGE_RW) s of
        (None, s1) \<Rightarrow> (False, s1)
      | (Some (t, k), s1) \<Rightarrow>
          map_loop phys_of d (addr + PAGE_SIZE) make_table flags is
            (write_page t k (set_addr (drop_bit 12 addr) flags) s1))"

definition map_pages :: "(nat \<Rightarrow> u32) \<Rightarrow> nat \<Rightarrow> u32 \<Rightarrow> u32 \<Rightarrow> u32 \<Rightarrow> bool \<Rightarrow> u32 \<Rightarrow> paging \<Rightarrow> bool \<times> paging" where
  "map_pages phys_of d start addr sz make_table flags s =
     map_loop phys_of d addr make_table flags (page_range start sz) s"

definition map_block :: "(nat \<Rightarrow> u32) \<Rightarrow> nat \<Rightarrow> u32 \<Rightarrow> u32 \<Rightarrow> u32 \<Rightarrow> bool \<Rightarrow> u32 \<Rightarrow> paging \<Rightarrow> bool \<times> paging" where
  "map_block phys_of d start addr sz make_table flags s =
     map_pages phys_of d (drop_bit 12 start) addr (drop_bit 12 sz) make_table flags s"

text \<open>\<open>alloc_pages\<close>: a page that is present keeps its frame and gets the flags.\<close>

definition frame_of :: "nat option \<Rightarrow> u32" where
  "frame_of p = (case p of None \<Rightarrow> 0 | Some a \<Rightarrow> of_nat a)"

definition alloc_new :: "(nat \<Rightarrow> u32) \<Rightarrow> nat \<Rightarrow> u32 \<Rightarrow> u32 \<Rightarrow> paging \<Rightarrow> (bool \<times> paging) option" where
  "alloc_new phys_of d flags i s =
     (case get_page phys_of d i True flags s of
        (None, s1) \<Rightarrow> Some (False, s1)
      | (Some (t, k), s1) \<Rightarrow>
          Option.bind (alloc_frames 0 (frames s1)) (\<lambda>(p, b).
            let v = set_addr (drop_bit 12 (frame_of p)) flags
            in Some (pg_addr v \<noteq> 0, write_page t k v (s1\<lparr>frames := b\<rparr>))))"

definition alloc_page :: "(nat \<Rightarrow> u32) \<Rightarrow> nat \<Rightarrow> u32 \<Rightarrow> u32 \<Rightarrow> paging \<Rightarrow> (bool \<times> paging) option" where
  "alloc_page phys_of d flags i s =
     (case page_value s d i of
        Some v \<Rightarrow> if pg_present v then
            (case find_page s d i of
               Some (t, k) \<Rightarrow> Some (True, write_page t k (push_bit 12 (pg_addr v) OR flags) s)
             | None \<Rightarrow> None)
          else alloc_new phys_of d flags i s
      | None \<Rightarrow> alloc_new phys_of d flags i s)"

fun alloc_loop :: "(nat \<Rightarrow> u32) \<Rightarrow> nat \<Rightarrow> u32 \<Rightarrow> u32 list \<Rightarrow> paging \<Rightarrow> (bool \<times> paging) option" where
  "alloc_loop phys_of d flags [] s = Some (True, s)"
| "alloc_loop phys_of d flags (i # is) s =
     Option.bind (alloc_page phys_of d flags i s)
       (\<lambda>(ok, s1). if ok then alloc_loop phys_of d flags is s1 else Some (False, s1))"

definition alloc_pages :: "(nat \<Rightarrow> u32) \<Rightarrow> nat \<Rightarrow> u32 \<Rightarrow> u32 \<Rightarrow> u32 \<Rightarrow> paging \<Rightarrow> (bool \<times> paging) option" where
  "alloc_pages phys_of d start sz flags s = alloc_loop phys_of d flags (page_range start sz) s"

definition alloc_block :: "(nat \<Rightarrow> u32) \<Rightarrow> nat \<Rightarrow> u32 \<Rightarrow> u32 \<Rightarrow> u32 \<Rightarrow> paging \<Rightarrow> (bool \<times> paging) option" where
  "alloc_block phys_of d start sz flags s = alloc_pages phys_of d (drop_bit 12 start) (drop_bit 12 sz) flags s"

section \<open>Freeing\<close>

definition free_frame :: "u32 \<Rightarrow> paging \<Rightarrow> paging option" where
  "free_frame p s = map_option (\<lambda>(n, b). s\<lparr>frames := b\<rparr>) (free_frames p (frames s))"

definition free_page :: "nat \<Rightarrow> u32 \<Rightarrow> paging \<Rightarrow> paging option" where
  "free_page d addr s =
     (case find_page s d (drop_bit 12 addr) of
        None \<Rightarrow> Some s
      | Some (t, k) \<Rightarrow>
          if \<not> pg_present (tabs s t k) then Some s
          else map_option (write_page t k 0) (free_frame (push_bit 12 (pg_addr (tabs s t k))) s))"

fun free_table_loop :: "nat \<Rightarrow> nat list \<Rightarrow> paging \<Rightarrow> paging option" where
  "free_table_loop t [] s = Some s"
| "free_table_loop t (i # is) s =
     (if pg_present (tabs s t i)
      then Option.bind (free_frame (push_bit 12 (pg_addr (tabs s t i))) s) (free_table_loop t is)
      else free_table_loop t is s)"

definition table_free :: "nat \<Rightarrow> paging \<Rightarrow> paging option" where
  "table_free t s = free_table_loop t [0 ..< 1024] s"

definition KSTACK_FIRST :: nat where "KSTACK_FIRST = 1023"
definition KSTACK_LAST :: nat where "KSTACK_LAST = 1023"
definition KERNEL_HIGHMEM_START :: nat where "KERNEL_HIGHMEM_START = 768"

definition is_kstack :: "nat \<Rightarrow> bool" where
  "is_kstack i \<longleftrightarrow> KSTACK_FIRST \<le> i \<and> i \<le> KSTACK_LAST"

definition drop_table :: "nat \<Rightarrow> nat \<Rightarrow> nat \<Rightarrow> paging \<Rightarrow> paging option" where
  "drop_table d i t s0 = do {
     s1 \<leftarrow> table_free t s0;
     let D = dirs s1 d;
     Some (set_dir d (D\<lparr>entries := (entries D)(i := 0), tables := (tables D)(i := None)\<rparr>) s1) }"

fun free_tables_loop :: "nat \<Rightarrow> nat \<Rightarrow> nat list \<Rightarrow> paging \<Rightarrow> paging option" where
  "free_tables_loop d shared [] s = Some s"
| "free_tables_loop d shared (i # is) s =
     (case tables (dirs s d) i of
        None \<Rightarrow> free_tables_loop d shared is s
      | Some t \<Rightarrow>
          if tables (dirs s shared) i \<noteq> Some t \<and> \<not> is_kstack i
          then Option.bind (drop_table d i t s) (free_tables_loop d shared is)
          else free_tables_loop d shared is s)"

definition free_tables :: "nat \<Rightarrow> nat option \<Rightarrow> paging \<Rightarrow> paging option" where
  "free_tables d shared_vm_dir s =
     free_tables_loop d (case shared_vm_dir of None \<Rightarrow> KERNEL_DIR | Some v \<Rightarrow> v) [0 ..< 1024] s"

fun free_kstack_loop :: "nat \<Rightarrow> nat list \<Rightarrow> paging \<Rightarrow> paging option" where
  "free_kstack_loop d [] s = Some s"
| "free_kstack_loop d (i # is) s =
     (case tables (dirs s d) i of
        None \<Rightarrow> free_kstack_loop d is s
      | Some t \<Rightarrow> Option.bind (drop_table d i t s) (free_kstack_loop d is))"

definition free_kstack_tables :: "nat \<Rightarrow> paging \<Rightarrow> paging option" where
  "free_kstack_tables d s = free_kstack_loop d [KSTACK_FIRST ..< Suc KSTACK_LAST] s"

section \<open>Cloning\<close>

text \<open>\<open>memcpyd_phys_aligned\<close> maps the two frames at the top of the address space, one pair at a
  time, copies, and puts the old pages back.\<close>

definition DST_VPAGE :: u32 where "DST_VPAGE = 0xffffe"
definition SRC_VPAGE :: u32 where "SRC_VPAGE = 0xfffff"

definition copy_frame :: "nat \<Rightarrow> nat \<Rightarrow> nat \<Rightarrow> (nat \<Rightarrow> nat \<Rightarrow> u32) \<Rightarrow> nat \<Rightarrow> nat \<Rightarrow> u32" where
  "copy_frame dst src c m = m(dst := (\<lambda>j. if j < c then m src j else m dst j))"

function phys_copy_loop :: "nat \<times> nat \<Rightarrow> nat \<times> nat \<Rightarrow> nat \<Rightarrow> paging \<Rightarrow> paging" where
  "phys_copy_loop (td, kd) (ts, ks) count s =
     (if count > 0 then
        let c = min count 1024;
            s1 = s\<lparr>phys_mem := copy_frame (unat (pg_addr (tabs s td kd))) (unat (pg_addr (tabs s ts ks))) c (phys_mem s)\<rparr>;
            s2 = write_page td kd (set_addr (pg_addr (tabs s1 td kd) + 1) (tabs s1 td kd)) s1;
            s3 = write_page ts ks (set_addr (pg_addr (tabs s2 ts ks) + 1) (tabs s2 ts ks)) s2
        in phys_copy_loop (td, kd) (ts, ks) (count - c) s3
      else s)"
  by pat_completeness auto
termination by (relation "measure (\<lambda>(a, b, count, s). count)") auto

declare phys_copy_loop.simps [simp del]

definition old_value :: "paging \<Rightarrow> (nat \<times> nat) option \<Rightarrow> u32" where
  "old_value s p = (case p of None \<Rightarrow> 0 | Some (t, k) \<Rightarrow> tabs s t k)"

definition memcpyd_phys_aligned :: "(nat \<Rightarrow> u32) \<Rightarrow> u32 \<Rightarrow> u32 \<Rightarrow> nat \<Rightarrow> paging \<Rightarrow> paging option" where
  "memcpyd_phys_aligned phys_of dst src count s0 = do {
     let d = cur_dir s0;
     let dst_old = old_value s0 (find_page s0 d DST_VPAGE);
     let src_old = old_value s0 (find_page s0 d SRC_VPAGE);
     let (pd, s1) = get_page phys_of d DST_VPAGE True (PAGE_PRESENT OR PAGE_RW) s0;
     let (ps, s2) = get_page phys_of d SRC_VPAGE True (PAGE_PRESENT OR PAGE_RW) s1;
     (td, kd) \<leftarrow> pd;
     (ts, ks) \<leftarrow> ps;
     let s3 = write_page ts ks (PAGE_PRESENT OR PAGE_RW) s2;
     let s4 = write_page td kd (PAGE_PRESENT OR PAGE_RW) s3;
     let s5 = write_page td kd (set_addr (drop_bit 12 dst) (tabs s4 td kd)) s4;
     let s6 = write_page ts ks (set_addr (drop_bit 12 src) (tabs s5 ts ks)) s5;
     let s7 = phys_copy_loop (td, kd) (ts, ks) count s6;
     let s8 = write_page td kd dst_old s7;
     Some (write_page ts ks src_old s8) }"

fun clone_pages :: "(nat \<Rightarrow> u32) \<Rightarrow> nat \<Rightarrow> nat \<Rightarrow> nat list \<Rightarrow> paging \<Rightarrow> paging option" where
  "clone_pages phys_of t t' [] s = Some s"
| "clone_pages phys_of t t' (i # is) s =
     (if pg_present (tabs s t i) then do {
        (p, b) \<leftarrow> alloc_frames 0 (frames s);
        frame_addr \<leftarrow> p;
        let s1 = write_page t' i (tabs s t i) (s\<lparr>frames := b\<rparr>);
        let s2 = write_page t' i (set_addr (drop_bit 12 (of_nat frame_addr)) (tabs s1 t' i)) s1;
        s3 \<leftarrow> memcpyd_phys_aligned phys_of (of_nat frame_addr) (push_bit 12 (pg_addr (tabs s2 t i))) 1024 s2;
        clone_pages phys_of t t' is s3 }
      else clone_pages phys_of t t' is s)"

definition table_clone :: "(nat \<Rightarrow> u32) \<Rightarrow> nat \<Rightarrow> paging \<Rightarrow> (nat \<times> paging) option" where
  "table_clone phys_of t s =
     (let (t', s1) = new_table s in map_option (\<lambda>s2. (t', s2)) (clone_pages phys_of t t' [0 ..< 1024] s1))"

text \<open>One iteration of \<open>page_dir::clone\<close>.\<close>

definition clone_entry :: "(nat \<Rightarrow> u32) \<Rightarrow> nat \<Rightarrow> u32 \<Rightarrow> int \<Rightarrow> int \<Rightarrow> nat \<Rightarrow> nat \<Rightarrow> paging \<Rightarrow> paging option" where
  "clone_entry phys_of this flags sbot stop dir i s =
     (let K = dirs s KERNEL_DIR; T = dirs s this; D = dirs s dir;
          link = (\<lambda>X. Some (set_dir dir (D\<lparr>tables := (tables D)(i := tables X i), entries := (entries D)(i := entries X i)\<rparr>) s))
      in if i \<ge> KERNEL_HIGHMEM_START \<and> \<not> is_kstack i then link K
         else case tables T i of
           Some t \<Rightarrow>
             if flags AND CLONE_VM \<noteq> 0 \<and> \<not> is_kstack i \<and> \<not> (sbot \<le> int i \<and> int i \<le> stop) then link T
             else do {
               (t', s1) \<leftarrow> table_clone phys_of t s;
               let D1 = dirs s1 dir;
               Some (set_dir dir (D1\<lparr>tables := (tables D1)(i := Some t'),
                       entries := (entries D1)(i := set_addr (drop_bit 12 (phys_of t')) (entries (dirs s1 this) i))\<rparr>) s1) }
         | None \<Rightarrow>
             if pg_present (entries T i) \<and> pde_ps (entries T i) then
               if entries T i = entries K i then link K else None
             else Some s)"

fun clone_loop :: "(nat \<Rightarrow> u32) \<Rightarrow> nat \<Rightarrow> u32 \<Rightarrow> int \<Rightarrow> int \<Rightarrow> nat \<Rightarrow> nat list \<Rightarrow> paging \<Rightarrow> paging option" where
  "clone_loop phys_of this flags sbot stop dir [] s = Some s"
| "clone_loop phys_of this flags sbot stop dir (i # is) s =
     Option.bind (clone_entry phys_of this flags sbot stop dir i s) (clone_loop phys_of this flags sbot stop dir is)"

definition dir_clone :: "(nat \<Rightarrow> u32) \<Rightarrow> nat \<Rightarrow> u32 \<Rightarrow> int \<Rightarrow> int \<Rightarrow> paging \<Rightarrow> (nat \<times> paging) option" where
  "dir_clone phys_of this flags sbot stop s =
     (let dir = next_obj s;
          s1 = set_dir dir \<lparr>entries = (\<lambda>_. 0), tables = (\<lambda>_. None), phys_addr = phys_of dir\<rparr> (s\<lparr>next_obj := Suc dir\<rparr>)
      in map_option (\<lambda>s2. (dir, s2)) (clone_loop phys_of this flags sbot stop dir [0 ..< 1024] s1))"

definition switch_page_dir :: "nat \<Rightarrow> paging \<Rightarrow> paging" where
  "switch_page_dir d s = s\<lparr>cur_dir := d\<rparr>"

section \<open>Initialisation and faults\<close>

definition KERNEL_VIRTUAL_BASE :: u32 where "KERNEL_VIRTUAL_BASE = 0xC0000000"
definition HEAP_BASE :: u32 where "HEAP_BASE = 0xD0000000"
definition HEAP_END :: u32 where "HEAP_END = 0xF0000000"
definition REMAP_END :: u32 where "REMAP_END = 0xffffc000"

text \<open>The kernel is mapped with 4 MiB pages up to the heap; then tables are made up to the end of
  the remap area. Both loops step through directory indices.\<close>

definition map_kernel :: "paging \<Rightarrow> paging" where
  "map_kernel s =
     fold (\<lambda>i s. let K = dirs s KERNEL_DIR;
                     v = (set_addr (of_nat ((i - 768) * 1024)) (entries K i) OR PAGE_PRESENT OR PAGE_RW OR 128) AND NOT PAGE_US
                 in set_dir KERNEL_DIR (K\<lparr>entries := (entries K)(i := v)\<rparr>) s)
       [768 ..< 832] s"

definition make_tables :: "(nat \<Rightarrow> u32) \<Rightarrow> paging \<Rightarrow> paging" where
  "make_tables phys_of s =
     fold (\<lambda>i s. snd (get_page phys_of KERNEL_DIR (of_nat (i * 1024)) True (PAGE_PRESENT OR PAGE_RW) s)) [832 ..< 1024] s"

text \<open>\<open>paging::init\<close>; \<open>placement\<close> is the placement address after the tables were made.\<close>

definition align_addr :: "u32 \<Rightarrow> u32" where
  "align_addr a = (a AND NOT 0xFFF) + (if a AND 0xFFF \<noteq> 0 then 0x1000 else 0)"

definition align_addr_4m :: "u32 \<Rightarrow> u32" where
  "align_addr_4m a = (a AND NOT 0x3FFFFF) + (if a AND 0x3FFFFF \<noteq> 0 then 0x400000 else 0)"

definition paging_init :: "(nat \<Rightarrow> u32) \<Rightarrow> u32 \<Rightarrow> u32 \<Rightarrow> paging \<Rightarrow> paging option" where
  "paging_init phys_of mem_sz placement s0 = do {
     let s1 = switch_page_dir KERNEL_DIR (map_kernel s0);
     let s2 = make_tables phys_of s1;
     let e = align_addr_4m placement;
     b \<leftarrow> buddy_init mem_sz (unat (drop_bit 12 (e - KERNEL_VIRTUAL_BASE)));
     (d, s3) \<leftarrow> dir_clone phys_of KERNEL_DIR 0 (- 1) (- 1) (s2\<lparr>frames := b\<rparr>);
     Some (switch_page_dir d s3) }"

text \<open>What the page fault handler does after its messages: a fault in the kernel halts, a fault in
  user mode kills the current process.\<close>

datatype fault_action = Panic | Kill_current

definition page_fault_handler :: "u32 \<Rightarrow> fault_action" where
  "page_fault_handler err = (if err AND 4 = 0 then Panic else Kill_current)"

section \<open>Bit fields\<close>

lemma mask_12: "(0xFFF :: u32) = mask 12" by (simp add: mask_eq_exp_minus_1)
lemma mask_20: "(0xFFFFF :: u32) = mask 20" by (simp add: mask_eq_exp_minus_1)
lemma mask_10: "(1023 :: u32) = mask 10" by (simp add: mask_eq_exp_minus_1)

lemma bit_set_addr: "bit (set_addr a v) n \<longleftrightarrow> (if n < 12 then bit v n else n < 32 \<and> bit a (n - 12))"
  unfolding set_addr_def mask_12 mask_20
  by (auto simp: bit_simps dest: bit_imp_le_length)

lemma pg_flags_set_addr [simp]:
  "pg_present (set_addr a v) = pg_present v" "pg_user (set_addr a v) = pg_user v" "pg_rw (set_addr a v) = pg_rw v"
  by (simp_all add: pg_present_def pg_user_def pg_rw_def bit_set_addr)

lemma high_bits_zero: "unat (a :: u32) < 2 ^ k \<Longrightarrow> k \<le> n \<Longrightarrow> \<not> bit a n"
proof -
  assume a: "unat a < 2 ^ k" "k \<le> n"
  then have "unat a < 2 ^ n" by (meson less_le_trans one_le_numeral power_increasing)
  then have "\<not> bit (unat a) n" by (simp add: bit_iff_odd)
  then show ?thesis by (auto simp: bit_unsigned_iff dest: bit_imp_le_length)
qed

lemma pg_addr_set_addr: "unat a < 2 ^ 20 \<Longrightarrow> pg_addr (set_addr a v) = a"
proof -
  assume "unat a < 2 ^ 20"
  then have "n < 20" if "bit a n" for n using that high_bits_zero [of a 20 n] by (meson not_le)
  then show ?thesis
    by (intro bit_word_eqI) (auto simp: pg_addr_def bit_drop_bit_eq bit_set_addr)
qed

lemma set_addr_low: "set_addr a v AND 0xFFF = v AND 0xFFF"
  unfolding mask_12 by (intro bit_word_eqI) (auto simp: bit_simps bit_set_addr)

lemma bit_pg_addr: "bit (pg_addr v) n \<longleftrightarrow> bit v (12 + n)"
  by (simp add: pg_addr_def bit_drop_bit_eq)

lemma push_addr_or:
  assumes "unat flags < 2 ^ 12"
  shows "pg_addr (push_bit 12 (pg_addr v) OR flags) = pg_addr v" "(push_bit 12 (pg_addr v) OR flags) AND 0xFFF = flags"
    "pg_present (push_bit 12 (pg_addr v) OR flags) = pg_present flags"
proof -
  have f: "\<not> bit flags n" if "12 \<le> n" for n using assms that by (rule high_bits_zero)
  have b: "bit (push_bit 12 (pg_addr v) OR flags) n = (if n < 12 then bit flags n else n < 32 \<and> bit v n)" for n
  proof (cases "n < 12")
    case False
    then have "bit (push_bit 12 (pg_addr v)) n = (n < 32 \<and> bit v n)"
      by (auto simp: pg_addr_def bit_push_bit_iff bit_drop_bit_eq dest: bit_imp_le_length)
    then show ?thesis using False f [of n] by (simp add: bit_or_iff)
  qed (simp add: bit_or_iff bit_push_bit_iff)
  show "pg_addr (push_bit 12 (pg_addr v) OR flags) = pg_addr v"
    by (intro bit_word_eqI, subst (1 2) bit_pg_addr, subst b) (auto dest: bit_imp_le_length)
  show "(push_bit 12 (pg_addr v) OR flags) AND 0xFFF = flags"
    unfolding mask_12 by (intro bit_word_eqI, subst bit_and_iff, subst b) (use f in \<open>auto simp: Bit_Operations.bit_mask_iff not_le\<close>)
  show "pg_present (push_bit 12 (pg_addr v) OR flags) = pg_present flags" using b [of 0] by (simp add: pg_present_def)
qed

text \<open>A page number is its table index and its index in the table.\<close>

lemma page_split_unique:
  assumes "drop_bit 10 a = drop_bit 10 (b :: u32)" "a AND 1023 = b AND 1023"
  shows "a = b"
proof (rule bit_word_eqI)
  fix n assume "n < LENGTH(32)"
  show "bit a n = bit b n"
  proof (cases "n < 10")
    case True
    then show ?thesis using arg_cong [OF assms(2), of "\<lambda>w. bit w n"] unfolding mask_10 by (simp add: bit_simps)
  next
    case False
    then show ?thesis using arg_cong [OF assms(1), of "\<lambda>w. bit w (n - 10)"] by (simp add: bit_drop_bit_eq)
  qed
qed

section \<open>Translation\<close>

text \<open>What a directory says about a virtual page: the page, or zero where there is no table.\<close>

definition lookup :: "paging \<Rightarrow> nat \<Rightarrow> u32 \<Rightarrow> u32" where
  "lookup s d a = (case page_value s d a of None \<Rightarrow> 0 | Some v \<Rightarrow> v)"

text \<open>The tables of every directory are allocated, and those of the directory \<open>d\<close> are all
  different.\<close>

definition paging_wf :: "nat \<Rightarrow> paging \<Rightarrow> bool" where
  "paging_wf d s \<longleftrightarrow> (\<forall>e i t. tables (dirs s e) i = Some t \<longrightarrow> t < next_obj s) \<and>
     (\<forall>i j t. tables (dirs s d) i = Some t \<longrightarrow> tables (dirs s d) j = Some t \<longrightarrow> i = j)"

lemma find_page_iff:
  "find_page s d a = Some (t, k) \<longleftrightarrow> tables (dirs s d) (unat (drop_bit 10 a)) = Some t \<and> k = unat (a AND 1023)"
  by (auto simp: find_page_def)

lemma find_page_unique:
  assumes "paging_wf d s" "find_page s d a = Some (t, k)" "find_page s d b = Some (t, k)"
  shows "a = b"
proof -
  have "tables (dirs s d) (unat (drop_bit 10 a)) = Some t" "tables (dirs s d) (unat (drop_bit 10 b)) = Some t"
    "unat (a AND 1023) = unat (b AND 1023)" using assms(2,3) unfolding find_page_iff by auto
  then have "unat (drop_bit 10 a) = unat (drop_bit 10 b)" "unat (a AND 1023) = unat (b AND 1023)"
    using assms(1) unfolding paging_wf_def by blast+
  then show ?thesis by (rule page_split_unique [OF word_unat_eq_iff [THEN iffD2] word_unat_eq_iff [THEN iffD2]])
qed

lemma write_page_frame [simp]:
  "dirs (write_page t k v s) = dirs s" "next_obj (write_page t k v s) = next_obj s"
  "frames (write_page t k v s) = frames s" "cur_dir (write_page t k v s) = cur_dir s"
  "phys_mem (write_page t k v s) = phys_mem s" "find_page (write_page t k v s) d a = find_page s d a"
  "paging_wf d (write_page t k v s) = paging_wf d s"
  by (simp_all add: write_page_def find_page_def paging_wf_def)

lemma frames_update_frame [simp]:
  "find_page (s\<lparr>frames := b\<rparr>) d a = find_page s d a" "lookup (s\<lparr>frames := b\<rparr>) d a = lookup s d a"
  "paging_wf d (s\<lparr>frames := b\<rparr>) = paging_wf d s"
  by (simp_all add: find_page_def lookup_def page_value_def paging_wf_def)

lemma lookup_find: "find_page s d a = Some (t, k) \<Longrightarrow> lookup s d a = tabs s t k"
  by (simp add: lookup_def page_value_def)

lemma lookup_write_page:
  assumes "paging_wf d s" "find_page s d a = Some (t, k)"
  shows "lookup (write_page t k v s) d b = (if b = a then v else lookup s d b)"
proof (cases "find_page s d b")
  case None
  then show ?thesis using assms(2) by (auto simp: lookup_def page_value_def)
next
  case (Some q)
  obtain t' k' where q: "q = (t', k')" by (cases q)
  have "b = a \<longleftrightarrow> t' = t \<and> k' = k"
  proof
    show "t' = t \<and> k' = k" if "b = a" using that assms(2) Some q by simp
    show "b = a" if "t' = t \<and> k' = k" using that find_page_unique [OF assms(1), of b t k a] assms(2) Some q by blast
  qed
  moreover have "tabs (write_page t k v s) t' k' = (if t' = t \<and> k' = k then v else tabs s t' k')"
    by (simp add: write_page_def)
  ultimately show ?thesis using Some q by (simp add: lookup_def page_value_def)
qed

text \<open>Getting a page, with a new table if need be, changes no translation.\<close>

lemma get_page_ok:
  assumes wf: "paging_wf d s" and some: "mk \<or> find_page s d a \<noteq> None"
  shows "\<exists>t k s'. get_page phys_of d a mk flags s = (Some (t, k), s') \<and> find_page s' d a = Some (t, k) \<and>
    paging_wf d s' \<and> lookup s' d = lookup s d \<and> frames s' = frames s \<and> cur_dir s' = cur_dir s \<and>
    (find_page s d a \<noteq> None \<longrightarrow> s' = s) \<and> (\<forall>b. find_page s d b \<noteq> None \<longrightarrow> find_page s' d b \<noteq> None)"
proof (cases "tables (dirs s d) (unat (drop_bit 10 a))")
  case (Some t)
  then show ?thesis using wf by (simp add: get_page_def find_page_def Let_def)
next
  case None
  let ?idx = "unat (drop_bit 10 a)" and ?t = "next_obj s"
  define s' where "s' = snd (get_page phys_of d a mk flags s)"
  have mk: mk using some None by (simp add: find_page_def)
  have g: "get_page phys_of d a mk flags s = (Some (?t, unat (a AND 1023)), s')"
    using None mk by (simp add: s'_def get_page_def Let_def new_table_def)
  have s': "tables (dirs s' d) = (tables (dirs s d))(?idx := Some ?t)" "tabs s' = (tabs s)(?t := (\<lambda>_. 0))"
    "next_obj s' = Suc ?t" "frames s' = frames s" "cur_dir s' = cur_dir s"
    "\<And>e. e \<noteq> d \<Longrightarrow> dirs s' e = dirs s e"
    using None mk by (auto simp: s'_def get_page_def Let_def new_table_def set_dir_def)
  have old: "t < ?t" if "tables (dirs s e) i = Some t" for e i t using wf that by (simp add: paging_wf_def)
  have wf': "paging_wf d s'"
  proof -
    have "t < Suc ?t" if "tables (dirs s' e) i = Some t" for e i t
      using that old [of e i t] s'(1,6) by (cases "e = d") (auto split: if_splits)
    moreover have "i = j" if "tables (dirs s' d) i = Some t" "tables (dirs s' d) j = Some t" for i j t
      using that wf old [of d] unfolding s'(1) paging_wf_def by (auto split: if_splits)
    ultimately show ?thesis using s'(3) unfolding paging_wf_def by auto
  qed
  have "lookup s' d b = lookup s d b" for b
  proof (cases "tables (dirs s d) (unat (drop_bit 10 b))")
    case None
    then show ?thesis by (auto simp: lookup_def page_value_def find_page_def s'(1,2))
  next
    case (Some t)
    moreover have "t \<noteq> ?t" using old [OF Some] by simp
    moreover have "unat (drop_bit 10 b) \<noteq> ?idx" using Some None by auto
    ultimately show ?thesis by (simp add: lookup_def page_value_def find_page_def s'(1,2))
  qed
  then have "lookup s' d = lookup s d" by blast
  then show ?thesis
    using g wf' s'(4,5) None by (auto simp: find_page_def s'(1))
qed

section \<open>Mapping a range\<close>

lemma map_loop_ok:
  assumes "paging_wf d s" "distinct is" "mk \<or> (\<forall>a \<in> set is. find_page s d a \<noteq> None)"
  shows "\<exists>s'. map_loop phys_of d addr mk flags is s = (True, s') \<and> paging_wf d s' \<and>
    (\<forall>a. a \<notin> set is \<longrightarrow> lookup s' d a = lookup s d a) \<and>
    (\<forall>n < length is. lookup s' d (is ! n) = set_addr (drop_bit 12 (addr + of_nat n * PAGE_SIZE)) flags)"
  using assms
proof (induction "is" arbitrary: addr s)
  case (Cons i "is")
  obtain t k s1 where g: "get_page phys_of d i mk (PAGE_PRESENT OR PAGE_RW) s = (Some (t, k), s1)" "find_page s1 d i = Some (t, k)"
    "paging_wf d s1" "lookup s1 d = lookup s d" "\<forall>b. find_page s d b \<noteq> None \<longrightarrow> find_page s1 d b \<noteq> None"
    using get_page_ok [OF Cons.prems(1), of mk i phys_of "PAGE_PRESENT OR PAGE_RW"] Cons.prems(3) unfolding set_simps by blast
  let ?s2 = "write_page t k (set_addr (drop_bit 12 addr) flags) s1"
  have wf2: "paging_wf d ?s2" using g(3) by simp
  have mk2: "mk \<or> (\<forall>a \<in> set is. find_page ?s2 d a \<noteq> None)" using Cons.prems(3) g(5) by auto
  obtain s' where IH: "map_loop phys_of d (addr + PAGE_SIZE) mk flags is ?s2 = (True, s')" "paging_wf d s'"
    "\<forall>a. a \<notin> set is \<longrightarrow> lookup s' d a = lookup ?s2 d a"
    "\<forall>n < length is. lookup s' d (is ! n) = set_addr (drop_bit 12 (addr + PAGE_SIZE + of_nat n * PAGE_SIZE)) flags"
    using Cons.IH [OF wf2 _ mk2, of "addr + PAGE_SIZE"] Cons.prems(2) by auto
  have l2: "lookup ?s2 d b = (if b = i then set_addr (drop_bit 12 addr) flags else lookup s d b)" for b
    using lookup_write_page [OF g(3,2)] g(4) by simp
  have "lookup s' d ((i # is) ! n) = set_addr (drop_bit 12 (addr + of_nat n * PAGE_SIZE)) flags" if "n < length (i # is)" for n
  proof (cases n)
    case 0
    then show ?thesis using IH(3) l2 Cons.prems(2) by simp
  next
    case (Suc m)
    then show ?thesis using IH(4) that by (simp add: algebra_simps)
  qed
  moreover have "lookup s' d a = lookup s d a" if "a \<notin> set (i # is)" for a using that IH(3) l2 by simp
  ultimately show ?case using g(1) IH(1,2) by simp
qed simp

lemma page_range_distinct: "distinct (page_range start sz)"
proof -
  have "inj_on (of_nat :: nat \<Rightarrow> u32) (set [unat start ..< unat (start + sz)])"
  proof (rule inj_onI)
    fix x y assume xy: "x \<in> set [unat start ..< unat (start + sz)]" "y \<in> set [unat start ..< unat (start + sz)]"
      "(of_nat x :: u32) = of_nat y"
    then have "x < 2 ^ 32" "y < 2 ^ 32" using unat_u32_lt [of "start + sz"] by auto
    then show "x = y" using arg_cong [OF xy(3), of unat] by (simp add: unat_of_nat_lt)
  qed
  then show ?thesis by (simp add: page_range_def distinct_map)
qed

lemma page_range_nth:
  assumes "unat start + unat sz < 2 ^ 32"
  shows "length (page_range start sz) = unat sz" "n < unat sz \<Longrightarrow> page_range start sz ! n = start + of_nat n"
    "a \<in> set (page_range start sz) \<longleftrightarrow> a - start < sz"
proof -
  have u: "unat (start + sz) = unat start + unat sz" using assms by (intro unat_add_lt) simp
  show l: "length (page_range start sz) = unat sz" by (simp add: page_range_def u)
  show nth: "page_range start sz ! n = start + of_nat n" if "n < unat sz" for n
    using that by (simp add: page_range_def u)
  show "a \<in> set (page_range start sz) \<longleftrightarrow> a - start < sz"
  proof
    assume "a \<in> set (page_range start sz)"
    then obtain n where n: "n < unat sz" "a = start + of_nat n" using l nth by (auto simp: in_set_conv_nth)
    then have "unat (of_nat n :: u32) = n" using unat_u32_lt [of sz] by (intro unat_of_nat_lt) simp
    then show "a - start < sz" using n by (simp add: word_less_nat_alt)
  next
    assume a: "a - start < sz"
    then have "unat (a - start) < unat sz" by (simp add: word_less_nat_alt)
    moreover from this have "page_range start sz ! unat (a - start) = a" by (simp add: nth)
    ultimately show "a \<in> set (page_range start sz)" using l by (metis nth_mem)
  qed
qed


text \<open>A directory without tables.\<close>

definition blank_paging :: "buddy \<Rightarrow> paging" where
  "blank_paging b = \<lparr>frames = b, tabs = (\<lambda>_ _. 0), dirs = (\<lambda>_. \<lparr>entries = (\<lambda>_. 0), tables = (\<lambda>_. None), phys_addr = 0\<rparr>),
     next_obj = 1, cur_dir = 0, phys_mem = (\<lambda>_ _. 0)\<rparr>"

lemma blank_paging_wf: "paging_wf d (blank_paging b)"
  by (simp add: paging_wf_def blank_paging_def)

lemma lookup_blank: "lookup (blank_paging b) d a = 0"
  by (simp add: lookup_def page_value_def find_page_def blank_paging_def)


section \<open>Allocating a range\<close>

lemma frame_word:
  assumes "f < 2 ^ 20"
  shows "drop_bit 12 (of_nat (f * 2 ^ PAGE_SHIFT) :: u32) = of_nat f" "unat (of_nat f :: u32) = f"
proof -
  show f: "unat (of_nat f :: u32) = f" using assms by (intro unat_of_nat_lt) simp
  have "unat (of_nat (f * 2 ^ PAGE_SHIFT) :: u32) = f * 2 ^ 12"
    using assms by (subst unat_of_nat_lt) (simp_all add: PAGE_SHIFT_def)
  then have "unat (drop_bit 12 (of_nat (f * 2 ^ PAGE_SHIFT) :: u32)) = f" by (simp only: unat_drop_bit) simp
  then show "drop_bit 12 (of_nat (f * 2 ^ PAGE_SHIFT) :: u32) = of_nat f" using f by (simp only: word_unat_eq_iff)
qed

text \<open>Allocating one page: it keeps its frame when it is present, else it gets a fresh one; when no
  frame is left it is nevertheless marked present, at frame zero, and the call fails.\<close>

definition page_given :: "u32 \<Rightarrow> u32 \<Rightarrow> u32 \<Rightarrow> nat set \<Rightarrow> bool" where
  "page_given old new flags N \<longleftrightarrow> new AND 0xFFF = flags AND 0xFFF \<and> pg_present new \<and>
     (if pg_present old then N = {} \<and> pg_addr new = pg_addr old else N = {unat (pg_addr new)})"

lemma alloc_page_ok:
  assumes wf: "paging_wf d s" and own: "owns (frames s) A U" and U: "U \<subseteq> {0 <..< 2 ^ 20}"
    and fl: "unat flags < 2 ^ 12" "pg_present flags"
  shows "\<exists>ok s' N. alloc_page phys_of d flags i s = Some (ok, s') \<and> paging_wf d s' \<and> N \<subseteq> U \<and>
    owns (frames s') ((\<lambda>f. (f, 0)) ` N \<union> A) (U - N) \<and> (\<forall>a. a \<noteq> i \<longrightarrow> lookup s' d a = lookup s d a) \<and>
    (if ok then page_given (lookup s d i) (lookup s' d i) flags N
     else U = {} \<and> N = {} \<and> \<not> pg_present (lookup s d i) \<and> lookup s' d i = set_addr 0 flags)"
proof (cases "pg_present (lookup s d i)")
  case True
  then obtain t k where tk: "find_page s d i = Some (t, k)" "tabs s t k = lookup s d i"
    by (auto simp: lookup_def page_value_def pg_present_def split: option.splits)
  let ?s' = "write_page t k (push_bit 12 (pg_addr (lookup s d i)) OR flags) s"
  have "alloc_page phys_of d flags i s = Some (True, ?s')"
    using tk True by (simp add: alloc_page_def page_value_def)
  moreover have "lookup ?s' d b = (if b = i then push_bit 12 (pg_addr (lookup s d i)) OR flags else lookup s d b)" for b
    using lookup_write_page [OF wf tk(1)] .
  moreover have "flags AND 0xFFF = flags" using push_addr_or(2) [OF fl(1), of 0] by (metis and.assoc and.idem)
  ultimately show ?thesis
    using wf own True push_addr_or [OF fl(1)] fl(2)
    by (intro exI [of _ True] exI [of _ ?s'] exI [of _ "{}"]) (simp add: page_given_def)
next
  case False
  have new: "alloc_page phys_of d flags i s = alloc_new phys_of d flags i s"
    using False by (auto simp: alloc_page_def lookup_def split: option.splits)
  obtain t k s1 where g: "get_page phys_of d i True flags s = (Some (t, k), s1)" "find_page s1 d i = Some (t, k)"
    "paging_wf d s1" "lookup s1 d = lookup s d" "frames s1 = frames s"
    using get_page_ok [OF wf, of True i phys_of flags] by blast
  have upd: "lookup (write_page t k v (s1\<lparr>frames := b\<rparr>)) d a = (if a = i then v else lookup s d a)" for v b a
    using lookup_write_page [of d "s1\<lparr>frames := b\<rparr>" i t k v a] g by simp
  show ?thesis
  proof (cases "U = {}")
    case True
    then have "alloc_frames 0 (frames s) = Some (None, frames s)" using single_frames.alloc_own [OF own] by simp
    moreover have "pg_addr (set_addr 0 flags) = 0" using pg_addr_set_addr [of 0 flags] by simp
    ultimately show ?thesis
      using True False g own upd
      by (intro exI [of _ False] exI [of _ "write_page t k (set_addr 0 flags) (s1\<lparr>frames := frames s\<rparr>)"] exI [of _ "{}"])
         (simp add: new alloc_new_def frame_of_def)
  next
    case ne: False
    then obtain f b where f: "f \<in> U" "alloc_frames 0 (frames s) = Some (Some (f * 2 ^ PAGE_SHIFT), b)"
      "owns b (insert (f, 0) A) (U - {f})" using single_frames.alloc_own [OF own] by auto
    let ?v = "set_addr (of_nat f) flags"
    have fl20: "f < 2 ^ 20" "0 < f" using f(1) U by auto
    note fw = frame_word [OF fl20(1)]
    have pa: "pg_addr ?v = of_nat f" using fl20 fw(2) by (intro pg_addr_set_addr) simp
    moreover have "(of_nat f :: u32) \<noteq> 0" using fw(2) fl20(2) by (metis less_irrefl unat_0)
    moreover have "drop_bit 12 (frame_of (Some (f * 2 ^ PAGE_SHIFT))) = of_nat f" using fw(1) by (simp add: frame_of_def)
    ultimately have "alloc_page phys_of d flags i s = Some (True, write_page t k ?v (s1\<lparr>frames := b\<rparr>))"
      using f(2) g by (simp add: new alloc_new_def del: of_nat_mult of_nat_power)
    moreover have "page_given (lookup s d i) ?v flags {f}"
      using False fl(2) pa fw(2) by (simp add: page_given_def set_addr_low)
    ultimately show ?thesis
      using f(1,3) g(3) upd
      by (intro exI [of _ True] exI [of _ "write_page t k ?v (s1\<lparr>frames := b\<rparr>)"] exI [of _ "{f}"]) simp
  qed
qed

text \<open>The frames given to a list of pages: \<open>gives s s' d flags is N\<close>.\<close>

definition range_given :: "(u32 \<Rightarrow> u32) \<Rightarrow> (u32 \<Rightarrow> u32) \<Rightarrow> u32 \<Rightarrow> u32 set \<Rightarrow> nat set \<Rightarrow> bool" where
  "range_given old new flags R N \<longleftrightarrow>
     (\<forall>a \<in> R. new a AND 0xFFF = flags AND 0xFFF \<and> pg_present (new a) \<and> (pg_present (old a) \<longrightarrow> pg_addr (new a) = pg_addr (old a))) \<and>
     bij_betw (\<lambda>a. unat (pg_addr (new a))) {a \<in> R. \<not> pg_present (old a)} N"

lemma range_given_insert:
  assumes "page_given (old i) (new i) flags N" "range_given old new flags R N'" "i \<notin> R" "N \<inter> N' = {}"
  shows "range_given old new flags (insert i R) (N \<union> N')"
proof (cases "pg_present (old i)")
  case True
  then have "{a \<in> insert i R. \<not> pg_present (old a)} = {a \<in> R. \<not> pg_present (old a)}" by auto
  then show ?thesis using assms True by (auto simp: range_given_def page_given_def)
next
  case False
  then have N: "N = {unat (pg_addr (new i))}" using assms(1) by (simp add: page_given_def)
  have "{a \<in> insert i R. \<not> pg_present (old a)} = insert i {a \<in> R. \<not> pg_present (old a)}" using False by auto
  moreover have "bij_betw (\<lambda>a. unat (pg_addr (new a))) (insert i {a \<in> R. \<not> pg_present (old a)}) (insert (unat (pg_addr (new i))) N')"
    using notIn_Un_bij_betw [of i "{a \<in> R. \<not> pg_present (old a)}" "\<lambda>a. unat (pg_addr (new a))" N'] assms(2-4) N
    by (simp add: range_given_def)
  ultimately show ?thesis using assms(1,2) False N by (auto simp: range_given_def page_given_def)
qed

lemma alloc_loop_ok:
  assumes "paging_wf d s" "owns (frames s) A U" "U \<subseteq> {0 <..< 2 ^ 20}" "unat flags < 2 ^ 12" "pg_present flags" "distinct is"
  shows "\<exists>ok s' N. alloc_loop phys_of d flags is s = Some (ok, s') \<and> paging_wf d s' \<and> N \<subseteq> U \<and>
    owns (frames s') ((\<lambda>f. (f, 0)) ` N \<union> A) (U - N) \<and> (\<forall>a. a \<notin> set is \<longrightarrow> lookup s' d a = lookup s d a) \<and>
    (if ok then range_given (lookup s d) (lookup s' d) flags (set is) N
     else N = U \<and> (\<exists>a \<in> set is. \<not> pg_present (lookup s d a) \<and> lookup s' d a = set_addr 0 flags))"
  using assms
proof (induction "is" arbitrary: s A U)
  case Nil
  then show ?case
    by (intro exI [of _ True] exI [of _ s] exI [of _ "{}"]) (simp add: range_given_def bij_betw_def)
next
  case (Cons i "is")
  obtain ok s1 N where p: "alloc_page phys_of d flags i s = Some (ok, s1)" "paging_wf d s1" "N \<subseteq> U"
    "owns (frames s1) ((\<lambda>f. (f, 0)) ` N \<union> A) (U - N)" "\<forall>a. a \<noteq> i \<longrightarrow> lookup s1 d a = lookup s d a"
    "if ok then page_given (lookup s d i) (lookup s1 d i) flags N
     else U = {} \<and> N = {} \<and> \<not> pg_present (lookup s d i) \<and> lookup s1 d i = set_addr 0 flags"
    using alloc_page_ok [OF Cons.prems(1-5), of phys_of i] by blast
  show ?case
  proof (cases ok)
    case False
    then show ?thesis
      using p by (intro exI [of _ False] exI [of _ s1] exI [of _ "{}"]) auto
  next
    case True
    have U1: "U - N \<subseteq> {0 <..< 2 ^ 20}" and di: "distinct is" "i \<notin> set is" using Cons.prems(3,6) by auto
    obtain ok' s' N' where r: "alloc_loop phys_of d flags is s1 = Some (ok', s')" "paging_wf d s'" "N' \<subseteq> U - N"
      "owns (frames s') ((\<lambda>f. (f, 0)) ` N' \<union> ((\<lambda>f. (f, 0)) ` N \<union> A)) (U - N - N')"
      "\<forall>a. a \<notin> set is \<longrightarrow> lookup s' d a = lookup s1 d a"
      "if ok' then range_given (lookup s1 d) (lookup s' d) flags (set is) N'
       else N' = U - N \<and> (\<exists>a \<in> set is. \<not> pg_present (lookup s1 d a) \<and> lookup s' d a = set_addr 0 flags)"
      using Cons.IH [OF p(2,4) U1 Cons.prems(4,5) di(1)] by blast
    have own: "owns (frames s') ((\<lambda>f. (f, 0)) ` (N \<union> N') \<union> A) (U - (N \<union> N'))"
      using r(4) by (simp add: image_Un Un_assoc Un_left_commute Diff_Un Int_commute set_diff_eq)
    have same: "lookup s' d i = lookup s1 d i" "\<And>a. a \<in> set is \<Longrightarrow> lookup s1 d a = lookup s d a" using r(5) p(5) di(2) by auto
    have "range_given (lookup s d) (lookup s' d) flags (set (i # is)) (N \<union> N')" if ok'
    proof -
      have "range_given (lookup s d) (lookup s' d) flags (set is) N'"
        using r(6) that same(2) by (simp add: range_given_def cong: conj_cong)
      then have "range_given (lookup s d) (lookup s' d) flags (insert i (set is)) (N \<union> N')"
        using p(6) True same(1) di(2) r(3) by (intro range_given_insert) auto
      then show ?thesis by simp
    qed
    moreover have "N \<union> N' = U \<and> (\<exists>a \<in> set (i # is). \<not> pg_present (lookup s d a) \<and> lookup s' d a = set_addr 0 flags)" if "\<not> ok'"
      using r(3,6) that same(2) p(3) by auto
    moreover have "\<forall>a. a \<notin> set (i # is) \<longrightarrow> lookup s' d a = lookup s d a" using r(5) p(5) by simp
    ultimately show ?thesis
      using p(1,3) r(1-3) True own by (intro exI [of _ ok'] exI [of _ s'] exI [of _ "N \<union> N'"]) auto
  qed
qed



text \<open>when the frames run out, \<open>alloc_pages\<close> fails only after it has written
  the page it could not fill: a page that was absent is left present, with all the flags asked for,
  and mapped to frame zero.\<close>

theorem alloc_pages_failure:
  assumes "paging_wf d s" "owns (frames s) A U" "U \<subseteq> {0 <..< 2 ^ 20}" "unat flags < 2 ^ 12" "pg_present flags"
    and "alloc_pages phys_of d start sz flags s = Some (False, s')"
  shows "\<exists>a. \<not> pg_present (lookup s d a) \<and> pg_present (lookup s' d a) \<and> pg_addr (lookup s' d a) = 0"
proof -
  obtain a where "\<not> pg_present (lookup s d a)" "lookup s' d a = set_addr 0 flags"
    using alloc_loop_ok [OF assms(1-5) page_range_distinct, of phys_of start sz] assms(6)
    unfolding alloc_pages_def by auto
  moreover have "pg_addr (set_addr 0 flags) = 0" using pg_addr_set_addr [of 0 flags] by simp
  ultimately show ?thesis using assms(5) by (intro exI [of _ a]) simp
qed

lemma owns_empty: "owns (buddy_empty 0) {} {}"
proof -
  have "free_blocks (\<lambda>_. []) = {}" by (simp add: free_blocks_def)
  then have "buddy_inv (buddy_empty 0) (\<lambda>_. []) {}"
    using empty_repr [of 0]
    by (simp add: buddy_inv_def tiling_def apart_def chunked_def covered_def junk_ok_def frames_total_def buddy_empty_def)
  then show ?thesis unfolding owns_def by (intro exI [of _ "\<lambda>_. []"]) (simp add: covered_def free_blocks_def)
qed

theorem alloc_pages_failure_witness:
  "\<exists>s'. alloc_pages (\<lambda>t. of_nat t * 4096) 0 0x400 1 7 (blank_paging (buddy_empty 0)) = Some (False, s') \<and>
     (\<exists>a. pg_present (lookup s' 0 a) \<and> pg_addr (lookup s' 0 a) = 0)"
proof -
  let ?s = "blank_paging (buddy_empty 0)"
  have own: "owns (frames ?s) {} {}" using owns_empty by (simp add: blank_paging_def)
  have p: "pg_present 7" by (simp add: pg_present_def)
  have R: "page_range 0x400 1 = [0x400]" by (simp add: page_range_def)
  have "\<not> pg_present (lookup ?s 0 a)" for a by (simp add: lookup_blank pg_present_def)
  then obtain s' where "alloc_pages (\<lambda>t. of_nat t * 4096) 0 0x400 1 7 ?s = Some (False, s')"
    using alloc_page_ok [OF blank_paging_wf [of 0] own _ _ p, of "\<lambda>t. of_nat t * 4096" "0x400"]
    by (auto simp: alloc_pages_def R page_given_def split: if_splits)
  moreover from alloc_pages_failure [OF blank_paging_wf own _ _ p this]
  have "\<exists>a. pg_present (lookup s' 0 a) \<and> pg_addr (lookup s' 0 a) = 0" by auto
  ultimately show ?thesis by blast
qed

section \<open>Cloning a table\<close>

text \<open>The temporary mapping is taken back: all that is left of \<open>memcpyd_phys_aligned\<close> for one frame
  is the copy.\<close>

lemma vpages:
  "unat (drop_bit 10 DST_VPAGE) = 1023" "unat (drop_bit 10 SRC_VPAGE) = 1023"
  "unat (DST_VPAGE AND 1023) = 1022" "unat (SRC_VPAGE AND 1023) = 1023"
  by (simp_all add: DST_VPAGE_def SRC_VPAGE_def)

lemma phys_copy_one:
  "phys_copy_loop (td, kd) (ts, ks) 1024 s =
     (let s1 = s\<lparr>phys_mem := copy_frame (unat (pg_addr (tabs s td kd))) (unat (pg_addr (tabs s ts ks))) 1024 (phys_mem s)\<rparr>;
          s2 = write_page td kd (set_addr (pg_addr (tabs s1 td kd) + 1) (tabs s1 td kd)) s1
      in write_page ts ks (set_addr (pg_addr (tabs s2 ts ks) + 1) (tabs s2 ts ks)) s2)"
  by (simp add: phys_copy_loop.simps [of td kd ts ks 1024] phys_copy_loop.simps [of td kd ts ks 0] Let_def)

lemma write_page_tabs: "tabs (write_page t k v s) t' k' = (if t' = t \<and> k' = k then v else tabs s t' k')"
  by (simp add: write_page_def)

lemma paging_eqI:
  "frames s = frames s' \<Longrightarrow> (\<And>t k. tabs s t k = tabs s' t k) \<Longrightarrow> dirs s = dirs s' \<Longrightarrow> next_obj s = next_obj s' \<Longrightarrow>
     cur_dir s = cur_dir s' \<Longrightarrow> phys_mem s = phys_mem s' \<Longrightarrow> s = (s' :: paging)"
  by (intro paging.equality ext) simp_all

lemma memcpyd_phys_aligned_frame:
  assumes "tables (dirs s (cur_dir s)) 1023 = Some tc" "f < 2 ^ 20" "unat g < 2 ^ 20"
  shows "memcpyd_phys_aligned phys_of (of_nat (f * 2 ^ PAGE_SHIFT)) (push_bit 12 g) 1024 s =
    Some (s\<lparr>phys_mem := copy_frame f (unat g) 1024 (phys_mem s)\<rparr>)"
proof -
  have find: "find_page s (cur_dir s) DST_VPAGE = Some (tc, 1022)" "find_page s (cur_dir s) SRC_VPAGE = Some (tc, 1023)"
    using assms(1) by (simp_all add: find_page_iff vpages)
  have get: "get_page phys_of (cur_dir s) DST_VPAGE True fl s = (Some (tc, 1022), s)"
    "get_page phys_of (cur_dir s) SRC_VPAGE True fl s = (Some (tc, 1023), s)" for fl
    using assms(1) by (simp_all add: get_page_def vpages Let_def)
  note fw = frame_word [OF assms(2)]
  have g: "drop_bit 12 (push_bit 12 g) = g"
  proof (rule bit_word_eqI)
    fix n show "bit (drop_bit 12 (push_bit 12 g)) n = bit g n"
      using high_bits_zero [OF assms(3), of n]
      by (cases "n < 20") (auto simp: bit_drop_bit_eq bit_push_bit_iff dest: bit_imp_le_length)
  qed
  have pa: "pg_addr (set_addr (of_nat f) v) = of_nat f" "pg_addr (set_addr g v) = g" for v
    using assms(2,3) fw(2) by (simp_all add: pg_addr_set_addr)
  define s6 where "s6 = write_page tc 1023 (set_addr g 3) (write_page tc 1022 (set_addr (of_nat f) 3)
    (write_page tc 1022 3 (write_page tc 1023 3 s)))"
  have three: "PAGE_PRESENT OR PAGE_RW = 3" by (simp add: PAGE_PRESENT_def PAGE_RW_def)
  have t6: "tabs s6 tc 1022 = set_addr (of_nat f) 3" "tabs s6 tc 1023 = set_addr g 3" "phys_mem s6 = phys_mem s"
    by (simp_all add: s6_def write_page_tabs)
  have "memcpyd_phys_aligned phys_of (of_nat (f * 2 ^ PAGE_SHIFT)) (push_bit 12 g) 1024 s =
      Some (write_page tc 1023 (tabs s tc 1023) (write_page tc 1022 (tabs s tc 1022) (phys_copy_loop (tc, 1022) (tc, 1023) 1024 s6)))"
    using find get unfolding memcpyd_phys_aligned_def fw(1) g three s6_def
    by (simp add: old_value_def Let_def write_page_tabs)
  also have "\<dots> = Some (s\<lparr>phys_mem := copy_frame f (unat g) 1024 (phys_mem s)\<rparr>)"
    unfolding phys_copy_one option.inject
    by (rule paging_eqI) (simp_all add: Let_def write_page_tabs t6 pa fw(2), simp_all add: s6_def write_page_tabs)
  finally show ?thesis .
qed

text \<open>What cloning the pages \<open>I\<close> of table \<open>t\<close> into \<open>t'\<close> does: every present page has its own new frame
  with the same contents, and nothing else in memory or in other tables changes.\<close>

definition pages_cloned :: "nat \<Rightarrow> nat \<Rightarrow> nat set \<Rightarrow> nat set \<Rightarrow> paging \<Rightarrow> paging \<Rightarrow> bool" where
  "pages_cloned t t' I N s s' \<longleftrightarrow>
     dirs s' = dirs s \<and> next_obj s' = next_obj s \<and> cur_dir s' = cur_dir s \<and>
     (\<forall>u k. u \<noteq> t' \<or> k \<notin> I \<longrightarrow> tabs s' u k = tabs s u k) \<and> (\<forall>f. f \<notin> N \<longrightarrow> phys_mem s' f = phys_mem s f) \<and>
     (\<forall>i \<in> I. if pg_present (tabs s t i)
        then (\<exists>f \<in> N. tabs s' t' i = set_addr (of_nat f) (tabs s t i) \<and>
                (\<forall>j < 1024. phys_mem s' f j = phys_mem s (unat (pg_addr (tabs s t i))) j))
        else tabs s' t' i = tabs s t' i) \<and>
     inj_on (\<lambda>i. pg_addr (tabs s' t' i)) {i \<in> I. pg_present (tabs s t i)}"

lemma pg_addr_lt: "unat (pg_addr v) < 2 ^ 20"
proof -
  have "unat v < 2 ^ 20 * 2 ^ 12" using unat_u32_lt [of v] by simp
  then show ?thesis unfolding pg_addr_def unat_drop_bit by (rule less_mult_imp_div_less)
qed

text \<open>One page.\<close>

lemma clone_page_step:
  assumes tc: "tables (dirs s (cur_dir s)) 1023 = Some tc" and own: "owns (frames s) A U" and U: "U \<subseteq> {0 <..< 2 ^ 20}" "U \<noteq> {}"
    and src: "pg_present (tabs s t i)" and ne: "t \<noteq> t'"
  shows "\<exists>f s1. clone_pages phys_of t t' (i # is) s = clone_pages phys_of t t' is s1 \<and> f \<in> U \<and>
    owns (frames s1) (insert (f, 0) A) (U - {f}) \<and> dirs s1 = dirs s \<and> next_obj s1 = next_obj s \<and> cur_dir s1 = cur_dir s \<and>
    (\<forall>u k. tabs s1 u k = (if u = t' \<and> k = i then set_addr (of_nat f) (tabs s t i) else tabs s u k)) \<and>
    phys_mem s1 = copy_frame f (unat (pg_addr (tabs s t i))) 1024 (phys_mem s)"
proof -
  obtain f b where f: "f \<in> U" "alloc_frames 0 (frames s) = Some (Some (f * 2 ^ PAGE_SHIFT), b)"
    "owns b (insert (f, 0) A) (U - {f})" using single_frames.alloc_own [OF own] U(2) by auto
  have f20: "f < 2 ^ 20" using f(1) U(1) by auto
  define s2 where "s2 = write_page t' i (set_addr (of_nat f) (tabs s t i)) (write_page t' i (tabs s t i) (s\<lparr>frames := b\<rparr>))"
  have s2: "tabs s2 t i = tabs s t i" "dirs s2 = dirs s" "cur_dir s2 = cur_dir s" "phys_mem s2 = phys_mem s"
    "next_obj s2 = next_obj s" "frames s2 = b"
    "\<And>u k. tabs s2 u k = (if u = t' \<and> k = i then set_addr (of_nat f) (tabs s t i) else tabs s u k)"
    using ne by (simp_all add: s2_def write_page_tabs)
  have "memcpyd_phys_aligned phys_of (of_nat (f * 2 ^ PAGE_SHIFT)) (push_bit 12 (pg_addr (tabs s t i))) 1024 s2 =
      Some (s2\<lparr>phys_mem := copy_frame f (unat (pg_addr (tabs s t i))) 1024 (phys_mem s)\<rparr>)"
    using memcpyd_phys_aligned_frame [of s2 tc f "pg_addr (tabs s t i)" phys_of] tc f20 pg_addr_lt s2 by simp
  then have "clone_pages phys_of t t' (i # is) s =
      clone_pages phys_of t t' is (s2\<lparr>phys_mem := copy_frame f (unat (pg_addr (tabs s t i))) 1024 (phys_mem s)\<rparr>)"
    using src f(2) s2(1) frame_word(1) [OF f20]
    by (simp add: write_page_tabs Let_def ne flip: s2_def del: of_nat_mult of_nat_power)
  then show ?thesis
    using f(1,3) s2
    by (intro exI [of _ f] exI [of _ "s2\<lparr>phys_mem := copy_frame f (unat (pg_addr (tabs s t i))) 1024 (phys_mem s)\<rparr>"]) simp
qed

lemma pages_clonedD:
  assumes "pages_cloned t t' I N s s'" "i \<in> I"
  shows "if pg_present (tabs s t i)
     then \<exists>f \<in> N. tabs s' t' i = set_addr (of_nat f) (tabs s t i) \<and>
            (\<forall>j < 1024. phys_mem s' f j = phys_mem s (unat (pg_addr (tabs s t i))) j)
     else tabs s' t' i = tabs s t' i"
proof -
  from assms(1) have "\<forall>i \<in> I. if pg_present (tabs s t i)
        then (\<exists>f \<in> N. tabs s' t' i = set_addr (of_nat f) (tabs s t i) \<and>
                (\<forall>j < 1024. phys_mem s' f j = phys_mem s (unat (pg_addr (tabs s t i))) j))
        else tabs s' t' i = tabs s t' i" unfolding pages_cloned_def by (elim conjE)
  then show ?thesis using assms(2) by (rule bspec)
qed

lemma pages_cloned_insert:
  assumes c: "pages_cloned t t' I N s1 s'" and ne: "t \<noteq> t'" "i \<notin> I" and p: "pg_present (tabs s t i)"
    and s1: "dirs s1 = dirs s" "next_obj s1 = next_obj s" "cur_dir s1 = cur_dir s"
      "\<forall>u k. tabs s1 u k = (if u = t' \<and> k = i then set_addr (of_nat f) (tabs s t i) else tabs s u k)"
      "phys_mem s1 = copy_frame f (unat (pg_addr (tabs s t i))) 1024 (phys_mem s)"
    and f: "f \<notin> N" "insert f N \<subseteq> {0 <..< 2 ^ 20}" and src: "\<forall>k \<in> I. pg_present (tabs s t k) \<longrightarrow> unat (pg_addr (tabs s t k)) \<noteq> f"
  shows "pages_cloned t t' (insert i I) (insert f N) s s'"
proof -
  have tt: "tabs s1 t k = tabs s t k" for k using s1(4) ne(1) by simp
  have ti: "tabs s' t' i = set_addr (of_nat f) (tabs s t i)" using c s1(4) ne(2) by (simp add: pages_cloned_def)
  have mi: "phys_mem s' f j = phys_mem s (unat (pg_addr (tabs s t i))) j" if "j < 1024" for j
    using c f(1) s1(5) that by (simp add: pages_cloned_def copy_frame_def)
  have addr: "unat (pg_addr (set_addr (of_nat g) v)) = g" if "g \<in> insert f N" for g v
  proof -
    have "g < 2 ^ 20" using that f(2) by auto
    then show ?thesis using frame_word(2) [of g] pg_addr_set_addr [of "of_nat g" v] by simp
  qed
  have k: "\<exists>g \<in> N. tabs s' t' k = set_addr (of_nat g) (tabs s t k) \<and> (\<forall>j < 1024. phys_mem s' g j = phys_mem s (unat (pg_addr (tabs s t k))) j)"
    if kI: "k \<in> I" and kp: "pg_present (tabs s t k)" for k
  proof -
    obtain g where g: "g \<in> N" "tabs s' t' k = set_addr (of_nat g) (tabs s t k)"
      "\<forall>j < 1024. phys_mem s' g j = phys_mem s1 (unat (pg_addr (tabs s t k))) j"
      using pages_clonedD [OF c kI, unfolded tt] kp by auto
    moreover have "phys_mem s1 (unat (pg_addr (tabs s t k))) = phys_mem s (unat (pg_addr (tabs s t k)))"
      using src kI kp s1(5) by (simp add: copy_frame_def)
    ultimately show ?thesis by metis
  qed
  have "inj_on (\<lambda>i. pg_addr (tabs s' t' i)) {k \<in> I. pg_present (tabs s t k)}" using c by (simp add: pages_cloned_def tt)
  moreover have n: "pg_addr (tabs s' t' i) \<noteq> pg_addr (tabs s' t' k)" if kI: "k \<in> I" and kp: "pg_present (tabs s t k)" for k
  proof -
    obtain g where g: "g \<in> N" "tabs s' t' k = set_addr (of_nat g) (tabs s t k)" using k [OF kI kp] by blast
    have "unat (pg_addr (tabs s' t' k)) = g" "unat (pg_addr (tabs s' t' i)) = f" using g ti addr by simp_all
    then show ?thesis using g(1) f(1) by auto
  qed
  have "pg_addr (tabs s' t' i) \<notin> (\<lambda>i. pg_addr (tabs s' t' i)) ` ({k \<in> I. pg_present (tabs s t k)} - {i})"
    using n by blast
  ultimately have "inj_on (\<lambda>i. pg_addr (tabs s' t' i)) (insert i {k \<in> I. pg_present (tabs s t k)})"
    by (simp only: inj_on_insert simp_thms)
  moreover have "{k \<in> insert i I. pg_present (tabs s t k)} = insert i {k \<in> I. pg_present (tabs s t k)}" using p by auto
  ultimately have inj: "inj_on (\<lambda>i. pg_addr (tabs s' t' i)) {k \<in> insert i I. pg_present (tabs s t k)}" by simp
  have same: "tabs s' u k = tabs s u k" if "u \<noteq> t' \<or> k \<notin> insert i I" for u k
    using that c s1(4) unfolding pages_cloned_def by (metis insertCI)
  have mem: "phys_mem s' g = phys_mem s g" if "g \<notin> insert f N" for g
    using that c s1(5) by (simp add: pages_cloned_def copy_frame_def)
  have each: "if pg_present (tabs s t k) then (\<exists>f \<in> insert f N. tabs s' t' k = set_addr (of_nat f) (tabs s t k) \<and>
      (\<forall>j < 1024. phys_mem s' f j = phys_mem s (unat (pg_addr (tabs s t k))) j)) else tabs s' t' k = tabs s t' k" if "k \<in> insert i I" for k
  proof (cases "k = i")
    case True
    then show ?thesis using p ti mi by auto
  next
    case False
    then have kI: "k \<in> I" using that by simp
    show ?thesis
    proof (cases "pg_present (tabs s t k)")
      case True
      then show ?thesis using k [OF kI] by auto
    next
      case np: False
      then have "tabs s' t' k = tabs s1 t' k" using pages_clonedD [OF c kI, unfolded tt] by simp
      then show ?thesis using np False s1(4) by simp
    qed
  qed
  have "dirs s' = dirs s" "next_obj s' = next_obj s" "cur_dir s' = cur_dir s" using c s1(1-3) by (simp_all add: pages_cloned_def)
  then show ?thesis unfolding pages_cloned_def using same mem each inj by blast
qed

lemma clone_pages_ok:
  assumes "tables (dirs s (cur_dir s)) 1023 = Some tc" "owns (frames s) A U" "U \<subseteq> {0 <..< 2 ^ 20}" "t \<noteq> t'" "distinct is"
    and "card {i \<in> set is. pg_present (tabs s t i)} \<le> card U"
    and "\<forall>i \<in> set is. pg_present (tabs s t i) \<longrightarrow> unat (pg_addr (tabs s t i)) \<notin> U"
  shows "\<exists>s' N. clone_pages phys_of t t' is s = Some s' \<and> N \<subseteq> U \<and>
    owns (frames s') ((\<lambda>f. (f, 0)) ` N \<union> A) (U - N) \<and> pages_cloned t t' (set is) N s s'"
  using assms
proof (induction "is" arbitrary: s A U)
  case Nil
  then show ?case by (intro exI [of _ s] exI [of _ "{}"]) (simp add: pages_cloned_def)
next
  case (Cons i "is")
  have fin: "finite U" using Cons.prems(3) finite_subset by blast
  show ?case
  proof (cases "pg_present (tabs s t i)")
    case False
    then have "{k \<in> set (i # is). pg_present (tabs s t k)} = {k \<in> set is. pg_present (tabs s t k)}" by auto
    then obtain s' N where IH: "clone_pages phys_of t t' is s = Some s'" "N \<subseteq> U"
      "owns (frames s') ((\<lambda>f. (f, 0)) ` N \<union> A) (U - N)" "pages_cloned t t' (set is) N s s'"
      using Cons.IH [OF Cons.prems(1-4)] Cons.prems(5-7) by auto
    moreover have "pages_cloned t t' (set (i # is)) N s s'"
    proof -
      have "{k \<in> insert i (set is). pg_present (tabs s t k)} = {k \<in> set is. pg_present (tabs s t k)}" using False by auto
      moreover have "tabs s' t' i = tabs s t' i" using IH(4) Cons.prems(5) by (simp add: pages_cloned_def)
      ultimately show ?thesis using IH(4) False by (auto simp: pages_cloned_def)
    qed
    ultimately show ?thesis using False by auto
  next
    case True
    let ?P = "\<lambda>l. {k \<in> set l. pg_present (tabs s t k)}"
    have P: "?P (i # is) = insert i (?P is)" "i \<notin> ?P is" using True Cons.prems(5) by auto
    then have card: "Suc (card (?P is)) \<le> card U" using Cons.prems(6) by simp
    then have "U \<noteq> {}" by auto
    from clone_page_step [OF Cons.prems(1-3) this True Cons.prems(4), of phys_of "is"] obtain f s1 where
      s1: "clone_pages phys_of t t' (i # is) s = clone_pages phys_of t t' is s1" "f \<in> U"
        "owns (frames s1) (insert (f, 0) A) (U - {f})" "dirs s1 = dirs s" "next_obj s1 = next_obj s" "cur_dir s1 = cur_dir s"
        "\<forall>u k. tabs s1 u k = (if u = t' \<and> k = i then set_addr (of_nat f) (tabs s t i) else tabs s u k)"
        "phys_mem s1 = copy_frame f (unat (pg_addr (tabs s t i))) 1024 (phys_mem s)" by blast
    have src1: "tabs s1 t k = tabs s t k" for k using s1(7) Cons.prems(4) by simp
    have U1: "U - {f} \<subseteq> {0 <..< 2 ^ 20}" using Cons.prems(3) by auto
    have c1: "card {k \<in> set is. pg_present (tabs s1 t k)} \<le> card (U - {f})" using card fin s1(2) by (simp add: src1)
    have o1: "\<forall>k \<in> set is. pg_present (tabs s1 t k) \<longrightarrow> unat (pg_addr (tabs s1 t k)) \<notin> U - {f}" using Cons.prems(7) by (simp add: src1)
    have tc1: "tables (dirs s1 (cur_dir s1)) 1023 = Some tc" using Cons.prems(1) s1(4,6) by simp
    obtain s' N where IH: "clone_pages phys_of t t' is s1 = Some s'" "N \<subseteq> U - {f}"
      "owns (frames s') ((\<lambda>f. (f, 0)) ` N \<union> insert (f, 0) A) (U - {f} - N)" "pages_cloned t t' (set is) N s1 s'"
      using Cons.IH [OF tc1 s1(3) U1 Cons.prems(4) _ c1 o1] Cons.prems(5) by auto
    have fN: "f \<notin> N" "insert f N \<subseteq> {0 <..< 2 ^ 20}" using IH(2) s1(2) Cons.prems(3) by auto
    have other: "\<forall>k \<in> set is. pg_present (tabs s t k) \<longrightarrow> unat (pg_addr (tabs s t k)) \<noteq> f" using Cons.prems(7) s1(2) by auto
    have "i \<notin> set is" using Cons.prems(5) by simp
    then have "pages_cloned t t' (set (i # is)) (insert f N) s s'"
      using pages_cloned_insert [OF IH(4) Cons.prems(4) _ True s1(4-8) fN other] by simp
    moreover have "U - {f} - N = U - insert f N" by blast
    ultimately show ?thesis using s1(1,2) IH(1-3) by (intro exI [of _ s'] exI [of _ "insert f N"]) auto
  qed
qed

text \<open>C5: cloning a page table whose frames are not free, with a free frame for every
  present page, returns a new table: each present page has the flags of the original and a frame of
  its own that was free before and now holds the same 1024 double words, each absent page is zero;
  the frames of the original, every other table and every directory are as before.\<close>

theorem table_clone_copies:
  assumes "tables (dirs s (cur_dir s)) 1023 = Some tc" "tc < next_obj s" "t < next_obj s"
    and "owns (frames s) A U" "U \<subseteq> {0 <..< 2 ^ 20}" "card {i. i < 1024 \<and> pg_present (tabs s t i)} \<le> card U"
    and "\<forall>i < 1024. pg_present (tabs s t i) \<longrightarrow> unat (pg_addr (tabs s t i)) \<notin> U"
  shows "\<exists>s' N. table_clone phys_of t s = Some (next_obj s, s') \<and> N \<subseteq> U \<and>
    owns (frames s') ((\<lambda>f. (f, 0)) ` N \<union> A) (U - N) \<and> dirs s' = dirs s \<and>
    (\<forall>u k. u \<noteq> next_obj s \<longrightarrow> tabs s' u k = tabs s u k) \<and> (\<forall>f. f \<notin> N \<longrightarrow> phys_mem s' f = phys_mem s f) \<and>
    (\<forall>i < 1024. if pg_present (tabs s t i)
       then (\<exists>f \<in> N. tabs s' (next_obj s) i = set_addr (of_nat f) (tabs s t i) \<and>
               (\<forall>j < 1024. phys_mem s' f j = phys_mem s (unat (pg_addr (tabs s t i))) j))
       else tabs s' (next_obj s) i = 0) \<and>
    inj_on (\<lambda>i. pg_addr (tabs s' (next_obj s) i)) {i. i < 1024 \<and> pg_present (tabs s t i)}"
proof -
  let ?t' = "next_obj s"
  define s1 where "s1 = snd (new_table s)"
  have s1: "dirs s1 = dirs s" "cur_dir s1 = cur_dir s" "frames s1 = frames s" "phys_mem s1 = phys_mem s"
    "\<And>u. u \<noteq> ?t' \<Longrightarrow> tabs s1 u = tabs s u" "tabs s1 ?t' = (\<lambda>_. 0)" by (simp_all add: s1_def new_table_def)
  have t: "t \<noteq> ?t'" "tabs s1 t = tabs s t" using assms(3) s1(5) [of t] by auto
  have I: "{i \<in> set [0 ..< 1024]. pg_present (tabs s1 t i)} = {i. i < 1024 \<and> pg_present (tabs s t i)}" using t by auto
  have tc: "tables (dirs s1 (cur_dir s1)) 1023 = Some tc" and own: "owns (frames s1) A U" using assms(1,4) s1 by simp_all
  have src: "\<forall>i \<in> set [0 ..< 1024]. pg_present (tabs s1 t i) \<longrightarrow> unat (pg_addr (tabs s1 t i)) \<notin> U" using assms(7) t by simp
  obtain s' N where c: "clone_pages phys_of t ?t' [0 ..< 1024] s1 = Some s'" "N \<subseteq> U"
    "owns (frames s') ((\<lambda>f. (f, 0)) ` N \<union> A) (U - N)" "pages_cloned t ?t' (set [0 ..< 1024]) N s1 s'"
    using clone_pages_ok [OF tc own assms(5) t(1) distinct_upt _ src, of phys_of] assms(6) unfolding I by blast
  have "table_clone phys_of t s = Some (?t', s')"
    using c(1) by (simp add: table_clone_def s1_def new_table_def)
  moreover have "tabs s' u k = tabs s u k" if "u \<noteq> ?t'" for u k using c(4) s1(5) that by (simp add: pages_cloned_def)
  moreover have "phys_mem s' f = phys_mem s f" if "f \<notin> N" for f using c(4) s1(4) that by (simp add: pages_cloned_def)
  moreover have "dirs s' = dirs s" using c(4) s1(1) by (simp add: pages_cloned_def)
  moreover have "if pg_present (tabs s t i)
       then (\<exists>f \<in> N. tabs s' ?t' i = set_addr (of_nat f) (tabs s t i) \<and>
               (\<forall>j < 1024. phys_mem s' f j = phys_mem s (unat (pg_addr (tabs s t i))) j))
       else tabs s' ?t' i = 0" if "i < 1024" for i
    using pages_clonedD [OF c(4), of i] that unfolding t(2) s1(4,6) by simp
  moreover have "inj_on (\<lambda>i. pg_addr (tabs s' ?t' i)) {i. i < 1024 \<and> pg_present (tabs s t i)}"
  proof -
    have "inj_on (\<lambda>i. pg_addr (tabs s' ?t' i)) {i \<in> set [0 ..< 1024]. pg_present (tabs s1 t i)}"
      using c(4) unfolding pages_cloned_def by blast
    then show ?thesis unfolding I .
  qed
  ultimately show ?thesis using c(2,3) by blast
qed

definition clone_example :: "buddy \<Rightarrow> paging" where
  "clone_example b = (blank_paging b)\<lparr>dirs := (\<lambda>_. \<lparr>entries = (\<lambda>_. 0), tables = [1023 \<mapsto> 1], phys_addr = 0\<rparr>),
     next_obj := 3, tabs := (\<lambda>t k. if t = 2 \<and> k = 7 then 0x5007 else 0)\<rparr>"

theorem table_clone_copies_witness:
  "\<exists>b s' f. owns b {} {1024 ..< 2048} \<and> table_clone (\<lambda>t. of_nat t * 4096) 2 (clone_example b) = Some (3, s') \<and>
     f \<in> {1024 ..< 2048} \<and> tabs s' 3 7 = set_addr (of_nat f) 0x5007 \<and> phys_mem s' f 9 = phys_mem (clone_example b) 5 9"
proof -
  have f: "1024 \<le> unat (0x800000 :: u32) div 2 ^ PAGE_SHIFT" by (simp add: PAGE_SHIFT_def)
  obtain b where b: "owns b {} {1024 ..< 2048}" using owns_init [OF _ f] by (auto simp: PAGE_SHIFT_def)
  let ?s = "clone_example b"
  have tc: "tables (dirs ?s (cur_dir ?s)) 1023 = Some 1" "1 < next_obj ?s" "2 < next_obj ?s" "next_obj ?s = 3"
    by (simp_all add: clone_example_def)
  have own: "owns (frames ?s) {} {1024 ..< 2048}" using b by (simp add: clone_example_def blank_paging_def)
  have U: "{1024 ..< 2048} \<subseteq> {0 <..< 2 ^ 20 :: nat}" by auto
  have five: "pg_present 0x5007" "unat (pg_addr 0x5007) = 5" "\<not> pg_present 0" by code_simp+
  have t7: "tabs ?s 2 i = (if i = 7 then 0x5007 else 0)" for i by (simp add: clone_example_def)
  have "card {i. i < 1024 \<and> pg_present (tabs ?s 2 i)} \<le> card {..< 1024 :: nat}" by (intro card_mono) auto
  then have card: "card {i. i < 1024 \<and> pg_present (tabs ?s 2 i)} \<le> card {1024 ..< 2048 :: nat}" by simp
  have src: "\<forall>i < 1024. pg_present (tabs ?s 2 i) \<longrightarrow> unat (pg_addr (tabs ?s 2 i)) \<notin> {1024 ..< 2048}" using five t7 by simp
  obtain s' N where c: "table_clone (\<lambda>t. of_nat t * 4096) 2 ?s = Some (next_obj ?s, s')" "N \<subseteq> {1024 ..< 2048}"
    "\<forall>i < 1024. if pg_present (tabs ?s 2 i)
       then (\<exists>f \<in> N. tabs s' (next_obj ?s) i = set_addr (of_nat f) (tabs ?s 2 i) \<and>
               (\<forall>j < 1024. phys_mem s' f j = phys_mem ?s (unat (pg_addr (tabs ?s 2 i))) j))
       else tabs s' (next_obj ?s) i = 0"
    using table_clone_copies [OF tc(1-3) own U card src, of "\<lambda>t. of_nat t * 4096"] by blast
  have "\<exists>f \<in> N. tabs s' 3 7 = set_addr (of_nat f) 0x5007 \<and> (\<forall>j < 1024. phys_mem s' f j = phys_mem ?s 5 j)"
    using c(3) [rule_format, of 7] five t7 tc(4) by simp
  then obtain f where f: "f \<in> N" "tabs s' 3 7 = set_addr (of_nat f) 0x5007" "phys_mem s' f 9 = phys_mem ?s 5 9" by auto
  have "f \<in> {1024 ..< 2048}" using f(1) c(2) by blast
  then show ?thesis
    using b f(2,3) c(1) [unfolded tc(4)] by (intro exI [of _ b] exI [of _ s'] exI [of _ f] conjI)
qed

section \<open>Cloning a directory\<close>

lemma phys_copy_loop_frame:
  "dirs (phys_copy_loop p q n s) = dirs s \<and> next_obj (phys_copy_loop p q n s) = next_obj s \<and>
     cur_dir (phys_copy_loop p q n s) = cur_dir s"
proof (induction p q n s rule: phys_copy_loop.induct)
  case (1 td kd ts ks n s)
  show ?case
  proof (cases "n > 0")
    case True
    then show ?thesis
      using "1.IH" [OF True refl refl refl refl] by (subst (1 2 3) phys_copy_loop.simps) (simp add: Let_def)
  next
    case False
    then show ?thesis by (subst (1 2 3) phys_copy_loop.simps) simp
  qed
qed

lemma memcpyd_phys_frame:
  assumes "tables (dirs s (cur_dir s)) 1023 = Some tc" "memcpyd_phys_aligned phys_of a b n s = Some s'"
  shows "dirs s' = dirs s \<and> next_obj s' = next_obj s \<and> cur_dir s' = cur_dir s"
proof -
  have "get_page phys_of (cur_dir s) DST_VPAGE True fl s = (Some (tc, 1022), s)"
    "get_page phys_of (cur_dir s) SRC_VPAGE True fl s = (Some (tc, 1023), s)" for fl
    using assms(1) by (simp_all add: get_page_def vpages Let_def)
  then show ?thesis using assms(2) by (auto simp: memcpyd_phys_aligned_def Let_def phys_copy_loop_frame)
qed

lemma clone_pages_frame:
  "tables (dirs s (cur_dir s)) 1023 = Some tc \<Longrightarrow> clone_pages phys_of t t' is s = Some s' \<Longrightarrow>
     dirs s' = dirs s \<and> next_obj s' = next_obj s \<and> cur_dir s' = cur_dir s"
proof (induction "is" arbitrary: s)
  case (Cons i "is")
  show ?case
  proof (cases "pg_present (tabs s t i)")
    case True
    then obtain p b where pb: "alloc_frames 0 (frames s) = Some (Some p, b)"
      using Cons.prems(2) by (auto split: Option.bind_splits)
    define s1 where "s1 = write_page t' i (tabs s t i) (s\<lparr>frames := b\<rparr>)"
    define s2 where "s2 = write_page t' i (set_addr (drop_bit 12 (of_nat p)) (tabs s1 t' i)) s1"
    obtain s3 where st: "memcpyd_phys_aligned phys_of (of_nat p) (push_bit 12 (pg_addr (tabs s2 t i))) 1024 s2 = Some s3"
      "clone_pages phys_of t t' is s3 = Some s'"
      using Cons.prems(2) True pb unfolding s2_def s1_def by (auto simp: Let_def split: Option.bind_splits)
    have s2: "dirs s2 = dirs s" "next_obj s2 = next_obj s" "cur_dir s2 = cur_dir s" by (simp_all add: s2_def s1_def)
    then have "dirs s3 = dirs s \<and> next_obj s3 = next_obj s \<and> cur_dir s3 = cur_dir s"
      using memcpyd_phys_frame [OF _ st(1)] Cons.prems(1) by simp
    then show ?thesis using Cons.IH [OF _ st(2)] Cons.prems(1) by simp
  next
    case False
    then show ?thesis using Cons by simp
  qed
qed simp

lemma table_clone_frame:
  assumes "tables (dirs s (cur_dir s)) 1023 = Some tc" "table_clone phys_of t s = Some (t', s')"
  shows "dirs s' = dirs s \<and> next_obj s' = Suc (next_obj s) \<and> cur_dir s' = cur_dir s \<and> t' = next_obj s"
proof -
  have *: "dirs s' = dirs s \<and> next_obj s' = Suc (next_obj s) \<and> cur_dir s' = cur_dir s \<and> t' = next_obj s"
    if "(let (t', s1) = new_table s in map_option (\<lambda>s2. (t', s2)) (clone_pages phys_of t t' L s1)) = Some (t', s')" for L
    using that clone_pages_frame [of "snd (new_table s)" tc phys_of t "next_obj s" L s'] assms(1)
    by (auto simp: new_table_def)
  show ?thesis using assms(2) unfolding table_clone_def by (rule *)
qed

text \<open>What the entry \<open>i\<close> of a clone is, in terms of the directories before.\<close>

definition entry_cloned :: "paging \<Rightarrow> nat \<Rightarrow> u32 \<Rightarrow> int \<Rightarrow> int \<Rightarrow> pdir \<Rightarrow> nat \<Rightarrow> bool" where
  "entry_cloned s this flags sbot stop D i \<longleftrightarrow>
     (if i \<ge> KERNEL_HIGHMEM_START \<and> \<not> is_kstack i
      then tables D i = tables (dirs s KERNEL_DIR) i \<and> entries D i = entries (dirs s KERNEL_DIR) i
      else case tables (dirs s this) i of
        Some t \<Rightarrow>
          if flags AND CLONE_VM \<noteq> 0 \<and> \<not> is_kstack i \<and> \<not> (sbot \<le> int i \<and> int i \<le> stop)
          then tables D i = Some t \<and> entries D i = entries (dirs s this) i
          else \<exists>t' \<ge> next_obj s. tables D i = Some t' \<and> entries D i AND 0xFFF = entries (dirs s this) i AND 0xFFF
      | None \<Rightarrow> True)"

lemma clone_entry_frame:
  assumes tc: "tables (dirs s (cur_dir s)) 1023 = Some tc" and c: "clone_entry phys_of this flags sbot stop dir i s = Some s'"
    and ne: "dir \<noteq> this" "dir \<noteq> KERNEL_DIR"
  shows "(\<forall>d. d \<noteq> dir \<longrightarrow> dirs s' d = dirs s d) \<and> next_obj s \<le> next_obj s' \<and> cur_dir s' = cur_dir s \<and>
    (\<forall>j. j \<noteq> i \<longrightarrow> tables (dirs s' dir) j = tables (dirs s dir) j \<and> entries (dirs s' dir) j = entries (dirs s dir) j) \<and>
    entry_cloned s this flags sbot stop (dirs s' dir) i"
proof (cases "i \<ge> KERNEL_HIGHMEM_START \<and> \<not> is_kstack i")
  case True
  then show ?thesis using c by (auto simp: clone_entry_def Let_def set_dir_def entry_cloned_def)
next
  case low: False
  show ?thesis
  proof (cases "tables (dirs s this) i")
    case None
    then show ?thesis using c low by (auto simp: clone_entry_def Let_def set_dir_def entry_cloned_def split: if_splits)
  next
    case (Some t)
    show ?thesis
    proof (cases "flags AND CLONE_VM \<noteq> 0 \<and> \<not> is_kstack i \<and> \<not> (sbot \<le> int i \<and> int i \<le> stop)")
      case True
      then show ?thesis using c low Some by (auto simp: clone_entry_def Let_def set_dir_def entry_cloned_def)
    next
      case False
      obtain t' s1 where s1: "table_clone phys_of t s = Some (t', s1)"
        "s' = set_dir dir ((dirs s1 dir)\<lparr>tables := (tables (dirs s1 dir))(i := Some t'),
           entries := (entries (dirs s1 dir))(i := set_addr (drop_bit 12 (phys_of t')) (entries (dirs s1 this) i))\<rparr>) s1"
        using c low Some False unfolding clone_entry_def Let_def by (auto split: Option.bind_splits)
      have "dirs s1 = dirs s" "next_obj s1 = Suc (next_obj s)" "cur_dir s1 = cur_dir s" "t' = next_obj s"
        using table_clone_frame [OF tc s1(1)] by simp_all
      then show ?thesis
        using s1(2) low Some False unfolding entry_cloned_def by (auto simp: set_dir_def set_addr_low)
    qed
  qed
qed

lemma entry_cloned_cong:
  "entry_cloned s1 this flags sbot stop D i \<Longrightarrow> dirs s1 this = dirs s this \<Longrightarrow> dirs s1 KERNEL_DIR = dirs s KERNEL_DIR \<Longrightarrow>
     next_obj s \<le> next_obj s1 \<Longrightarrow> tables D' i = tables D i \<Longrightarrow> entries D' i = entries D i \<Longrightarrow>
     entry_cloned s this flags sbot stop D' i"
  by (fastforce simp: entry_cloned_def split: if_splits option.splits)

lemma clone_loop_frame:
  assumes "tables (dirs s (cur_dir s)) 1023 = Some tc" "clone_loop phys_of this flags sbot stop dir is s = Some s'"
    and "dir \<noteq> this" "dir \<noteq> KERNEL_DIR" "dir \<noteq> cur_dir s" "distinct is"
  shows "(\<forall>d. d \<noteq> dir \<longrightarrow> dirs s' d = dirs s d) \<and> next_obj s \<le> next_obj s' \<and>
    (\<forall>j. j \<notin> set is \<longrightarrow> tables (dirs s' dir) j = tables (dirs s dir) j \<and> entries (dirs s' dir) j = entries (dirs s dir) j) \<and>
    (\<forall>i \<in> set is. entry_cloned s this flags sbot stop (dirs s' dir) i)"
  using assms
proof (induction "is" arbitrary: s)
  case (Cons i "is")
  obtain s1 where s1: "clone_entry phys_of this flags sbot stop dir i s = Some s1"
    "clone_loop phys_of this flags sbot stop dir is s1 = Some s'" using Cons.prems(2) by (auto split: Option.bind_splits)
  note fr = clone_entry_frame [OF Cons.prems(1) s1(1) Cons.prems(3,4)]
  have "tables (dirs s1 (cur_dir s1)) 1023 = Some tc" "dir \<noteq> cur_dir s1" using fr Cons.prems(1,5) by auto
  from Cons.IH [OF this(1) s1(2) Cons.prems(3,4) this(2)] Cons.prems(6) have IH:
    "\<forall>d. d \<noteq> dir \<longrightarrow> dirs s' d = dirs s1 d" "next_obj s1 \<le> next_obj s'"
    "\<forall>j. j \<notin> set is \<longrightarrow> tables (dirs s' dir) j = tables (dirs s1 dir) j \<and> entries (dirs s' dir) j = entries (dirs s1 dir) j"
    "\<forall>i \<in> set is. entry_cloned s1 this flags sbot stop (dirs s' dir) i" by auto
  have "entry_cloned s this flags sbot stop (dirs s' dir) k" if "k \<in> set (i # is)" for k
  proof (cases "k = i")
    case True
    then have "k \<notin> set is" using Cons.prems(6) by simp
    then show ?thesis using entry_cloned_cong [of s this flags sbot stop "dirs s1 dir" k s "dirs s' dir"] fr IH(3) True by simp
  next
    case False
    then show ?thesis
      using entry_cloned_cong [of s1 this flags sbot stop "dirs s' dir" k s "dirs s' dir"] fr IH(4) that Cons.prems(3,4) by simp
  qed
  then show ?case using fr IH(1-3) by auto
qed simp


text \<open>Cloning a directory whose tables are all empty needs no frames.\<close>

definition all_zero :: "nat \<Rightarrow> paging \<Rightarrow> bool" where
  "all_zero this s \<longleftrightarrow> (\<forall>t k. tabs s t k = 0) \<and> (\<forall>i. entries (dirs s this) i = 0)"

lemma clone_pages_zero: "all_zero this s \<Longrightarrow> clone_pages phys_of t t' is s = Some s"
  by (induction "is") (simp_all add: all_zero_def pg_present_def)

lemma clone_entry_zero:
  assumes "all_zero this s" "dir \<noteq> this"
  shows "\<exists>s'. clone_entry phys_of this flags sbot stop dir i s = Some s' \<and> all_zero this s'"
proof -
  have "all_zero this (snd (new_table s))" using assms(1) by (simp add: all_zero_def new_table_def)
  from clone_pages_zero [OF this] have "table_clone phys_of t s = Some (next_obj s, snd (new_table s))" for t
    unfolding table_clone_def by (simp add: new_table_def)
  then show ?thesis
    using assms unfolding clone_entry_def
    by (auto simp: Let_def all_zero_def set_dir_def new_table_def pg_present_def split: option.split)
qed

lemma clone_loop_zero:
  "all_zero this s \<Longrightarrow> dir \<noteq> this \<Longrightarrow> \<exists>s'. clone_loop phys_of this flags sbot stop dir is s = Some s'"
proof (induction "is" arbitrary: s)
  case (Cons i "is")
  obtain s1 where "clone_entry phys_of this flags sbot stop dir i s = Some s1" "all_zero this s1"
    using clone_entry_zero [OF Cons.prems] by blast
  then show ?case using Cons.IH [OF _ Cons.prems(2)] by simp
qed simp

definition zero_example :: paging where
  "zero_example = (blank_paging (buddy_empty 0))\<lparr>dirs := (\<lambda>_. \<lparr>entries = (\<lambda>_. 0), tables = [1023 \<mapsto> 1, 5 \<mapsto> 2], phys_addr = 0\<rparr>),
     next_obj := 3\<rparr>"


end
