(* ===== verification/Memory.thy ===== *)
theory Memory
  imports Paging
begin

text \<open>
  The memory interface of \<open>kernel/mem/memory.cpp\<close>: the placement allocator used before the heap is
  online, \<open>remap\<close> of device memory and the system call \<open>brk\<close>.
\<close>

section \<open>The placement allocator\<close>

definition KMALLOC_ALIGN :: u32 where "KMALLOC_ALIGN = 1"
definition KMALLOC_ZERO :: u32 where "KMALLOC_ZERO = 2"

text \<open>\<open>kmalloc\<close> while the heap is not online: the pointer, its physical address, the placement
  address afterwards.\<close>

definition kmalloc_placement :: "u32 \<Rightarrow> u32 \<Rightarrow> u32 \<Rightarrow> u32 \<times> u32 \<times> u32" where
  "kmalloc_placement sz flags placement =
     (let p = (if flags AND KMALLOC_ALIGN \<noteq> 0 then align_addr placement else placement)
      in (p, p - KERNEL_VIRTUAL_BASE, p + sz))"

section \<open>Remapping device memory\<close>

definition KERNEL_IDMAP_SIZE :: u32 where "KERNEL_IDMAP_SIZE = 0x10000000"

text \<open>\<open>curpos\<close> is the static variable of \<open>remap\<close>. \<open>None\<close> is the null pointer.\<close>

definition remap :: "(nat \<Rightarrow> u32) \<Rightarrow> u32 \<Rightarrow> u32 \<Rightarrow> bool \<Rightarrow> u32 \<times> paging \<Rightarrow> u32 option \<times> u32 \<times> paging" where
  "remap phys_of phys0 sz0 cache st =
     (let (curpos, s) = st in
      if cache \<and> phys0 + sz0 < KERNEL_IDMAP_SIZE then (Some (phys0 + KERNEL_VIRTUAL_BASE), curpos, s)
      else if phys0 < KERNEL_IDMAP_SIZE then (None, curpos, s)
      else let sz1 = sz0 + (phys0 AND 0xFFF);
               phys = phys0 AND NOT 0xFFF;
               sz = align_addr sz1
           in if REMAP_END - curpos \<le> sz then (None, curpos, s)
              else case map_block phys_of KERNEL_DIR curpos phys sz False
                     (PAGE_PRESENT OR PAGE_RW OR (if cache then 0 else PAGE_WRITETHROUGH OR PAGE_NOCACHE)) s of
                (False, s1) \<Rightarrow> (None, curpos, s1)
              | (True, s1) \<Rightarrow> (Some curpos, curpos + sz, s1))"

section \<open>The break of a process\<close>

record brk_state =
  brk_start :: u32
  brk_end :: u32
  stack_bot :: u32

text \<open>The loop over the pages from \<open>a\<close> to \<open>b\<close>, both multiples of the page size; it ends at the top of
  the address space because the bounds come from a process image.\<close>

definition page_addrs :: "u32 \<Rightarrow> u32 \<Rightarrow> u32 list" where
  "page_addrs a b = map (\<lambda>n. a + of_nat n * PAGE_SIZE) [0 ..< (unat b - unat a + 4095) div 4096]"

fun free_page_loop :: "nat \<Rightarrow> u32 list \<Rightarrow> paging \<Rightarrow> paging option" where
  "free_page_loop d [] s = Some s"
| "free_page_loop d (a # as) s = Option.bind (free_page d a s) (free_page_loop d as)"

definition sys_brk :: "(nat \<Rightarrow> u32) \<Rightarrow> nat \<Rightarrow> u32 \<Rightarrow> brk_state \<times> paging \<Rightarrow> (u32 \<times> brk_state \<times> paging) option" where
  "sys_brk phys_of d addr st =
     (let (p, s) = st in
      if addr < brk_start p \<or> addr \<ge> stack_bot p \<or> addr = brk_end p then Some (brk_end p, p, s)
      else if addr > brk_end p then
        let vstart = brk_end p AND NOT 0xFFF; vend = align_addr addr in
        Option.bind (alloc_block phys_of d vstart (vend - vstart) (PAGE_PRESENT OR PAGE_US OR PAGE_RW) s)
          (\<lambda>(ok, s1). if \<not> ok then Some (brk_end p, p, s1)
             else Some (addr, p\<lparr>brk_end := addr\<rparr>, switch_page_dir d s1))
      else
        let vstart = addr AND NOT 0xFFF; vend = align_addr (brk_end p) in
        Option.bind (free_page_loop d (page_addrs vstart vend) s)
          (\<lambda>s1. Some (addr, p\<lparr>brk_end := addr\<rparr>, switch_page_dir d s1)))"

section \<open>Aligning addresses\<close>

lemma and_not_mask: "a AND NOT (mask k) = push_bit k (drop_bit k (a :: u32))"
  by (rule bit_word_eqI) (auto simp: bit_simps)

lemma unat_round_down: "unat (a AND NOT 0xFFF :: u32) = unat a div 4096 * 4096"
proof -
  have "unat a div 4096 * 4096 < 2 ^ 32" using unat_u32_lt [of a] by (simp add: le_less_trans [OF div_times_less_eq_dividend])
  then show ?thesis
    unfolding mask_12 and_not_mask
    by (subst unat_push_bit_lt) (simp_all add: unat_drop_bit)
qed

lemma low_zero_iff: "(a AND 0xFFF = (0 :: u32)) \<longleftrightarrow> unat a mod 4096 = 0"
proof -
  have "a AND 0xFFF = take_bit 12 a" by (simp only: mask_12 take_bit_eq_mask)
  then have "unat (a AND 0xFFF) = unat a mod 4096" by (simp only: unsigned_take_bit_eq) (simp add: take_bit_eq_mod)
  then show ?thesis by (metis unat_eq_0)
qed

lemma align_addr_unat:
  assumes "unat a + 4095 < 2 ^ 32"
  shows "unat (align_addr a) = (unat a + 4095) div 4096 * 4096"
proof (cases "unat a mod 4096 = 0")
  case True
  then have "align_addr a = a AND NOT 0xFFF" by (simp add: align_addr_def low_zero_iff)
  moreover have "(unat a + 4095) div 4096 = unat a div 4096"
  proof -
    obtain q where "unat a = 4096 * q" using True by (metis dvd_def mod_0_imp_dvd)
    then show ?thesis by simp
  qed
  ultimately show ?thesis by (simp only: unat_round_down)
next
  case False
  define q where "q = unat a div 4096"
  have a: "unat a = 4096 * q + unat a mod 4096" "unat a mod 4096 < 4096" by (simp_all add: q_def)
  have "(unat a + 4095) div 4096 = q + 1"
    using a False by (intro div_nat_eqI) auto
  moreover have "unat ((a AND NOT 0xFFF) + 0x1000) = q * 4096 + 4096"
  proof -
    have "unat (a AND NOT 0xFFF) = q * 4096" by (simp only: unat_round_down q_def)
    moreover have "q * 4096 + 4096 < 2 ^ 32" using assms a False by auto
    ultimately show ?thesis by (subst unat_add_lt) simp_all
  qed
  ultimately show ?thesis using False by (simp add: align_addr_def low_zero_iff)
qed

lemma page_offset: "unat (a AND 0xFFF :: u32) = unat a mod 4096"
proof -
  have "a AND 0xFFF = take_bit 12 a" by (simp only: mask_12 take_bit_eq_mask)
  then show ?thesis by (simp only: unsigned_take_bit_eq) (simp add: take_bit_eq_mod)
qed

lemma align_addr_wraps: "2 ^ 32 \<le> unat a + 4095 \<Longrightarrow> align_addr a = 0"
proof -
  assume a: "2 ^ 32 \<le> unat a + 4095"
  define q where "q = unat a div 4096"
  have q: "unat a = 4096 * q + unat a mod 4096" "unat a mod 4096 < 4096" by (simp_all add: q_def)
  have "q = 1048575" using a q unat_u32_lt [of a] by simp
  moreover from this have "unat a mod 4096 \<noteq> 0" using a q(1) by (intro notI) simp
  ultimately have "q = 1048575" "unat a mod 4096 \<noteq> 0" by simp_all
  then have "unat (a AND NOT 0xFFF) = 1048575 * 4096" by (simp only: unat_round_down flip: q_def)
  then have "a AND NOT 0xFFF = of_nat (1048575 * 4096)" by (simp add: word_unat_eq_iff)
  then show ?thesis using \<open>unat a mod 4096 \<noteq> 0\<close> by (simp add: align_addr_def low_zero_iff)
qed

lemma page_of_lt_iff:
  assumes "unat e mod 4096 = 0"
  shows "unat (drop_bit 12 a :: u32) < unat e div 4096 \<longleftrightarrow> unat a < unat e"
proof -
  obtain q where q: "unat e = q * 4096" using assms by (metis dvd_def mod_0_imp_dvd mult.commute)
  then show ?thesis by (simp add: unat_drop_bit less_mult_imp_div_less div_less_iff_less_mult)
qed

section \<open>Growing and shrinking the break\<close>

lemma page_addrs_nth:
  assumes "unat a mod 4096 = 0" "unat b mod 4096 = 0"
  shows "x \<in> drop_bit 12 ` set (page_addrs a b) \<longleftrightarrow> unat a div 4096 \<le> unat x \<and> unat x < unat b div 4096"
    and "distinct (map (drop_bit 12) (page_addrs a b) :: u32 list)"
proof -
  obtain p q where pq: "unat a = p * 4096" "unat b = q * 4096"
    using assms by (metis dvd_def mod_0_imp_dvd mult.commute)
  have qb: "q < 2 ^ 20" using pq(2) unat_u32_lt [of b] by simp
  have n: "(unat b - unat a + 4095) div 4096 = q - p"
  proof -
    have "unat b - unat a = (q - p) * 4096" by (simp add: pq diff_mult_distrib)
    then show ?thesis by simp
  qed
  have d: "unat (drop_bit 12 (a + of_nat n * PAGE_SIZE)) = p + n" if "n < q - p" for n
  proof -
    have le: "p * 4096 + n * 4096 < 2 ^ 32" using that qb by simp
    then have "unat (of_nat (n * 4096) :: u32) = n * 4096" by (intro unat_of_nat_lt) simp
    then have "unat (a + of_nat (n * 4096)) = p * 4096 + n * 4096"
      using le pq(1) by (subst unat_add_lt) simp_all
    then show ?thesis by (simp add: unat_drop_bit PAGE_SIZE_def)
  qed
  have m: "map (drop_bit 12) (page_addrs a b) = map (\<lambda>n. drop_bit 12 (a + of_nat n * PAGE_SIZE)) [0 ..< q - p]"
    by (simp add: page_addrs_def n)
  show "x \<in> drop_bit 12 ` set (page_addrs a b) \<longleftrightarrow> unat a div 4096 \<le> unat x \<and> unat x < unat b div 4096"
  proof
    assume "x \<in> drop_bit 12 ` set (page_addrs a b)"
    then obtain n where "n < q - p" "x = drop_bit 12 (a + of_nat n * PAGE_SIZE)" by (auto simp: page_addrs_def n)
    then show "unat a div 4096 \<le> unat x \<and> unat x < unat b div 4096" using d [of n] by (simp add: pq)
  next
    assume x: "unat a div 4096 \<le> unat x \<and> unat x < unat b div 4096"
    then have l: "unat x - p < q - p" by (simp add: pq) arith
    have "unat (drop_bit 12 (a + of_nat (unat x - p) * PAGE_SIZE)) = unat x" using d [OF l] x by (simp add: pq)
    then have "x = drop_bit 12 (a + of_nat (unat x - p) * PAGE_SIZE)" by (simp only: word_unat_eq_iff)
    then show "x \<in> drop_bit 12 ` set (page_addrs a b)" using l unfolding page_addrs_def n by force
  qed
  show "distinct (map (drop_bit 12) (page_addrs a b) :: u32 list)"
    unfolding m distinct_map by (auto intro!: inj_onI dest!: arg_cong [of _ _ unat] simp: d)
qed

text \<open>Freeing a page whose frame was allocated alone.\<close>

lemma free_page_ok:
  assumes "paging_wf d s" "owns (frames s) A U"
    and "pg_present (lookup s d (drop_bit 12 a)) \<Longrightarrow> (unat (pg_addr (lookup s d (drop_bit 12 a))), 0) \<in> A"
  shows "\<exists>s' U'. free_page d a s = Some s' \<and> paging_wf d s' \<and> cur_dir s' = cur_dir s \<and>
    owns (frames s') (A - (if pg_present (lookup s d (drop_bit 12 a)) then {(unat (pg_addr (lookup s d (drop_bit 12 a))), 0)} else {})) U' \<and>
    U' \<subseteq> U \<union> covered A \<and> (\<forall>b. lookup s' d b = (if b = drop_bit 12 a \<and> pg_present (lookup s d b) then 0 else lookup s d b))"
proof (cases "pg_present (lookup s d (drop_bit 12 a))")
  case False
  have "free_page d a s = Some s"
  proof (cases "find_page s d (drop_bit 12 a)")
    case (Some tk)
    then show ?thesis using False lookup_find [of s d "drop_bit 12 a"] by (cases tk) (simp add: free_page_def)
  qed (simp add: free_page_def)
  then show ?thesis using assms False by auto
next
  case True
  let ?v = "lookup s d (drop_bit 12 a)"
  obtain t k where tk: "find_page s d (drop_bit 12 a) = Some (t, k)" "tabs s t k = ?v"
    using True by (auto simp: lookup_def page_value_def pg_present_def split: option.splits)
  obtain F where F: "buddy_inv (frames s) F A" "U = covered (free_blocks F)" using assms(2) by (auto simp: owns_def)
  have "push_bit 12 (pg_addr ?v) = of_nat (unat (pg_addr ?v) * 2 ^ PAGE_SHIFT)"
    by (simp add: PAGE_SHIFT_def push_bit_eq_mult)
  with free_frames_ok [OF F(1) assms(3) [OF True]] obtain n b F' L where
    b: "free_frames (push_bit 12 (pg_addr ?v)) (frames s) = Some (n, b)" "buddy_inv b F' (A - {(unat (pg_addr ?v), 0)})"
    "frames_of (unat (pg_addr ?v), 0) \<union> covered (free_blocks F) = covered (free_blocks F') \<union> L"
    by metis
  have "frames_of (unat (pg_addr ?v), 0) \<subseteq> covered A" using assms(3) [OF True] by (auto simp: covered_def)
  then have sub: "covered (free_blocks F') \<subseteq> U \<union> covered A" using b(3) F(2) by blast
  have "free_page d a s = Some (write_page t k 0 (s\<lparr>frames := b\<rparr>))"
    using tk True b(1) by (simp add: free_page_def free_frame_def)
  moreover have "lookup (write_page t k 0 (s\<lparr>frames := b\<rparr>)) d c = (if c = drop_bit 12 a then 0 else lookup s d c)" for c
    using lookup_write_page [of d "s\<lparr>frames := b\<rparr>" "drop_bit 12 a" t k 0 c] assms(1) tk(1) by simp
  moreover have "owns b (A - {(unat (pg_addr ?v), 0)}) (covered (free_blocks F'))"
    unfolding owns_def using b(2) by blast
  ultimately show ?thesis using assms(1) True sub by auto
qed

definition page_frames :: "paging \<Rightarrow> nat \<Rightarrow> u32 set \<Rightarrow> block set" where
  "page_frames s d R = (\<lambda>a. (unat (pg_addr (lookup s d a)), 0)) ` {a \<in> R. pg_present (lookup s d a)}"

lemma free_page_loop_ok:
  assumes "paging_wf d s" "owns (frames s) A U" "page_frames s d (drop_bit 12 ` set as) \<subseteq> A"
    and "inj_on (\<lambda>a. pg_addr (lookup s d a)) {a \<in> drop_bit 12 ` set as. pg_present (lookup s d a)}"
    and "distinct (map (drop_bit 12) as)"
  shows "\<exists>s' U'. free_page_loop d as s = Some s' \<and> paging_wf d s' \<and> cur_dir s' = cur_dir s \<and>
    owns (frames s') (A - page_frames s d (drop_bit 12 ` set as)) U' \<and> U' \<subseteq> U \<union> covered A \<and>
    (\<forall>b. lookup s' d b = (if b \<in> drop_bit 12 ` set as \<and> pg_present (lookup s d b) then 0 else lookup s d b))"
  using assms
proof (induction as arbitrary: s A U)
  case Nil
  then show ?case by (auto simp: page_frames_def)
next
  case (Cons a as)
  let ?p = "drop_bit 12 a" and ?R = "drop_bit 12 ` set as"
  let ?F = "if pg_present (lookup s d ?p) then {(unat (pg_addr (lookup s d ?p)), 0)} else {} :: block set"
  have F: "page_frames s d (drop_bit 12 ` set (a # as)) = ?F \<union> page_frames s d ?R" by (auto simp: page_frames_def)
  have "pg_present (lookup s d ?p) \<Longrightarrow> (unat (pg_addr (lookup s d ?p)), 0) \<in> A" using Cons.prems(3) F by simp
  from free_page_ok [OF Cons.prems(1,2) this] obtain s1 U1 where
    s1: "free_page d a s = Some s1" "paging_wf d s1" "cur_dir s1 = cur_dir s" "owns (frames s1) (A - ?F) U1"
    "\<forall>b. lookup s1 d b = (if b = ?p \<and> pg_present (lookup s d b) then 0 else lookup s d b)" "U1 \<subseteq> U \<union> covered A" by blast
  have np: "?p \<notin> ?R" using Cons.prems(5) by auto
  then have same: "lookup s1 d b = lookup s d b" if "b \<in> ?R" for b using s1(5) that by (cases "b = ?p") simp_all
  have pf: "page_frames s1 d ?R = page_frames s d ?R" using same by (auto simp: page_frames_def)
  have "?F \<inter> page_frames s d ?R = {}"
  proof (rule ccontr)
    assume "?F \<inter> page_frames s d ?R \<noteq> {}"
    then obtain z where z: "z \<in> ?F" "z \<in> page_frames s d ?R" by blast
    have "pg_present (lookup s d ?p)" "z = (unat (pg_addr (lookup s d ?p)), 0)" using z(1) by (auto split: if_splits)
    moreover obtain b where "b \<in> ?R" "pg_present (lookup s d b)" "z = (unat (pg_addr (lookup s d b)), 0)"
      using z(2) unfolding page_frames_def by blast
    ultimately have b: "pg_present (lookup s d ?p)" "b \<in> ?R" "pg_present (lookup s d b)"
      "unat (pg_addr (lookup s d b)) = unat (pg_addr (lookup s d ?p))" by simp_all
    have "pg_addr (lookup s d b) = pg_addr (lookup s d ?p)" using b(4) by (rule word_unat_eq_iff [THEN iffD2])
    moreover have "b \<in> {x \<in> drop_bit 12 ` set (a # as). pg_present (lookup s d x)}"
      "?p \<in> {x \<in> drop_bit 12 ` set (a # as). pg_present (lookup s d x)}" using b(1-3) by simp_all
    ultimately have "b = ?p" by (rule inj_onD [OF Cons.prems(4)])
    then show False using b(2) np by simp
  qed
  then have sub: "page_frames s1 d ?R \<subseteq> A - ?F" using Cons.prems(3) F pf by blast
  have dom: "{x \<in> ?R. pg_present (lookup s1 d x)} = {x \<in> ?R. pg_present (lookup s d x)}" using same by auto
  have "inj_on (\<lambda>x. pg_addr (lookup s d x)) {x \<in> ?R. pg_present (lookup s d x)}"
    by (rule inj_on_subset [OF Cons.prems(4)]) auto
  then have inj: "inj_on (\<lambda>x. pg_addr (lookup s1 d x)) {x \<in> ?R. pg_present (lookup s1 d x)}"
    unfolding dom by (rule inj_on_cong [THEN iffD1, rotated]) (simp add: same)
  have "distinct (map (drop_bit 12) as)" using Cons.prems(5) by simp
  from Cons.IH [OF s1(2,4) sub inj this] obtain s' U' where
    s': "free_page_loop d as s1 = Some s'" "paging_wf d s'" "cur_dir s' = cur_dir s1"
    "owns (frames s') (A - ?F - page_frames s1 d ?R) U'"
    "\<forall>b. lookup s' d b = (if b \<in> ?R \<and> pg_present (lookup s1 d b) then 0 else lookup s1 d b)" "U' \<subseteq> U1 \<union> covered (A - ?F)" by blast
  have "covered (A - ?F) \<subseteq> covered A" by (auto simp: covered_def)
  then have "U' \<subseteq> U \<union> covered A" using s'(6) s1(6) by blast
  moreover have "lookup s' d b = (if b \<in> drop_bit 12 ` set (a # as) \<and> pg_present (lookup s d b) then 0 else lookup s d b)" for b
    using s'(5) s1(5) np by (cases "b = ?p"; cases "b \<in> ?R") simp_all
  moreover have "A - ?F - page_frames s1 d ?R = A - page_frames s d (drop_bit 12 ` set (a # as))" using F pf by blast
  ultimately show ?case using s1(1,3) s'(1-4) by (intro exI [of _ s'] exI [of _ U']) simp
qed

lemma unat_minus_lt_iff:
  assumes "unat p + unat n < 2 ^ 32"
  shows "a - p < (n :: u32) \<longleftrightarrow> unat p \<le> unat a \<and> unat a < unat p + unat n"
proof (cases "p \<le> a")
  case True
  then have "unat (a - p) = unat a - unat p" by (rule unat_sub)
  then show ?thesis using True by (auto simp: word_less_nat_alt word_le_nat_alt)
next
  case False
  have "unat (a - p) = 2 ^ 32 + unat a - unat p"
    using False by (simp add: unat_sub_if_size word_le_nat_alt word_size)
  then show ?thesis using False assms by (auto simp: word_less_nat_alt word_le_nat_alt)
qed

lemma block_pages:
  assumes "unat vs mod 4096 = 0" "unat ve mod 4096 = 0" "vs \<le> (ve :: u32)"
  shows "unat (drop_bit 12 vs) + unat (drop_bit 12 (ve - vs)) = unat ve div 4096"
    and "a - drop_bit 12 vs < drop_bit 12 (ve - vs) \<longleftrightarrow> unat vs div 4096 \<le> unat a \<and> unat a < unat ve div 4096"
proof -
  obtain p q where pq: "unat vs = p * 4096" "unat ve = q * 4096"
    using assms by (metis dvd_def mod_0_imp_dvd mult.commute)
  have "p \<le> q" using assms(3) pq by (simp add: word_le_nat_alt)
  moreover have "unat (ve - vs) = (q - p) * 4096" using assms(3) pq by (simp add: unat_sub diff_mult_distrib)
  ultimately have u: "unat (drop_bit 12 vs) = p" "unat (drop_bit 12 (ve - vs)) = q - p" "p + (q - p) = q"
    by (simp_all add: unat_drop_bit pq)
  then show "unat (drop_bit 12 vs) + unat (drop_bit 12 (ve - vs)) = unat ve div 4096" by (simp add: pq)
  have "q < 2 ^ 32" using pq(2) unat_u32_lt [of ve] by simp
  then show "a - drop_bit 12 vs < drop_bit 12 (ve - vs) \<longleftrightarrow> unat vs div 4096 \<le> unat a \<and> unat a < unat ve div 4096"
    using u by (subst unat_minus_lt_iff) (simp_all add: pq)
qed

lemma user_flags: "v AND 7 = (7 :: u32) \<Longrightarrow> n < 3 \<Longrightarrow> bit v n"
proof -
  assume v: "v AND 7 = 7" and n: "n < 3"
  have "bit (7 :: u32) n" using n by (auto simp: numeral_3_eq_3 less_Suc_eq bit_simps)
  then have "bit (v AND 7) n" by (simp only: v)
  then show ?thesis by (simp only: bit_and_iff)
qed

definition BRK_FLAGS :: u32 where "BRK_FLAGS = PAGE_PRESENT OR PAGE_US OR PAGE_RW"

lemma brk_flags: "BRK_FLAGS = 7" by (simp add: BRK_FLAGS_def PAGE_PRESENT_def PAGE_US_def PAGE_RW_def)

definition user_page :: "u32 \<Rightarrow> bool" where "user_page v \<longleftrightarrow> pg_present v \<and> pg_user v \<and> pg_rw v"

lemma user_page_flags:
  assumes "v AND 0xFFF = BRK_FLAGS AND 0xFFF"
  shows "user_page v"
proof -
  have "v AND 7 = (v AND 0xFFF) AND 7" by (simp add: and.assoc)
  then have "v AND 7 = 7" using assms by (simp add: brk_flags)
  then show ?thesis by (simp add: user_page_def pg_present_def pg_rw_def pg_user_def user_flags)
qed

text \<open>The pages that hold the addresses from \<open>a\<close> up to \<open>b\<close>.\<close>

definition pages_of :: "u32 \<Rightarrow> u32 \<Rightarrow> u32 set" where
  "pages_of a b = {x. unat a div 4096 \<le> unat x \<and> unat x < (unat b + 4095) div 4096}"

lemma pages_of_covers: "a \<le> x \<Longrightarrow> x < b \<Longrightarrow> drop_bit 12 x \<in> pages_of a b"
proof -
  assume x: "a \<le> x" "x < b"
  then have "unat x div 4096 < (unat b + 4095) div 4096"
    using div_le_mono [of "unat x + 4096" "unat b + 4095" 4096] by (simp add: word_less_nat_alt)
  moreover have "unat a div 4096 \<le> unat x div 4096" using x by (intro div_le_mono) (simp add: word_le_nat_alt)
  ultimately show ?thesis by (simp add: pages_of_def unat_drop_bit)
qed

lemma round_bounds:
  assumes "unat b + 4095 < 2 ^ 32" "a \<le> b"
  shows "unat (a AND NOT 0xFFF) mod 4096 = 0" "unat (align_addr b) mod 4096 = 0" "(a AND NOT 0xFFF) \<le> align_addr b"
    "unat (a AND NOT 0xFFF) div 4096 = unat a div 4096" "unat (align_addr b) div 4096 = (unat b + 4095) div 4096"
proof -
  note u = unat_round_down [of a] align_addr_unat [OF assms(1)]
  show "unat (a AND NOT 0xFFF) mod 4096 = 0" "unat (align_addr b) mod 4096 = 0"
    "unat (a AND NOT 0xFFF) div 4096 = unat a div 4096" "unat (align_addr b) div 4096 = (unat b + 4095) div 4096"
    by (simp_all only: u mod_mult_self2_is_0 nonzero_mult_div_cancel_right numeral_neq_zero simp_thms)
  have "unat a div 4096 \<le> (unat b + 4095) div 4096" using assms(2) by (intro div_le_mono) (simp add: word_le_nat_alt)
  then show "(a AND NOT 0xFFF) \<le> align_addr b" by (simp only: word_le_nat_alt u mult_le_mono1)
qed

lemma page_addrs_pages:
  assumes "a \<le> b" "unat b + 4095 < 2 ^ 32"
  shows "drop_bit 12 ` set (page_addrs (a AND NOT 0xFFF) (align_addr b)) = pages_of a b"
proof -
  note rb = round_bounds [OF assms(2,1)]
  show ?thesis by (rule set_eqI) (simp only: page_addrs_nth(1) [OF rb(1,2)] pages_of_def mem_Collect_eq rb(4,5))
qed

text \<open>Allocating the pages of a region for a process.\<close>

lemma alloc_user_block:
  assumes "paging_wf d s" "owns (frames s) A U" "U \<subseteq> {0 <..< 2 ^ 20}" "a \<le> b" "unat b + 4095 < 2 ^ 32"
  shows "\<exists>ok s' N. alloc_block phys_of d (a AND NOT 0xFFF) (align_addr b - (a AND NOT 0xFFF)) (PAGE_PRESENT OR PAGE_US OR PAGE_RW) s = Some (ok, s') \<and>
    paging_wf d s' \<and> N \<subseteq> U \<and> owns (frames s') ((\<lambda>f. (f, 0)) ` N \<union> A) (U - N) \<and>
    (\<forall>x. x \<notin> pages_of a b \<longrightarrow> lookup s' d x = lookup s d x) \<and>
    (ok \<longrightarrow> (\<forall>x \<in> pages_of a b. user_page (lookup s' d x)) \<and>
      (\<forall>x. pg_present (lookup s d x) \<longrightarrow> pg_addr (lookup s' d x) = pg_addr (lookup s d x)))"
proof -
  let ?vs = "a AND NOT 0xFFF" and ?ve = "align_addr b"
  note rb = round_bounds [OF assms(5,4)]
  have R: "set (page_range (drop_bit 12 ?vs) (drop_bit 12 (?ve - ?vs))) = pages_of a b"
  proof -
    have "unat (drop_bit 12 ?vs) + unat (drop_bit 12 (?ve - ?vs)) < 2 ^ 32"
      unfolding block_pages(1) [OF rb(1-3)] using unat_u32_lt [of ?ve] by (simp add: div_le_dividend le_less_trans)
    from page_range_nth(3) [OF this] show ?thesis unfolding block_pages(2) [OF rb(1-3)] pages_of_def rb(4,5) by blast
  qed
  have fl: "unat BRK_FLAGS < 2 ^ 12" "pg_present BRK_FLAGS" by (simp_all add: brk_flags pg_present_def)
  obtain ok s' N where l: "alloc_loop phys_of d BRK_FLAGS (page_range (drop_bit 12 ?vs) (drop_bit 12 (?ve - ?vs))) s = Some (ok, s')"
    "paging_wf d s'" "N \<subseteq> U" "owns (frames s') ((\<lambda>f. (f, 0)) ` N \<union> A) (U - N)"
    "\<forall>x. x \<notin> pages_of a b \<longrightarrow> lookup s' d x = lookup s d x"
    "ok \<Longrightarrow> range_given (lookup s d) (lookup s' d) BRK_FLAGS (pages_of a b) N"
    using alloc_loop_ok [OF assms(1-3) fl page_range_distinct, of phys_of "drop_bit 12 ?vs" "drop_bit 12 (?ve - ?vs)"]
    unfolding R by metis
  have "alloc_block phys_of d ?vs (?ve - ?vs) (PAGE_PRESENT OR PAGE_US OR PAGE_RW) s = Some (ok, s')"
    using l(1) by (simp add: alloc_block_def alloc_pages_def BRK_FLAGS_def)
  moreover have "user_page (lookup s' d x)" if "ok" "x \<in> pages_of a b" for x
    using l(6) [OF that(1)] that(2) by (intro user_page_flags) (simp add: range_given_def)
  moreover have "pg_addr (lookup s' d x) = pg_addr (lookup s d x)" if "ok" "pg_present (lookup s d x)" for x
    using l(5) l(6) [OF that(1)] that(2) by (cases "x \<in> pages_of a b") (auto simp: range_given_def)
  ultimately show ?thesis using l(2-5) by (intro exI [of _ ok] exI [of _ s'] exI [of _ N]) blast
qed


text \<open>A process with no frames of its own, just below the page at \<open>0x8001000\<close>.\<close>

definition brk_example :: brk_state where
  "brk_example = \<lparr>brk_start = 0x8000000, brk_end = 0x8000800, stack_bot = 0xA0000000\<rparr>"


text \<open>lowering the break always succeeds, gives the frames of all pages between the new
  and the old break back and changes no other page. The page that contains the new break is among
  those unmapped even when the break is inside it, so that the bytes of that page below the break are lost.\<close>

theorem brk_shrink:
  assumes "paging_wf d s" "owns (frames s) A U" "page_frames s d (pages_of addr (brk_end p)) \<subseteq> A"
    and "inj_on (\<lambda>a. pg_addr (lookup s d a)) {a \<in> pages_of addr (brk_end p). pg_present (lookup s d a)}"
    and "brk_start p \<le> addr" "addr < stack_bot p" "addr < brk_end p" "unat (brk_end p) + 4095 < 2 ^ 32"
  shows "\<exists>s' U'. sys_brk phys_of d addr (p, s) = Some (addr, p\<lparr>brk_end := addr\<rparr>, switch_page_dir d s') \<and>
    owns (frames s') (A - page_frames s d (pages_of addr (brk_end p))) U' \<and>
    (\<forall>x. x \<notin> pages_of addr (brk_end p) \<longrightarrow> lookup s' d x = lookup s d x) \<and>
    (\<forall>a. addr AND NOT 0xFFF \<le> a \<and> a < brk_end p \<longrightarrow> \<not> pg_present (lookup s' d (drop_bit 12 a)))"
proof -
  let ?as = "page_addrs (addr AND NOT 0xFFF) (align_addr (brk_end p))"
  note rb = round_bounds [OF assms(8) order.strict_implies_order [OF assms(7)]]
  note pa = page_addrs_nth [OF rb(1,2)]
  have R: "drop_bit 12 ` set ?as = pages_of addr (brk_end p)"
    by (rule page_addrs_pages [OF order.strict_implies_order [OF assms(7)] assms(8)])
  from free_page_loop_ok [OF assms(1,2), of ?as] obtain s' U' where l: "free_page_loop d ?as s = Some s'"
    "owns (frames s') (A - page_frames s d (pages_of addr (brk_end p))) U'"
    "\<forall>b. lookup s' d b = (if b \<in> pages_of addr (brk_end p) \<and> pg_present (lookup s d b) then 0 else lookup s d b)"
    unfolding R using assms(3,4) pa(2) by blast
  have "sys_brk phys_of d addr (p, s) = Some (addr, p\<lparr>brk_end := addr\<rparr>, switch_page_dir d s')"
    using assms(5-7) l(1) by (auto simp: sys_brk_def Let_def)
  moreover have "\<not> pg_present (lookup s' d (drop_bit 12 a))" if "addr AND NOT 0xFFF \<le> a" "a < brk_end p" for a
  proof -
    have "pages_of (addr AND NOT 0xFFF) (brk_end p) = pages_of addr (brk_end p)"
      unfolding pages_of_def rb(4) ..
    then have "drop_bit 12 a \<in> pages_of addr (brk_end p)" using pages_of_covers [OF that] by simp
    then show ?thesis using l(3) by (auto simp: pg_present_def)
  qed
  ultimately show ?thesis using l(2,3) by (intro exI [of _ s'] exI [of _ U']) auto
qed

text \<open>A process whose break \<open>0x8000800\<close> is inside a page mapped to the frame \<open>f\<close>, lowered to
  \<open>0x8000400\<close>: the page is gone.\<close>

theorem brk_shrink_witness:
  "\<exists>s s' f. pg_present (lookup s 0 0x8000) \<and> pg_addr (lookup s 0 0x8000) = of_nat f \<and>
     sys_brk (\<lambda>t. of_nat t * 4096) 0 0x8000400 (brk_example, s) = Some (0x8000400, brk_example\<lparr>brk_end := 0x8000400\<rparr>, switch_page_dir 0 s') \<and>
     \<not> pg_present (lookup s' 0 0x8000)"
proof -
  have f: "1024 \<le> unat (0x800000 :: u32) div 2 ^ PAGE_SHIFT" by (simp add: PAGE_SHIFT_def)
  obtain b where b: "owns b {} {1024 ..< 2048}" using owns_init [OF _ f] by (auto simp: PAGE_SHIFT_def)
  have own: "owns (frames (blank_paging b)) {} {1024 ..< 2048}" using b by (simp add: blank_paging_def)
  have U: "{1024 ..< 2048} \<subseteq> {0 <..< 2 ^ 20 :: nat}" by auto
  have p7: "pg_present 7" by (simp add: pg_present_def)
  from alloc_page_ok [OF blank_paging_wf [of 0] own U _ p7, of "\<lambda>t. of_nat t * 4096" "0x8000"]
  obtain s N where s: "paging_wf 0 s" "owns (frames s) ((\<lambda>f. (f, 0)) ` N) ({1024 ..< 2048} - N)"
    "page_given 0 (lookup s 0 0x8000) 7 N" "\<forall>a. a \<noteq> 0x8000 \<longrightarrow> lookup s 0 a = 0"
    by (auto simp: lookup_blank split: if_splits)
  have N: "N = {unat (pg_addr (lookup s 0 0x8000))}" "pg_present (lookup s 0 0x8000)"
    using s(3) by (simp_all add: page_given_def pg_present_def)
  have pg: "pages_of 0x8000400 (brk_end brk_example) = {0x8000}"
    by (auto simp: pages_of_def brk_example_def word_unat_eq_iff)
  have "page_frames s 0 {0x8000} = (\<lambda>f. (f, 0)) ` N" using N by (auto simp: page_frames_def)
  then obtain s' where s': "sys_brk (\<lambda>t. of_nat t * 4096) 0 0x8000400 (brk_example, s) =
      Some (0x8000400, brk_example\<lparr>brk_end := 0x8000400\<rparr>, switch_page_dir 0 s')"
    "\<forall>a. 0x8000400 AND NOT 0xFFF \<le> a \<and> a < brk_end brk_example \<longrightarrow> \<not> pg_present (lookup s' 0 (drop_bit 12 a))"
    using brk_shrink [OF s(1,2), of "0x8000400" brk_example "\<lambda>t. of_nat t * 4096"] unfolding pg
    by (auto simp: brk_example_def inj_on_def)
  have "\<not> pg_present (lookup s' 0 (drop_bit 12 0x8000400))"
    using s'(2) [rule_format, of "0x8000400"] by (simp add: brk_example_def)
  then have "\<not> pg_present (lookup s' 0 0x8000)" by simp
  then show ?thesis using N s'(1)
    by (intro exI [of _ s] exI [of _ s'] exI [of _ "unat (pg_addr (lookup s 0 0x8000))"]) simp
qed

section \<open>Where a remapped region is\<close>

text \<open>remapping device memory above the identity map gives the address of the
  first page of the region; that page is the frame of the physical address, but the pointer does
  not carry the offset of the physical address in the page, so it is the address of the device
  memory only when that offset is zero.\<close>

theorem remap_drops_offset:
  assumes "paging_wf KERNEL_DIR s" "KERNEL_IDMAP_SIZE \<le> phys" "\<not> (cache \<and> phys + sz < KERNEL_IDMAP_SIZE)"
    and "\<forall>a. find_page s KERNEL_DIR a \<noteq> None" "unat curpos mod 4096 = 0"
    and "align_addr (sz + (phys AND 0xFFF)) < REMAP_END - curpos" "align_addr (sz + (phys AND 0xFFF)) \<noteq> 0"
  shows "\<exists>s'. remap phys_of phys sz cache (curpos, s) = (Some curpos, curpos + align_addr (sz + (phys AND 0xFFF)), s') \<and>
    pg_present (lookup s' KERNEL_DIR (drop_bit 12 curpos)) \<and>
    push_bit 12 (pg_addr (lookup s' KERNEL_DIR (drop_bit 12 curpos))) + (curpos AND 0xFFF) = phys - (phys AND 0xFFF)"
proof -
  let ?sz = "align_addr (sz + (phys AND 0xFFF))" and ?ph = "phys AND NOT 0xFFF"
  define flags where "flags = PAGE_PRESENT OR PAGE_RW OR (if cache then 0 else PAGE_WRITETHROUGH OR PAGE_NOCACHE)"
  have le: "unat (drop_bit 12 curpos) + unat (drop_bit 12 ?sz) < 2 ^ 32"
    using unat_u32_lt [of curpos] unat_u32_lt [of ?sz] by (simp add: unat_drop_bit)
  from map_loop_ok [OF assms(1) page_range_distinct, of False "drop_bit 12 curpos" "drop_bit 12 ?sz" phys_of ?ph flags]
  obtain s' where s': "map_pages phys_of KERNEL_DIR (drop_bit 12 curpos) ?ph (drop_bit 12 ?sz) False flags s = (True, s')"
    "\<forall>n < unat (drop_bit 12 ?sz). lookup s' KERNEL_DIR (drop_bit 12 curpos + of_nat n) = set_addr (drop_bit 12 (?ph + of_nat n * PAGE_SIZE)) flags"
    using assms(4) by (auto simp: map_pages_def page_range_nth [OF le])
  have "0 < unat (drop_bit 12 ?sz)"
  proof -
    have "unat (align_addr a) mod 4096 = 0" for a
      by (cases "unat a + 4095 < 2 ^ 32") (simp_all add: align_addr_unat align_addr_wraps)
    moreover have "0 < unat ?sz" using assms(7) by (simp add: unat_gt_0)
    ultimately have "0 < unat ?sz div 4096" by (metis mod_div_mult_eq add.commute add_0 gr0I mult_0)
    then show ?thesis by (simp add: unat_drop_bit)
  qed
  have ph: "drop_bit 12 ?ph = drop_bit 12 phys"
    unfolding mask_12 by (rule bit_word_eqI) (auto simp: bit_simps dest: bit_imp_le_length)
  with \<open>0 < unat (drop_bit 12 ?sz)\<close> s'(2) have l: "lookup s' KERNEL_DIR (drop_bit 12 curpos) = set_addr (drop_bit 12 phys) flags"
    by (auto dest!: spec [of _ 0] simp: ph)
  have "bit flags 0" by (simp add: flags_def PAGE_PRESENT_def PAGE_RW_def PAGE_WRITETHROUGH_def PAGE_NOCACHE_def bit_or_iff)
  moreover have "unat (drop_bit 12 phys) < 2 ^ 20"
    using unat_u32_lt [of phys] by (simp add: unat_drop_bit less_mult_imp_div_less)
  moreover have "push_bit 12 (drop_bit 12 phys) = phys - (phys AND 0xFFF)"
  proof -
    have "push_bit 12 (drop_bit 12 phys) = phys AND NOT 0xFFF" by (simp only: mask_12 and_not_mask)
    moreover have "unat ((phys AND NOT 0xFFF) + (phys AND 0xFFF)) = unat phys"
      using unat_u32_lt [of phys] by (subst unat_add_lt) (simp_all only: unat_round_down page_offset div_mult_mod_eq, simp)
    then have "phys AND NOT 0xFFF = phys - (phys AND 0xFFF)" by (metis add_diff_cancel_right' word_unat_eq_iff)
    ultimately show ?thesis by simp
  qed
  moreover have "curpos AND 0xFFF = 0" using assms(5) by (simp only: low_zero_iff)
  moreover have "remap phys_of phys sz cache (curpos, s) = (Some curpos, curpos + ?sz, s')"
    using assms(2,3,6) s'(1)
    by (auto simp: remap_def Let_def map_block_def flags_def not_less [symmetric])
  ultimately show ?thesis using l by (intro exI [of _ s']) (simp add: pg_addr_set_addr pg_present_def bit_set_addr)
qed

text \<open>A directory with a table everywhere.\<close>

definition full_paging :: "buddy \<Rightarrow> paging" where
  "full_paging b = (blank_paging b)\<lparr>dirs := (\<lambda>d. \<lparr>entries = (\<lambda>_. 3), tables = (\<lambda>i. if i < 2 ^ 22 then Some i else None), phys_addr = 0\<rparr>),
     next_obj := 2 ^ 22\<rparr>"

theorem remap_drops_offset_witness:
  "\<exists>s'. remap (\<lambda>t. of_nat t * 4096) 0xFEBF1004 0x100 False (0xF0000000, full_paging (buddy_empty 0)) = (Some 0xF0000000, 0xF0001000, s')"
proof -
  have wf: "paging_wf KERNEL_DIR (full_paging (buddy_empty 0))" by (auto simp: paging_wf_def full_paging_def split: if_splits)
  have all: "\<forall>a. find_page (full_paging (buddy_empty 0)) KERNEL_DIR a \<noteq> None"
  proof
    fix a :: u32
    have "unat (drop_bit 10 a) < 2 ^ 22" using unat_u32_lt [of a] by (simp add: unat_drop_bit less_mult_imp_div_less)
    then show "find_page (full_paging (buddy_empty 0)) KERNEL_DIR a \<noteq> None" by (simp add: find_page_def full_paging_def)
  qed
  have "align_addr (0x100 + (0xFEBF1004 AND 0xFFF)) = 0x1000" by (simp add: align_addr_def)
  with remap_drops_offset [OF wf _ _ all, of "0xFEBF1004" False "0x100" "0xF0000000" "\<lambda>t. of_nat t * 4096"]
  show ?thesis by (auto simp: KERNEL_IDMAP_SIZE_def REMAP_END_def)
qed

end
