(* ===== verification/UserPtr.thy ===== *)
theory UserPtr
  imports Memory KString
begin

text \<open>
  The user pointers of \<open>kernel/include/lib/userptr.h\<close>: how the kernel checks an address or a region of
  addresses a process gave it against the current page directory, and copies to and from it.
\<close>

section \<open>The checks\<close>

definition check_ptr :: "paging \<Rightarrow> u32 \<Rightarrow> bool \<Rightarrow> bool" where
  "check_ptr s ptr write =
     (case page_value s (cur_dir s) (drop_bit 12 ptr) of
        None \<Rightarrow> False
      | Some v \<Rightarrow> pg_present v \<and> pg_user v \<and> (write \<longrightarrow> pg_rw v))"

text \<open>\<open>get\<close> of a constant and of a mutable pointer; \<open>None\<close> is the null pointer.\<close>

definition uptr_get_const :: "paging \<Rightarrow> u32 \<Rightarrow> u32 option" where
  "uptr_get_const s ptr = (if \<not> check_ptr s ptr False then None else Some ptr)"

definition uptr_get :: "paging \<Rightarrow> u32 \<Rightarrow> u32 option" where
  "uptr_get s ptr = (if \<not> check_ptr s ptr True then None else Some ptr)"

text \<open>The loop of \<open>check_region\<close>: \<open>loc\<close> steps by pages, with wrap-around, while it is below the aligned
  end.\<close>

partial_function (option) check_region_from :: "paging \<Rightarrow> u32 \<Rightarrow> u32 \<Rightarrow> bool \<Rightarrow> bool option" where
  "check_region_from s loc endloc write =
     (if loc < endloc then
        if \<not> check_ptr s loc write then Some False else check_region_from s (loc + PAGE_SIZE) endloc write
      else Some True)"

definition check_region :: "paging \<Rightarrow> u32 \<Rightarrow> u32 \<Rightarrow> bool \<Rightarrow> bool option" where
  "check_region s start ende write = check_region_from s start (align_addr ende) write"

section \<open>Copying\<close>

text \<open>The functions are declared to return a \<open>bool\<close> but end without a \<open>return\<close> after a copy: the inner
  \<open>None\<close> is that missing value.\<close>

definition copy_block :: "u32 \<Rightarrow> u32 \<Rightarrow> u32 \<Rightarrow> machine \<Rightarrow> machine" where
  "copy_block dest src n m =
     (if n AND 3 \<noteq> 0 then snd (memcpyd dest src (n div 4) m) else snd (memcpy dest src n m))"

definition copy_from :: "paging \<Rightarrow> u32 \<Rightarrow> u32 \<Rightarrow> u32 \<Rightarrow> machine \<Rightarrow> (bool option \<times> machine) option" where
  "copy_from s ptr src n m =
     (if n = 0 then Some (Some True, m)
      else Option.bind (check_region s ptr (ptr + n) True)
        (\<lambda>ok. if \<not> ok then Some (Some False, m) else Some (None, copy_block ptr src n m)))"

definition copy_to :: "paging \<Rightarrow> u32 \<Rightarrow> u32 \<Rightarrow> u32 \<Rightarrow> machine \<Rightarrow> (bool option \<times> machine) option" where
  "copy_to s ptr dest n m =
     (if n = 0 then Some (Some True, m)
      else Option.bind (check_region s ptr (ptr + n) False)
        (\<lambda>ok. if \<not> ok then Some (Some False, m) else Some (None, copy_block dest ptr n m)))"

section \<open>What a checked region guarantees\<close>

lemma check_ptr_page: "drop_bit 12 a = drop_bit 12 b \<Longrightarrow> check_ptr s a w = check_ptr s b w"
  by (simp add: check_ptr_def)

lemma next_page_unat:
  assumes "loc < e" "unat e mod 4096 = 0"
  shows "unat (loc + PAGE_SIZE) = unat loc + 4096"
proof -
  obtain q where q: "unat e = q * 4096" using assms(2) by (metis dvd_def mod_0_imp_dvd mult.commute)
  then have "q < 2 ^ 20" using unat_u32_lt [of e] by simp
  then have "unat loc + 4096 < 2 ^ 32" using assms(1) q by (simp add: word_less_nat_alt)
  then show ?thesis by (subst unat_add_lt) (simp_all add: PAGE_SIZE_def)
qed

lemma check_region_from_ok:
  assumes "unat e mod 4096 = 0"
  shows "check_region_from s loc e w = Some (\<forall>x. unat loc div 4096 \<le> x \<and> x < unat e div 4096 \<longrightarrow> check_ptr s (of_nat (x * 4096)) w)"
proof (induction "unat e - unat loc" arbitrary: loc rule: less_induct)
  case less
  have e: "unat e div 4096 * 4096 = unat e" using assms by (metis add_0_right div_mult_mod_eq)
  show ?case
  proof (cases "loc < e")
    case True
    define q where "q = unat loc div 4096"
    have qe: "q < unat e div 4096" using True e by (simp add: q_def word_less_nat_alt div_less_iff_less_mult)
    then have "unat (of_nat (q * 4096) :: u32) = q * 4096"
      using e unat_u32_lt [of e] by (intro unat_of_nat_lt) simp
    then have "drop_bit 12 (of_nat (q * 4096)) = drop_bit 12 loc"
      by (simp only: word_unat_eq_iff unat_drop_bit) (simp add: q_def)
    then have cp: "check_ptr s (of_nat (q * 4096)) w = check_ptr s loc w" by (rule check_ptr_page)
    note n = next_page_unat [OF True assms]
    have "check_region_from s (loc + PAGE_SIZE) e w
        = Some (\<forall>x. Suc q \<le> x \<and> x < unat e div 4096 \<longrightarrow> check_ptr s (of_nat (x * 4096)) w)"
    proof -
      have "unat (loc + PAGE_SIZE) div 4096 = Suc q" by (simp add: n q_def)
      moreover have "unat e - unat (loc + PAGE_SIZE) < unat e - unat loc" using n True by (simp add: word_less_nat_alt)
      ultimately show ?thesis by (simp only: less)
    qed
    moreover have "q \<le> x \<longleftrightarrow> x = q \<or> Suc q \<le> x" for x by auto
    ultimately show ?thesis using True cp qe
      by (subst check_region_from.simps) (auto simp: q_def [symmetric])
  next
    case False
    then have "unat e div 4096 \<le> unat loc div 4096" by (intro div_le_mono) (simp add: word_less_nat_alt)
    then show ?thesis using False by (subst check_region_from.simps) auto
  qed
qed

lemma align_addr_page: "unat (align_addr a) mod 4096 = 0"
  by (cases "unat a + 4095 < 2 ^ 32") (simp_all add: align_addr_unat align_addr_wraps)

lemma check_region_total: "\<exists>b. check_region s start ende w = Some b"
  by (simp add: check_region_def check_region_from_ok align_addr_page)

lemma check_region_value:
  assumes "start < ende" "ende \<le> 0xFFFFF000"
  shows "check_region s start ende w = Some (\<forall>a. start \<le> a \<and> a < ende \<longrightarrow> check_ptr s a w)"
proof -
  have le: "unat ende + 4095 < 2 ^ 32" using assms(2) by (simp add: word_le_nat_alt)
  have a: "unat (align_addr ende) div 4096 = (unat ende + 4095) div 4096" by (simp only: align_addr_unat [OF le] nonzero_mult_div_cancel_right numeral_neq_zero simp_thms)
  have "(\<forall>x. unat start div 4096 \<le> x \<and> x < (unat ende + 4095) div 4096 \<longrightarrow> check_ptr s (of_nat (x * 4096)) w)
      = (\<forall>a. start \<le> a \<and> a < ende \<longrightarrow> check_ptr s a w)" (is "?L = ?R")
  proof
    assume L: ?L
    show ?R
    proof (intro allI impI)
      fix a assume r: "start \<le> a \<and> a < ende"
      let ?x = "unat a div 4096"
      have "drop_bit 12 a \<in> pages_of start ende" using r pages_of_covers by blast
      then have "check_ptr s (of_nat (?x * 4096)) w" using L by (simp add: pages_of_def unat_drop_bit)
      moreover have "unat (of_nat (?x * 4096) :: u32) = ?x * 4096"
        using unat_u32_lt [of a] by (intro unat_of_nat_lt) (simp add: le_less_trans [OF div_times_less_eq_dividend])
      then have "drop_bit 12 (of_nat (?x * 4096)) = drop_bit 12 a"
        by (simp only: word_unat_eq_iff unat_drop_bit) simp
      ultimately show "check_ptr s a w" using check_ptr_page by blast
    qed
  next
    assume R: ?R
    show ?L
    proof (intro allI impI)
      fix x assume r: "unat start div 4096 \<le> x \<and> x < (unat ende + 4095) div 4096"
      have lt: "x * 4096 < unat ende" using r by (simp add: less_eq_Suc_le less_eq_div_iff_mult_less_eq)
      let ?b = "of_nat (x * 4096) :: u32"
      have b: "unat ?b = x * 4096" using lt unat_u32_lt [of ende] by (intro unat_of_nat_lt) simp
      show "check_ptr s ?b w"
      proof (cases "unat start \<le> x * 4096")
        case True
        then show ?thesis using R lt b by (simp add: word_le_nat_alt word_less_nat_alt)
      next
        case False
        then have "unat start div 4096 = x" using r by (metis antisym div_le_mono nat_le_linear nonzero_mult_div_cancel_right zero_neq_numeral)
        then have "drop_bit 12 ?b = drop_bit 12 start"
          by (simp only: word_unat_eq_iff unat_drop_bit b) simp
        then have "check_ptr s ?b w = check_ptr s start w" by (rule check_ptr_page)
        then show ?thesis using R assms(1) by simp
      qed
    qed
  qed
  then show ?thesis by (simp only: check_region_def check_region_from_ok [OF align_addr_page] a)
qed

text \<open>C27: \<open>check_region\<close> returns for every region, also one that wraps around; when the end is
  not in the last page of the address space its value is whether every address of the region is in a
  page the user may access (and write, when that is asked for).\<close>

theorem check_region_exact:
  "(\<exists>b. check_region s start ende w = Some b) \<and>
   (start < ende \<and> ende \<le> 0xFFFFF000 \<longrightarrow>
     check_region s start ende w = Some (\<forall>a. start \<le> a \<and> a < ende \<longrightarrow> check_ptr s a w))"
  using check_region_total check_region_value by blast

text \<open>A directory with one user page, \<open>0x8000\<close>, that is not writable.\<close>

definition uptr_example :: paging where
  "uptr_example = (blank_paging (buddy_empty 0))\<lparr>dirs := (\<lambda>d. \<lparr>entries = (\<lambda>_. 7), tables = (\<lambda>i. if i = 32 then Some 1 else None), phys_addr = 0\<rparr>),
     tabs := (\<lambda>t k. if t = 1 \<and> k = 0 then 0x5005 else 0)\<rparr>"

theorem check_region_exact_witness:
  "check_region uptr_example 0x8000010 0x8000020 False = Some (\<forall>a. 0x8000010 \<le> a \<and> a < 0x8000020 \<longrightarrow> check_ptr uptr_example a False)"
  using check_region_exact [of uptr_example "0x8000010" "0x8000020" False] by simp

text \<open>a region whose end lies in the last page of the address space, or whose aligned end
  is not above its start because the sum of pointer and length wrapped around, is accepted without any check.\<close>

theorem check_region_wraps:
  assumes "0xFFFFF000 < ende \<or> align_addr ende \<le> start"
  shows "check_region s start ende w = Some True"
proof -
  have "align_addr ende \<le> start"
    using assms by (auto simp: align_addr_wraps word_less_nat_alt)
  then show ?thesis unfolding check_region_def by (subst check_region_from.simps) (simp add: leD)
qed

theorem check_region_wraps_witness:
  "check_region (blank_paging (buddy_empty 0)) 0xC0000000 (0xC0000000 + 0x50000000) True = Some True"
  by (rule check_region_wraps) (simp add: align_addr_def)

text \<open>\<open>copy_from\<close> a disjoint kernel buffer to a writable region copies the buffer when the size
  is a multiple of four; otherwise it copies whole double words only and the last one to three bytes stay as
  they were. No byte outside the region changes.\<close>

theorem copy_from_rounds:
  assumes "n \<noteq> 0" "unat ptr + unat n \<le> 0xFFFFF000" "unat src + unat n \<le> 2 ^ 32"
    and "unat src + unat n \<le> unat ptr \<or> unat ptr + unat n \<le> unat src"
    and "\<forall>a. ptr \<le> a \<and> a < ptr + n \<longrightarrow> check_ptr s a True"
  shows "\<exists>m'. copy_from s ptr src n m = Some (None, m') \<and>
    (\<forall>a. mem m' a = (if unat ptr \<le> unat a \<and> unat a < unat ptr + (if unat n mod 4 = 0 then unat n else unat n div 4 * 4)
                     then mem m (src + (a - ptr)) else mem m a))"
proof -
  have u: "unat (ptr + n) = unat ptr + unat n" using assms(2) by (intro unat_add_lt) simp
  have "0 < unat n" using assms(1) by (simp add: unat_gt_0)
  then have "ptr < ptr + n" "ptr + n \<le> 0xFFFFF000" using u assms(2) by (simp_all add: word_less_nat_alt word_le_nat_alt)
  from check_region_value [OF this, of s True] have ok: "check_region s ptr (ptr + n) True = Some True" using assms(5) by simp
  have m3: "n AND 3 = 0 \<longleftrightarrow> unat n mod 4 = 0"
  proof -
    have "n AND 3 = take_bit 2 n" by (simp only: take_bit_eq_mask) (simp add: mask_eq_exp_minus_1)
    then have "unat (n AND 3) = unat n mod 4" by (simp only: unsigned_take_bit_eq) (simp add: take_bit_eq_mod)
    then show ?thesis by (metis unat_eq_0)
  qed
  have d4: "unat (n div 4) = unat n div 4" by (simp add: unat_div)
  have le: "4 * (unat n div 4) \<le> unat n" by simp
  have w: "rep_movs False 4 (unat n div 4) src ptr (mem m) = moved src ptr (4 * (unat n div 4)) (mem m)"
    using assms(2-4) le by (intro rep_movs_forward) auto
  have b: "rep_movs False 1 (unat n) src ptr (mem m) = moved src ptr (1 * unat n) (mem m)"
    using assms(2-4) by (intro rep_movs_forward) auto
  have "mem (copy_block ptr src n m) = moved src ptr (if unat n mod 4 = 0 then unat n else unat n div 4 * 4) (mem m)"
    using w b by (simp add: copy_block_def memcpyd_def memcpy_def m3 d4 mult.commute)
  then show ?thesis using assms(1) ok by (simp add: copy_from_def moved_def)
qed

definition uptr_example_rw :: paging where
  "uptr_example_rw = uptr_example\<lparr>tabs := (\<lambda>t k. if t = 1 \<and> k = 0 then 0x5007 else 0)\<rparr>"

theorem copy_from_rounds_witness:
  "\<exists>m'. copy_from uptr_example_rw 0x8000010 0x1000 6 \<lparr>mem = (\<lambda>a. if a < 0x2000 then 1 else 0), df = False\<rparr> = Some (None, m') \<and>
     mem m' 0x8000013 = 1 \<and> mem m' 0x8000014 = 0"
proof -
  have acc: "check_ptr uptr_example_rw a True" if "0x8000010 \<le> a" "a < 0x8000010 + 6" for a
  proof -
    have "unat (drop_bit 12 a) = 0x8000"
      using that by (simp add: unat_drop_bit word_le_nat_alt word_less_nat_alt div_nat_eqI)
    then have "drop_bit 12 a = 0x8000" by (simp add: word_unat_eq_iff)
    then show ?thesis by (simp add: check_ptr_def page_value_def find_page_def uptr_example_rw_def uptr_example_def pg_present_def pg_user_def pg_rw_def)
  qed
  let ?m = "\<lparr>mem = (\<lambda>a. if a < 0x2000 then 1 else 0), df = False\<rparr>"
  have "\<forall>a. 0x8000010 \<le> a \<and> a < 0x8000010 + 6 \<longrightarrow> check_ptr uptr_example_rw a True" using acc by blast
  from copy_from_rounds [OF _ _ _ _ this, of "0x1000" ?m] obtain m' where
    m': "copy_from uptr_example_rw 0x8000010 0x1000 6 ?m = Some (None, m')"
    "\<forall>a. mem m' a = (if 0x8000010 \<le> unat a \<and> unat a < 0x8000014 then mem ?m (0x1000 + (a - 0x8000010)) else mem ?m a)" by auto
  have "mem m' 0x8000013 = 1" "mem m' 0x8000014 = 0" using m'(2) by simp_all
  then show ?thesis using m'(1) by blast
qed

end
