(* ===== verification/FsSyscall.thy ===== *)
theory FsSyscall
  imports VFS UserPtr
begin

text \<open>
  The file system calls of \<open>kernel/fs/syscall.cpp\<close> and the file descriptor table of
  \<open>kernel/include/proc.h\<close>. File objects are shared between descriptors, so a descriptor holds the
  index of a file in a store of files; the \<open>vector\<close> of descriptors is a list, as theory \<open>Vec\<close> shows.
  A call is \<open>None\<close> when the kernel halts on an assertion, follows a null pointer or never returns.
\<close>

section \<open>The state of a process and of the open files\<close>

definition PROC_MAX_FDS :: nat where "PROC_MAX_FDS = 1024"

definition O_RDONLY :: u32 where "O_RDONLY = 0"
definition O_WRONLY :: u32 where "O_WRONLY = 1"
definition O_RDWR :: u32 where "O_RDWR = 2"
definition O_ACCMODE :: u32 where "O_ACCMODE = 3"

record fd_table =
  next_fd :: nat
  fds :: "nat option list"

text \<open>\<open>fdt\<close> is the table of the current process, \<open>None\<close> when there is no current process.\<close>

record fsys =
  tree :: vfs
  files :: "vfile list"
  fdt :: "fd_table option"
  root_sb :: nat

text \<open>The constructor \<open>fd_table_t\<close>: the terminal is opened once for the three standard descriptors.\<close>

definition new_fd_table :: "vfs \<Rightarrow> vfile list \<Rightarrow> (fd_table \<times> vfile list) option" where
  "new_fd_table t fs =
     (case sb_walk t ROOT_SB ''/dev/tty'' of
        Some (Some nd) \<Rightarrow>
          (case node_open t nd of
             Inl e \<Rightarrow> None
           | Inr f \<Rightarrow> Some (\<lparr>next_fd = 3, fds = replicate 3 (Some (length fs))\<rparr>, fs @ [f\<lparr>oflags := O_RDWR\<rparr>]))
      | _ \<Rightarrow> None)"

section \<open>The calls\<close>

definition get_fd :: "int \<Rightarrow> fsys \<Rightarrow> errno + nat" where
  "get_fd fd st =
     (if fd < 0 then Inl EBADF
      else case fdt st of
        None \<Rightarrow> Inl EFAULT
      | Some p \<Rightarrow>
          if length (fds p) \<le> nat fd then Inl EBADF
          else case fds p ! nat fd of None \<Rightarrow> Inl EBADF | Some f \<Rightarrow> Inr f)"

text \<open>The search for the next free descriptor at the end of \<open>open\<close>, from \<open>i\<close>.\<close>

function next_free :: "nat option list \<Rightarrow> nat \<Rightarrow> nat" where
  "next_free t i = (if i < length t \<and> t ! i \<noteq> None then next_free t (Suc i) else i)"
  by pat_completeness auto
termination by (relation "measure (\<lambda>(t, i). length t - i)") auto

declare next_free.simps [simp del]

text \<open>The characters of the C string at an address of the process.\<close>

definition path_at :: "mem \<Rightarrow> u32 \<Rightarrow> string option" where
  "path_at m a = map_option (\<lambda>n. map (\<lambda>i. char_of (unat (m (a + of_nat i)))) [0 ..< unat n]) (strlen m a)"

definition sys_open :: "paging \<Rightarrow> mem \<Rightarrow> u32 \<Rightarrow> u32 \<Rightarrow> fsys \<Rightarrow> ((errno + nat) \<times> fsys) option" where
  "sys_open pg m path flags st =
     (case fdt st of
        None \<Rightarrow> Some (Inl EFAULT, st)
      | Some p \<Rightarrow>
          if next_fd p \<ge> PROC_MAX_FDS then Some (Inl EMFILE, st)
          else let fd = next_fd p in
          case uptr_get_const pg path of
            None \<Rightarrow> Some (Inl EFAULT, st)
          | Some a \<Rightarrow>
              Option.bind (Option.bind (path_at m a) (sb_walk (tree st) (root_sb st))) (\<lambda>r.
              case r of
                None \<Rightarrow> Some (Inl ENOENT, st)
              | Some nd \<Rightarrow>
                  (case ind (nodes (tree st) ! nd) of
                     None \<Rightarrow> None
                   | Some i \<Rightarrow>
                       if S_ISDIR (mode i) \<and> (flags AND O_WRONLY \<noteq> 0 \<or> flags AND O_RDWR \<noteq> 0) then Some (Inl EISDIR, st)
                       else case node_open (tree st) nd of
                         Inl e \<Rightarrow> Some (Inl e, st)
                       | Inr f \<Rightarrow>
                           let k = length (files st); fs' = files st @ [f\<lparr>oflags := flags\<rparr>] in
                           Option.bind
                             (if length (fds p) > fd then Some ((fds p)[fd := Some k])
                              else if length (fds p) = fd then
                                Some (if length (fds p) < PROC_MAX_FDS then fds p @ [Some k] else fds p)
                              else None)
                             (\<lambda>t. Some (Inr fd, st\<lparr>files := fs', fdt := Some \<lparr>next_fd = next_free t (Suc fd), fds = t\<rparr>\<rparr>)))))"

text \<open>\<open>size_t(fd)\<close> of a negative descriptor is larger than every table.\<close>

definition sys_close :: "int \<Rightarrow> fsys \<Rightarrow> (errno + nat) \<times> fsys" where
  "sys_close fd st =
     (case fdt st of
        None \<Rightarrow> (Inl EFAULT, st)
      | Some p \<Rightarrow>
          let i = nat (fd mod 2 ^ 32) in
          if length (fds p) \<le> i \<or> fds p ! i = None then (Inl EBADF, st)
          else (Inr 0, st\<lparr>fdt := Some (p\<lparr>fds := (fds p)[i := None]\<rparr>)\<rparr>))"

definition put_file :: "nat \<Rightarrow> vfile \<Rightarrow> fsys \<Rightarrow> fsys" where
  "put_file k f st = st\<lparr>files := (files st)[k := f]\<rparr>"

text \<open>\<open>keys\<close> are the characters the terminal will deliver; the bytes read go to \<open>buf\<close>.\<close>

definition sys_read :: "paging \<Rightarrow> int \<Rightarrow> u32 \<Rightarrow> u32 \<Rightarrow> u8 list \<Rightarrow> mem \<Rightarrow> fsys \<Rightarrow> ((errno + nat) \<times> u8 list \<times> mem \<times> fsys) option" where
  "sys_read pg fd ubuf count keys m st =
     (case get_fd fd st of
        Inl e \<Rightarrow> Some (Inl e, keys, m, st)
      | Inr k \<Rightarrow>
          if oflags (files st ! k) AND O_ACCMODE = O_WRONLY then Some (Inl EACCES, keys, m, st)
          else case uptr_get pg ubuf of
            None \<Rightarrow> Some (Inl EFAULT, keys, m, st)
          | Some buf \<Rightarrow>
              Option.bind (check_region pg buf (buf + count) True) (\<lambda>ok.
                if \<not> ok then Some (Inl EFAULT, keys, m, st)
                else case file_read (files st ! k) (unat count) keys of
                  (None, keys') \<Rightarrow> None
                | (Some (Inl e), keys') \<Rightarrow> Some (Inl e, keys', m, st)
                | (Some (Inr (bs, f)), keys') \<Rightarrow> Some (Inr (length bs), keys', write_bytes m buf bs, put_file k f st)))"

definition sys_write :: "(u8 \<Rightarrow> 'c \<Rightarrow> 'c) \<Rightarrow> paging \<Rightarrow> int \<Rightarrow> u32 \<Rightarrow> u32 \<Rightarrow> mem \<Rightarrow> fsys \<times> 'c \<Rightarrow> ((errno + u32) \<times> fsys \<times> 'c) option" where
  "sys_write put pg fd ubuf count m stc =
     (let (st, con) = stc in
      case get_fd fd st of
        Inl e \<Rightarrow> Some (Inl e, st, con)
      | Inr k \<Rightarrow>
          if oflags (files st ! k) AND O_ACCMODE = O_RDONLY then Some (Inl EACCES, st, con)
          else case uptr_get_const pg ubuf of
            None \<Rightarrow> Some (Inl EFAULT, st, con)
          | Some buf \<Rightarrow>
              Option.bind (check_region pg buf (buf + count) False) (\<lambda>ok.
                if \<not> ok then Some (Inl EFAULT, st, con)
                else case file_write put (files st ! k) (map (\<lambda>i. m (buf + of_nat i)) [0 ..< unat count]) con of
                  (Inl e, con') \<Rightarrow> Some (Inl e, st, con')
                | (Inr (n, f), con') \<Rightarrow> Some (Inr n, put_file k f st, con')))"

text \<open>\<open>off\<close> is the value \<open>*poffset\<close>; the result has its new value.\<close>

definition SEEK_SET :: int where "SEEK_SET = 0"
definition SEEK_CUR :: int where "SEEK_CUR = 1"
definition SEEK_END :: int where "SEEK_END = 2"

definition seek_pos :: "int \<Rightarrow> u32 \<Rightarrow> u32 \<Rightarrow> u32 \<Rightarrow> u32 option" where
  "seek_pos whence off pos sz =
     (if whence = SEEK_SET then Some off
      else if whence = SEEK_CUR then Some (pos + off)
      else if whence = SEEK_END then Some (sz + off)
      else None)"

definition sys_lseek :: "paging \<Rightarrow> int \<Rightarrow> u32 \<Rightarrow> u32 \<Rightarrow> int \<Rightarrow> fsys \<Rightarrow> ((errno + nat) \<times> u32 \<times> fsys) option" where
  "sys_lseek pg fd uoff off whence st =
     (case uptr_get pg uoff of
        None \<Rightarrow> Some (Inl EFAULT, off, st)
      | Some a \<Rightarrow>
          (case get_fd fd st of
             Inl e \<Rightarrow> Some (Inl e, off, st)
           | Inr k \<Rightarrow>
               if whence \<notin> {SEEK_SET, SEEK_CUR, SEEK_END} then Some (Inl EINVAL, off, st)
               else (case ind (nodes (tree st) ! fnd (files st ! k)) of
                  None \<Rightarrow> None
                | Some i \<Rightarrow>
                    (case seek_pos whence off (position (files st ! k)) (isize i) of
                       None \<Rightarrow> Some (Inl EINVAL, off, st)
                     | Some pos \<Rightarrow>
                         (case file_seek (tree st) pos (files st ! k) of
                            Inl e \<Rightarrow> Some (Inl e, off, st)
                          | Inr f \<Rightarrow> Some (Inr 0, pos, put_file k f st))))))"

section \<open>The table invariant\<close>

text \<open>The cached descriptor is not in use and at most one past the table, the table is within its
  bound, and every descriptor in use refers to a file.\<close>

definition fd_table_ok :: "nat \<Rightarrow> fd_table \<Rightarrow> bool" where
  "fd_table_ok n p \<longleftrightarrow> next_fd p \<le> length (fds p) \<and> length (fds p) \<le> PROC_MAX_FDS \<and>
     (next_fd p < length (fds p) \<longrightarrow> fds p ! next_fd p = None) \<and> (\<forall>f. Some f \<in> set (fds p) \<longrightarrow> f < n)"

definition fsys_ok :: "fsys \<Rightarrow> bool" where
  "fsys_ok st \<longleftrightarrow> (\<forall>p. fdt st = Some p \<longrightarrow> fd_table_ok (length (files st)) p)"

lemma next_free_step:
  "i < length t \<Longrightarrow> t ! i \<noteq> None \<Longrightarrow> next_free t i = next_free t (Suc i)"
  "\<not> (i < length t \<and> t ! i \<noteq> None) \<Longrightarrow> next_free t i = i"
  by (subst next_free.simps; simp)+

lemma next_free_props:
  "i \<le> next_free t i \<and> (i \<le> length t \<longrightarrow> next_free t i \<le> length t) \<and>
   (next_free t i < length t \<longrightarrow> t ! next_free t i = None) \<and> (\<forall>j. i \<le> j \<and> j < next_free t i \<longrightarrow> t ! j \<noteq> None)"
proof (induction t i rule: next_free.induct)
  case (1 t i)
  show ?case
  proof (cases "i < length t \<and> t ! i \<noteq> None")
    case True
    note IH = "1.IH" [OF True] and st = next_free_step(1) [OF conjunct1 [OF True] conjunct2 [OF True]]
    have "t ! j \<noteq> None" if "i \<le> j" "j < next_free t (Suc i)" for j
      using IH True that by (cases "i = j") auto
    then show ?thesis unfolding st using IH True by auto
  next
    case False
    then show ?thesis unfolding next_free_step(2) [OF False] by (auto simp: not_less [symmetric] simp del: not_None_eq)
  qed
qed

lemmas next_free_bounds = next_free_props [THEN conjunct1] next_free_props [THEN conjunct2, THEN conjunct1]
lemmas next_free_free = next_free_props [THEN conjunct2, THEN conjunct2, THEN conjunct1]

lemma set_list_update_None: "Some f \<in> set (t[i := None]) \<Longrightarrow> Some f \<in> set t"
  using subsetD [OF set_update_subset_insert, of "Some f" t i None] by simp

text \<open>What a successful \<open>open\<close> does to the table.\<close>

definition opened :: "u32 \<Rightarrow> fsys \<Rightarrow> nat \<Rightarrow> fsys \<Rightarrow> bool" where
  "opened flags st fd st' \<longleftrightarrow> (\<exists>p p' f. fdt st = Some p \<and> fdt st' = Some p' \<and> fd = next_fd p \<and> fd < PROC_MAX_FDS \<and>
     files st' = files st @ [f] \<and> oflags f = flags \<and> tree st' = tree st \<and> root_sb st' = root_sb st \<and>
     fd < length (fds p') \<and> fds p' ! fd = Some (length (files st)) \<and>
     (\<forall>i. i \<noteq> fd \<longrightarrow> i < length (fds p) \<longrightarrow> i < length (fds p') \<and> fds p' ! i = fds p ! i) \<and>
     length (fds p') = max (length (fds p)) (Suc fd) \<and> next_fd p' = next_free (fds p') (Suc fd))"

lemma sys_open_cases:
  assumes "fsys_ok st" "sys_open pg m path flags st = Some (r, st')"
  shows "(\<exists>e. r = Inl e \<and> st' = st) \<or> (\<exists>fd. r = Inr fd \<and> opened flags st fd st')"
proof (cases r)
  case (Inl e)
  then have "st' = st"
    using assms(2) by (auto simp: sys_open_def Let_def split: option.splits if_splits sum.splits Option.bind_splits)
  then show ?thesis using Inl by simp
next
  case (Inr fd)
  obtain p where p: "fdt st = Some p" using assms(2) Inr by (auto simp: sys_open_def split: option.splits)
  then have ok: "fd_table_ok (length (files st)) p" using assms(1) by (simp add: fsys_ok_def)
  let ?k = "length (files st)"
  let ?t = "if length (fds p) > next_fd p then (fds p)[next_fd p := Some ?k] else fds p @ [Some ?k]"
  have "\<exists>f. fd = next_fd p \<and> fd < PROC_MAX_FDS \<and>
      st' = st\<lparr>files := files st @ [f\<lparr>oflags := flags\<rparr>], fdt := Some \<lparr>next_fd = next_free ?t (Suc fd), fds = ?t\<rparr>\<rparr>"
    using assms(2) Inr p ok
    by (auto simp: sys_open_def Let_def fd_table_ok_def split: option.splits if_splits sum.splits Option.bind_splits)
  then obtain f where f: "fd = next_fd p" "fd < PROC_MAX_FDS"
    "st' = st\<lparr>files := files st @ [f\<lparr>oflags := flags\<rparr>], fdt := Some \<lparr>next_fd = next_free ?t (Suc fd), fds = ?t\<rparr>\<rparr>" by blast
  have "next_fd p \<le> length (fds p)" using ok by (simp add: fd_table_ok_def)
  then have "opened flags st fd st'"
    unfolding opened_def using p f
    by (intro exI [of _ p] exI [of _ "\<lparr>next_fd = next_free ?t (Suc fd), fds = ?t\<rparr>"] exI [of _ "f\<lparr>oflags := flags\<rparr>"])
       (auto simp: nth_append nth_list_update)
  then show ?thesis using Inr by simp
qed

lemma opened_ok:
  assumes "fsys_ok st" "opened flags st fd st'"
  shows "fsys_ok st'"
proof -
  obtain p p' f where o: "fdt st = Some p" "fdt st' = Some p'" "fd = next_fd p" "fd < PROC_MAX_FDS" "files st' = files st @ [f]"
    "fd < length (fds p')" "fds p' ! fd = Some (length (files st))"
    "\<forall>i. i \<noteq> fd \<longrightarrow> i < length (fds p) \<longrightarrow> i < length (fds p') \<and> fds p' ! i = fds p ! i"
    "length (fds p') = max (length (fds p)) (Suc fd)" "next_fd p' = next_free (fds p') (Suc fd)"
    using assms(2) unfolding opened_def by blast
  have ok: "fd_table_ok (length (files st)) p" using assms(1) o(1) by (simp add: fsys_ok_def)
  have "g < length (files st')" if g: "Some g \<in> set (fds p')" for g
  proof -
    obtain i where i: "i < length (fds p')" "fds p' ! i = Some g" using g by (auto simp: in_set_conv_nth)
    show ?thesis
    proof (cases "i = fd")
      case False
      then have "i < length (fds p)" using i(1) o(9) ok o(3) by (auto simp: fd_table_ok_def max_def split: if_splits)
      then have "Some g \<in> set (fds p)" using o(8) i(2) False by (metis nth_mem)
      then show ?thesis using ok o(5) by (auto simp: fd_table_ok_def)
    qed (use i o in auto)
  qed
  moreover have "length (fds p') \<le> PROC_MAX_FDS" using o(4,9) ok by (simp add: fd_table_ok_def)
  moreover have "next_fd p' \<le> length (fds p')" using next_free_bounds(2) [of "Suc fd" "fds p'"] o(6,10) by simp
  moreover have "next_fd p' < length (fds p') \<longrightarrow> fds p' ! next_fd p' = None" using next_free_free [of "fds p'" "Suc fd"] o(10) by simp
  ultimately show ?thesis using o(2) by (simp add: fsys_ok_def fd_table_ok_def)
qed

lemma sys_close_cases:
  "sys_close fd st = (Inl EFAULT, st) \<and> fdt st = None \<or> sys_close fd st = (Inl EBADF, st) \<or>
   (\<exists>p. fdt st = Some p \<and> nat (fd mod 2 ^ 32) < length (fds p) \<and> fds p ! nat (fd mod 2 ^ 32) \<noteq> None \<and>
      sys_close fd st = (Inr 0, st\<lparr>fdt := Some (p\<lparr>fds := (fds p)[nat (fd mod 2 ^ 32) := None]\<rparr>)\<rparr>))"
  by (cases "fdt st") (simp_all add: sys_close_def Let_def not_le)

lemma fd_table_close: "fd_table_ok n p \<Longrightarrow> fd_table_ok n (p\<lparr>fds := (fds p)[i := None]\<rparr>)"
  unfolding fd_table_ok_def
  by (cases "i = next_fd p") (auto simp: nth_list_update simp del: not_None_eq dest: set_list_update_None)

lemma sys_close_ok: "fsys_ok st \<Longrightarrow> fsys_ok (snd (sys_close fd st))"
  using sys_close_cases [of fd st]
  by (auto simp: fsys_ok_def fd_table_close)

section \<open>Opening and closing\<close>


text \<open>The boot tree with a process that has the three standard descriptors, and a memory with the
  path of the terminal.\<close>

definition fs_example :: fsys where
  "fs_example = \<lparr>tree = booted, files = [\<lparr>fnd = 3, oflags = O_RDWR, fmode = S_IFCHR OR 384, position = 0, fcls = Tty_file\<rparr>],
     fdt = Some \<lparr>next_fd = 3, fds = [Some 0, Some 0, Some 0]\<rparr>, root_sb = ROOT_SB\<rparr>"

definition path_mem :: mem where
  "path_mem a = (let i = unat (a - 0x8000000) in if i < 8 then [47, 100, 101, 118, 47, 116, 116, 121] ! i else 0)"

declare skip_str.simps [code]

lemma fs_example_ok: "fsys_ok fs_example"
  by (simp add: fsys_ok_def fs_example_def fd_table_ok_def PROC_MAX_FDS_def)

lemma fs_example_open: "map_option fst (sys_open uptr_example path_mem 0x8000000 O_RDWR fs_example) = Some (Inr 3)"
  by code_simp


section \<open>Descriptors are not used again\<close>

datatype fd_op = Op_open u32 u32 | Op_close int

text \<open>A sequence of calls, with the number of descriptors \<open>open\<close> gave out.\<close>

fun fd_ops :: "paging \<Rightarrow> mem \<Rightarrow> fd_op list \<Rightarrow> fsys \<Rightarrow> (nat \<times> fsys) option" where
  "fd_ops pg m [] st = Some (0, st)"
| "fd_ops pg m (Op_open path flags # ops) st =
     Option.bind (sys_open pg m path flags st)
       (\<lambda>(r, st'). map_option (\<lambda>(n, st''). (case r of Inl e \<Rightarrow> n | Inr fd \<Rightarrow> Suc n, st'')) (fd_ops pg m ops st'))"
| "fd_ops pg m (Op_close fd # ops) st = fd_ops pg m ops (snd (sys_close fd st))"

lemma fd_ops_next:
  "fsys_ok st \<Longrightarrow> fdt st = Some p \<Longrightarrow> fd_ops pg m ops st = Some (n, st') \<Longrightarrow>
     fsys_ok st' \<and> (\<exists>p'. fdt st' = Some p' \<and> next_fd p + n \<le> next_fd p')"
proof (induction ops arbitrary: st p n)
  case (Cons x ops)
  show ?case
  proof (cases x)
    case (Op_open path flags)
    then obtain r st1 k where k: "sys_open pg m path flags st = Some (r, st1)" "fd_ops pg m ops st1 = Some (k, st')"
      "n = (case r of Inl e \<Rightarrow> k | Inr fd \<Rightarrow> Suc k)" using Cons.prems(3) by (auto split: Option.bind_splits)
    from sys_open_cases [OF Cons.prems(1) k(1)] show ?thesis
    proof
      assume "\<exists>e. r = Inl e \<and> st1 = st"
      then show ?thesis using Cons.IH [OF Cons.prems(1,2)] k(2,3) by auto
    next
      assume "\<exists>fd. r = Inr fd \<and> opened flags st fd st1"
      then obtain fd where fd: "r = Inr fd" "opened flags st fd st1" by blast
      then obtain p1 where p1: "fdt st1 = Some p1" "next_fd p1 = next_free (fds p1) (Suc (next_fd p))"
        using Cons.prems(2) unfolding opened_def by auto
      have "Suc (next_fd p) \<le> next_fd p1" unfolding p1(2) by (rule next_free_bounds(1))
      then show ?thesis using Cons.IH [OF opened_ok [OF Cons.prems(1) fd(2)] p1(1) k(2)] k(3) fd(1) by auto
    qed
  next
    case (Op_close fd)
    obtain p1 where p1: "fdt (snd (sys_close fd st)) = Some p1" "next_fd p1 = next_fd p"
      using sys_close_cases [of fd st] Cons.prems(2) by auto
    then show ?thesis using Cons.IH [OF sys_close_ok [OF Cons.prems(1)] p1(1)] Cons.prems(3) Op_close by auto
  qed
qed auto

text \<open>\<open>close\<close> does not lower the cached next descriptor, so no descriptor below it is given
  out again: in its whole life a process opens at most \<open>PROC_MAX_FDS\<close> files less the descriptors it
  started with, however many it closes in between.\<close>

theorem fds_exhausted:
  assumes "fsys_ok st" "fdt st = Some p" "fd_ops pg m ops st = Some (n, st')"
  shows "next_fd p + n \<le> PROC_MAX_FDS"
  using fd_ops_next [OF assms] by (auto simp: fsys_ok_def fd_table_ok_def dest: order_trans)

theorem fds_exhausted_witness:
  "\<exists>n st'. fd_ops uptr_example path_mem [Op_open 0x8000000 O_RDWR, Op_close 3, Op_open 0x8000000 O_RDWR] fs_example = Some (n, st') \<and>
     3 + n \<le> PROC_MAX_FDS"
proof -
  have "map_option fst (fd_ops uptr_example path_mem [Op_open 0x8000000 O_RDWR, Op_close 3, Op_open 0x8000000 O_RDWR] fs_example) = Some 2"
    by code_simp
  then obtain st' where st': "fd_ops uptr_example path_mem [Op_open 0x8000000 O_RDWR, Op_close 3, Op_open 0x8000000 O_RDWR] fs_example = Some (2, st')"
    by auto
  moreover have "fdt fs_example = Some \<lparr>next_fd = 3, fds = [Some 0, Some 0, Some 0]\<rparr>" by (simp add: fs_example_def)
  ultimately show ?thesis using fds_exhausted [OF fs_example_ok _ st'] by auto
qed

section \<open>Reading and writing\<close>

text \<open>A buffer the process may not write is never written to: \<open>read\<close> changes only bytes of the
  region it checked.\<close>

lemma write_bytes_outside:
  "unat a + length bs \<le> 2 ^ 32 \<Longrightarrow> \<not> (unat a \<le> unat x \<and> unat x < unat a + length bs) \<Longrightarrow> write_bytes m a bs x = m x"
proof (induction bs arbitrary: m a)
  case (Cons b bs)
  show ?case
  proof (cases "bs = []")
    case False
    then have u: "unat (a + 1) = unat a + 1" using Cons.prems(1) by (subst unat_add_lt) (cases bs; simp)+
    have "x \<noteq> a" using Cons.prems(2) by auto
    moreover have "write_bytes (m(a := b)) (a + 1) bs x = (m(a := b)) x"
      using Cons.prems u by (intro Cons.IH) auto
    ultimately show ?thesis by simp
  qed (use Cons.prems in auto)
qed simp

lemma tty_read_loop_length: "tty_read_loop n keys = Some (bs, rest) \<Longrightarrow> length bs \<le> n"
  by (induction n keys arbitrary: bs rule: tty_read_loop.induct) (auto split: if_splits)


declare check_region_from.simps [code]


text \<open>\<open>lseek\<close> refuses the terminal and every other pipe with \<open>ESPIPE\<close> and an unknown
  \<open>whence\<close> with \<open>EINVAL\<close>; on success it stores the new position in the file and at the pointer, and
  leaves all other files as they were.\<close>

theorem sys_lseek_correct:
  assumes "sys_lseek pg fd uoff off whence st = Some (r, off', st')" "get_fd fd st = Inr k" "check_ptr pg uoff True"
    and "k < length (files st)" "ind (nodes (tree st) ! fnd (files st ! k)) = Some i"
  shows "(seek_pos whence off (position (files st ! k)) (isize i) = None \<longrightarrow> r = Inl EINVAL) \<and>
    (seek_pos whence off (position (files st ! k)) (isize i) \<noteq> None \<and> is_pipe_mode (mode i) \<longrightarrow> r = Inl ESPIPE) \<and>
    (\<forall>e. r = Inl e \<longrightarrow> off' = off \<and> st' = st) \<and>
    (\<forall>n. r = Inr n \<longrightarrow> n = 0 \<and> seek_pos whence off (position (files st ! k)) (isize i) = Some off' \<and>
       files st' = (files st)[k := (files st ! k)\<lparr>position := off'\<rparr>] \<and> fdt st' = fdt st \<and> tree st' = tree st)"
  using assms
  by (auto simp: sys_lseek_def uptr_get_def file_seek_def is_pipe_def put_file_def seek_pos_def split: option.splits sum.splits if_splits)

theorem sys_lseek_correct_witness:
  "sys_lseek uptr_example_rw 0 0x8000010 7 SEEK_SET fs_example = Some (Inl ESPIPE, 7, fs_example)"
proof -
  obtain i where i: "ind (nodes (tree fs_example) ! fnd (files fs_example ! 0)) = Some i" "is_pipe_mode (mode i)"
  proof -
    have "map_option (\<lambda>i. is_pipe_mode (mode i)) (ind (nodes (tree fs_example) ! fnd (files fs_example ! 0))) = Some True" by code_simp
    then show ?thesis using that by auto
  qed
  have k: "get_fd 0 fs_example = Inr 0" "0 < length (files fs_example)" by (simp_all add: get_fd_def fs_example_def)
  have c: "check_ptr uptr_example_rw 0x8000010 True" by code_simp
  obtain r off' st' where s: "sys_lseek uptr_example_rw 0 0x8000010 7 SEEK_SET fs_example = Some (r, off', st')"
    using k c i by (auto simp: sys_lseek_def uptr_get_def seek_pos_def file_seek_def is_pipe_def)
  from sys_lseek_correct [OF s k(1) c k(2) i(1)] i(2) have "r = Inl ESPIPE" "off' = 7" "st' = fs_example"
    by (simp_all add: seek_pos_def)
  then show ?thesis using s by simp
qed

end
