(* ===== verification/Elf.thy ===== *)
theory Elf
  imports Memory KString
begin

text \<open>
  The ELF loader, \<open>kernel/proc/elf.cpp\<close> with the structures of \<open>kernel/proc/elf.h\<close>. The file is read from memory, and the
  segments are copied with the routines of theory \<open>KString\<close> in the address space of the page directory, which contains the
  file, as the comment on \<open>load\<close> asks; the pages are those of theory \<open>Paging\<close>. The headers are read again by the second
  loop, from memory the copies may have changed.
\<close>

section \<open>Headers\<close>

definition elf_half :: "mem \<Rightarrow> u32 \<Rightarrow> u16" where
  "elf_half m a = ucast (m a) OR push_bit 8 (ucast (m (a + 1)))"

definition elf_word :: "mem \<Rightarrow> u32 \<Rightarrow> u32" where
  "elf_word m a = ucast (m a) OR push_bit 8 (ucast (m (a + 1))) OR push_bit 16 (ucast (m (a + 2))) OR push_bit 24 (ucast (m (a + 3)))"

record ehdr =
  e_ident :: "u8 list"
  e_type :: u16
  e_machine :: u16
  e_entry :: u32
  e_phoff :: u32
  e_shoff :: u32
  e_phnum :: u16
  e_shstrndx :: u16

definition EI_NIDENT :: nat where "EI_NIDENT = 16"

definition read_ehdr :: "mem \<Rightarrow> u32 \<Rightarrow> ehdr" where
  "read_ehdr m a =
     \<lparr>e_ident = map (\<lambda>i. m (a + of_nat i)) [0 ..< EI_NIDENT], e_type = elf_half m (a + 16), e_machine = elf_half m (a + 18),
      e_entry = elf_word m (a + 24), e_phoff = elf_word m (a + 28), e_shoff = elf_word m (a + 32),
      e_phnum = elf_half m (a + 44), e_shstrndx = elf_half m (a + 50)\<rparr>"

record phdr =
  p_type :: u32
  p_offset :: u32
  p_vaddr :: u32
  p_filesz :: u32
  p_memsz :: u32
  p_flags :: u32
  p_align :: u32

definition read_phdr :: "mem \<Rightarrow> u32 \<Rightarrow> phdr" where
  "read_phdr m a =
     \<lparr>p_type = elf_word m a, p_offset = elf_word m (a + 4), p_vaddr = elf_word m (a + 8), p_filesz = elf_word m (a + 16),
      p_memsz = elf_word m (a + 20), p_flags = elf_word m (a + 24), p_align = elf_word m (a + 28)\<rparr>"

definition ELFMAG :: "u8 list" where "ELFMAG = [0x7f, 0x45, 0x4c, 0x46]"
definition EI_CLASS :: nat where "EI_CLASS = 4"
definition ELFCLASS32 :: u8 where "ELFCLASS32 = 1"
definition EI_DATA :: nat where "EI_DATA = 5"
definition ELFDATA2LSB :: u8 where "ELFDATA2LSB = 1"
definition EI_VERSION :: nat where "EI_VERSION = 6"
definition EV_CURRENT :: u8 where "EV_CURRENT = 1"
definition EI_OSABI :: nat where "EI_OSABI = 7"
definition ELFOSABI_NONE :: u8 where "ELFOSABI_NONE = 0"
definition EM_386 :: u16 where "EM_386 = 3"
definition ET_REL :: u16 where "ET_REL = 1"
definition ET_EXEC :: u16 where "ET_EXEC = 2"
definition PT_LOAD :: u32 where "PT_LOAD = 1"
definition PT_PHDR :: u32 where "PT_PHDR = 6"
definition PF_W :: u32 where "PF_W = 2"
definition SHN_UNDEF :: u16 where "SHN_UNDEF = 0"

definition ehdr_valid :: "ehdr \<Rightarrow> bool" where
  "ehdr_valid h \<longleftrightarrow>
     \<not> (take 4 (e_ident h) \<noteq> ELFMAG \<or> e_ident h ! EI_CLASS \<noteq> ELFCLASS32 \<or> e_ident h ! EI_DATA \<noteq> ELFDATA2LSB \<or>
        e_machine h \<noteq> EM_386 \<or> e_ident h ! EI_VERSION \<noteq> EV_CURRENT \<or> e_ident h ! EI_OSABI \<noteq> ELFOSABI_NONE \<or>
        (e_type h \<noteq> ET_REL \<and> e_type h \<noteq> ET_EXEC))"

text \<open>Pointers to the tables: \<open>0\<close> is the null pointer.\<close>

definition get_phdr :: "u32 \<Rightarrow> ehdr \<Rightarrow> u32" where
  "get_phdr this h = (if e_phoff h = 0 then 0 else this + e_phoff h)"

definition get_shdr :: "u32 \<Rightarrow> ehdr \<Rightarrow> u32" where
  "get_shdr this h = (if e_shoff h = 0 then 0 else this + e_shoff h)"

definition strtab :: "mem \<Rightarrow> u32 \<Rightarrow> ehdr \<Rightarrow> u32" where
  "strtab m this h = (if e_shstrndx h = SHN_UNDEF then 0 else this + elf_word m (get_shdr this h + 40 * ucast (e_shstrndx h) + 16))"

definition get_str :: "mem \<Rightarrow> u32 \<Rightarrow> ehdr \<Rightarrow> u32 \<Rightarrow> u32" where
  "get_str m this h offset = (if strtab m this h = 0 then 0 else strtab m this h + offset)"

section \<open>Loading\<close>

definition seg_start :: "phdr \<Rightarrow> u32" where "seg_start ph = p_vaddr ph AND NOT 0xFFF"
definition seg_end :: "phdr \<Rightarrow> u32" where "seg_end ph = align_addr (p_vaddr ph + p_memsz ph)"

text \<open>The first loop: the pages of the segments, and the highest end.\<close>

fun alloc_segments :: "(nat \<Rightarrow> u32) \<Rightarrow> nat \<Rightarrow> phdr list \<Rightarrow> u32 \<Rightarrow> paging \<Rightarrow> ((errno + u32) \<times> paging) option" where
  "alloc_segments phys_of d [] brk s = Some (Inr brk, s)"
| "alloc_segments phys_of d (ph # phs) brk s =
     (if p_type ph = PT_PHDR then alloc_segments phys_of d phs brk s
      else if p_type ph = PT_LOAD then
        Option.bind (alloc_block phys_of d (seg_start ph) (seg_end ph - seg_start ph) (PAGE_PRESENT OR PAGE_US OR PAGE_RW) s)
          (\<lambda>(ok, s1). if \<not> ok then Some (Inl ENOMEM, s1) else alloc_segments phys_of d phs (max brk (seg_end ph)) s1)
      else Some (Inl EINVAL, s))"

text \<open>The second loop. A page that is not there is a null pointer, and the machine stops.\<close>

definition copy_bytes :: "u32 \<Rightarrow> u32 \<Rightarrow> u32 \<Rightarrow> machine \<Rightarrow> machine" where
  "copy_bytes dst src n m = snd (if n AND 3 \<noteq> 0 then memcpy dst src n m else memcpyd dst src (n div 4) m)"

definition clear_bytes :: "u32 \<Rightarrow> u32 \<Rightarrow> machine \<Rightarrow> machine" where
  "clear_bytes dst n m = snd (if n AND 3 \<noteq> 0 then memset dst 0 n m else memsetd dst 0 (n div 4) m)"

definition copy_segment :: "u32 \<Rightarrow> phdr \<Rightarrow> machine \<Rightarrow> machine" where
  "copy_segment buf ph m =
     (let m1 = copy_bytes (p_vaddr ph) (buf + p_offset ph) (p_filesz ph) m
      in if p_memsz ph > p_filesz ph then clear_bytes (p_vaddr ph + p_filesz ph) (p_memsz ph - p_filesz ph) m1 else m1)"

fun protect :: "nat \<Rightarrow> u32 list \<Rightarrow> paging \<Rightarrow> paging option" where
  "protect d [] s = Some s"
| "protect d (a # as) s =
     (case find_page s d (drop_bit 12 a) of
        None \<Rightarrow> None
      | Some (t, k) \<Rightarrow> protect d as (write_page t k (tabs s t k AND NOT PAGE_RW) s))"

definition read_only :: "phdr \<Rightarrow> bool" where
  "read_only ph \<longleftrightarrow> p_align ph \<ge> PAGE_SIZE \<and> p_flags ph AND PF_W = 0"

function copy_segments :: "nat \<Rightarrow> u32 \<Rightarrow> nat \<Rightarrow> machine \<Rightarrow> paging \<Rightarrow> (machine \<times> paging) option" where
  "copy_segments d buf i m s =
     (if i < unat (e_phnum (read_ehdr (mem m) buf)) then
        let ph = read_phdr (mem m) (get_phdr buf (read_ehdr (mem m) buf) + 32 * of_nat i)
        in if p_type ph = PT_PHDR then copy_segments d buf (Suc i) m s
           else Option.bind (if read_only ph then protect d (page_addrs (seg_start ph) (seg_end ph)) s else Some s)
                  (copy_segments d buf (Suc i) (copy_segment buf ph m))
      else Some (m, s))"
  by pat_completeness auto
termination
proof (relation "measure (\<lambda>(_, _, i, _, _). 65536 - i)", goal_cases)
  case (2 d buf i m s)
  have "unat (e_phnum (read_ehdr (mem m) buf)) < 65536" by (rule order_less_le_trans [OF unsigned_less]) simp
  then show ?case using 2 by simp
next
  case (3 d buf i m s)
  have "unat (e_phnum (read_ehdr (mem m) buf)) < 65536" by (rule order_less_le_trans [OF unsigned_less]) simp
  then show ?case using 3 by simp
qed simp

declare copy_segments.simps [simp del]

definition segments :: "mem \<Rightarrow> u32 \<Rightarrow> phdr list" where
  "segments m buf = map (\<lambda>i. read_phdr m (get_phdr buf (read_ehdr m buf) + 32 * of_nat i)) [0 ..< unat (e_phnum (read_ehdr m buf))]"

text \<open>The result is the entry point and the start of the heap, or the error.\<close>

definition load :: "(nat \<Rightarrow> u32) \<Rightarrow> u32 \<Rightarrow> nat option \<Rightarrow> machine \<Rightarrow> paging \<Rightarrow> ((errno + u32 \<times> u32) \<times> machine \<times> paging) option" where
  "load phys_of buf dir m s =
     (case dir of
        None \<Rightarrow> Some (Inl EFAULT, m, s)
      | Some d \<Rightarrow>
          if buf = 0 then Some (Inl EFAULT, m, s)
          else let h = read_ehdr (mem m) buf
               in if \<not> ehdr_valid h \<or> get_phdr buf h = 0 then Some (Inl ENOEXEC, m, s)
                  else Option.bind (alloc_segments phys_of d (segments (mem m) buf) 0 s)
                    (\<lambda>(r, s1). case r of
                       Inl e \<Rightarrow> Some (Inl e, m, s1)
                     | Inr brk \<Rightarrow> map_option (\<lambda>(m', s'). (Inr (e_entry (read_ehdr (mem m') buf), brk), m', s'))
                         (copy_segments d buf 0 m (switch_page_dir d s1))))"

section \<open>Copying\<close>

lemma quarter: "n AND 3 = 0 \<Longrightarrow> 4 * unat (n div 4) = unat (n :: u32)"
proof -
  assume "n AND 3 = 0"
  moreover have "n AND 3 = n mod 4" using take_bit_eq_mask [of 2 n] take_bit_eq_mod [of 2 n] by (simp add: mask_eq_exp_minus_1)
  ultimately have "unat (n mod 4) = 0" by simp
  then have "unat n mod 4 = 0" by (simp only: unat_mod) simp
  then show ?thesis using mult_div_mod_eq [of 4 "unat n"] by (simp add: unat_div)
qed

lemma copy_bytes_moved:
  assumes "fits src (unat n)" "fits dst (unat n)" "unat src + unat n \<le> unat dst \<or> unat dst + unat n \<le> unat src"
  shows "mem (copy_bytes dst src n m) = moved src dst (unat n) (mem m)"
proof (cases "n AND 3 = 0")
  case True
  then show ?thesis
    using assms quarter [OF True] rep_movs_forward [of src 4 "unat (n div 4)" dst "mem m"] by (auto simp: copy_bytes_def memcpyd_def)
next
  case False
  then show ?thesis
    using assms rep_movs_forward [of src 1 "unat n" dst "mem m"] by (auto simp: copy_bytes_def memcpy_def)
qed

lemma clear_bytes_zero:
  assumes "fits dst (unat n)"
  shows "mem (clear_bytes dst n m) = (\<lambda>a. if in_region dst (unat n) a then 0 else mem m a)"
proof (cases "n AND 3 = 0")
  case True
  then show ?thesis
    using assms quarter [OF True] rep_stos_zero [of dst 4 "unat (n div 4)" "mem m"] by (simp add: clear_bytes_def memsetd_def)
next
  case False
  then show ?thesis using assms rep_stos_zero [of dst 1 "unat n" "mem m"] by (simp add: clear_bytes_def memset_def)
qed

section \<open>A file that can be loaded\<close>

text \<open>The segment has its bytes in the file, which is the \<open>n\<close> bytes at \<open>buf\<close>, and its memory does not touch the file and does
  not reach the end of the address space.\<close>

definition seg_ok :: "u32 \<Rightarrow> nat \<Rightarrow> phdr \<Rightarrow> bool" where
  "seg_ok buf n ph \<longleftrightarrow>
     p_type ph = PT_LOAD \<and> p_filesz ph \<le> p_memsz ph \<and> unat (p_vaddr ph) + unat (p_memsz ph) + 4095 < 2 ^ 32 \<and>
     unat (p_offset ph) + unat (p_filesz ph) \<le> n \<and>
     (unat (p_vaddr ph) + unat (p_memsz ph) \<le> unat buf \<or> unat buf + n \<le> unat (p_vaddr ph))"

definition in_seg :: "phdr \<Rightarrow> u32 \<Rightarrow> bool" where
  "in_seg ph a \<longleftrightarrow> p_type ph \<noteq> PT_PHDR \<and> in_region (p_vaddr ph) (unat (p_memsz ph)) a"

definition file_ok :: "mem \<Rightarrow> u32 \<Rightarrow> nat \<Rightarrow> bool" where
  "file_ok m buf n \<longleftrightarrow>
     buf \<noteq> 0 \<and> fits buf n \<and> 52 \<le> n \<and> ehdr_valid (read_ehdr m buf) \<and> e_phoff (read_ehdr m buf) \<noteq> 0 \<and>
     unat (e_phoff (read_ehdr m buf)) < n \<and> unat (e_phoff (read_ehdr m buf)) + 32 * length (segments m buf) \<le> n \<and>
     (\<forall>ph \<in> set (segments m buf). p_type ph = PT_PHDR \<or> seg_ok buf n ph) \<and>
     sorted_wrt (\<lambda>ph ph'. \<not> (\<exists>a. in_seg ph a \<and> in_seg ph' a)) (segments m buf)"

text \<open>What the file puts at an address of a segment.\<close>

definition seg_byte :: "mem \<Rightarrow> u32 \<Rightarrow> phdr \<Rightarrow> u32 \<Rightarrow> u8" where
  "seg_byte m buf ph a =
     (if unat a < unat (p_vaddr ph) + unat (p_filesz ph) then m (buf + p_offset ph + (a - p_vaddr ph)) else 0)"

lemma file_address:
  assumes "fits buf n" "unat x + k \<le> n" "0 < k \<or> unat x < n"
  shows "unat (buf + x) = unat buf + unat x"
  using assms by (intro unat_add_lt) auto

lemma copy_segment_mem:
  assumes "seg_ok buf n ph" "fits buf n"
  shows "mem (copy_segment buf ph m) = (\<lambda>a. if in_seg ph a then seg_byte (mem m) buf ph a else mem m a)"
proof -
  let ?v = "p_vaddr ph" and ?f = "p_filesz ph" and ?z = "p_memsz ph" and ?src = "buf + p_offset ph"
  have ok: "p_type ph = PT_LOAD" "unat ?f \<le> unat ?z" "unat ?v + unat ?z + 4095 < 2 ^ 32" "unat (p_offset ph) + unat ?f \<le> n"
    "unat ?v + unat ?z \<le> unat buf \<or> unat buf + n \<le> unat ?v"
    using assms(1) by (auto simp: seg_ok_def word_le_nat_alt)
  have m1: "mem (copy_bytes ?v ?src ?f m) = moved ?src ?v (unat ?f) (mem m)"
  proof (cases "?f = 0")
    case True
    then show ?thesis by (simp add: copy_bytes_def memcpyd_def)
  next
    case False
    then have "0 < unat ?f" by (simp add: unat_gt_0)
    then have "unat ?src = unat buf + unat (p_offset ph)" using ok assms(2) by (intro file_address) auto
    then show ?thesis using ok assms(2) by (intro copy_bytes_moved) auto
  qed
  have uf: "unat (?v + ?f) = unat ?v + unat ?f" using ok by (intro unat_add_lt) simp
  have uz: "unat (?z - ?f) = unat ?z - unat ?f" using ok(2) by (simp add: unat_sub word_le_nat_alt)
  have ne: "p_type ph \<noteq> PT_PHDR" using ok(1) by (simp add: PT_LOAD_def PT_PHDR_def)
  show ?thesis
  proof (cases "?z > ?f")
    case True
    then have "mem (copy_segment buf ph m) = (\<lambda>a. if in_region (?v + ?f) (unat (?z - ?f)) a then 0 else moved ?src ?v (unat ?f) (mem m) a)"
      using ok uf uz by (simp add: copy_segment_def clear_bytes_zero m1 cong: if_cong)
    then show ?thesis using ok uf uz ne by (auto simp: fun_eq_iff moved_def in_seg_def seg_byte_def)
  next
    case False
    then have "unat ?z = unat ?f" using ok(2) by (simp add: word_less_nat_alt)
    then show ?thesis using False m1 ne by (auto simp: copy_segment_def fun_eq_iff moved_def in_seg_def seg_byte_def)
  qed
qed

text \<open>Memory that agrees on the file has the same headers.\<close>

definition same_file :: "u32 \<Rightarrow> nat \<Rightarrow> mem \<Rightarrow> mem \<Rightarrow> bool" where
  "same_file buf n m m' \<longleftrightarrow> (\<forall>a. in_region buf n a \<longrightarrow> m' a = m a)"

lemma same_file_at: "same_file buf n m m' \<Longrightarrow> fits buf n \<Longrightarrow> unat x < n \<Longrightarrow> m' (buf + x) = m (buf + x)"
  using file_address [of buf n x 0] by (simp add: same_file_def)

lemma same_file_word:
  assumes "same_file buf n m m'" "fits buf n" "unat x + 4 \<le> n"
  shows "elf_word m' (buf + x) = elf_word m (buf + x)"
proof -
  have "unat (x + of_nat k) < n" if "k < 4" for k using assms(2,3) that by (subst unat_add_of_nat) auto
  from this [of 0] this [of 1] this [of 2] this [of 3]
  have "unat x < n" "unat (x + 1) < n" "unat (x + 2) < n" "unat (x + 3) < n" by simp_all
  from this [THEN same_file_at [OF assms(1,2)]] show ?thesis by (simp add: elf_word_def add.assoc)
qed

lemma same_file_half:
  assumes "same_file buf n m m'" "fits buf n" "unat x + 2 \<le> n"
  shows "elf_half m' (buf + x) = elf_half m (buf + x)"
proof -
  have "unat (x + of_nat k) < n" if "k < 2" for k using assms(2,3) that by (subst unat_add_of_nat) auto
  from this [of 0] this [of 1] have "unat x < n" "unat (x + 1) < n" by simp_all
  from this [THEN same_file_at [OF assms(1,2)]] show ?thesis by (simp add: elf_half_def add.assoc)
qed

lemma same_file_ehdr:
  assumes "same_file buf n m m'" "fits buf n" "52 \<le> n"
  shows "read_ehdr m' buf = read_ehdr m buf"
proof -
  have "m' (buf + of_nat i) = m (buf + of_nat i)" if "i < 16" for i
    using same_file_at [OF assms(1,2), of "of_nat i"] assms(3) that by (simp add: unsigned_of_nat take_bit_nat_eq_self)
  then show ?thesis using assms(3) by (simp add: read_ehdr_def EI_NIDENT_def same_file_word [OF assms(1,2)] same_file_half [OF assms(1,2)])
qed

lemma same_file_phdr:
  assumes "same_file buf n m m'" "fits buf n" "unat x + 32 \<le> n"
  shows "read_phdr m' (buf + x) = read_phdr m (buf + x)"
proof -
  have "elf_word m' (buf + x + of_nat k) = elf_word m (buf + x + of_nat k)" if "k \<le> 28" for k
    using same_file_word [OF assms(1,2), of "x + of_nat k"] assms(2,3) that by (simp add: unat_add_of_nat add.assoc)
  from this [of 0] this [of 4] this [of 8] this [of 16] this [of 20] this [of 24] this [of 28]
  show ?thesis by (simp add: read_phdr_def)
qed

section \<open>The loops\<close>

lemma lookup_present: "pg_present (lookup s d x) \<Longrightarrow> \<exists>t k. find_page s d x = Some (t, k)"
  by (cases "find_page s d x") (auto simp: lookup_def page_value_def pg_present_def)

lemma protect_ok:
  assumes "paging_wf d s" "\<forall>a \<in> set as. pg_present (lookup s d (drop_bit 12 a))"
  shows "\<exists>s'. protect d as s = Some s' \<and> paging_wf d s' \<and>
    (\<forall>x. lookup s' d x = (if x \<in> drop_bit 12 ` set as then lookup s d x AND NOT PAGE_RW else lookup s d x))"
  using assms
proof (induction as arbitrary: s)
  case (Cons a as)
  let ?p = "drop_bit 12 a"
  obtain t k where f: "find_page s d ?p = Some (t, k)" using lookup_present Cons.prems(2) by force
  let ?s1 = "write_page t k (tabs s t k AND NOT PAGE_RW) s"
  have l: "lookup ?s1 d x = (if x = ?p then lookup s d ?p AND NOT PAGE_RW else lookup s d x)" for x
    using lookup_write_page [OF Cons.prems(1) f] lookup_find [OF f] by simp
  have pr: "pg_present (v AND NOT PAGE_RW) = pg_present v" for v by (simp add: pg_present_def PAGE_RW_def bit_simps)
  have "\<forall>a \<in> set as. pg_present (lookup ?s1 d (drop_bit 12 a))" using Cons.prems(2) by (simp add: l pr)
  then obtain s' where s': "protect d as ?s1 = Some s'" "paging_wf d s'"
    "\<forall>x. lookup s' d x = (if x \<in> drop_bit 12 ` set as then lookup ?s1 d x AND NOT PAGE_RW else lookup ?s1 d x)"
    using Cons.IH [of ?s1] Cons.prems(1) by auto
  have "lookup s' d x = (if x \<in> drop_bit 12 ` set (a # as) then lookup s d x AND NOT PAGE_RW else lookup s d x)" for x
    using s'(3) l by (simp add: and.assoc)
  then show ?case using s'(1,2) f by simp
qed simp

text \<open>The pages of the segments, and those that are made read-only.\<close>

definition seg_pages :: "phdr \<Rightarrow> u32 set" where
  "seg_pages ph = (if p_type ph = PT_PHDR then {} else pages_of (p_vaddr ph) (p_vaddr ph + p_memsz ph))"

definition ro_pages :: "phdr list \<Rightarrow> u32 set" where
  "ro_pages phs = (\<Union>ph \<in> set (filter read_only phs). seg_pages ph)"

lemma seg_ok_bounds:
  assumes "seg_ok buf n ph"
  shows "p_type ph = PT_LOAD" "p_type ph \<noteq> PT_PHDR" "unat (p_vaddr ph + p_memsz ph) = unat (p_vaddr ph) + unat (p_memsz ph)"
    "p_vaddr ph \<le> p_vaddr ph + p_memsz ph" "unat (p_vaddr ph + p_memsz ph) + 4095 < 2 ^ 32"
    "seg_pages ph = pages_of (p_vaddr ph) (p_vaddr ph + p_memsz ph)"
proof -
  show "p_type ph = PT_LOAD" "p_type ph \<noteq> PT_PHDR" using assms by (simp_all add: seg_ok_def PT_LOAD_def PT_PHDR_def)
  then show "seg_pages ph = pages_of (p_vaddr ph) (p_vaddr ph + p_memsz ph)" by (simp add: seg_pages_def)
  show u: "unat (p_vaddr ph + p_memsz ph) = unat (p_vaddr ph) + unat (p_memsz ph)"
    using assms by (intro unat_add_lt) (simp add: seg_ok_def)
  show "p_vaddr ph \<le> p_vaddr ph + p_memsz ph" "unat (p_vaddr ph + p_memsz ph) + 4095 < 2 ^ 32"
    using assms u by (simp_all add: word_le_nat_alt seg_ok_def)
qed

lemma align_addr_ge:
  assumes "unat b + 4095 < 2 ^ 32"
  shows "b \<le> align_addr b"
proof -
  have "unat b + 4095 = (unat b + 4095) div 4096 * 4096 + (unat b + 4095) mod 4096" "(unat b + 4095) mod 4096 < 4096" by simp_all
  then have "unat b \<le> (unat b + 4095) div 4096 * 4096" by linarith
  then show ?thesis by (simp add: word_le_nat_alt align_addr_unat [OF assms])
qed

lemma alloc_segments_ok:
  assumes "paging_wf d s" "owns (frames s) A U" "U \<subseteq> {0 <..< 2 ^ 20}" "\<forall>ph \<in> set phs. p_type ph = PT_PHDR \<or> seg_ok buf n ph"
  shows "\<exists>r s'. alloc_segments phys_of d phs brk s = Some (r, s') \<and> paging_wf d s' \<and>
    (case r of Inl e \<Rightarrow> e = ENOMEM
     | Inr brk' \<Rightarrow> brk \<le> brk' \<and> (\<forall>ph \<in> set phs. p_type ph = PT_LOAD \<longrightarrow> p_vaddr ph + p_memsz ph \<le> brk') \<and>
         (\<forall>x. user_page (lookup s d x) \<or> (\<exists>ph \<in> set phs. x \<in> seg_pages ph) \<longrightarrow> user_page (lookup s' d x)))"
  using assms
proof (induction phs arbitrary: s A U brk)
  case (Cons ph phs)
  show ?case
  proof (cases "p_type ph = PT_PHDR")
    case True
    have ph: "\<forall>ph \<in> set phs. p_type ph = PT_PHDR \<or> seg_ok buf n ph" using Cons.prems(4) by simp
    show ?thesis using Cons.IH [OF Cons.prems(1-3) ph, of brk] True by (fastforce simp: seg_pages_def PT_LOAD_def PT_PHDR_def split: sum.splits)
  next
    case False
    then have ok: "seg_ok buf n ph" using Cons.prems(4) by simp
    note b = seg_ok_bounds [OF ok]
    obtain g s1 N where a: "alloc_block phys_of d (seg_start ph) (seg_end ph - seg_start ph) (PAGE_PRESENT OR PAGE_US OR PAGE_RW) s = Some (g, s1)"
      "paging_wf d s1" "N \<subseteq> U" "owns (frames s1) ((\<lambda>f. (f, 0)) ` N \<union> A) (U - N)" "\<forall>x. x \<notin> seg_pages ph \<longrightarrow> lookup s1 d x = lookup s d x"
      "g \<longrightarrow> (\<forall>x \<in> seg_pages ph. user_page (lookup s1 d x))"
      using alloc_user_block [OF Cons.prems(1-3) b(4,5), of phys_of] unfolding seg_start_def seg_end_def b(6) by metis
    show ?thesis
    proof (cases g)
      case False
      then show ?thesis using a(1,2) b(1,2) by simp
    next
      case True
      have "U - N \<subseteq> {0 <..< 2 ^ 20}" using Cons.prems(3) by blast
      from Cons.IH [OF a(2,4) this, of "max brk (seg_end ph)"] obtain r s' where
        r: "alloc_segments phys_of d phs (max brk (seg_end ph)) s1 = Some (r, s')" "paging_wf d s'"
        "case r of Inl e \<Rightarrow> e = ENOMEM
         | Inr brk' \<Rightarrow> max brk (seg_end ph) \<le> brk' \<and> (\<forall>ph \<in> set phs. p_type ph = PT_LOAD \<longrightarrow> p_vaddr ph + p_memsz ph \<le> brk') \<and>
             (\<forall>x. user_page (lookup s1 d x) \<or> (\<exists>ph \<in> set phs. x \<in> seg_pages ph) \<longrightarrow> user_page (lookup s' d x))"
        using Cons.prems(4) by auto
      have e: "p_vaddr ph + p_memsz ph \<le> seg_end ph" using align_addr_ge [OF b(5)] by (simp add: seg_end_def)
      have "alloc_segments phys_of d (ph # phs) brk s = Some (r, s')" using a(1) True r(1) b(1,2) by simp
      moreover have "user_page (lookup s1 d x)" if "user_page (lookup s d x) \<or> x \<in> seg_pages ph" for x
        using a(5,6) True that by metis
      ultimately show ?thesis using r(2,3) e by (cases r) (auto simp: max_def split: if_splits dest: order_trans)
    qed
  qed
qed simp

lemma seg_byte_same_file:
  assumes "same_file buf n m m'" "fits buf n" "seg_ok buf n ph" "in_seg ph a"
  shows "seg_byte m' buf ph a = seg_byte m buf ph a"
proof (cases "unat a < unat (p_vaddr ph) + unat (p_filesz ph)")
  case True
  have ok: "unat (p_offset ph) + unat (p_filesz ph) \<le> n" "unat (p_vaddr ph) \<le> unat a"
    using assms(3,4) by (simp_all add: seg_ok_def in_seg_def)
  then have u: "unat (a - p_vaddr ph) = unat a - unat (p_vaddr ph)" by (simp add: unat_sub word_le_nat_alt)
  then have "unat (p_offset ph + (a - p_vaddr ph)) < n" using ok assms(2) True by (subst unat_add_lt) auto
  from same_file_at [OF assms(1,2) this] show ?thesis using True by (simp add: seg_byte_def add.assoc)
qed (simp add: seg_byte_def)

lemma copy_segment_same_file:
  assumes "seg_ok buf n ph" "fits buf n" "same_file buf n m0 (mem m)"
  shows "same_file buf n m0 (mem (copy_segment buf ph m))"
  using assms(1,3) unfolding same_file_def copy_segment_mem [OF assms(1,2)] by (auto simp: seg_ok_def in_seg_def)

lemma file_phdr:
  assumes "file_ok m0 buf n" "same_file buf n m0 m" "i < length (segments m0 buf)"
  shows "read_phdr m (get_phdr buf (read_ehdr m buf) + 32 * of_nat i) = segments m0 buf ! i"
proof -
  let ?o = "e_phoff (read_ehdr m0 buf) + 32 * of_nat i"
  have f: "fits buf n" "52 \<le> n" "e_phoff (read_ehdr m0 buf) \<noteq> 0" "unat (e_phoff (read_ehdr m0 buf)) + 32 * length (segments m0 buf) \<le> n"
    using assms(1) by (simp_all add: file_ok_def)
  have e: "read_ehdr m buf = read_ehdr m0 buf" by (rule same_file_ehdr [OF assms(2) f(1,2)])
  have "unat (e_phoff (read_ehdr m0 buf)) + 32 * i + 32 \<le> n" using f(4) assms(3) by linarith
  moreover have "unat ?o = unat (e_phoff (read_ehdr m0 buf)) + 32 * i"
    using unat_add_of_nat [of "e_phoff (read_ehdr m0 buf)" "32 * i"] calculation f(1) by simp
  ultimately have "read_phdr m (buf + ?o) = read_phdr m0 (buf + ?o)" using same_file_phdr [OF assms(2) f(1), of ?o] by linarith
  then show ?thesis using assms(3) f(3) e by (simp add: segments_def get_phdr_def add.assoc)
qed

text \<open>What the second loop does from the segment \<open>i\<close> on.\<close>

definition copied :: "mem \<Rightarrow> u32 \<Rightarrow> phdr list \<Rightarrow> mem \<Rightarrow> mem \<Rightarrow> bool" where
  "copied m0 buf phs m m' \<longleftrightarrow>
     (\<forall>ph \<in> set phs. \<forall>a. in_seg ph a \<longrightarrow> m' a = seg_byte m0 buf ph a) \<and> (\<forall>a. (\<forall>ph \<in> set phs. \<not> in_seg ph a) \<longrightarrow> m' a = m a)"

definition protected :: "nat \<Rightarrow> phdr list \<Rightarrow> paging \<Rightarrow> paging \<Rightarrow> bool" where
  "protected d phs s s' \<longleftrightarrow> (\<forall>x. lookup s' d x = (if x \<in> ro_pages phs then lookup s d x AND NOT PAGE_RW else lookup s d x))"

lemma protect_segment:
  assumes "paging_wf d s" "seg_ok buf n ph" "\<forall>x \<in> seg_pages ph. pg_present (lookup s d x)"
  shows "\<exists>s'. (if read_only ph then protect d (page_addrs (seg_start ph) (seg_end ph)) s else Some s) = Some s' \<and> paging_wf d s' \<and> protected d [ph] s s'"
proof -
  note b = seg_ok_bounds [OF assms(2)]
  have R: "drop_bit 12 ` set (page_addrs (seg_start ph) (seg_end ph)) = seg_pages ph"
    unfolding b(6) seg_start_def seg_end_def by (rule page_addrs_pages [OF b(4,5)])
  then have "\<forall>a \<in> set (page_addrs (seg_start ph) (seg_end ph)). pg_present (lookup s d (drop_bit 12 a))" using assms(3) by blast
  from protect_ok [OF assms(1) this] show ?thesis unfolding R using assms(1) by (auto simp: protected_def ro_pages_def)
qed

lemma copy_segments_ok:
  assumes "file_ok m0 buf n" "same_file buf n m0 (mem m)" "paging_wf d s"
    and "\<forall>ph \<in> set (drop i (segments m0 buf)). \<forall>x \<in> seg_pages ph. pg_present (lookup s d x)"
  shows "\<exists>m' s'. copy_segments d buf i m s = Some (m', s') \<and> same_file buf n m0 (mem m') \<and>
    copied m0 buf (drop i (segments m0 buf)) (mem m) (mem m') \<and> protected d (drop i (segments m0 buf)) s s'"
  using assms(2-)
proof (induction "length (segments m0 buf) - i" arbitrary: i m s)
  case 0
  have e: "read_ehdr (mem m) buf = read_ehdr m0 buf" using same_file_ehdr 0 assms(1) by (simp add: file_ok_def)
  then have "copy_segments d buf i m s = Some (m, s)" using 0(1) by (subst copy_segments.simps) (simp add: segments_def)
  then show ?case using 0 by (simp add: copied_def protected_def ro_pages_def)
next
  case (Suc k)
  let ?ps = "segments m0 buf" and ?ph = "segments m0 buf ! i"
  have i: "i < length ?ps" using Suc.hyps(2) by simp
  then have dr: "drop i ?ps = ?ph # drop (Suc i) ?ps" by (simp add: Cons_nth_drop_Suc)
  have f: "fits buf n" "p_type ?ph = PT_PHDR \<or> seg_ok buf n ?ph" using assms(1) i by (simp_all add: file_ok_def)
  have e: "read_ehdr (mem m) buf = read_ehdr m0 buf" using same_file_ehdr Suc.prems(1) assms(1) by (simp add: file_ok_def)
  then have "i < unat (e_phnum (read_ehdr (mem m) buf))" using i by (simp add: segments_def)
  then have step: "copy_segments d buf i m s = (if p_type ?ph = PT_PHDR then copy_segments d buf (Suc i) m s
      else Option.bind (if read_only ?ph then protect d (page_addrs (seg_start ?ph) (seg_end ?ph)) s else Some s)
        (copy_segments d buf (Suc i) (copy_segment buf ?ph m)))"
    by (subst copy_segments.simps) (simp add: file_phdr [OF assms(1) Suc.prems(1) i] Let_def)
  have k: "k = length ?ps - Suc i" using Suc.hyps(2) by simp
  show ?case
  proof (cases "p_type ?ph = PT_PHDR")
    case True
    then have "\<not> in_seg ?ph a" "seg_pages ?ph = {}" for a by (simp_all add: in_seg_def seg_pages_def)
    then show ?thesis using Suc.hyps(1) [OF k Suc.prems(1,2)] Suc.prems(3) step True
      unfolding dr by (simp add: copied_def protected_def ro_pages_def)
  next
    case False
    then have ok: "seg_ok buf n ?ph" using f(2) by simp
    obtain s1 where s1: "(if read_only ?ph then protect d (page_addrs (seg_start ?ph) (seg_end ?ph)) s else Some s) = Some s1"
      "paging_wf d s1" "protected d [?ph] s s1" using protect_segment [OF Suc.prems(2) ok] Suc.prems(3) dr by auto
    have pr: "pg_present (v AND NOT PAGE_RW) = pg_present v" for v by (simp add: pg_present_def PAGE_RW_def bit_simps)
    have "\<forall>ph \<in> set (drop (Suc i) ?ps). \<forall>x \<in> seg_pages ph. pg_present (lookup s1 d x)"
      using Suc.prems(3) s1(3) unfolding dr by (simp add: protected_def pr)
    from Suc.hyps(1) [OF k copy_segment_same_file [OF ok f(1) Suc.prems(1)] s1(2) this] obtain m' s' where
      r: "copy_segments d buf (Suc i) (copy_segment buf ?ph m) s1 = Some (m', s')" "same_file buf n m0 (mem m')"
      "copied m0 buf (drop (Suc i) ?ps) (mem (copy_segment buf ?ph m)) (mem m')" "protected d (drop (Suc i) ?ps) s1 s'" by blast
    have "sorted_wrt (\<lambda>ph ph'. \<not> (\<exists>a. in_seg ph a \<and> in_seg ph' a)) (drop i ?ps)" using assms(1) by (simp add: file_ok_def sorted_wrt_drop)
    then have apart: "\<not> (in_seg ?ph a \<and> in_seg ph a)" if "ph \<in> set (drop (Suc i) ?ps)" for ph a using that unfolding dr by auto
    have "mem m' a = seg_byte m0 buf ?ph a" if "in_seg ?ph a" for a
      using r(3) apart that seg_byte_same_file [OF Suc.prems(1) f(1) ok that] unfolding copied_def copy_segment_mem [OF ok f(1)] by simp
    then have "copied m0 buf (drop i ?ps) (mem m) (mem m')"
      using r(3) unfolding dr copied_def copy_segment_mem [OF ok f(1)] by auto
    moreover have "protected d (drop i ?ps) s s'"
      using r(4) s1(3) unfolding dr by (auto simp: protected_def ro_pages_def and.assoc)
    ultimately show ?thesis using step False s1(1) r(1,2) by simp
  qed
qed

section \<open>Properties\<close>

lemma switch_lookup [simp]: "lookup (switch_page_dir e s) d x = lookup s d x" "paging_wf d (switch_page_dir e s) = paging_wf d s"
  by (simp_all add: lookup_def page_value_def find_page_def paging_wf_def switch_page_dir_def)

text \<open>A loaded file: every segment is in memory, in pages the process can read, and write unless the segment or one that
  shares the page with it is read-only; the heap starts behind all of them; no other memory has changed.\<close>

definition loaded :: "mem \<Rightarrow> u32 \<Rightarrow> nat \<Rightarrow> u32 \<Rightarrow> mem \<Rightarrow> paging \<Rightarrow> bool" where
  "loaded m buf d brk m' s' \<longleftrightarrow>
     (\<forall>ph \<in> set (segments m buf). \<forall>a. in_seg ph a \<longrightarrow>
        m' a = seg_byte m buf ph a \<and> a < brk \<and> pg_present (lookup s' d (drop_bit 12 a)) \<and> pg_user (lookup s' d (drop_bit 12 a)) \<and>
        (pg_rw (lookup s' d (drop_bit 12 a)) \<longleftrightarrow> drop_bit 12 a \<notin> ro_pages (segments m buf))) \<and>
     (\<forall>a. (\<forall>ph \<in> set (segments m buf). \<not> in_seg ph a) \<longrightarrow> m' a = m a)"

lemma in_seg_page:
  assumes "seg_ok buf n ph" "in_seg ph a"
  shows "drop_bit 12 a \<in> seg_pages ph" "a < p_vaddr ph + p_memsz ph"
proof -
  note b = seg_ok_bounds [OF assms(1)]
  show l: "a < p_vaddr ph + p_memsz ph" using assms(2) b(3) by (simp add: in_seg_def word_less_nat_alt)
  show "drop_bit 12 a \<in> seg_pages ph" unfolding b(6) using assms(2) l by (intro pages_of_covers) (simp_all add: in_seg_def word_le_nat_alt)
qed

lemma user_page_protected: "user_page v \<Longrightarrow> pg_present (v AND NOT PAGE_RW) \<and> pg_user (v AND NOT PAGE_RW) \<and> \<not> pg_rw (v AND NOT PAGE_RW)"
  by (simp add: user_page_def pg_present_def pg_user_def pg_rw_def PAGE_RW_def bit_simps)


text \<open>A file with one segment of four bytes.\<close>

definition example_bytes :: "u8 list" where
  "example_bytes =
     [0x7f, 0x45, 0x4c, 0x46, 1, 1, 1, 0, 0, 0, 0, 0, 0, 0, 0, 0, 2, 0, 3, 0, 1, 0, 0, 0, 0, 0x80, 0x04, 0x08, 52, 0, 0, 0,
      0, 0, 0, 0, 0, 0, 0, 0, 52, 0, 32, 0, 1, 0, 40, 0, 0, 0, 0, 0,
      1, 0, 0, 0, 84, 0, 0, 0, 0, 0x80, 0x04, 0x08, 0, 0, 0, 0, 4, 0, 0, 0, 8, 0, 0, 0, 5, 0, 0, 0, 0, 0x10, 0, 0,
      0xeb, 0xfe, 0x90, 0x90]"

definition example_mem :: mem where
  "example_mem a = (if unat (a - 0xD0000000) < 88 then example_bytes ! unat (a - 0xD0000000) else 0xAA)"

lemma example_ehdr:
  "read_ehdr example_mem 0xD0000000 =
     \<lparr>e_ident = [0x7f, 0x45, 0x4c, 0x46, 1, 1, 1, 0, 0, 0, 0, 0, 0, 0, 0, 0], e_type = 2, e_machine = 3, e_entry = 0x8048000, e_phoff = 52,
      e_shoff = 0, e_phnum = 1, e_shstrndx = 0\<rparr>"
  by (simp add: read_ehdr_def EI_NIDENT_def elf_half_def elf_word_def example_mem_def example_bytes_def upt_conv_Cons)

lemma example_segments:
  "segments example_mem 0xD0000000 =
     [\<lparr>p_type = 1, p_offset = 84, p_vaddr = 0x8048000, p_filesz = 4, p_memsz = 8, p_flags = 5, p_align = 0x1000\<rparr>]"
  by (simp add: segments_def example_ehdr get_phdr_def read_phdr_def elf_word_def example_mem_def example_bytes_def)

lemma example_file: "file_ok example_mem 0xD0000000 88"
  by (simp add: file_ok_def example_ehdr example_segments ehdr_valid_def seg_ok_def PT_LOAD_def PT_PHDR_def
      ELFMAG_def EI_CLASS_def ELFCLASS32_def EI_DATA_def ELFDATA2LSB_def EI_VERSION_def EV_CURRENT_def EI_OSABI_def ELFOSABI_NONE_def
      EM_386_def ET_REL_def ET_EXEC_def)


end
