(* ===== verification/Regs.thy ===== *)
theory Regs
  imports Prelude
begin

text \<open>
  The two forms in which the kernel keeps the registers of a process: the first members of \<open>proc_state\<close> of \<open>kernel/include/proc.h\<close>,
  which \<open>switch.s\<close> and \<open>save.s\<close> read and write, and \<open>isr::registers\<close> of \<open>kernel/include/isr.h\<close>, which the entry points of
  \<open>irq.s\<close> leave on the stack. The members are in the order of the structures.
\<close>

record cpu_regs =
  eflags :: u32
  eip :: u32
  edi :: u32
  esi :: u32
  ebp :: u32
  esp :: u32
  ebx :: u32
  edx :: u32
  ecx :: u32
  eax :: u32

record registers =
  r_edi :: u32
  r_esi :: u32
  r_ebp :: u32
  r_esp :: u32
  r_ebx :: u32
  r_edx :: u32
  r_ecx :: u32
  r_eax :: u32
  int_no :: u32
  r_err :: u32
  r_eip :: u32
  r_cs :: u32
  r_eflags :: u32
  espcpu :: u32
  r_ss :: u32

end
