(* ===== verification/Rbtree.thy ===== *)
theory Rbtree
  imports Prelude "HOL-Library.Tree"
begin

text \<open>
  The red-black tree template of \<open>include/lib/rbtree.h\<close>, with its nodes in a store: a node is an address,
  \<open>NIL\<close> is the sentinel, whose parent field \<open>_transplant\<close> overwrites. The comparison operators of the key
  type are parameters: \<open>lt a b\<close> is \<open>a < b\<close>, \<open>eq a b\<close> is \<open>a == b\<close>. Loops are \<open>option\<close> valued.
\<close>

section \<open>Nodes and trees\<close>

record 'a rbnode =
  rkey :: 'a
  red :: bool
  lc :: nat
  rc :: nat
  par :: nat

record 'a rbtree =
  nd :: "nat \<Rightarrow> 'a rbnode"
  root :: nat
  next_node :: nat
  rb_sz :: u32

definition NIL :: nat where "NIL = 0"

text \<open>The constructor does not initialise \<open>sz\<close>: \<open>sz0\<close> is what was there; \<open>k0\<close> is the key of the sentinel.\<close>

definition rb_new :: "'a \<Rightarrow> u32 \<Rightarrow> 'a rbtree" where
  "rb_new k0 sz0 = \<lparr>nd = (\<lambda>_. \<lparr>rkey = k0, red = False, lc = NIL, rc = NIL, par = NIL\<rparr>), root = NIL, next_node = 1, rb_sz = sz0\<rparr>"

text \<open>A direction is \<open>True\<close> for left; \<open>ch d\<close> is that child of a node.\<close>

definition ch :: "bool \<Rightarrow> 'a rbnode \<Rightarrow> nat" where "ch d n = (if d then lc n else rc n)"

definition set_ch :: "bool \<Rightarrow> nat \<Rightarrow> 'a rbnode \<Rightarrow> 'a rbnode" where
  "set_ch d v n = (if d then n\<lparr>lc := v\<rparr> else n\<lparr>rc := v\<rparr>)"

definition upd :: "nat \<Rightarrow> ('a rbnode \<Rightarrow> 'a rbnode) \<Rightarrow> 'a rbtree \<Rightarrow> 'a rbtree" where
  "upd x f t = t\<lparr>nd := (nd t)(x := f (nd t x))\<rparr>"

definition paint :: "nat \<Rightarrow> bool \<Rightarrow> 'a rbtree \<Rightarrow> 'a rbtree" where "paint x c t = upd x (\<lambda>n. n\<lparr>red := c\<rparr>) t"
definition set_par :: "nat \<Rightarrow> nat \<Rightarrow> 'a rbtree \<Rightarrow> 'a rbtree" where "set_par x p t = upd x (\<lambda>n. n\<lparr>par := p\<rparr>) t"

text \<open>Put \<open>y\<close> where \<open>x\<close> hangs below \<open>p\<close>, or at the root.\<close>

definition replace_child :: "nat \<Rightarrow> nat \<Rightarrow> nat \<Rightarrow> 'a rbtree \<Rightarrow> 'a rbtree" where
  "replace_child p x y t =
     (if p = NIL then t\<lparr>root := y\<rparr>
      else if x = lc (nd t p) then upd p (set_ch True y) t
      else upd p (set_ch False y) t)"

definition hang :: "nat \<Rightarrow> nat \<Rightarrow> 'a rbtree \<Rightarrow> 'a rbtree" where
  "hang x y t = replace_child (par (nd t x)) x y t"

definition adopt :: "nat \<Rightarrow> nat \<Rightarrow> 'a rbtree \<Rightarrow> 'a rbtree" where
  "adopt x y t = set_par y (par (nd t x)) t"

definition own_inner :: "bool \<Rightarrow> nat \<Rightarrow> nat \<Rightarrow> 'a rbtree \<Rightarrow> 'a rbtree" where
  "own_inner d x y t = (if ch d (nd t y) \<noteq> NIL then set_par (ch d (nd t y)) x t else t)"

text \<open>\<open>_l_rotate\<close> is \<open>rotate True\<close>, \<open>_r_rotate\<close> is \<open>rotate False\<close>; the statements run from the inside out.\<close>

definition rotate_with :: "bool \<Rightarrow> nat \<Rightarrow> nat \<Rightarrow> 'a rbtree \<Rightarrow> 'a rbtree" where
  "rotate_with d x y t =
     set_par x y (upd y (set_ch d x) (hang x y (adopt x y (own_inner d x y (upd x (set_ch (\<not> d) (ch d (nd t y))) t)))))"

definition rotate :: "bool \<Rightarrow> nat \<Rightarrow> 'a rbtree \<Rightarrow> 'a rbtree" where
  "rotate d x t = rotate_with d x (ch (\<not> d) (nd t x)) t"

section \<open>Searching\<close>

text \<open>\<open>node::min\<close> and \<open>node::max\<close>: \<open>y\<close> is the last node on the way.\<close>

partial_function (option) extreme :: "bool \<Rightarrow> 'a rbtree \<Rightarrow> nat \<Rightarrow> nat \<Rightarrow> nat option" where
  "extreme d t x y = (if x = NIL then Some y else extreme d t (ch d (nd t x)) x)"

definition node_min :: "'a rbtree \<Rightarrow> nat \<Rightarrow> nat option" where "node_min t x = extreme True t x NIL"
definition node_max :: "'a rbtree \<Rightarrow> nat \<Rightarrow> nat option" where "node_max t x = extreme False t x NIL"

partial_function (option) climb :: "bool \<Rightarrow> 'a rbtree \<Rightarrow> nat \<Rightarrow> nat \<Rightarrow> nat option" where
  "climb d t x y = (if y \<noteq> NIL \<and> x = ch d (nd t y) then climb d t y (par (nd t y)) else Some y)"

definition succ :: "'a rbtree \<Rightarrow> nat \<Rightarrow> nat option" where
  "succ t x =
     (if x = NIL then Some NIL
      else if rc (nd t x) \<noteq> NIL then node_min t (rc (nd t x))
      else climb False t x (par (nd t x)))"

definition pred :: "'a rbtree \<Rightarrow> nat \<Rightarrow> nat option" where
  "pred t x =
     (if x = NIL then Some NIL
      else if lc (nd t x) \<noteq> NIL then node_max t (lc (nd t x))
      else climb True t x (par (nd t x)))"

text \<open>\<open>find\<close>: \<open>ltk\<close> and \<open>eqk\<close> compare a key of the tree with what is searched.\<close>

partial_function (option) find_from :: "('a \<Rightarrow> 'k \<Rightarrow> bool) \<Rightarrow> ('a \<Rightarrow> 'k \<Rightarrow> bool) \<Rightarrow> 'a rbtree \<Rightarrow> 'k \<Rightarrow> nat \<Rightarrow> nat option" where
  "find_from ltk eqk t k x =
     (if x \<noteq> NIL \<and> \<not> eqk (rkey (nd t x)) k
      then find_from ltk eqk t k (if ltk (rkey (nd t x)) k then rc (nd t x) else lc (nd t x))
      else Some x)"

definition rb_find :: "('a \<Rightarrow> 'k \<Rightarrow> bool) \<Rightarrow> ('a \<Rightarrow> 'k \<Rightarrow> bool) \<Rightarrow> 'k \<Rightarrow> 'a rbtree \<Rightarrow> nat option" where
  "rb_find ltk eqk k t = find_from ltk eqk t k (root t)"

definition rb_contains :: "('a \<Rightarrow> 'k \<Rightarrow> bool) \<Rightarrow> ('a \<Rightarrow> 'k \<Rightarrow> bool) \<Rightarrow> 'k \<Rightarrow> 'a rbtree \<Rightarrow> bool option" where
  "rb_contains ltk eqk k t = map_option (\<lambda>x. x \<noteq> NIL) (rb_find ltk eqk k t)"

definition rb_min :: "'a rbtree \<Rightarrow> nat option" where "rb_min t = node_min t (root t)"
definition rb_max :: "'a rbtree \<Rightarrow> nat option" where "rb_max t = node_max t (root t)"

partial_function (option) bound_from :: "('a \<Rightarrow> 'a \<Rightarrow> bool) \<Rightarrow> ('a \<Rightarrow> 'a \<Rightarrow> bool) \<Rightarrow> 'a rbtree \<Rightarrow> 'a \<Rightarrow> nat \<Rightarrow> nat \<Rightarrow> (nat \<times> nat) option" where
  "bound_from lt eq t k x y =
     (if x \<noteq> NIL \<and> \<not> eq (rkey (nd t x)) k
      then bound_from lt eq t k (if lt k (rkey (nd t x)) then lc (nd t x) else rc (nd t x)) x
      else Some (x, y))"

definition lower_bound :: "('a \<Rightarrow> 'a \<Rightarrow> bool) \<Rightarrow> ('a \<Rightarrow> 'a \<Rightarrow> bool) \<Rightarrow> 'a \<Rightarrow> 'a rbtree \<Rightarrow> nat option" where
  "lower_bound lt eq k t = map_option (\<lambda>(x, y). if x = NIL then y else x) (bound_from lt eq t k (root t) NIL)"

definition upper_bound :: "('a \<Rightarrow> 'a \<Rightarrow> bool) \<Rightarrow> ('a \<Rightarrow> 'a \<Rightarrow> bool) \<Rightarrow> 'a \<Rightarrow> 'a rbtree \<Rightarrow> nat option" where
  "upper_bound lt eq k t = Option.bind (bound_from lt eq t k (root t) NIL) (\<lambda>(x, y). if x = NIL then Some y else succ t x)"

section \<open>Inserting\<close>

definition grand :: "'a rbtree \<Rightarrow> nat \<Rightarrow> nat" where "grand t z = par (nd t (par (nd t z)))"

definition paint_grand :: "nat \<Rightarrow> 'a rbtree \<Rightarrow> 'a rbtree" where "paint_grand z t = paint (grand t z) True t"

definition rotate_grand :: "bool \<Rightarrow> nat \<Rightarrow> 'a rbtree \<Rightarrow> 'a rbtree" where "rotate_grand a z t = rotate a (grand t z) t"

text \<open>One pass of \<open>__RBTREE_INSERT_FIX_DIR\<close>, where \<open>a\<close> is the side of the uncle: the node the next pass
  starts at, and the tree.\<close>

fun insert_rotate :: "bool \<Rightarrow> nat \<times> 'a rbtree \<Rightarrow> nat \<times> 'a rbtree" where
  "insert_rotate a (z, t) =
     (z, rotate_grand a z (paint_grand z (paint (par (nd t z)) False t)))"

definition insert_fix :: "bool \<Rightarrow> nat \<Rightarrow> nat \<Rightarrow> nat \<Rightarrow> 'a rbtree \<Rightarrow> nat \<times> 'a rbtree" where
  "insert_fix a z p y t =
     (if red (nd t y) then (z, paint (par (nd t p)) True (paint y False (paint p False t)))
      else insert_rotate a (if z = ch a (nd t p) then (p, rotate (\<not> a) p t) else (z, t)))"

definition insert_fix_dir :: "bool \<Rightarrow> nat \<Rightarrow> 'a rbtree \<Rightarrow> nat \<times> 'a rbtree" where
  "insert_fix_dir a z t = insert_fix a z (par (nd t z)) (ch a (nd t (grand t z))) t"

partial_function (option) insert_fixup_loop :: "nat \<Rightarrow> 'a rbtree \<Rightarrow> 'a rbtree option" where
  "insert_fixup_loop z t =
     (if red (nd t (par (nd t z))) then
        (case insert_fix_dir (par (nd t z) \<noteq> lc (nd t (grand t z))) z t of (z', t') \<Rightarrow> insert_fixup_loop z' t')
      else Some t)"

definition insert_fixup :: "nat \<Rightarrow> 'a rbtree \<Rightarrow> 'a rbtree option" where
  "insert_fixup z t = map_option (\<lambda>t'. paint (root t') False t') (insert_fixup_loop z t)"

text \<open>The descent of \<open>insert\<close>: \<open>Inl x\<close> when the key is at \<open>x\<close>, else \<open>Inr y\<close> with the last node.\<close>

partial_function (option) descend :: "('a \<Rightarrow> 'a \<Rightarrow> bool) \<Rightarrow> ('a \<Rightarrow> 'a \<Rightarrow> bool) \<Rightarrow> 'a rbtree \<Rightarrow> 'a \<Rightarrow> nat \<Rightarrow> nat \<Rightarrow> (nat + nat) option" where
  "descend lt eq t k x y =
     (if x \<noteq> NIL then
        if eq k (rkey (nd t x)) then Some (Inl x)
        else descend lt eq t k (if lt k (rkey (nd t x)) then lc (nd t x) else rc (nd t x)) x
      else Some (Inr y))"

definition attach :: "('a \<Rightarrow> 'a \<Rightarrow> bool) \<Rightarrow> 'a \<Rightarrow> nat \<Rightarrow> nat \<Rightarrow> 'a rbtree \<Rightarrow> 'a rbtree" where
  "attach lt k z y t =
     (if y = NIL then (set_par z y t)\<lparr>root := z\<rparr>
      else if lt k (rkey (nd t y)) then upd y (set_ch True z) (set_par z y t)
      else upd y (set_ch False z) (set_par z y t))"

definition new_rbnode :: "'a \<Rightarrow> 'a rbtree \<Rightarrow> 'a rbtree" where
  "new_rbnode k t =
     t\<lparr>nd := (nd t)(next_node t := \<lparr>rkey = k, red = True, lc = NIL, rc = NIL, par = NIL\<rparr>), next_node := Suc (next_node t)\<rparr>"

fun insert_at :: "('a \<Rightarrow> 'a \<Rightarrow> bool) \<Rightarrow> 'a \<Rightarrow> nat \<Rightarrow> 'a rbtree \<Rightarrow> nat + nat \<Rightarrow> (nat \<times> 'a rbtree) option" where
  "insert_at lt k z t (Inl x) = Some (x, t)"
| "insert_at lt k z t (Inr y) = map_option (\<lambda>u. (z, u\<lparr>rb_sz := rb_sz u + 1\<rparr>)) (insert_fixup z (attach lt k z y t))"

text \<open>The new node is made before the descent, and stays behind when the key is there already.\<close>

definition rb_insert :: "('a \<Rightarrow> 'a \<Rightarrow> bool) \<Rightarrow> ('a \<Rightarrow> 'a \<Rightarrow> bool) \<Rightarrow> 'a \<Rightarrow> 'a rbtree \<Rightarrow> (nat \<times> 'a rbtree) option" where
  "rb_insert lt eq k t =
     Option.bind (descend lt eq (new_rbnode k t) k (root t) NIL) (insert_at lt k (next_node t) (new_rbnode k t))"

section \<open>Erasing\<close>

definition transplant :: "nat \<Rightarrow> nat \<Rightarrow> 'a rbtree \<Rightarrow> 'a rbtree" where
  "transplant u v t = adopt u v (hang u v t)"

text \<open>One pass of \<open>__RBTREE_REMOVE_FIX_DIR\<close>, where \<open>a\<close> is the side of the sibling \<open>w\<close>.\<close>

definition sibling :: "bool \<Rightarrow> nat \<Rightarrow> 'a rbtree \<Rightarrow> nat" where
  "sibling a x t = ch a (nd t (par (nd t x)))"

definition red_sibling :: "bool \<Rightarrow> nat \<Rightarrow> nat \<Rightarrow> 'a rbtree \<Rightarrow> 'a rbtree" where
  "red_sibling a p w t = (if red (nd t w) then rotate (\<not> a) p (paint p True (paint w False t)) else t)"

definition inner_red :: "bool \<Rightarrow> nat \<Rightarrow> 'a rbtree \<Rightarrow> 'a rbtree" where
  "inner_red a w t =
     (if \<not> red (nd t (ch a (nd t w))) then rotate a w (paint w True (paint (ch (\<not> a) (nd t w)) False t)) else t)"

definition paint_child :: "bool \<Rightarrow> nat \<Rightarrow> 'a rbtree \<Rightarrow> 'a rbtree" where
  "paint_child a w t = paint (ch a (nd t w)) False t"

definition outer_red :: "bool \<Rightarrow> nat \<Rightarrow> nat \<Rightarrow> 'a rbtree \<Rightarrow> 'a rbtree" where
  "outer_red a p w t =
     rotate (\<not> a) p (paint_child a w (paint p False (paint w (red (nd t p)) t)))"

definition last_fix :: "bool \<Rightarrow> nat \<Rightarrow> 'a rbtree \<Rightarrow> 'a rbtree" where
  "last_fix a x t = outer_red a (par (nd t x)) (sibling a x t) t"

definition from_root :: "'a rbtree \<Rightarrow> nat \<times> 'a rbtree" where "from_root t = (root t, t)"

definition remove_fix :: "bool \<Rightarrow> nat \<Rightarrow> nat \<Rightarrow> 'a rbtree \<Rightarrow> nat \<times> 'a rbtree" where
  "remove_fix a x w t =
     (if \<not> red (nd t (lc (nd t w))) \<and> \<not> red (nd t (rc (nd t w))) then (par (nd t x), paint w True t)
      else from_root (last_fix a x (inner_red a w t)))"

definition remove_fix_sibling :: "bool \<Rightarrow> nat \<Rightarrow> 'a rbtree \<Rightarrow> nat \<times> 'a rbtree" where
  "remove_fix_sibling a x t = remove_fix a x (sibling a x t) t"

definition remove_fix_dir :: "bool \<Rightarrow> nat \<Rightarrow> 'a rbtree \<Rightarrow> nat \<times> 'a rbtree" where
  "remove_fix_dir a x t =
     remove_fix_sibling a x (red_sibling a (par (nd t x)) (sibling a x t) t)"

partial_function (option) remove_fixup_loop :: "nat \<Rightarrow> 'a rbtree \<Rightarrow> (nat \<times> 'a rbtree) option" where
  "remove_fixup_loop x t =
     (if x \<noteq> root t \<and> \<not> red (nd t x) then
        (case remove_fix_dir (x \<noteq> lc (nd t (par (nd t x)))) x t of (x', t') \<Rightarrow> remove_fixup_loop x' t')
      else Some (x, t))"

definition remove_fixup :: "nat \<Rightarrow> 'a rbtree \<Rightarrow> 'a rbtree option" where
  "remove_fixup x t = map_option (\<lambda>(x', t'). paint x' False t') (remove_fixup_loop x t)"

text \<open>Moving the minimum \<open>y\<close> of the right subtree to the place of \<open>z\<close>.\<close>

definition own_child :: "bool \<Rightarrow> nat \<Rightarrow> 'a rbtree \<Rightarrow> 'a rbtree" where
  "own_child d y t = set_par (ch d (nd t y)) y t"

definition graft :: "bool \<Rightarrow> nat \<Rightarrow> nat \<Rightarrow> 'a rbtree \<Rightarrow> 'a rbtree" where
  "graft d z y t = own_child d y (upd y (set_ch d (ch d (nd t z))) t)"

definition take_min :: "nat \<Rightarrow> nat \<Rightarrow> 'a rbtree \<Rightarrow> 'a rbtree" where
  "take_min z y t =
     (if par (nd t y) = z then set_par (rc (nd t y)) y t
      else graft False z y (transplant y (rc (nd t y)) t))"

definition take_color :: "nat \<Rightarrow> nat \<Rightarrow> 'a rbtree \<Rightarrow> 'a rbtree" where
  "take_color z y t = paint y (red (nd t z)) t"

text \<open>Taking \<open>z\<close> out: the colour that was lost, the node that moved up, the tree.\<close>

definition unlink_min :: "nat \<Rightarrow> 'a rbtree \<Rightarrow> nat \<Rightarrow> bool \<times> nat \<times> 'a rbtree" where
  "unlink_min z t y =
     (red (nd t y), rc (nd t y), take_color z y (graft True z y (transplant z y (take_min z y t))))"

definition unlink :: "nat \<Rightarrow> 'a rbtree \<Rightarrow> (bool \<times> nat \<times> 'a rbtree) option" where
  "unlink z t =
     (if lc (nd t z) = NIL then Some (red (nd t z), rc (nd t z), transplant z (rc (nd t z)) t)
      else if rc (nd t z) = NIL then Some (red (nd t z), lc (nd t z), transplant z (lc (nd t z)) t)
      else map_option (unlink_min z t) (node_min t (rc (nd t z))))"

fun erase_end :: "bool \<times> nat \<times> 'a rbtree \<Rightarrow> 'a rbtree option" where
  "erase_end (c, x, t) = map_option (\<lambda>u. u\<lparr>rb_sz := rb_sz u - 1\<rparr>) (if \<not> c then remove_fixup x t else Some t)"

definition rb_erase :: "nat \<Rightarrow> 'a rbtree \<Rightarrow> 'a rbtree option" where
  "rb_erase z t = (if z = NIL then Some t else Option.bind (unlink z t) erase_end)"

definition rb_size :: "'a rbtree \<Rightarrow> u32" where "rb_size t = rb_sz t"
definition rb_empty :: "'a rbtree \<Rightarrow> bool" where "rb_empty t \<longleftrightarrow> rb_sz t = 0"

section \<open>The tree behind the nodes\<close>

text \<open>The shape of a tree is a tree of addresses.\<close>

fun rt :: "nat tree \<Rightarrow> nat" where
  "rt Leaf = NIL"
| "rt (Node l a r) = a"

fun links :: "'a rbtree \<Rightarrow> nat \<Rightarrow> nat tree \<Rightarrow> nat \<Rightarrow> bool" where
  "links t p Leaf x \<longleftrightarrow> x = NIL"
| "links t p (Node l a r) x \<longleftrightarrow> x = a \<and> a \<noteq> NIL \<and> par (nd t a) = p \<and> links t a l (lc (nd t a)) \<and> links t a r (rc (nd t a))"

text \<open>The node \<open>a\<close> with the subtree \<open>s\<close> on the side \<open>d\<close> and \<open>s'\<close> on the other; contexts are lists of
  such nodes with one subtree missing, the innermost first.\<close>

definition dnode :: "bool \<Rightarrow> nat tree \<Rightarrow> nat \<Rightarrow> nat tree \<Rightarrow> nat tree" where
  "dnode d s a s' = (if d then Node s a s' else Node s' a s)"

type_synonym ctx = "(bool \<times> nat \<times> nat tree) list"

fun plug :: "ctx \<Rightarrow> nat tree \<Rightarrow> nat tree" where
  "plug [] s = s"
| "plug ((d, a, s') # C) s = plug C (dnode d s a s')"

fun top :: "ctx \<Rightarrow> nat" where
  "top [] = NIL"
| "top ((d, a, s') # C) = a"

fun clinks :: "'a rbtree \<Rightarrow> ctx \<Rightarrow> nat \<Rightarrow> bool" where
  "clinks t [] x \<longleftrightarrow> root t = x"
| "clinks t ((d, a, s') # C) x \<longleftrightarrow> a \<noteq> NIL \<and> ch d (nd t a) = x \<and> links t a s' (ch (\<not> d) (nd t a)) \<and>
     par (nd t a) = top C \<and> clinks t C a"

fun cset :: "ctx \<Rightarrow> nat set" where
  "cset [] = {}"
| "cset ((d, a, s') # C) = insert a (set_tree s' \<union> cset C)"

lemma links_rt: "links t p s x \<Longrightarrow> x = rt s"
  by (cases s) auto

lemma links_nonnil: "links t p s x \<Longrightarrow> NIL \<notin> set_tree s"
  by (induction s arbitrary: p x) auto

lemma rt_in: "s \<noteq> Leaf \<Longrightarrow> rt s \<in> set_tree s"
  by (cases s) auto

lemma rt_NIL: "links t p s x \<Longrightarrow> rt s = NIL \<longleftrightarrow> s = Leaf"
  by (cases s) auto

lemma rt_dnode [simp]: "rt (dnode d s a s') = a"
  by (simp add: dnode_def)

lemma set_dnode [simp]: "set_tree (dnode d s a s') = insert a (set_tree s \<union> set_tree s')"
  by (auto simp: dnode_def)

lemma dnode_swap: "dnode (\<not> d) s a s' = dnode d s' a s"
  by (simp add: dnode_def)

lemma links_dnode [simp]:
  "links t p (dnode d s a s') x \<longleftrightarrow> x = a \<and> a \<noteq> NIL \<and> par (nd t a) = p \<and> links t a s (ch d (nd t a)) \<and> links t a s' (ch (\<not> d) (nd t a))"
  by (auto simp: dnode_def ch_def)

lemma links_plug: "links t NIL (plug C s) (root t) \<longleftrightarrow> clinks t C (rt s) \<and> links t (top C) s (rt s)"
proof (induction C s rule: plug.induct)
  case (1 s)
  then show ?case by (metis clinks.simps(1) links_rt plug.simps(1) top.simps(1))
qed (auto dest: links_rt)

lemma set_plug: "set_tree (plug C s) = cset C \<union> set_tree s"
  by (induction C s rule: plug.induct) auto

lemma inorder_dnode: "inorder (dnode d s a s') = (if d then inorder s @ a # inorder s' else inorder s' @ a # inorder s)"
  by (simp add: dnode_def)

fun before :: "ctx \<Rightarrow> nat list" where
  "before [] = []"
| "before ((d, a, s') # C) = before C @ (if d then [] else inorder s' @ [a])"

fun after :: "ctx \<Rightarrow> nat list" where
  "after [] = []"
| "after ((d, a, s') # C) = (if d then a # inorder s' else []) @ after C"

lemma inorder_plug: "inorder (plug C s) = before C @ inorder s @ after C"
  by (induction C s rule: plug.induct) (auto simp: dnode_def)

lemma set_before_after: "set (before C) \<union> set (after C) = cset C"
  by (induction C rule: before.induct) auto

lemma plug_at: "x \<in> set_tree s \<Longrightarrow> \<exists>C l r. plug C (Node l x r) = s"
proof (induction s)
  case (Node l a r)
  have app: "plug (C @ [(d, b, s')]) u = dnode d (plug C u) b s'" for C d b s' u
    by (induction C u rule: plug.induct) auto
  consider "x = a" | "x \<in> set_tree l" | "x \<in> set_tree r" using Node.prems by auto
  then show ?case
  proof cases
    case 1
    then show ?thesis by (intro exI [of _ "[]"]) auto
  next
    case 2
    then obtain C l' r' where "plug C (Node l' x r') = l" using Node.IH(1) by blast
    then have "plug (C @ [(True, a, r)]) (Node l' x r') = Node l a r" by (simp add: app dnode_def)
    then show ?thesis by blast
  next
    case 3
    then obtain C l' r' where "plug C (Node l' x r') = r" using Node.IH(2) by blast
    then have "plug (C @ [(False, a, l)]) (Node l' x r') = Node l a r" by (simp add: app dnode_def)
    then show ?thesis by blast
  qed
qed simp

lemma distinct_split_unique: "A @ x # B = A' @ x # B' \<Longrightarrow> distinct (A @ x # B) \<Longrightarrow> A = A' \<and> B = B'"
proof (induction A arbitrary: A')
  case Nil
  then show ?case by (cases A') auto
next
  case (Cons a A)
  then show ?case by (cases A') auto
qed

text \<open>Two trees agree on the pointers of a node.\<close>

definition same :: "'a rbtree \<Rightarrow> 'a rbtree \<Rightarrow> nat \<Rightarrow> bool" where
  "same t t' a \<longleftrightarrow> lc (nd t' a) = lc (nd t a) \<and> rc (nd t' a) = rc (nd t a) \<and> par (nd t' a) = par (nd t a)"

lemma links_same: "links t p s x \<Longrightarrow> (\<And>a. a \<in> set_tree s \<Longrightarrow> same t t' a) \<Longrightarrow> links t' p s x"
  by (induction s arbitrary: p x) (auto simp: same_def)

lemma links_reparent:
  assumes "links t p s x" "\<And>a. a \<in> set_tree s \<Longrightarrow> a \<noteq> x \<Longrightarrow> same t t' a"
    and "x \<noteq> NIL \<Longrightarrow> lc (nd t' x) = lc (nd t x) \<and> rc (nd t' x) = rc (nd t x) \<and> par (nd t' x) = p'"
    and "distinct (inorder s)"
  shows "links t' p' s x"
proof (cases s)
  case (Node l a r)
  then have x: "x = a" "a \<noteq> NIL" "links t a l (lc (nd t a))" "links t a r (rc (nd t a))" using assms(1) by auto
  have "a \<notin> set_tree l" "a \<notin> set_tree r" using assms(4) Node by auto
  then have "links t' a l (lc (nd t a))" "links t' a r (rc (nd t a))"
    using x(1) Node assms(2) by (auto intro!: links_same [OF x(3)] links_same [OF x(4)])
  then show ?thesis using assms(3) x Node by simp
qed (use assms(1) in simp)

lemma clinks_same:
  "clinks t C x \<Longrightarrow> root t' = root t \<Longrightarrow> (\<And>a. a \<in> cset C \<Longrightarrow> same t t' a) \<Longrightarrow> clinks t' C x"
proof (induction C arbitrary: x)
  case (Cons f C)
  obtain d a s' where f: "f = (d, a, s')" by (cases f)
  have "same t t' a" using Cons.prems(3) f by simp
  moreover have "links t' a s' (ch (\<not> d) (nd t a))" using Cons.prems f by (auto intro: links_same)
  ultimately show ?case using Cons f by (auto simp: same_def ch_def)
qed simp

text \<open>Hanging another node below a context.\<close>

lemma clinks_swap:
  assumes "clinks t C x" "distinct (before C @ after C)"
    and "\<And>a. a \<in> cset C \<Longrightarrow> a \<noteq> top C \<Longrightarrow> same t t' a"
    and "C = [] \<Longrightarrow> root t' = x'" "C \<noteq> [] \<Longrightarrow> root t' = root t"
    and "\<And>d a s' D. C = (d, a, s') # D \<Longrightarrow>
      ch d (nd t' a) = x' \<and> ch (\<not> d) (nd t' a) = ch (\<not> d) (nd t a) \<and> par (nd t' a) = par (nd t a)"
  shows "clinks t' C x'"
proof (cases C)
  case (Cons f D)
  obtain d a s' where f: "f = (d, a, s')" by (cases f)
  have a: "a \<noteq> NIL" "links t a s' (ch (\<not> d) (nd t a))" "par (nd t a) = top D" "clinks t D a"
    using assms(1) Cons f by auto
  have ni: "a \<notin> set_tree s'" "a \<notin> cset D"
    using assms(2) Cons f set_before_after [of D] by (auto split: if_splits)
  have "links t' a s' (ch (\<not> d) (nd t a))" using a(2) assms(3) Cons f ni(1) by (intro links_same [OF a(2)]) auto
  moreover have "clinks t' D a" using assms(3,5) Cons f ni(2) by (intro clinks_same [OF a(4)]) auto
  ultimately show ?thesis using Cons f a assms(6) by auto
qed (use assms in simp)

section \<open>Rotations\<close>

lemma ch_set_ch [simp]:
  "ch d (set_ch d v n) = v" "ch (\<not> d) (set_ch d v n) = ch (\<not> d) n" "ch d (set_ch (\<not> d) v n) = ch d n"
  "par (set_ch e v n) = par n" "red (set_ch e v n) = red n" "rkey (set_ch e v n) = rkey n"
  by (simp_all add: ch_def set_ch_def)

lemma ch_upd [simp]:
  "ch d (n\<lparr>par := p\<rparr>) = ch d n" "ch d (n\<lparr>red := c\<rparr>) = ch d n"
  by (simp_all add: ch_def)

lemma upd_simps [simp]:
  "nd (upd x f t) a = (if a = x then f (nd t x) else nd t a)" "root (upd x f t) = root t"
  "next_node (upd x f t) = next_node t" "rb_sz (upd x f t) = rb_sz t"
  by (simp_all add: upd_def)

lemma paint_simps [simp]:
  "nd (paint x c t) a = (if a = x then (nd t x)\<lparr>red := c\<rparr> else nd t a)" "root (paint x c t) = root t"
  "next_node (paint x c t) = next_node t" "rb_sz (paint x c t) = rb_sz t"
  by (simp_all add: paint_def)

lemma set_par_simps [simp]:
  "nd (set_par x p t) a = (if a = x then (nd t x)\<lparr>par := p\<rparr> else nd t a)" "root (set_par x p t) = root t"
  "next_node (set_par x p t) = next_node t" "rb_sz (set_par x p t) = rb_sz t"
  by (simp_all add: set_par_def)

text \<open>A located tree: the pointers of the tree \<open>t\<close> are the context \<open>C\<close> around \<open>s\<close>.\<close>

definition located :: "'a rbtree \<Rightarrow> ctx \<Rightarrow> nat tree \<Rightarrow> bool" where
  "located t C s \<longleftrightarrow> clinks t C (rt s) \<and> links t (top C) s (rt s) \<and> distinct (before C @ inorder s @ after C)"

lemma located_plug: "located t C s \<longleftrightarrow> links t NIL (plug C s) (root t) \<and> distinct (inorder (plug C s))"
  by (simp add: located_def links_plug inorder_plug)

lemma located_whole: "located t C s \<Longrightarrow> located t [] (plug C s)"
  by (simp add: located_plug)

lemma located_down: "located t C (dnode d s a s') \<longleftrightarrow> located t ((d, a, s') # C) s"
  by (simp add: located_plug)

lemma located_top:
  assumes "located t ((d, a, s') # C) s"
  shows "a \<noteq> NIL" "ch d (nd t a) = rt s" "ch (\<not> d) (nd t a) = rt s'" "par (nd t a) = top C"
    "rt s = a \<Longrightarrow> False" "s \<noteq> Leaf \<Longrightarrow> rt s \<noteq> rt s'"
proof -
  show "a \<noteq> NIL" "ch d (nd t a) = rt s" "par (nd t a) = top C" using assms by (auto simp: located_def)
  show "ch (\<not> d) (nd t a) = rt s'" using assms links_rt by (fastforce simp: located_def)
  have di: "a \<notin> set_tree s" "set_tree s \<inter> set_tree s' = {}" using assms by (auto simp: located_def split: if_splits)
  show False if "rt s = a" using that di(1) \<open>a \<noteq> NIL\<close> rt_in [of s] by (cases s) auto
  show "rt s \<noteq> rt s'" if "s \<noteq> Leaf"
  proof -
    have "rt s \<noteq> NIL" using assms that rt_NIL by (auto simp: located_def)
    then show ?thesis using di(2) that rt_in [of s] rt_in [of s'] by (cases s') auto
  qed
qed

text \<open>What hangs below the parent of \<open>x\<close> after \<open>hang x y\<close>.\<close>

lemma hang_simps:
  assumes "clinks t C x" "par (nd t x) = top C" "distinct (before C @ after C)" "x \<noteq> NIL" "x \<notin> cset C"
  shows "nd (hang x y t) a = (case C of [] \<Rightarrow> nd t a | (d, b, s) # D \<Rightarrow> if a = b then set_ch d y (nd t b) else nd t a)"
    and "root (hang x y t) = (if C = [] then y else root t)"
    and "next_node (hang x y t) = next_node t" "rb_sz (hang x y t) = rb_sz t"
proof -
  have d: "d \<longleftrightarrow> x = lc (nd t b)" "b \<noteq> NIL" if "C = (d, b, s) # D" for d b s D
  proof -
    have l: "ch d (nd t b) = x" "links t b s (ch (\<not> d) (nd t b))" "b \<noteq> NIL" using assms(1) that by auto
    show "b \<noteq> NIL" by (rule l(3))
    have "x \<notin> set_tree s" using assms(5) that by simp
    then have "ch (\<not> d) (nd t b) \<noteq> x" using links_rt [OF l(2)] rt_in [of s] assms(4) by (cases s) auto
    then show "d \<longleftrightarrow> x = lc (nd t b)" using l(1) by (auto simp: ch_def split: if_splits)
  qed
  show "nd (hang x y t) a = (case C of [] \<Rightarrow> nd t a | (d, b, s) # D \<Rightarrow> if a = b then set_ch d y (nd t b) else nd t a)"
    using assms(2) d by (auto simp: hang_def replace_child_def split: list.splits)
  show "root (hang x y t) = (if C = [] then y else root t)"
    using assms(2) d by (cases C) (auto simp: hang_def replace_child_def)
  show "next_node (hang x y t) = next_node t" "rb_sz (hang x y t) = rb_sz t"
    by (simp_all add: hang_def replace_child_def)
qed

text \<open>Everything but the pointers is as before.\<close>

definition same_data :: "'a rbtree \<Rightarrow> 'a rbtree \<Rightarrow> bool" where
  "same_data t t' \<longleftrightarrow> (\<forall>a. rkey (nd t' a) = rkey (nd t a) \<and> red (nd t' a) = red (nd t a)) \<and>
     next_node t' = next_node t \<and> rb_sz t' = rb_sz t"

lemma rotate_located:
  assumes "located t C (dnode d A x (dnode d B y D))"
  shows "located (rotate d x t) C (dnode d (dnode d A x B) y D)"
    and "same_data t (rotate d x t)" "nd (rotate d x t) NIL = nd t NIL"
proof -
  let ?b = "rt B"
  have l: "clinks t C x" "x \<noteq> NIL" "y \<noteq> NIL" "par (nd t x) = top C" "par (nd t y) = x" "ch (\<not> d) (nd t x) = y"
    "links t x A (ch d (nd t x))" "links t y B (ch d (nd t y))" "links t y D (ch (\<not> d) (nd t y))"
    using assms by (auto simp: located_def)
  have dist: "distinct (before C @ inorder A @ x # inorder B @ y # inorder D @ after C)"
    using assms by (auto simp: located_def inorder_dnode split: if_splits)
  note b = links_rt [OF l(8)]
  have ni: "x \<notin> cset C" "y \<notin> cset C" "x \<noteq> y" "set_tree B \<inter> cset C = {}" "x \<notin> set_tree A" "y \<notin> set_tree A"
    "x \<notin> set_tree B" "y \<notin> set_tree B" "x \<notin> set_tree D" "y \<notin> set_tree D" "set_tree B \<inter> set_tree A = {}"
    "set_tree B \<inter> set_tree D = {}" "set_tree A \<inter> cset C = {}" "set_tree D \<inter> cset C = {}"
    using dist by (auto simp flip: set_before_after)
  have dC: "distinct (before C @ after C)" "distinct (inorder B)" using dist by auto
  have bB: "?b \<noteq> NIL \<Longrightarrow> ?b \<in> set_tree B" using rt_in [of B] by (cases B) auto
  then have bn: "?b \<noteq> x" "?b \<noteq> y" "?b \<notin> cset C" if "?b \<noteq> NIL" using that ni by auto
  have bx: "?b \<noteq> x" "?b \<noteq> y" using bn l(2,3) by auto
  have bAD: "?b \<notin> set_tree A" "?b \<notin> set_tree D"
    using bB ni(11,12) links_nonnil [OF l(7)] links_nonnil [OF l(9)] by (cases "?b = NIL"; auto)+
  define t3 where "t3 = adopt x y (own_inner d x y (upd x (set_ch (\<not> d) ?b) t))"
  have n3: "nd t3 a = (if a = x then set_ch (\<not> d) ?b (nd t x) else if a = y then (nd t y)\<lparr>par := top C\<rparr>
      else if a = ?b \<and> ?b \<noteq> NIL then (nd t a)\<lparr>par := x\<rparr> else nd t a)" for a
    using l(4) ni(3) bx b by (auto simp: t3_def adopt_def own_inner_def)
  have r3: "root t3 = root t" "next_node t3 = next_node t" "rb_sz t3 = rb_sz t"
    by (simp_all add: t3_def adopt_def own_inner_def)
  have "same t t3 a" if "a \<in> cset C" for a using that ni(1,2) bn(3) by (auto simp: same_def n3)
  then have c3: "clinks t3 C x" by (intro clinks_same [OF l(1) r3(1)])
  have p3: "par (nd t3 x) = top C" using l(4) by (simp add: n3)
  note h = hang_simps [OF c3 p3 dC(1) l(2) ni(1), of y]
  have topC: "top C \<noteq> x" "top C \<noteq> y" "top C \<noteq> NIL \<Longrightarrow> top C \<in> cset C" using ni(1,2) l(2,3) by (cases C; auto)+
  let ?t' = "rotate d x t"
  have t': "?t' = set_par x y (upd y (set_ch d x) (hang x y t3))"
    using l(6) b by (simp add: rotate_def rotate_with_def t3_def)
  have nx: "nd ?t' x = (set_ch (\<not> d) ?b (nd t x))\<lparr>par := y\<rparr>" "nd ?t' y = set_ch d x ((nd t y)\<lparr>par := top C\<rparr>)"
    using ni(1-3) by (auto simp: t' h(1) n3 split: list.splits)
  have no: "nd ?t' a = (case C of [] \<Rightarrow> nd t3 a | (e, c, s) # E \<Rightarrow> if a = c then set_ch e y (nd t3 c) else nd t3 a)"
    if "a \<noteq> x" "a \<noteq> y" for a using that by (simp add: t' h(1))
  have nb: "nd ?t' a = nd t a" if "a \<noteq> x" "a \<noteq> y" "a \<notin> cset C" "a \<noteq> ?b" for a
    using that by (auto simp: no n3 split: list.splits)
  have nbb: "nd ?t' ?b = (nd t ?b)\<lparr>par := x\<rparr>" if "?b \<noteq> NIL"
    using bn [OF that] that by (auto simp: no n3 split: list.splits)
  have "rkey (nd ?t' a) = rkey (nd t a) \<and> red (nd ?t' a) = red (nd t a)" for a
    using nx by (cases "a = x"; cases "a = y") (auto simp: no n3 split: list.splits)
  moreover have "next_node ?t' = next_node t" "rb_sz ?t' = rb_sz t" by (simp_all add: t' h(3,4) r3)
  ultimately show "same_data t ?t'" by (simp add: same_data_def)
  show "nd ?t' NIL = nd t NIL"
    using l(2,3) c3 by (auto simp: no n3 split: list.splits)
  have A: "links ?t' x A (ch d (nd t x))"
    using bAD ni by (intro links_same [OF l(7)]) (auto simp: same_def intro!: arg_cong [OF nb])
  have D: "links ?t' y D (ch (\<not> d) (nd t y))"
    using bAD ni by (intro links_same [OF l(9)]) (auto simp: same_def intro!: arg_cong [OF nb])
  have B: "links ?t' x B ?b"
  proof (rule links_reparent [OF l(8) [unfolded b]])
    show "same t ?t' a" if "a \<in> set_tree B" "a \<noteq> ?b" for a
    proof -
      have "nd ?t' a = nd t a" using that ni by (intro nb) auto
      then show ?thesis by (simp add: same_def)
    qed
  qed (use nbb dC(2) in auto)
  have C: "clinks ?t' C y"
  proof (rule clinks_swap [OF l(1) dC(1)])
    show "same t ?t' a" if "a \<in> cset C" "a \<noteq> top C" for a
    proof -
      have ne: "a \<noteq> x" "a \<noteq> y" "a = ?b \<Longrightarrow> ?b = NIL" using that(1) ni(1,2) bn(3) by auto
      show ?thesis using ne that(2) by (auto simp: same_def no [OF ne(1,2)] n3 split: list.splits)
    qed
    show "C = [] \<Longrightarrow> root ?t' = y" "C \<noteq> [] \<Longrightarrow> root ?t' = root t" by (simp_all add: t' h(2) r3(1))
    show "ch e (nd ?t' c) = y \<and> ch (\<not> e) (nd ?t' c) = ch (\<not> e) (nd t c) \<and> par (nd ?t' c) = par (nd t c)"
      if "C = (e, c, s) # E" for e c s E
      using that ni(1,2) bn(3) l(1) by (auto simp: no n3)
  qed
  show "located ?t' C (dnode d (dnode d A x B) y D)"
    using A B C D l(2,3) dist by (auto simp: located_def nx inorder_dnode)
qed

text \<open>Painting does not move anything.\<close>

lemma located_paint: "located t C s \<Longrightarrow> located (paint x c t) C s"
proof -
  have s: "same t (paint x c t) a" for a by (simp add: same_def)
  assume "located t C s"
  then show ?thesis
    unfolding located_def by (intro conjI) (auto intro: clinks_same [OF _ _ s] links_same [OF _ s])
qed

section \<open>The fix-up after an insertion\<close>

text \<open>The keys, the sentinel's colour and the counters survive.\<close>

definition kept :: "'a rbtree \<Rightarrow> 'a rbtree \<Rightarrow> bool" where
  "kept t t' \<longleftrightarrow> (\<forall>a. rkey (nd t' a) = rkey (nd t a)) \<and> next_node t' = next_node t \<and> rb_sz t' = rb_sz t \<and>
     (\<not> red (nd t NIL) \<longrightarrow> \<not> red (nd t' NIL))"

lemma kept_refl [simp]: "kept t t" by (simp add: kept_def)

lemma kept_trans: "kept t u \<Longrightarrow> kept u v \<Longrightarrow> kept t v" by (simp add: kept_def)

lemma kept_rotate: "same_data t t' \<Longrightarrow> kept t t'" by (simp add: kept_def same_data_def)

lemma kept_paint: "x \<noteq> NIL \<or> \<not> c \<Longrightarrow> kept t (paint x c t)" by (auto simp: kept_def)

text \<open>The single rotation: \<open>z\<close> and its parent \<open>p\<close> are on the same side.\<close>

lemma insert_rotate_ok:
  assumes "located t ((d, p, s') # (d, g, s'') # C) s" "z = rt s" "s \<noteq> Leaf"
  shows "\<exists>t'. insert_rotate (\<not> d) (z, t) = (z, t') \<and> located t' C (dnode (\<not> d) (dnode (\<not> d) s'' g s') p s) \<and>
    kept t t' \<and> par (nd t' z) = p \<and> \<not> red (nd t' p)"
proof -
  have lp: "located t ((d, g, s'') # C) (dnode d s p s')" using assms(1) by (simp add: located_down)
  have z: "par (nd t z) = p" "z \<noteq> NIL" "z \<noteq> p" "z \<noteq> g" "p \<noteq> g" "p \<noteq> NIL" "g \<noteq> NIL" "par (nd t p) = g"
    using assms by (cases s; auto simp: located_def split: if_splits)+
  define u where "u = paint g True (paint p False t)"
  have gr: "grand (paint p False t) z = g" "grand u z = g" using z by (simp_all add: grand_def u_def)
  have "located u C (dnode (\<not> d) s'' g (dnode (\<not> d) s' p s))"
    using lp unfolding u_def by (intro located_paint) (simp add: located_down [symmetric] dnode_swap)
  note r = rotate_located [OF this]
  have "insert_rotate (\<not> d) (z, t) = (z, rotate (\<not> d) g u)"
    using z(1) gr by (simp add: paint_grand_def rotate_grand_def u_def)
  moreover have "kept t u" using z by (auto simp: kept_def u_def)
  then have "kept t (rotate (\<not> d) g u)" using kept_rotate [OF r(2)] kept_trans by blast
  moreover have "\<not> red (nd (rotate (\<not> d) g u) p)" using r(2) z(5) by (simp add: same_data_def u_def)
  moreover have "par (nd (rotate (\<not> d) g u) z) = p"
    using r(1) assms(2,3) by (cases s) (auto simp: located_def)
  ultimately show ?thesis using r(1) by blast
qed

lemma insert_fixup_loop_stop: "\<not> red (nd t (par (nd t z))) \<Longrightarrow> insert_fixup_loop z t = Some t"
  by (subst insert_fixup_loop.simps) simp

lemma insert_fixup_loop_ok:
  assumes loc: "located t C s" and s: "s \<noteq> Leaf" and nil: "\<not> red (nd t NIL)" and rb: "C \<noteq> [] \<Longrightarrow> \<not> red (nd t (root t))"
  shows "\<exists>t' T'. insert_fixup_loop (rt s) t = Some t' \<and> located t' [] T' \<and> inorder T' = before C @ inorder s @ after C \<and> kept t t'"
proof (cases "red (nd t (top C))")
  case False
  have "par (nd t (rt s)) = top C" using loc s by (cases s) (auto simp: located_def)
  then show ?thesis using False loc insert_fixup_loop_stop [of t "rt s"]
    by (intro exI [of _ t] exI [of _ "plug C s"]) (simp add: located_plug inorder_plug)
next
  case True
  let ?z = "rt s"
  obtain d1 p s1 C1 where C: "C = (d1, p, s1) # C1" using True nil by (cases C) auto
  then have p: "red (nd t p)" using True by simp
  obtain d g s2 C2 where C1: "C1 = (d, g, s2) # C2"
  proof (cases C1)
    case Nil
    then have "root t = p" using loc C by (simp add: located_def)
    then show ?thesis using p rb C by simp
  qed auto
  have l1: "located t ((d, g, s2) # C2) (dnode d1 s p s1)" using loc C C1 by (simp add: located_down)
  note g = located_top [OF l1]
  have pz: "par (nd t ?z) = p" "p \<noteq> NIL" "par (nd t p) = g" "p \<noteq> g"
    using loc C C1 s by (cases s; auto simp: located_def split: if_splits)+
  have side: "(p \<noteq> lc (nd t g)) = (\<not> d)"
    using g(2,3,6) by (auto simp: ch_def dnode_def split: if_splits)
  have loop: "insert_fixup_loop ?z t = (case insert_fix (\<not> d) ?z p (rt s2) t of (z', t') \<Rightarrow> insert_fixup_loop z' t')"
    using p pz side g(3) by (subst insert_fixup_loop.simps) (simp add: insert_fix_dir_def grand_def)
  have io: "inorder (plug C s) = before C @ inorder s @ after C" by (rule inorder_plug)
  show ?thesis
  proof (cases "red (nd t (rt s2))")
    case red: True
    then have y: "rt s2 \<noteq> NIL" using nil by auto
    let ?t' = "paint g True (paint (rt s2) False (paint p False t))"
    have "par (nd ?t' a) = par (nd t a)" for a by simp
    then have "par (nd ?t' ?z) = p" "\<not> red (nd ?t' p)" using pz(1,4) by simp_all
    then have "insert_fixup_loop ?z t = Some ?t'"
      using red pz(3) insert_fixup_loop_stop [of ?t' ?z] by (simp add: loop insert_fix_def)
    moreover have "located ?t' [] (plug C s)" by (intro located_paint located_whole [OF loc])
    moreover have "kept t ?t'" using g(1) by (auto simp: kept_def)
    ultimately show ?thesis using io by blast
  next
    case black: False
    have zz: "?z = ch (\<not> d) (nd t p) \<longleftrightarrow> d1 = (\<not> d)"
      using located_top(2,3,6) [OF loc [unfolded C]] s by (cases "d1 = d") auto
    show ?thesis
    proof (cases "d1 = d")
      case same: True
      then have lz: "located t ((d, p, s1) # (d, g, s2) # C2) s" using loc C C1 by simp
      from insert_rotate_ok [OF lz refl s] obtain t' where
        t': "insert_rotate (\<not> d) (?z, t) = (?z, t')" "located t' C2 (dnode (\<not> d) (dnode (\<not> d) s2 g s1) p s)" "kept t t'"
        "par (nd t' ?z) = p" "\<not> red (nd t' p)" by blast
      have "insert_fixup_loop ?z t = Some t'"
        using black zz same t'(1,4,5) insert_fixup_loop_stop [of t' ?z] by (simp add: loop insert_fix_def)
      moreover have "inorder (plug C2 (dnode (\<not> d) (dnode (\<not> d) s2 g s1) p s)) = before C @ inorder s @ after C"
        using same by (simp add: inorder_plug inorder_dnode C C1)
      ultimately show ?thesis using t'(2,3) by (intro exI [of _ t'] exI [of _ "plug C2 (dnode (\<not> d) (dnode (\<not> d) s2 g s1) p s)"]) (simp add: located_plug)
    next
      case inner: False
      then have d1: "d1 = (\<not> d)" by auto
      obtain B z D where sz: "s = dnode d B z D" using s by (cases s; cases d) (auto simp: dnode_def)
      have "located t ((d, g, s2) # C2) (dnode d s1 p (dnode d B z D))" using l1 d1 sz by (simp add: dnode_swap)
      note r = rotate_located [OF this]
      let ?u = "rotate d p t"
      have lu: "located ?u ((d, z, D) # (d, g, s2) # C2) (dnode d s1 p B)" using r(1) by (simp add: located_down)
      have "rt (dnode d s1 p B) = p" "dnode d s1 p B \<noteq> Leaf" by (simp_all add: dnode_def)
      from insert_rotate_ok [OF lu this(1) [symmetric] this(2)] obtain t' where
        t': "insert_rotate (\<not> d) (p, ?u) = (p, t')" "located t' C2 (dnode (\<not> d) (dnode (\<not> d) s2 g D) z (dnode d s1 p B))" "kept ?u t'"
        "par (nd t' p) = z" "\<not> red (nd t' z)" by blast
      have "?z = ch (\<not> d) (nd t p)" using zz d1 by simp
      then have "insert_fix (\<not> d) ?z p (rt s2) t = (p, t')" using black t'(1) by (simp add: insert_fix_def del: insert_rotate.simps)
      then have "insert_fixup_loop ?z t = Some t'"
        using t'(4,5) insert_fixup_loop_stop [of t' p] unfolding loop by simp
      moreover have "inorder (plug C2 (dnode (\<not> d) (dnode (\<not> d) s2 g D) z (dnode d s1 p B))) = before C @ inorder s @ after C"
        using d1 sz by (simp add: inorder_plug inorder_dnode C C1)
      moreover have "kept t t'" using kept_trans [OF kept_rotate [OF r(2)] t'(3)] .
      ultimately show ?thesis using t'(2)
        by (intro exI [of _ t'] exI [of _ "plug C2 (dnode (\<not> d) (dnode (\<not> d) s2 g D) z (dnode d s1 p B))"]) (simp add: located_plug)
    qed
  qed
qed

section \<open>Searching a search tree\<close>

text \<open>The nodes of a list have keys in \<open>K\<close> that increase.\<close>

definition ordered_keys :: "('a \<Rightarrow> 'a \<Rightarrow> bool) \<Rightarrow> 'a set \<Rightarrow> 'a rbtree \<Rightarrow> nat list \<Rightarrow> bool" where
  "ordered_keys lt K t xs \<longleftrightarrow> (\<forall>x \<in> set xs. rkey (nd t x) \<in> K) \<and> sorted_wrt (\<lambda>x y. lt (rkey (nd t x)) (rkey (nd t y))) xs"

lemma ordered_keys_cong:
  "(\<And>x. x \<in> set xs \<Longrightarrow> rkey (nd t x) = rkey (nd t' x)) \<Longrightarrow> ordered_keys lt K t xs = ordered_keys lt K t' xs"
  by (induction xs) (auto simp: ordered_keys_def)

text \<open>The tree \<open>t\<close> has the shape \<open>T\<close>: its pointers are consistent, the sentinel and the root are black and
  addresses not yet used are not in it.\<close>

definition rb_ok :: "'a rbtree \<Rightarrow> nat tree \<Rightarrow> bool" where
  "rb_ok t T \<longleftrightarrow> located t [] T \<and> \<not> red (nd t NIL) \<and> \<not> red (nd t (root t)) \<and> 0 < next_node t \<and> (\<forall>a \<in> set_tree T. a < next_node t)"

lemma new_rbnode_simps [simp]:
  "root (new_rbnode k t) = root t" "next_node (new_rbnode k t) = Suc (next_node t)" "rb_sz (new_rbnode k t) = rb_sz t"
  "nd (new_rbnode k t) a = (if a = next_node t then \<lparr>rkey = k, red = True, lc = NIL, rc = NIL, par = NIL\<rparr> else nd t a)"
  by (simp_all add: new_rbnode_def)

lemma attach_simps:
  "next_node (attach lt k z y t) = next_node t" "rb_sz (attach lt k z y t) = rb_sz t"
  "red (nd (attach lt k z y t) a) = red (nd t a)" "rkey (nd (attach lt k z y t) a) = rkey (nd t a)"
  "y \<noteq> NIL \<Longrightarrow> root (attach lt k z y t) = root t"
  by (auto simp: attach_def)

lemma attach_located:
  assumes "located t D Leaf" "z \<noteq> NIL" "z \<notin> cset D" "lc (nd t z) = NIL" "rc (nd t z) = NIL"
    and "\<And>d a s' E. D = (d, a, s') # E \<Longrightarrow> lt k (rkey (nd t a)) = d"
  shows "located (attach lt k z (top D) t) D (Node Leaf z Leaf)"
proof -
  let ?t' = "attach lt k z (top D) t"
  have c: "clinks t D NIL" "distinct (before D @ after D)" using assms(1) by (auto simp: located_def)
  have top: "D \<noteq> [] \<Longrightarrow> top D \<noteq> NIL" using c(1) by (cases D rule: top.cases) auto
  have topin: "D \<noteq> [] \<Longrightarrow> top D \<in> cset D" by (cases D rule: top.cases) auto
  have n: "nd ?t' a = nd t a" if "a \<noteq> z" "a \<noteq> top D" for a using that by (auto simp: attach_def)
  have nz: "nd ?t' z = (nd t z)\<lparr>par := top D\<rparr>"
    using topin assms(3) by (cases "D = []") (auto simp: attach_def)
  have "clinks ?t' D z"
  proof (rule clinks_swap [OF c])
    show "same t ?t' a" if "a \<in> cset D" "a \<noteq> top D" for a
      using n [of a] that assms(3) by (cases "a = z") (auto simp: same_def)
    show "D = [] \<Longrightarrow> root ?t' = z" by (simp add: attach_def)
    show "D \<noteq> [] \<Longrightarrow> root ?t' = root t" using top by (simp add: attach_simps)
    show "ch d (nd ?t' a) = z \<and> ch (\<not> d) (nd ?t' a) = ch (\<not> d) (nd t a) \<and> par (nd ?t' a) = par (nd t a)"
      if D: "D = (d, a, s') # E" for d a s' E
    proof -
      have "nd ?t' a = set_ch d z (nd t a)" using top assms(3) assms(6) [OF D] D by (cases d) (auto simp: attach_def)
      then show ?thesis by simp
    qed
  qed
  moreover have "links ?t' (top D) (Node Leaf z Leaf) z" using nz assms(2,4,5) by simp
  moreover have "distinct (before D @ inorder (Node Leaf z Leaf) @ after D)"
    using c(2) assms(3) set_before_after [of D] by auto
  ultimately show ?thesis by (simp add: located_def)
qed

text \<open>How keys are ordered: a strict weak order on the keys of a set, where \<open>eq\<close> holds of those that are not
  below each other.\<close>

locale key_order =
  fixes lt :: "'a \<Rightarrow> 'a \<Rightarrow> bool" and eq :: "'a \<Rightarrow> 'a \<Rightarrow> bool" and K :: "'a set"
  assumes lt_irrefl: "a \<in> K \<Longrightarrow> \<not> lt a a"
    and lt_trans: "a \<in> K \<Longrightarrow> b \<in> K \<Longrightarrow> c \<in> K \<Longrightarrow> lt a b \<Longrightarrow> lt b c \<Longrightarrow> lt a c"
    and eq_iff: "a \<in> K \<Longrightarrow> b \<in> K \<Longrightarrow> eq a b \<longleftrightarrow> \<not> lt a b \<and> \<not> lt b a"
    and eq_lt: "a \<in> K \<Longrightarrow> b \<in> K \<Longrightarrow> c \<in> K \<Longrightarrow> eq a b \<Longrightarrow> lt a c = lt b c \<and> lt c a = lt c b"
begin

text \<open>The descent of \<open>insert\<close> ends at a node with the key, or at the place where the key belongs.\<close>

lemma descend_ok:
  assumes "located t C s" "ordered_keys lt K t (before C @ inorder s @ after C)" "k \<in> K"
    and "\<forall>x \<in> set (before C). lt (rkey (nd t x)) k" "\<forall>x \<in> set (after C). lt k (rkey (nd t x))"
  shows "(\<exists>x \<in> set_tree s. eq k (rkey (nd t x)) \<and> descend lt eq t k (rt s) (top C) = Some (Inl x)) \<or>
    (\<exists>D. plug D Leaf = plug C s \<and> descend lt eq t k (rt s) (top C) = Some (Inr (top D)) \<and>
      (\<forall>x \<in> set (before D). lt (rkey (nd t x)) k) \<and> (\<forall>x \<in> set (after D). lt k (rkey (nd t x))) \<and>
      (\<forall>d a s' E. D = (d, a, s') # E \<longrightarrow> lt k (rkey (nd t a)) = d))"
  using assms
proof (induction s arbitrary: C)
  case Leaf
  have "lt k (rkey (nd t a)) = d" if C: "C = (d, a, s') # E" for d a s' E
  proof -
    have K: "rkey (nd t a) \<in> K" using Leaf.prems(2) C by (simp add: ordered_keys_def)
    show ?thesis
    proof (cases d)
      case False
      then have "lt (rkey (nd t a)) k" using Leaf.prems(4) C by simp
      then show ?thesis using False K Leaf.prems(3) lt_irrefl lt_trans by blast
    qed (use Leaf.prems(5) C in simp)
  qed
  moreover have "descend lt eq t k NIL (top C) = Some (Inr (top C))" by (subst descend.simps) simp
  ultimately show ?case using Leaf.prems by (intro disjI2 exI [of _ C]) auto
next
  case (Node l a r)
  let ?a = "rkey (nd t a)"
  have a: "a \<noteq> NIL" "lc (nd t a) = rt l" "rc (nd t a) = rt r"
    using Node.prems(1) links_rt by (fastforce simp: located_def)+
  have K: "?a \<in> K" "\<forall>x \<in> set_tree l \<union> set_tree r. rkey (nd t x) \<in> K" using Node.prems(2) by (auto simp: ordered_keys_def)
  have so: "\<forall>x \<in> set_tree l. lt (rkey (nd t x)) ?a" "\<forall>x \<in> set_tree r. lt ?a (rkey (nd t x))"
    using Node.prems(2) by (auto simp: ordered_keys_def sorted_wrt_append)
  have step: "descend lt eq t k a (top C) =
      (if eq k ?a then Some (Inl a) else descend lt eq t k (if lt k ?a then rt l else rt r) a)"
    using a by (subst descend.simps) simp
  show ?case
  proof (cases "eq k ?a")
    case False
    then have lt: "lt k ?a \<or> lt ?a k" using eq_iff Node.prems(3) K(1) by blast
    show ?thesis
    proof (cases "lt k ?a")
      case True
      let ?C = "(True, a, r) # C"
      have "located t ?C l" using Node.prems(1) located_down [of t C True l a r] by (simp add: dnode_def)
      moreover have "lt k (rkey (nd t x))" if "x \<in> set_tree r" for x
        using lt_trans [OF Node.prems(3) K(1) _ True] so(2) K(2) that by blast
      then have "\<forall>x \<in> set (after ?C). lt k (rkey (nd t x))" using True Node.prems(5) by auto
      ultimately show ?thesis
        using Node.IH(1) [of ?C] Node.prems True False by (auto simp: step dnode_def)
    next
      case F: False
      let ?C = "(False, a, l) # C"
      have "located t ?C r" using Node.prems(1) located_down [of t C False r a l] by (simp add: dnode_def)
      moreover have "lt (rkey (nd t x)) k" if "x \<in> set_tree l" for x
        using lt_trans [OF _ K(1) Node.prems(3)] F lt so(1) K(2) that by blast
      then have "\<forall>x \<in> set (before ?C). lt (rkey (nd t x)) k" using F lt Node.prems(4) by auto
      ultimately show ?thesis
        using Node.IH(2) [of ?C] Node.prems F False by (auto simp: step dnode_def)
    qed
  qed (auto simp: step)
qed

text \<open>Where a key is, \<open>find\<close> finds it.\<close>

lemma find_ok:
  assumes "links t p s (rt s)" "ordered_keys lt K t (inorder s)" "k \<in> K"
  shows "\<exists>x. find_from lt eq t k (rt s) = Some x \<and>
    (if \<exists>y \<in> set_tree s. eq (rkey (nd t y)) k then x \<in> set_tree s \<and> eq (rkey (nd t x)) k else x = NIL)"
  using assms
proof (induction s arbitrary: p)
  case Leaf
  then show ?case by (subst find_from.simps) simp
next
  case (Node l a r)
  let ?a = "rkey (nd t a)"
  have a: "a \<noteq> NIL" "lc (nd t a) = rt l" "rc (nd t a) = rt r" "links t a l (rt l)" "links t a r (rt r)"
    using Node.prems(1) links_rt by fastforce+
  have K: "?a \<in> K" "\<forall>x \<in> set_tree l \<union> set_tree r. rkey (nd t x) \<in> K" using Node.prems(2) by (auto simp: ordered_keys_def)
  have so: "\<forall>x \<in> set_tree l. lt (rkey (nd t x)) ?a" "\<forall>x \<in> set_tree r. lt ?a (rkey (nd t x))" "ordered_keys lt K t (inorder l)" "ordered_keys lt K t (inorder r)"
    using Node.prems(2) by (auto simp: ordered_keys_def sorted_wrt_append)
  have step: "find_from lt eq t k a = (if eq ?a k then Some a else find_from lt eq t k (if lt ?a k then rt r else rt l))"
    using a(1-3) by (subst find_from.simps) simp
  show ?case
  proof (cases "eq ?a k")
    case False
    then have lt: "lt k ?a \<or> lt ?a k" using eq_iff Node.prems(3) K(1) by blast
    show ?thesis
    proof (cases "lt ?a k")
      case True
      have "\<not> eq (rkey (nd t y)) k" if "y \<in> set_tree l" for y
        using that so(1) True K Node.prems(3) lt_trans eq_iff by (meson UnI1)
      moreover obtain x where "find_from lt eq t k (rt r) = Some x"
        "if \<exists>y \<in> set_tree r. eq (rkey (nd t y)) k then x \<in> set_tree r \<and> eq (rkey (nd t x)) k else x = NIL"
        using Node.IH(2) [OF a(5) so(4) Node.prems(3)] by blast
      ultimately show ?thesis using True False by (intro exI [of _ x]) (auto simp: step split: if_splits)
    next
      case F: False
      have "\<not> eq (rkey (nd t y)) k" if "y \<in> set_tree r" for y
        using that so(2) F lt K Node.prems(3) lt_trans eq_iff by (meson UnI2)
      moreover obtain x where "find_from lt eq t k (rt l) = Some x"
        "if \<exists>y \<in> set_tree l. eq (rkey (nd t y)) k then x \<in> set_tree l \<and> eq (rkey (nd t x)) k else x = NIL"
        using Node.IH(1) [OF a(4) so(3) Node.prems(3)] by blast
      ultimately show ?thesis using F False by (intro exI [of _ x]) (auto simp: step split: if_splits)
    qed
  qed (auto simp: step)
qed

lemma insert_ok:
  assumes ok: "rb_ok t T" and ord: "ordered_keys lt K t (inorder T)" and k: "k \<in> K"
  shows "\<exists>x t' T'. rb_insert lt eq k t = Some (x, t') \<and> rb_ok t' T' \<and> ordered_keys lt K t' (inorder T') \<and>
    x \<in> set_tree T' \<and> eq k (rkey (nd t' x)) \<and> (\<forall>a \<in> set_tree T. rkey (nd t' a) = rkey (nd t a)) \<and>
    (if \<exists>y \<in> set_tree T. eq k (rkey (nd t y)) then T' = T \<and> rb_sz t' = rb_sz t
     else x = next_node t \<and> rkey (nd t' x) = k \<and> rb_sz t' = rb_sz t + 1 \<and> (\<exists>A B. inorder T = A @ B \<and> inorder T' = A @ x # B))"
proof -
  let ?z = "next_node t" and ?u = "new_rbnode k t"
  have T: "located t [] T" "\<not> red (nd t NIL)" "\<not> red (nd t (root t))" "?z \<noteq> NIL" "?z \<notin> set_tree T"
    using ok by (auto simp: rb_ok_def NIL_def)
  have same: "nd ?u a = nd t a" if "a \<noteq> ?z" for a using that by simp
  have rt: "root t = rt T" using T(1) by (simp add: located_def)
  then have rz: "root t \<noteq> ?z" using T(4,5) rt_in [of T] by (cases T) auto
  have sT: "same t ?u a" if "a \<in> set_tree T" for a using that T(5) by (auto simp: same_def)
  then have lu: "located ?u [] T" using T(1) by (auto simp: located_def intro: links_same)
  have kT: "rkey (nd ?u a) = rkey (nd t a)" if "a \<in> set_tree T" for a using that T(5) by auto
  have ordu: "ordered_keys lt K ?u (inorder T)"
    using ord kT ordered_keys_cong [of "inorder T" t ?u] by simp
  have oku: "rb_ok ?u T" using lu T ok rz by (auto simp: rb_ok_def less_Suc_eq)
  have b: "\<forall>x \<in> set (before []). lt (rkey (nd ?u x)) k" "\<forall>x \<in> set (after []). lt k (rkey (nd ?u x))" by simp_all
  have o: "ordered_keys lt K ?u (before [] @ inorder T @ after [])" using ordu by simp
  from descend_ok [OF lu o k b] show ?thesis
  proof
    assume "\<exists>x \<in> set_tree T. eq k (rkey (nd ?u x)) \<and> descend lt eq ?u k (rt T) (top []) = Some (Inl x)"
    then obtain x where x: "x \<in> set_tree T" "eq k (rkey (nd ?u x))" "descend lt eq ?u k (rt T) NIL = Some (Inl x)" by auto
    have "rb_insert lt eq k t = Some (x, ?u)" using x(3) rt by (simp add: rb_insert_def)
    moreover have "\<exists>y \<in> set_tree T. eq k (rkey (nd t y))" using x(1,2) kT by auto
    ultimately show ?thesis using x oku ordu kT by (intro exI [of _ x] exI [of _ ?u] exI [of _ T]) auto
  next
    assume "\<exists>D. plug D Leaf = plug [] T \<and> descend lt eq ?u k (rt T) (top []) = Some (Inr (top D)) \<and>
      (\<forall>x \<in> set (before D). lt (rkey (nd ?u x)) k) \<and> (\<forall>x \<in> set (after D). lt k (rkey (nd ?u x))) \<and>
      (\<forall>d a s' E. D = (d, a, s') # E \<longrightarrow> lt k (rkey (nd ?u a)) = d)"
    then obtain D where D: "plug D Leaf = T" "descend lt eq ?u k (rt T) NIL = Some (Inr (top D))"
      "\<forall>x \<in> set (before D). lt (rkey (nd ?u x)) k" "\<forall>x \<in> set (after D). lt k (rkey (nd ?u x))"
      "\<And>d a s' E. D = (d, a, s') # E \<Longrightarrow> lt k (rkey (nd ?u a)) = d" by auto
    have cD: "cset D = set_tree T" using D(1) set_plug [of D Leaf] by simp
    have io: "inorder T = before D @ after D" using inorder_plug [of D Leaf] D(1) by simp
    have "located ?u D Leaf" using lu D(1) by (auto simp: located_plug)
    from attach_located [where lt = lt, OF this T(4) _ _ _ D(5)]
    have la: "located (attach lt k ?z (top D) ?u) D (Node Leaf ?z Leaf)" using T(5) cD by simp
    let ?v = "attach lt k ?z (top D) ?u"
    have vnil: "\<not> red (nd ?v NIL)" using T(2,4) by (simp add: attach_simps)
    have vroot: "\<not> red (nd ?v (root ?v))" if "D \<noteq> []"
    proof -
      have "top D \<noteq> NIL" using that la by (cases D rule: top.cases) (auto simp: located_def)
      then show ?thesis using T(3) rz by (simp add: attach_simps)
    qed
    from insert_fixup_loop_ok [OF la _ vnil vroot] obtain w T' where w: "insert_fixup_loop ?z ?v = Some w" "located w [] T'"
      "inorder T' = before D @ ?z # after D" "kept ?v w" by auto
    let ?t' = "(paint (root w) False w)\<lparr>rb_sz := rb_sz w + 1\<rparr>"
    have ins: "rb_insert lt eq k t = Some (?z, ?t')"
      using D(2) rt w(1) by (simp add: rb_insert_def insert_fixup_def)
    have k': "rkey (nd ?t' a) = rkey (nd ?u a)" for a using w(4) by (simp add: kept_def attach_simps)
    have set': "set_tree T' = insert ?z (set_tree T)" using w(3) io by (metis list.set(2) set_append set_inorder Un_insert_right)
    have nx: "next_node ?t' = Suc ?z" "rb_sz ?t' = rb_sz t + 1" using w(4) by (simp_all add: kept_def attach_simps)
    have "located (paint (root w) False w) [] T'" using w(2) by (rule located_paint)
    then have "located ?t' [] T'" by (auto simp: located_def same_def intro: links_same)
    moreover have "\<not> red (nd ?t' NIL)" using w(4) vnil by (auto simp: kept_def)
    ultimately have "rb_ok ?t' T'" using nx(1) set' ok by (auto simp: rb_ok_def less_Suc_eq)
    moreover have "ordered_keys lt K ?t' (inorder T')"
      using ordu k D(3,4) unfolding w(3) ordered_keys_def k' io by (auto simp: sorted_wrt_append)
    moreover have "\<not> (\<exists>y \<in> set_tree T. eq k (rkey (nd t y)))"
      using ord k D(3,4) kT eq_iff unfolding ordered_keys_def io
      by (metis cD UnE in_set_conv_decomp set_before_after set_inorder io)
    moreover have "eq k (rkey (nd ?t' ?z))" unfolding k' using k eq_iff lt_irrefl by simp
    ultimately show ?thesis
      using ins set' nx(2) k' kT io w(3)
      by (intro exI [of _ ?z] exI [of _ ?t'] exI [of _ T']) (auto simp del: paint_simps)
  qed
qed

end

lemma extreme_ok:
  "links t p s (rt s) \<Longrightarrow> extreme d t (rt s) y = Some (if s = Leaf then y else if d then hd (inorder s) else last (inorder s))"
proof (induction s arbitrary: p y)
  case (Node l a r)
  have a: "a \<noteq> NIL" "lc (nd t a) = rt l" "rc (nd t a) = rt r" "links t a l (rt l)" "links t a r (rt r)"
    using Node.prems links_rt by fastforce+
  have "extreme d t a y = extreme d t (ch d (nd t a)) a" using a(1) by (subst extreme.simps) simp
  then show ?case
    using Node.IH(1) [OF a(4)] Node.IH(2) [OF a(5)] a(2,3) by (cases l; cases r; cases d) (simp_all add: ch_def hd_append)
qed (simp add: extreme.simps)

lemma climb_ok:
  assumes "located t C s" "s \<noteq> Leaf"
  shows "climb False t (rt s) (top C) = Some (if after C = [] then NIL else hd (after C))"
  using assms
proof (induction C arbitrary: s)
  case (Cons f C)
  obtain d a s' where f: "f = (d, a, s')" by (cases f)
  note lt = located_top [OF Cons.prems(1) [unfolded f]]
  have a: "ch False (nd t a) = rt s \<longleftrightarrow> \<not> d" using lt(2,3,6) Cons.prems(2) by (cases d) auto
  have "climb False t (rt s) a = (if \<not> d then climb False t a (top C) else Some a)"
    using lt(1,4) a by (subst climb.simps) auto
  moreover have "climb False t a (top C) = Some (if after C = [] then NIL else hd (after C))"
    using Cons.IH [of "dnode d s a s'"] Cons.prems(1) f by (simp add: located_down) (simp add: dnode_def)
  ultimately show ?case using f by simp
qed (subst climb.simps, simp)

lemma succ_ok:
  assumes "located t C (Node l x r)"
  shows "succ t x = Some (if inorder r @ after C = [] then NIL else hd (inorder r @ after C))"
proof -
  have x: "x \<noteq> NIL" "rc (nd t x) = rt r" "links t x r (rt r)" "par (nd t x) = top C"
    using assms links_rt by (fastforce simp: located_def)+
  show ?thesis
  proof (cases r)
    case Leaf
    then show ?thesis using climb_ok [OF assms] x by (simp add: succ_def)
  next
    case (Node l' y r')
    then have "rt r \<noteq> NIL" using rt_NIL [OF x(3)] by simp
    then show ?thesis using extreme_ok [OF x(3), of True NIL] x Node by (simp add: succ_def node_min_def hd_append)
  qed
qed

section \<open>Evaluating operations on an explicit tree\<close>

text \<open>A tree given by the list of its nodes, the sentinel first, with \<open>n\<close> elements.\<close>

definition tree_of :: "'a \<Rightarrow> 'a rbnode list \<Rightarrow> nat \<Rightarrow> u32 \<Rightarrow> 'a rbtree" where
  "tree_of k ns r n =
     \<lparr>nd = (\<lambda>i. if i < length ns then ns ! i else \<lparr>rkey = k, red = False, lc = NIL, rc = NIL, par = NIL\<rparr>), root = r,
      next_node = length ns, rb_sz = n\<rparr>"

lemma tree_of_sel:
  "i < length ns \<Longrightarrow> nd (tree_of k ns r n) i = ns ! i" "root (tree_of k ns r n) = r" "next_node (tree_of k ns r n) = length ns"
  "rb_sz (tree_of k ns r n) = n"
  by (simp_all add: tree_of_def)

lemma tree_of_upd:
  "i < length ns \<Longrightarrow> upd i f (tree_of k ns r n) = tree_of k (ns[i := f (ns ! i)]) r n"
  "(tree_of k ns r n)\<lparr>root := r'\<rparr> = tree_of k ns r' n" "(tree_of k ns r n)\<lparr>rb_sz := n'\<rparr> = tree_of k ns r n'"
  by (auto simp: tree_of_def upd_def fun_eq_iff)

lemma tree_of_new: "rb_new k sz = tree_of k [\<lparr>rkey = k, red = False, lc = NIL, rc = NIL, par = NIL\<rparr>] NIL sz"
  "new_rbnode k' (tree_of k ns r n) = tree_of k (ns @ [\<lparr>rkey = k', red = True, lc = NIL, rc = NIL, par = NIL\<rparr>]) r n"
  by (auto simp: tree_of_def rb_new_def new_rbnode_def fun_eq_iff nth_append)

lemma loop_unfold:
  "x = NIL \<Longrightarrow> descend lt eq t k x y = Some (Inr y)"
  "x \<noteq> NIL \<Longrightarrow> descend lt eq t k x y = (if eq k (rkey (nd t x)) then Some (Inl x)
     else descend lt eq t k (if lt k (rkey (nd t x)) then lc (nd t x) else rc (nd t x)) x)"
  "x = NIL \<Longrightarrow> find_from ltk eqk t k' x = Some x"
  "x \<noteq> NIL \<Longrightarrow> find_from ltk eqk t k' x = (if eqk (rkey (nd t x)) k' then Some x
     else find_from ltk eqk t k' (if ltk (rkey (nd t x)) k' then rc (nd t x) else lc (nd t x)))"
  "x = NIL \<Longrightarrow> extreme d t x y = Some y" "x \<noteq> NIL \<Longrightarrow> extreme d t x y = extreme d t (ch d (nd t x)) x"
  "\<not> red (nd t (par (nd t z))) \<Longrightarrow> insert_fixup_loop z t = Some t"
  "red (nd t (par (nd t z))) \<Longrightarrow> insert_fixup_loop z t =
     (case insert_fix_dir (par (nd t z) \<noteq> lc (nd t (grand t z))) z t of (z', t') \<Rightarrow> insert_fixup_loop z' t')"
  "x = root t \<or> red (nd t x) \<Longrightarrow> remove_fixup_loop x t = Some (x, t)"
  "x \<noteq> root t \<and> \<not> red (nd t x) \<Longrightarrow> remove_fixup_loop x t =
     (case remove_fix_dir (x \<noteq> lc (nd t (par (nd t x)))) x t of (x', t') \<Rightarrow> remove_fixup_loop x' t')"
  by (subst descend.simps find_from.simps extreme.simps insert_fixup_loop.simps remove_fixup_loop.simps; auto)+

definition rb_del :: "nat \<Rightarrow> nat rbtree \<Rightarrow> nat rbtree option" where
  "rb_del k t = Option.bind (rb_find (<) (=) k t) (\<lambda>x. rb_erase x t)"

datatype rb_op = Ins nat | Del nat

fun rb_run :: "rb_op list \<Rightarrow> nat rbtree option \<Rightarrow> nat rbtree option" where
  "rb_run [] t = t"
| "rb_run (op # ops) None = None"
| "rb_run (Ins k # ops) (Some t) = rb_run ops (map_option snd (rb_insert (<) (=) k t))"
| "rb_run (Del k # ops) (Some t) = rb_run ops (rb_del k t)"

lemmas rb_eval = tree_of_sel tree_of_upd tree_of_new loop_unfold rb_insert_def rb_erase_def rb_find_def rb_del_def
  rb_contains_def insert_fixup_def remove_fixup_def insert_fix_dir_def insert_fix_def grand_def paint_grand_def rotate_grand_def
  remove_fix_dir_def remove_fix_sibling_def remove_fix_def red_sibling_def inner_red_def outer_red_def last_fix_def
  from_root_def paint_child_def sibling_def rotate_def rotate_with_def own_inner_def adopt_def hang_def replace_child_def
  paint_def set_par_def transplant_def unlink_def unlink_min_def take_min_def take_color_def graft_def own_child_def
  node_min_def attach_def ch_def set_ch_def NIL_def

section \<open>What the tree promises\<close>

text \<open>C20: on every tree with consistent pointers, ordered keys, a black root and a black sentinel,
  whatever its colours and depth, \<open>insert\<close> returns; a key that is there already is not inserted again, a new
  one is placed where the order puts it, all other elements stay, in the same order, and the tree is consistent
  and ordered again.\<close>

theorem rb_insert_correct:
  assumes "key_order lt eq K" "rb_ok t T" "ordered_keys lt K t (inorder T)" "k \<in> K"
  shows "\<exists>x t' T'. rb_insert lt eq k t = Some (x, t') \<and> rb_ok t' T' \<and> ordered_keys lt K t' (inorder T') \<and>
    x \<in> set_tree T' \<and> eq k (rkey (nd t' x)) \<and> (\<forall>a \<in> set_tree T. rkey (nd t' a) = rkey (nd t a)) \<and>
    (if \<exists>y \<in> set_tree T. eq k (rkey (nd t y)) then T' = T \<and> rb_sz t' = rb_sz t
     else x = next_node t \<and> rkey (nd t' x) = k \<and> rb_sz t' = rb_sz t + 1 \<and> (\<exists>A B. inorder T = A @ B \<and> inorder T' = A @ x # B))"
  by (rule key_order.insert_ok [OF assms])

interpretation nat_keys: key_order "(<) :: nat \<Rightarrow> nat \<Rightarrow> bool" "(=)" UNIV
  by unfold_locales auto

lemma rb_new_ok: "rb_ok (rb_new k sz) Leaf \<and> ordered_keys lt K (rb_new k sz) (inorder Leaf)"
  by (simp add: rb_ok_def located_def rb_new_def ordered_keys_def)

theorem rb_insert_correct_witness:
  "\<exists>x t' T'. rb_insert (<) (=) 5 (rb_new (0 :: nat) 0) = Some (x, t') \<and> rb_ok t' T' \<and> inorder T' = [x] \<and> rkey (nd t' x) = 5"
  using rb_insert_correct [OF nat_keys.key_order_axioms conjunct1 [OF rb_new_ok] conjunct2 [OF rb_new_ok], of 5 0 0] by auto

text \<open>C21: on a consistent ordered tree \<open>find\<close> returns a node with the key exactly when there is one, \<open>min\<close> returns
  the first node in order and \<open>succ\<close> leads from every node to the next one, so that iterating from \<open>begin\<close>
  visits the elements in order.\<close>

theorem rb_search_correct:
  assumes "key_order lt eq K" "rb_ok t T" "ordered_keys lt K t (inorder T)" "k \<in> K"
  shows "(\<exists>x. rb_find lt eq k t = Some x \<and>
      (if \<exists>y \<in> set_tree T. eq (rkey (nd t y)) k then x \<in> set_tree T \<and> eq (rkey (nd t x)) k else x = NIL)) \<and>
    rb_min t = Some (if T = Leaf then NIL else hd (inorder T)) \<and>
    (\<forall>A x B. inorder T = A @ x # B \<longrightarrow> succ t x = Some (if B = [] then NIL else hd B))"
proof -
  have l: "links t NIL T (rt T)" "root t = rt T" "located t [] T" using assms(2) by (auto simp: rb_ok_def located_def)
  have "succ t x = Some (if B = [] then NIL else hd B)" if io: "inorder T = A @ x # B" for A x B
  proof -
    have "x \<in> set_tree T" using io by (metis in_set_conv_decomp set_inorder)
    then obtain C l' r where C: "plug C (Node l' x r) = T" using plug_at by blast
    then have "located t C (Node l' x r)" using l(3) by (simp add: located_plug)
    note s = succ_ok [OF this]
    have "before C @ inorder l' @ x # inorder r @ after C = A @ x # B" using io C inorder_plug [of C "Node l' x r"] by simp
    moreover have "distinct (before C @ inorder l' @ x # inorder r @ after C)"
      using \<open>located t C (Node l' x r)\<close> by (simp add: located_def)
    ultimately have "inorder r @ after C = B" using distinct_split_unique [of "before C @ inorder l'" x "inorder r @ after C" A B] by simp
    then show ?thesis using s by simp
  qed
  then show ?thesis
    using key_order.find_ok [OF assms(1) l(1) assms(3,4)] extreme_ok [OF l(1), of True NIL] l(2)
    by (simp add: rb_find_def rb_min_def node_min_def)
qed

lemma example_tree_ok:
  "\<exists>t T. rb_insert (<) (=) 5 (rb_new (0 :: nat) 0) = Some (1, t) \<and> rb_ok t T \<and> ordered_keys (<) UNIV t (inorder T) \<and> inorder T = [1]"
  using nat_keys.insert_ok [OF conjunct1 [OF rb_new_ok] conjunct2 [OF rb_new_ok], of 5 0 0] by (auto simp: rb_new_def)

theorem rb_search_correct_witness: "\<exists>t. rb_min (t :: nat rbtree) = Some 1 \<and> succ t 1 = Some NIL"
proof -
  obtain t T where t: "rb_ok t T" "ordered_keys (<) (UNIV :: nat set) t (inorder T)" "inorder T = [1]" using example_tree_ok by auto
  note c = rb_search_correct [OF nat_keys.key_order_axioms t(1,2), of 5, unfolded t(3)]
  have "T \<noteq> Leaf" using t(3) by auto
  then have "rb_min t = Some 1" using c by simp
  moreover have "succ t 1 = Some NIL"
    using spec [OF spec [OF spec [OF conjunct2 [OF conjunct2 [OF c]], of "[]"], of 1], of "[]"] by simp
  ultimately show ?thesis by blast
qed

section \<open>Where the tree fails\<close>

text \<open>after recolouring, the fix-up of \<open>insert\<close> does not go on from the grandparent: eight
  insertions into an empty tree leave a red node with a red child.\<close>

theorem insert_leaves_red_red:
  "\<exists>t x. rb_run [Ins 8, Ins 9, Ins 3, Ins 1, Ins 7, Ins 4, Ins 5, Ins 6] (Some (rb_new 0 0)) = Some t \<and>
     rb_find (<) (=) 3 t = Some x \<and> x \<noteq> NIL \<and> red (nd t x) \<and> red (nd t (rc (nd t x)))"
  by (simp add: rb_eval del: upd_simps paint_simps set_par_simps new_rbnode_simps)

text \<open>because the colours are wrong, \<open>erase\<close> can paint the sentinel and rotate it into the tree: there
  are sixteen operations on an empty tree after which two elements that were never erased cannot be found.\<close>

theorem erase_loses_elements:
  "\<exists>t t'. rb_run [Ins 8, Ins 9, Ins 3, Ins 1, Ins 7, Ins 4, Ins 5, Ins 6, Del 6, Del 9, Del 8, Ins 2, Del 7, Del 5, Del 4]
       (Some (rb_new 0 0)) = Some t \<and> rb_contains (<) (=) 1 t = Some True \<and> rb_contains (<) (=) 2 t = Some True \<and>
     rb_del 3 t = Some t' \<and> rb_contains (<) (=) 1 t' = Some False \<and> rb_contains (<) (=) 2 t' = Some False"
  by (simp add: rb_eval del: upd_simps paint_simps set_par_simps new_rbnode_simps)

text \<open>\<open>lower_bound\<close> of a key that is not in the tree returns the last node of the search, which
  can be smaller than the key.\<close>

theorem lower_bound_below:
  "\<exists>t. rb_run [Ins 1, Ins 3] (Some (rb_new 0 0)) = Some t \<and>
     Option.bind (lower_bound (<) (=) 2 t) (\<lambda>x. Some (rkey (nd t x))) = Some 3 \<and>
     Option.bind (lower_bound (<) (=) 4 t) (\<lambda>x. Some (rkey (nd t x))) = Some 3"
  by (simp add: rb_eval lower_bound_def bound_from.simps [of _ _ "tree_of _ _ _ _"] del: upd_simps paint_simps set_par_simps new_rbnode_simps)

end
