(* ===== verification/Proc.thy ===== *)
theory Proc
  imports Regs Memory Bitmap Rbtree LinkedList
begin

text \<open>
  Processes: \<open>kernel/include/proc.h\<close> and the queues of \<open>kernel/proc/proc.cpp\<close>. Process objects are addresses in a
  store. The run queue, the sleep queue and the list of all processes are trees of theory \<open>Rbtree\<close>, whose keys are
  pointers to processes, compared as \<open>proc_ptr\<close> compares them; the waiting processes of a condition variable are a list
  of theory \<open>LinkedList\<close>. A definition is \<open>None\<close> when the kernel halts on an assertion, follows a null pointer,
  writes outside an object or does not return.
\<close>

section \<open>The process\<close>

datatype pstatus = CREATED | READY | RUNNING | WAITING | WAITING_NOINTERRUPT | ZOMBIE

datatype pqueue = NO_QUEUE | RUN_QUEUE | SLEEP_QUEUE | EVENT_QUEUE

text \<open>What \<open>queue_handle\<close> points to: a node of a tree, or an iterator into the list of a condition variable.\<close>

datatype handle = No_handle | Tree_node nat | List_iter nat nat

record proc_state =
  gregs :: cpu_regs
  fpu_buf :: "u8 list"
  fpu_used :: bool

record proc =
  tid :: int
  pid :: int
  puid :: int
  status :: pstatus
  pstate :: proc_state
  pdir :: "nat option"
  user :: bool
  interrupted :: bool
  vruntime :: u64
  nice :: int
  clone_flags :: u32
  exit_status :: int
  pbrk :: brk_state
  pparent :: "nat option"
  last_child :: "nat option"
  next_sibling :: "nat option"
  prev_sibling :: "nat option"
  cur_queue :: pqueue
  queue_handle :: handle
  signals :: bitmap
  wait_pid :: int

text \<open>\<open>shared_page_dir\<close>: a page directory and the one it was cloned from with \<open>CLONE_VM\<close>.\<close>

record shared_page_dir =
  sdir :: nat
  cloned_dir :: "nat option"

record isr_regs =
  iregs :: cpu_regs
  ics :: u32

record kern =
  procs :: "nat \<Rightarrow> proc option"
  shared :: "nat \<Rightarrow> shared_page_dir option"
  refs :: "nat \<Rightarrow> nat"
  tmp_dir :: "nat option"
  next_addr :: nat
  next_tid :: int
  run_queue :: "nat rbtree"
  sleep_queue :: "(nat \<times> u64) rbtree"
  waiting_procs :: "nat \<Rightarrow> nat llist"
  proc_list :: "nat rbtree"
  cur_proc :: "nat option"
  min_vruntime :: u64
  online :: bool
  last_sched :: u64
  cpu_fpu :: "u8 list"
  mm :: paging

definition INIT_TID :: int where "INIT_TID = 1"
definition ROOT_UID :: int where "ROOT_UID = 0"
definition SCHEDULE_MIN_DELTA :: u64 where "SCHEDULE_MIN_DELTA = 1000000"
definition sched_latency :: u32 where "sched_latency = 20000000"
definition NICE_MIN :: int where "NICE_MIN = - 20"
definition NICE_MAX :: int where "NICE_MAX = 19"
definition PROC_STACK_TOP :: u32 where "PROC_STACK_TOP = 0xC0000000"
definition CLONE_CSIGNAL_MASK :: u32 where "CLONE_CSIGNAL_MASK = 0xff"
definition CLONE_PARENT :: u32 where "CLONE_PARENT = 0x1000"
definition CLONE_THREAD :: u32 where "CLONE_THREAD = 0x2000"
definition SIGKILL :: nat where "SIGKILL = 9"
definition SIGCHLD :: nat where "SIGCHLD = 20"

text \<open>Following a pointer, and changing the object behind it.\<close>

definition deref :: "nat \<Rightarrow> kern \<Rightarrow> proc option" where "deref p k = procs k p"

definition modify :: "nat \<Rightarrow> (proc \<Rightarrow> proc) \<Rightarrow> kern \<Rightarrow> kern option" where
  "modify p f k = map_option (\<lambda>v. k\<lparr>procs := (procs k)(p \<mapsto> f v)\<rparr>) (procs k p)"

text \<open>\<open>operator<\<close> and \<open>operator==\<close> of \<open>proc\<close> and of \<open>proc_ptr\<close>.\<close>

definition proc_less :: "proc \<Rightarrow> proc \<Rightarrow> bool" where
  "proc_less p q =
     (if vruntime p \<noteq> vruntime q then vruntime p < vruntime q
      else if nice p \<noteq> nice q then nice p < nice q else tid p < tid q)"

definition proc_eq :: "proc \<Rightarrow> proc \<Rightarrow> bool" where "proc_eq p q \<longleftrightarrow> tid p = tid q"

definition on_procs :: "(proc \<Rightarrow> proc \<Rightarrow> bool) \<Rightarrow> kern \<Rightarrow> nat \<Rightarrow> nat \<Rightarrow> bool" where
  "on_procs R k a b = (case (procs k a, procs k b) of (Some p, Some q) \<Rightarrow> R p q | _ \<Rightarrow> False)"

definition on_tid :: "(int \<Rightarrow> int \<Rightarrow> bool) \<Rightarrow> kern \<Rightarrow> nat \<Rightarrow> int \<Rightarrow> bool" where
  "on_tid R k a t = (case procs k a of Some p \<Rightarrow> R (tid p) t | None \<Rightarrow> False)"

text \<open>Inserting into the run queue, and remembering the node.\<close>

definition run_insert :: "nat \<Rightarrow> kern \<Rightarrow> kern option" where
  "run_insert p k = do {
     (x, q) \<leftarrow> rb_insert (on_procs proc_less k) (on_procs proc_eq k) p (run_queue k);
     modify p (\<lambda>v. v\<lparr>queue_handle := Tree_node x\<rparr>) (k\<lparr>run_queue := q\<rparr>) }"

text \<open>\<open>sleep_proc\<close> is a pair of a process and its time.\<close>

definition sleep_less :: "kern \<Rightarrow> nat \<times> u64 \<Rightarrow> nat \<times> u64 \<Rightarrow> bool" where
  "sleep_less k a b = (if snd a \<noteq> snd b then snd a < snd b else on_procs (\<lambda>p q. tid p < tid q) k (fst a) (fst b))"

definition sleep_eq :: "kern \<Rightarrow> nat \<times> u64 \<Rightarrow> nat \<times> u64 \<Rightarrow> bool" where
  "sleep_eq k a b = on_procs proc_eq k (fst a) (fst b)"

definition sleep_insert :: "nat \<Rightarrow> u64 \<Rightarrow> kern \<Rightarrow> kern option" where
  "sleep_insert p t k = do {
     (x, q) \<leftarrow> rb_insert (sleep_less k) (sleep_eq k) (p, t) (sleep_queue k);
     modify p (\<lambda>v. v\<lparr>queue_handle := Tree_node x\<rparr>) (k\<lparr>sleep_queue := q\<rparr>) }"

section \<open>Queues\<close>

text \<open>\<open>proc::remove_from_queue\<close> erases by the handle.\<close>

definition tree_handle :: "handle \<Rightarrow> nat" where
  "tree_handle h = (case h of Tree_node x \<Rightarrow> x | _ \<Rightarrow> Rbtree.NIL)"

definition list_remove :: "handle \<Rightarrow> kern \<Rightarrow> kern option" where
  "list_remove h k =
     (case h of
        List_iter c it \<Rightarrow> map_option (\<lambda>(_, l). k\<lparr>waiting_procs := (waiting_procs k)(c := l)\<rparr>) (it_erase it (waiting_procs k c))
      | _ \<Rightarrow> None)"

definition queue_erase :: "proc \<Rightarrow> kern \<Rightarrow> kern option" where
  "queue_erase v k =
     (case cur_queue v of
        RUN_QUEUE \<Rightarrow> map_option (\<lambda>q. k\<lparr>run_queue := q\<rparr>) (rb_erase (tree_handle (queue_handle v)) (run_queue k))
      | SLEEP_QUEUE \<Rightarrow> map_option (\<lambda>q. k\<lparr>sleep_queue := q\<rparr>) (rb_erase (tree_handle (queue_handle v)) (sleep_queue k))
      | EVENT_QUEUE \<Rightarrow> list_remove (queue_handle v) k
      | NO_QUEUE \<Rightarrow> Some k)"

definition remove_from_queue :: "nat \<Rightarrow> kern \<Rightarrow> kern option" where
  "remove_from_queue p k = do {
     v \<leftarrow> deref p k;
     k1 \<leftarrow> queue_erase v k;
     modify p (\<lambda>v. v\<lparr>cur_queue := NO_QUEUE, queue_handle := No_handle\<rparr>) k1 }"

definition enqueue_run :: "nat \<Rightarrow> kern \<Rightarrow> kern option" where
  "enqueue_run p k = do {
     k1 \<leftarrow> remove_from_queue p k;
     k2 \<leftarrow> modify p (\<lambda>v. v\<lparr>vruntime := vruntime v + min_vruntime k1, cur_queue := RUN_QUEUE\<rparr>) k1;
     k3 \<leftarrow> run_insert p k2;
     modify p (\<lambda>v. v\<lparr>status := READY\<rparr>) k3 }"

definition add_proc_run :: "nat \<Rightarrow> bool \<Rightarrow> kern \<Rightarrow> (bool \<times> kern) option" where
  "add_proc_run p intr k = do {
     v \<leftarrow> deref p k;
     if intr \<and> status v = WAITING_NOINTERRUPT then Some (False, k)
     else do {
       k1 \<leftarrow> (if intr \<and> status v = WAITING then modify p (\<lambda>v. v\<lparr>interrupted := True\<rparr>) k else Some k);
       k2 \<leftarrow> enqueue_run p k1;
       Some (True, k2) } }"

definition remove_proc_run :: "nat \<Rightarrow> kern \<Rightarrow> kern option" where
  "remove_proc_run p k = do {
     k1 \<leftarrow> remove_from_queue p k;
     modify p (\<lambda>v. v\<lparr>vruntime := (if min_vruntime k1 \<le> vruntime v then vruntime v - min_vruntime k1 else vruntime v),
                     status := READY\<rparr>) k1 }"

definition check_interrupted :: "kern \<Rightarrow> (bool \<times> kern) option" where
  "check_interrupted k = do {
     c \<leftarrow> cur_proc k;
     v \<leftarrow> deref c k;
     k1 \<leftarrow> modify c (\<lambda>v. v\<lparr>interrupted := False\<rparr>) k;
     Some (interrupted v, k1) }"

definition fpu_used_handler :: "kern \<Rightarrow> kern option" where
  "fpu_used_handler k =
     Option.bind (cur_proc k) (\<lambda>c. modify c (\<lambda>v. v\<lparr>pstate := (pstate v)\<lparr>fpu_used := True\<rparr>\<rparr>) k)"

section \<open>The process tree\<close>

definition opt_modify :: "nat option \<Rightarrow> (proc \<Rightarrow> proc) \<Rightarrow> kern \<Rightarrow> kern option" where
  "opt_modify p f k = (case p of None \<Rightarrow> Some k | Some a \<Rightarrow> modify a f k)"

text \<open>\<open>proc::remove\<close>, which the destructor calls.\<close>

definition unlink_parent :: "nat \<Rightarrow> proc \<Rightarrow> kern \<Rightarrow> kern option" where
  "unlink_parent p v k =
     (case pparent v of
        None \<Rightarrow> Some k
      | Some a \<Rightarrow> modify a (\<lambda>w. if last_child w = Some p then w\<lparr>last_child := next_sibling v\<rparr> else w) k)"

definition proc_remove :: "nat \<Rightarrow> kern \<Rightarrow> kern option" where
  "proc_remove p k = do {
     v \<leftarrow> deref p k;
     k1 \<leftarrow> opt_modify (next_sibling v) (\<lambda>w. w\<lparr>prev_sibling := prev_sibling v\<rparr>) k;
     k2 \<leftarrow> (case prev_sibling v of
              Some s \<Rightarrow> modify s (\<lambda>w. w\<lparr>next_sibling := next_sibling v\<rparr>) k1
            | None \<Rightarrow> unlink_parent p v k1);
     modify p (\<lambda>w. w\<lparr>next_sibling := None, prev_sibling := None\<rparr>) k2 }"

text \<open>Dropping and taking a reference of a \<open>shared_ptr<shared_page_dir>\<close>: the last one frees the tables that are not
  shared with \<open>cloned_dir\<close>, and then drops that one.\<close>

definition sdir_of :: "nat option \<Rightarrow> kern \<Rightarrow> nat option" where
  "sdir_of d k = Option.bind d (\<lambda>a. map_option sdir (shared k a))"

definition destroy_dir :: "nat \<Rightarrow> shared_page_dir \<Rightarrow> kern \<Rightarrow> kern option" where
  "destroy_dir a s k =
     map_option (\<lambda>m. k\<lparr>shared := (shared k)(a := None), refs := (refs k)(a := 0), mm := m\<rparr>)
       (free_tables (sdir s) (sdir_of (cloned_dir s) k) (mm k))"

partial_function (option) release :: "nat option \<Rightarrow> kern \<Rightarrow> kern option" where
  "release d k =
     (case d of
        None \<Rightarrow> Some k
      | Some a \<Rightarrow>
          if 1 < refs k a then Some (k\<lparr>refs := (refs k)(a := refs k a - 1)\<rparr>)
          else Option.bind (shared k a) (\<lambda>s. Option.bind (destroy_dir a s k) (release (cloned_dir s))))"

definition retain :: "nat option \<Rightarrow> kern \<Rightarrow> kern" where
  "retain d k = (case d of None \<Rightarrow> k | Some a \<Rightarrow> k\<lparr>refs := (refs k)(a := Suc (refs k a))\<rparr>)"

text \<open>\<open>delete p\<close>.\<close>

definition delete_proc :: "nat \<Rightarrow> kern \<Rightarrow> kern option" where
  "delete_proc p k = do {
     v \<leftarrow> deref p k;
     k1 \<leftarrow> proc_remove p k;
     release (pdir v) (k1\<lparr>procs := (procs k1)(p := None)\<rparr>) }"

text \<open>Following \<open>next_sibling\<close> from \<open>p\<close> to the first process that satisfies \<open>P\<close>.\<close>

partial_function (option) find_sibling :: "(proc \<Rightarrow> bool) \<Rightarrow> kern \<Rightarrow> nat option \<Rightarrow> nat option option" where
  "find_sibling P k p =
     (case p of
        None \<Rightarrow> Some None
      | Some a \<Rightarrow> Option.bind (deref a k) (\<lambda>v. if P v then Some (Some a) else find_sibling P k (next_sibling v)))"

definition get_child_pid :: "nat \<Rightarrow> int \<Rightarrow> kern \<Rightarrow> nat option option" where
  "get_child_pid p c k = Option.bind (deref p k) (\<lambda>v. find_sibling (\<lambda>w. pid w = c) k (last_child v))"

end
