(* ===== verification/Sched.thy ===== *)
theory Sched
  imports Proc
begin

text \<open>
  The scheduler of \<open>kernel/proc/proc.cpp\<close>, the system calls of that file and the condition variable of
  \<open>kernel/include/lib/condvar.h\<close>. A call that blocks ends in a switch to another process; what it does after it is
  resumed is a definition of its own. \<open>now\<close> is the time \<open>pit::get_ns_passed\<close> returns, which does not advance
  while interrupts are off.
\<close>

section \<open>Signals and death\<close>

definition tkill_proc :: "nat \<Rightarrow> nat \<Rightarrow> kern \<Rightarrow> kern option" where
  "tkill_proc p sig k = do {
     v \<leftarrow> deref p k;
     if sig \<noteq> 0 \<and> status v \<noteq> ZOMBIE then do {
       b \<leftarrow> bitmap_set (of_nat sig) True (signals v);
       k1 \<leftarrow> modify p (\<lambda>v. v\<lparr>signals := b\<rparr>) k;
       (ok, k2) \<leftarrow> add_proc_run p True k1;
       Some k2 }
     else Some k }"

text \<open>The loop of \<open>exit\<close> over the children of \<open>c\<close>.\<close>

partial_function (option) leave_children :: "nat \<Rightarrow> nat option \<Rightarrow> kern \<Rightarrow> kern option" where
  "leave_children c child k =
     (case child of
        None \<Rightarrow> Some k
      | Some a \<Rightarrow> do {
          v \<leftarrow> deref a k;
          if pparent v \<noteq> Some c then None
          else do {
            k1 \<leftarrow> (if status v = ZOMBIE then delete_proc a k else modify a (\<lambda>w. w\<lparr>pparent := None\<rparr>) k);
            leave_children c (next_sibling v) k1 } })"

definition notify_parent :: "proc \<Rightarrow> kern \<Rightarrow> kern option" where
  "notify_parent v k =
     (case pparent v of
        None \<Rightarrow> Some k
      | Some a \<Rightarrow> do {
          w \<leftarrow> deref a k;
          if status w = WAITING \<and> (wait_pid w < 0 \<or> wait_pid w = pid v)
          then map_option snd (add_proc_run a False k)
          else (let csig = unat (clone_flags v AND CLONE_CSIGNAL_MASK)
                in tkill_proc a (if csig \<noteq> 0 then csig else SIGCHLD) k) })"

text \<open>\<open>exit\<close> up to its call of \<open>schedule\<close>.\<close>

definition exit_body :: "int \<Rightarrow> kern \<Rightarrow> kern option" where
  "exit_body st k = do {
     c \<leftarrow> cur_proc k;
     v0 \<leftarrow> deref c k;
     k1 \<leftarrow> leave_children c (last_child v0) k;
     v \<leftarrow> deref c k1;
     k1' \<leftarrow> release (tmp_dir k1) ((retain (pdir v) k1)\<lparr>tmp_dir := pdir v\<rparr>);
     d \<leftarrow> sdir_of (pdir v) k1';
     m1 \<leftarrow> free_page_loop d (page_addrs (stack_bot (pbrk v)) PROC_STACK_TOP) (mm k1');
     k2 \<leftarrow> remove_from_queue c (k1'\<lparr>mm := m1\<rparr>);
     x \<leftarrow> rb_find (on_tid (<) k2) (on_tid (=) k2) (tid v) (proc_list k2);
     pl \<leftarrow> rb_erase x (proc_list k2);
     k3 \<leftarrow> modify c (\<lambda>w. w\<lparr>status := ZOMBIE, cur_queue := NO_QUEUE, exit_status := st\<rparr>) (k2\<lparr>cur_proc := None, proc_list := pl\<rparr>);
     k4 \<leftarrow> notify_parent v k3;
     m2 \<leftarrow> free_kstack_tables d (mm k4);
     Some (k4\<lparr>mm := m2\<lparr>cur_dir := KERNEL_DIR\<rparr>\<rparr>) }"

section \<open>Choosing the next process\<close>

text \<open>How a call of \<open>schedule\<close> ends: it returns, it switches to a process in user or kernel mode, or it waits
  for an interrupt because nothing is ready; the process it came from is remembered.\<close>

datatype outcome = Returned | Switched nat bool | Idling "nat option"

definition fatal_signals :: "nat set" where
  "fatal_signals = {6, 14, 10, 8, 4, 2, 13, 23, 27, 3, 11, 12, 15, 5, 30, 31, 26, 24, 25}"

text \<open>Taking the first process of the queue: the signal it has to die of, if any.\<close>

definition choose_next :: "u64 \<Rightarrow> kern \<Rightarrow> (nat option \<times> kern) option" where
  "choose_next now k = do {
     x \<leftarrow> rb_min (run_queue k);
     let c = rkey (nd (run_queue k) x);
     v \<leftarrow> deref c k;
     let k1 = k\<lparr>last_sched := now, cur_proc := Some c, min_vruntime := vruntime v\<rparr>;
     let sig = first_one 0 (signals v);
     if sig = - 1 then Some (None, k1)
     else do {
       b \<leftarrow> bitmap_set sig False (signals v);
       k2 \<leftarrow> modify c (\<lambda>w. w\<lparr>signals := b\<rparr>) k1;
       Some (if unat sig = SIGKILL \<or> unat sig \<in> fatal_signals then Some (unat sig) else None, k2) } }"

definition switch_to :: "nat option \<Rightarrow> kern \<Rightarrow> (outcome \<times> kern) option" where
  "switch_to pold k = do {
     c \<leftarrow> cur_proc k;
     v \<leftarrow> deref c k;
     k1 \<leftarrow> modify c (\<lambda>w. w\<lparr>status := RUNNING\<rparr>) k;
     d \<leftarrow> sdir_of (pdir v) k1;
     Some (Switched c (user v),
           k1\<lparr>mm := (mm k1)\<lparr>cur_dir := d\<rparr>,
              cpu_fpu := (if pold \<noteq> Some c then fpu_buf (pstate v) else cpu_fpu k1)\<rparr>) }"

partial_function (option) dispatch :: "u64 \<Rightarrow> nat option \<Rightarrow> kern \<Rightarrow> (outcome \<times> kern) option" where
  "dispatch now pold k = do {
     (f, k1) \<leftarrow> choose_next now k;
     (case f of
        None \<Rightarrow> switch_to pold k1
      | Some sig \<Rightarrow> do {
          k2 \<leftarrow> exit_body (128 + int sig) k1;
          if \<not> online k2 then Some (Returned, k2)
          else if rb_empty (run_queue k2) then Some (Idling None, k2\<lparr>online := False\<rparr>)
          else dispatch now None k2 }) }"

definition cur_latency :: "kern \<Rightarrow> u64" where
  "cur_latency k = (if rb_size (run_queue k) \<noteq> 0 then ucast (sched_latency div rb_size (run_queue k)) else 0)"

definition save_regs :: "isr_regs option \<Rightarrow> proc \<Rightarrow> proc" where
  "save_regs regs v =
     (case regs of
        None \<Rightarrow> v
      | Some r \<Rightarrow> v\<lparr>pstate := (pstate v)\<lparr>gregs := iregs r\<rparr>, user := (ics r AND 3 \<noteq> 0)\<rparr>)"

definition save_fpu :: "u8 list \<Rightarrow> proc \<Rightarrow> proc" where
  "save_fpu fpu v = (if fpu_used (pstate v) then v\<lparr>pstate := (pstate v)\<lparr>fpu_buf := fpu, fpu_used := False\<rparr>\<rparr> else v)"

text \<open>What \<open>schedule\<close> does with the process \<open>c\<close> that was running.\<close>

definition put_back :: "nat \<Rightarrow> u64 \<Rightarrow> isr_regs option \<Rightarrow> kern \<Rightarrow> kern option" where
  "put_back c delta regs k = do {
     v \<leftarrow> deref c k;
     k1 \<leftarrow> (if cur_queue v = RUN_QUEUE
            then Option.bind (remove_from_queue c k) (modify c (\<lambda>w. w\<lparr>cur_queue := RUN_QUEUE\<rparr>))
            else Some k);
     k2 \<leftarrow> modify c (\<lambda>w. save_fpu (cpu_fpu k) (save_regs regs (w\<lparr>vruntime := vruntime w + delta\<rparr>))) k1;
     if cur_queue v = RUN_QUEUE
     then Option.bind (modify c (\<lambda>w. w\<lparr>status := READY\<rparr>) k2) (run_insert c)
     else Some k2 }"

definition schedule :: "u64 \<Rightarrow> isr_regs option \<Rightarrow> kern \<Rightarrow> (outcome \<times> kern) option" where
  "schedule now regs k =
     (let delta = now - last_sched k in
      if \<not> online k then Some (Returned, k)
      else if cur_proc k \<noteq> None \<and> delta < max SCHEDULE_MIN_DELTA (cur_latency k) \<and> regs \<noteq> None then Some (Returned, k)
      else do {
        k1 \<leftarrow> (case cur_proc k of None \<Rightarrow> Some k | Some c \<Rightarrow> put_back c delta regs k);
        if rb_empty (run_queue k1) then Some (Idling (cur_proc k), k1\<lparr>online := False\<rparr>)
        else dispatch now (cur_proc k) k1 })"

text \<open>What the idle loop does when an interrupt has made a process ready.\<close>

definition idle_resume :: "u64 \<Rightarrow> nat option \<Rightarrow> kern \<Rightarrow> (outcome \<times> kern) option" where
  "idle_resume now pold k = (if rb_empty (run_queue k) then Some (Idling pold, k) else dispatch now pold (k\<lparr>online := True\<rparr>))"

text \<open>The loop of \<open>timer_tick\<close> over the sleep queue; the iterator moves on before a process is woken.\<close>

partial_function (option) wake_sleepers :: "u64 \<Rightarrow> nat \<Rightarrow> kern \<Rightarrow> kern option" where
  "wake_sleepers now it k =
     (if it \<noteq> Rbtree.NIL \<and> snd (rkey (nd (sleep_queue k) it)) \<le> now
      then Option.bind (Rbtree.succ (sleep_queue k) it)
             (\<lambda>nx. Option.bind (add_proc_run (fst (rkey (nd (sleep_queue k) it))) False k)
               (\<lambda>r. wake_sleepers now nx (snd r)))
      else Some k)"

definition timer_tick :: "u64 \<Rightarrow> isr_regs \<Rightarrow> kern \<Rightarrow> (outcome \<times> kern) option" where
  "timer_tick now regs k = do {
     it \<leftarrow> rb_min (sleep_queue k);
     k1 \<leftarrow> wake_sleepers now it k;
     schedule now (Some regs) k1 }"

text \<open>\<open>__schedule\<close> up to the switch: \<open>regs\<close> is the state the assembly code saves.\<close>

definition do_schedule :: "u64 \<Rightarrow> cpu_regs \<Rightarrow> kern \<Rightarrow> (outcome \<times> kern) option" where
  "do_schedule now regs k =
     (case cur_proc k of
        None \<Rightarrow> schedule now None (k\<lparr>online := True\<rparr>)
      | Some c \<Rightarrow> Option.bind (modify c (\<lambda>v. v\<lparr>user := False, pstate := (pstate v)\<lparr>gregs := regs\<rparr>\<rparr>) k)
                    (\<lambda>k1. schedule now None (k1\<lparr>online := True\<rparr>)))"

text \<open>Its value once the process runs again.\<close>

definition schedule_ret :: "kern \<Rightarrow> ((errno + int) \<times> kern) option" where
  "schedule_ret k = map_option (\<lambda>(i, k1). (if i then Inl EINTR else Inr 0, k1)) (check_interrupted k)"

section \<open>System calls\<close>

text \<open>A call returns, or blocks after the given outcome of the scheduler.\<close>

datatype sysres = Ret "errno + int" | Blocked outcome

definition sys_exit :: "u64 \<Rightarrow> int \<Rightarrow> kern \<Rightarrow> (outcome \<times> kern) option" where
  "sys_exit now st k = Option.bind (exit_body st k) (schedule now None)"

definition sys_getpid :: "kern \<Rightarrow> int option" where
  "sys_getpid k = (case cur_proc k of None \<Rightarrow> Some (- 1) | Some c \<Rightarrow> map_option pid (deref c k))"

definition sys_setnice :: "int \<Rightarrow> kern \<Rightarrow> ((errno + int) \<times> kern) option" where
  "sys_setnice inc k = do {
     c \<leftarrow> cur_proc k;
     v \<leftarrow> deref c k;
     if inc < 0 \<and> puid v \<noteq> ROOT_UID then Some (Inl EACCES, k)
     else if inc = 0 then Some (Inr 0, k)
     else do {
       k1 \<leftarrow> remove_from_queue c k;
       k2 \<leftarrow> modify c (\<lambda>w. w\<lparr>nice := max NICE_MIN (min NICE_MAX (nice w + inc))\<rparr>) k1;
       k3 \<leftarrow> run_insert c k2;
       Some (Inr 0, k3) } }"

definition sys_nanosleep :: "u64 \<Rightarrow> cpu_regs \<Rightarrow> u64 \<Rightarrow> kern \<Rightarrow> (sysres \<times> kern) option" where
  "sys_nanosleep now regs ns k =
     (if ns < 10 then Some (Ret (Inr 0), k)
      else do {
        c \<leftarrow> cur_proc k;
        k1 \<leftarrow> remove_proc_run c k;
        k2 \<leftarrow> modify c (\<lambda>v. v\<lparr>status := WAITING, cur_queue := SLEEP_QUEUE\<rparr>) k1;
        k3 \<leftarrow> sleep_insert c (now + ns) k2;
        (out, k4) \<leftarrow> do_schedule now regs k3;
        Some (Blocked out, k4) })"

definition sys_tkill :: "int \<Rightarrow> int \<Rightarrow> kern \<Rightarrow> ((errno + int) \<times> kern) option" where
  "sys_tkill t sig k =
     (if sig < 0 then Some (Inl EINVAL, k)
      else do {
        x \<leftarrow> rb_find (on_tid (<) k) (on_tid (=) k) t (proc_list k);
        if x = Rbtree.NIL then Some (Inl ESRCH, k)
        else map_option (\<lambda>k1. (Inr 0, k1)) (tkill_proc (rkey (nd (proc_list k) x)) (nat sig) k) })"

definition kill_current :: "u64 \<Rightarrow> nat \<Rightarrow> kern \<Rightarrow> (outcome \<times> kern) option" where
  "kill_current now sig k = do {
     c \<leftarrow> cur_proc k;
     k1 \<leftarrow> tkill_proc c sig k;
     schedule now None (k1\<lparr>cur_proc := None\<rparr>) }"

text \<open>\<open>_waitpid_ret\<close>: the value of the call, the status stored, the kernel without the child.\<close>

definition waitpid_ret :: "nat \<Rightarrow> kern \<Rightarrow> (int \<times> int \<times> kern) option" where
  "waitpid_ret p k = do { v \<leftarrow> deref p k; k1 \<leftarrow> delete_proc p k; Some (pid v, exit_status v, k1) }"

datatype waitres = Wait_ret "errno + int \<times> int" | Wait_blocked outcome

definition wait_reap :: "nat \<Rightarrow> kern \<Rightarrow> (waitres \<times> kern) option" where
  "wait_reap p k = map_option (\<lambda>(r, st, k1). (Wait_ret (Inr (r, st)), k1)) (waitpid_ret p k)"

definition wait_block :: "u64 \<Rightarrow> cpu_regs \<Rightarrow> int \<Rightarrow> nat \<Rightarrow> kern \<Rightarrow> (waitres \<times> kern) option" where
  "wait_block now regs w c k = do {
     k1 \<leftarrow> modify c (\<lambda>v. v\<lparr>wait_pid := w\<rparr>) k;
     k2 \<leftarrow> remove_proc_run c k1;
     k3 \<leftarrow> modify c (\<lambda>v. v\<lparr>status := WAITING\<rparr>) k2;
     (out, k4) \<leftarrow> do_schedule now regs k3;
     Some (Wait_blocked out, k4) }"

text \<open>\<open>waitpid\<close> up to the point where it blocks; \<open>status_ok\<close> says whether \<open>_status.get()\<close> is not null.\<close>

definition sys_waitpid :: "u64 \<Rightarrow> cpu_regs \<Rightarrow> int \<Rightarrow> bool \<Rightarrow> int \<Rightarrow> kern \<Rightarrow> (waitres \<times> kern) option" where
  "sys_waitpid now regs p status_ok options k =
     (if options \<noteq> 0 then Some (Wait_ret (Inl EINVAL), k)
      else if \<not> status_ok then Some (Wait_ret (Inl EFAULT), k)
      else if p < - 1 then Some (Wait_ret (Inl ECHILD), k)
      else do {
        c \<leftarrow> cur_proc k;
        v \<leftarrow> deref c k;
        if wait_pid v \<noteq> 0 then None
        else if p \<le> 0 then
          (case last_child v of
             None \<Rightarrow> Some (Wait_ret (Inl ECHILD), k)
           | Some fc \<Rightarrow> do {
               z \<leftarrow> find_sibling (\<lambda>w. status w = ZOMBIE) k (Some fc);
               (case z of Some a \<Rightarrow> wait_reap a k | None \<Rightarrow> wait_block now regs (- 1) c k) })
        else do {
          z \<leftarrow> get_child_pid c p k;
          (case z of
             None \<Rightarrow> Some (Wait_ret (Inl ECHILD), k)
           | Some a \<Rightarrow> do {
               w \<leftarrow> deref a k;
               if status w = ZOMBIE then wait_reap a k else wait_block now regs p c k }) } })"

text \<open>The rest of \<open>waitpid\<close>, when the process \<open>c\<close> runs again.\<close>

definition waitpid_resume :: "int \<Rightarrow> nat \<Rightarrow> kern \<Rightarrow> (waitres \<times> kern) option" where
  "waitpid_resume p c k = do {
     (r, k1) \<leftarrow> schedule_ret k;
     (case r of
        Inl e \<Rightarrow> Some (Wait_ret (Inl e), k1)
      | Inr _ \<Rightarrow> do {
          v \<leftarrow> deref c k1;
          z \<leftarrow> find_sibling (\<lambda>w. \<not> ((p < 1 \<or> pid w \<noteq> p) \<and> status w \<noteq> ZOMBIE)) k1 (last_child v);
          a \<leftarrow> z;
          k2 \<leftarrow> modify c (\<lambda>v. v\<lparr>wait_pid := 0\<rparr>) k1;
          wait_reap a k2 }) }"

section \<open>Creating processes\<close>

definition new_proc :: "brk_state \<Rightarrow> kern \<Rightarrow> nat \<times> kern" where
  "new_proc b k =
     (let a = next_addr k;
          v = \<lparr>tid = next_tid k, pid = next_tid k, puid = 0, status = CREATED,
               pstate = \<lparr>gregs = \<lparr>eflags = 0, eip = 0, edi = 0, esi = 0, ebp = 0, esp = 0, ebx = 0, edx = 0, ecx = 0, eax = 0\<rparr>,
                         fpu_buf = [], fpu_used = False\<rparr>,
               pdir = None, user = False, interrupted = False, vruntime = 0, nice = 0, clone_flags = 0,
               exit_status = 0, pbrk = b, pparent = None, last_child = None, next_sibling = None, prev_sibling = None,
               cur_queue = NO_QUEUE, queue_handle = No_handle, signals = bitmap_new 32, wait_pid = 0\<rparr>
      in (a, k\<lparr>procs := (procs k)(a \<mapsto> v), next_addr := Suc a, next_tid := next_tid k + 1\<rparr>))"

text \<open>Linking a new process in front of the children of \<open>q\<close>.\<close>

definition link_child :: "nat \<Rightarrow> nat \<Rightarrow> kern \<Rightarrow> kern option" where
  "link_child a q k = do {
     w \<leftarrow> deref q k;
     k1 \<leftarrow> modify a (\<lambda>v. v\<lparr>pparent := Some q, next_sibling := last_child w\<rparr>) k;
     k2 \<leftarrow> opt_modify (last_child w) (\<lambda>v. v\<lparr>prev_sibling := Some a\<rparr>) k1;
     modify q (\<lambda>v. v\<lparr>last_child := Some a\<rparr>) k2 }"

definition STACK_TABLE :: int where "STACK_TABLE = 767"

text \<open>The directory of the new process \<open>a\<close>: a clone of its parent's, which it keeps alive when it shares memory.\<close>

definition clone_dir :: "(nat \<Rightarrow> u32) \<Rightarrow> u32 \<Rightarrow> proc \<Rightarrow> nat \<Rightarrow> kern \<Rightarrow> kern option" where
  "clone_dir phys_of flags v a k = do {
     d \<leftarrow> sdir_of (pdir v) k;
     (d', m) \<leftarrow> dir_clone phys_of d flags STACK_TABLE STACK_TABLE (mm k);
     let s = \<lparr>sdir = d', cloned_dir = (if flags AND CLONE_VM \<noteq> 0 then pdir v else None)\<rparr>;
     modify a (\<lambda>w. w\<lparr>pdir := Some (next_addr k)\<rparr>)
       (retain (cloned_dir s)
         (k\<lparr>mm := m, shared := (shared k)(next_addr k \<mapsto> s), refs := (refs k)(next_addr k := 1), next_addr := Suc (next_addr k)\<rparr>)) }"

definition clone_proc :: "u32 \<Rightarrow> proc \<Rightarrow> cpu_regs \<Rightarrow> u8 list \<Rightarrow> proc \<Rightarrow> proc" where
  "clone_proc flags v saved fpu w =
     w\<lparr>pid := (if flags AND CLONE_THREAD \<noteq> 0 then pid v else pid w), user := False, puid := puid v, nice := nice v,
       clone_flags := flags, pbrk := pbrk v,
       pstate := \<lparr>gregs = saved, fpu_buf = (if fpu_used (pstate v) then fpu else fpu_buf (pstate v)), fpu_used = False\<rparr>\<rparr>"

text \<open>\<open>clone\<close> as the parent sees it; \<open>saved\<close> is what \<open>save_state\<close> and the stack pointer give. Memory for the objects
  is always there.\<close>

definition sys_clone :: "(nat \<Rightarrow> u32) \<Rightarrow> cpu_regs \<Rightarrow> u32 \<Rightarrow> kern \<Rightarrow> ((errno + int) \<times> kern) option" where
  "sys_clone phys_of saved flags k = do {
     c \<leftarrow> cur_proc k;
     v \<leftarrow> deref c k;
     if flags AND CLONE_CSIGNAL_MASK \<ge> 32 then Some (Inl EINVAL, k)
     else do {
       let (a, k0) = new_proc (pbrk v) k;
       k1 \<leftarrow> clone_dir phys_of flags v a k0;
       k2 \<leftarrow> modify a (clone_proc flags v saved (cpu_fpu k)) k1;
       q \<leftarrow> (if flags AND CLONE_PARENT \<noteq> 0 then pparent v else Some c);
       k3 \<leftarrow> link_child a q k2;
       (ok, k4) \<leftarrow> add_proc_run a False k3;
       if eflags saved AND 0x200 \<noteq> 0 then None
       else do {
         (x, pl) \<leftarrow> rb_insert (on_procs proc_less k4) (on_procs proc_eq k4) a (proc_list k4);
         w \<leftarrow> deref a k4;
         Some (Inr (pid w), k4\<lparr>proc_list := pl\<rparr>) } } }"

section \<open>Condition variables\<close>

text \<open>\<open>condvar::wait\<close> of the variable \<open>cv\<close> up to the switch; releasing the lock before it and taking it again
  afterwards are steps of theory \<open>Sync\<close>.\<close>

definition wait_enqueue :: "nat \<Rightarrow> nat \<Rightarrow> kern \<Rightarrow> kern option" where
  "wait_enqueue cv c k =
     (let (it, l) = push_front c (waiting_procs k cv)
      in modify c (\<lambda>v. v\<lparr>status := WAITING, cur_queue := EVENT_QUEUE, queue_handle := List_iter cv it\<rparr>)
           (k\<lparr>waiting_procs := (waiting_procs k)(cv := l)\<rparr>))"

definition condvar_wait :: "u64 \<Rightarrow> cpu_regs \<Rightarrow> nat \<Rightarrow> kern \<Rightarrow> (sysres \<times> kern) option" where
  "condvar_wait now regs cv k =
     (case cur_proc k of
        None \<Rightarrow> Some (Ret (Inl EFAULT), k)
      | Some c \<Rightarrow> do {
          k1 \<leftarrow> remove_proc_run c (k\<lparr>online := False\<rparr>);
          k2 \<leftarrow> wait_enqueue cv c k1;
          (out, k3) \<leftarrow> do_schedule now regs k2;
          Some (Blocked out, k3) })"

text \<open>The loop of \<open>condvar::wake\<close> from the iterator \<open>it\<close>; \<open>- 1\<close> wakes all.\<close>

partial_function (option) wake_loop :: "nat \<Rightarrow> int \<Rightarrow> nat \<Rightarrow> kern \<Rightarrow> ((errno + int) \<times> kern) option" where
  "wake_loop cv t it k =
     (if it = ll_end (waiting_procs k cv) then Some (if t = - 1 then Inr 0 else Inl EINVAL, k)
      else do {
        let p = key (heap (waiting_procs k cv) it);
        v \<leftarrow> deref p k;
        if tid v = t then do {
          (ok, k1) \<leftarrow> add_proc_run p False k;
          Some (if ok then Inr 0 else Inl EFAULT, k1) }
        else if t = - 1 then do {
          (ok, k1) \<leftarrow> add_proc_run p False k;
          if ok then wake_loop cv t (it_next (waiting_procs k cv) it) k1 else Some (Inl EFAULT, k1) }
        else wake_loop cv t (it_next (waiting_procs k cv) it) k })"

definition condvar_wake :: "nat \<Rightarrow> int \<Rightarrow> kern \<Rightarrow> ((errno + int) \<times> kern) option" where
  "condvar_wake cv t k = wake_loop cv t (ll_begin (waiting_procs k cv)) k"

section \<open>The order of the run queue\<close>

text \<open>A process is numbered when it exists and no other process has its thread id.\<close>

definition numbered :: "kern \<Rightarrow> nat set" where
  "numbered k = {a. \<exists>v. procs k a = Some v \<and> (\<forall>b w. procs k b = Some w \<and> tid w = tid v \<longrightarrow> b = a)}"

text \<open>The keys of the run queue are in a linear order, and \<open>operator<\<close> of \<open>proc\<close> compares them.\<close>

datatype proc_key = Proc_key (key_time: u64) (key_nice: int) (key_tid: int)

instantiation proc_key :: linorder
begin

definition less_proc_key :: "proc_key \<Rightarrow> proc_key \<Rightarrow> bool" where
  "less_proc_key a b \<longleftrightarrow> key_time a < key_time b \<or> key_time a = key_time b \<and>
     (key_nice a < key_nice b \<or> key_nice a = key_nice b \<and> key_tid a < key_tid b)"

definition less_eq_proc_key :: "proc_key \<Rightarrow> proc_key \<Rightarrow> bool" where "less_eq_proc_key a b \<longleftrightarrow> a = b \<or> a < b"

instance
  by standard (auto simp: less_proc_key_def less_eq_proc_key_def intro: proc_key.expand)

end

definition key_of :: "proc \<Rightarrow> proc_key" where "key_of p = Proc_key (vruntime p) (nice p) (tid p)"

lemma proc_less_key: "proc_less p q \<longleftrightarrow> key_of p < key_of q"
  by (auto simp: proc_less_def key_of_def less_proc_key_def)

lemma proc_less_trans: "proc_less p q \<Longrightarrow> proc_less q r \<Longrightarrow> proc_less p r"
  unfolding proc_less_key by (rule less_trans)

lemma proc_less_linear: "proc_less p q \<or> proc_less q p \<or> tid p = tid q"
  unfolding proc_less_key using less_linear [of "key_of p" "key_of q"] by (auto simp: key_of_def)

lemma numberedE:
  assumes "a \<in> numbered k"
  obtains v where "procs k a = Some v" "\<And>b w. procs k b = Some w \<Longrightarrow> tid w = tid v \<Longrightarrow> b = a"
  using assms by (auto simp: numbered_def)

lemma proc_less_irrefl: "\<not> proc_less p p"
  by (simp add: proc_less_key)

interpretation proc_keys: key_order "on_procs proc_less k" "on_procs proc_eq k" "numbered k" for k
proof
  fix a b c
  assume a: "a \<in> numbered k"
  then obtain v where v: "procs k a = Some v" "\<And>b w. procs k b = Some w \<Longrightarrow> tid w = tid v \<Longrightarrow> b = a" by (rule numberedE) blast
  show "\<not> on_procs proc_less k a a" by (simp add: on_procs_def v proc_less_irrefl)
  assume "b \<in> numbered k"
  then obtain w where w: "procs k b = Some w" "\<And>c u. procs k c = Some u \<Longrightarrow> tid u = tid w \<Longrightarrow> c = b" by (rule numberedE) blast
  have eq: "on_procs proc_eq k a b \<longleftrightarrow> a = b"
    using v(1) w(1) w(2) [OF v(1)] by (auto simp: on_procs_def proc_eq_def)
  show "on_procs proc_eq k a b \<longleftrightarrow> \<not> on_procs proc_less k a b \<and> \<not> on_procs proc_less k b a"
  proof (cases "a = b")
    case True
    then show ?thesis using v(1) by (simp add: eq on_procs_def proc_less_irrefl proc_eq_def)
  next
    case False
    then have "tid v \<noteq> tid w" using w(2) [OF v(1)] by auto
    then show ?thesis using False proc_less_linear [of v w] v(1) w(1) by (auto simp: eq) (auto simp: on_procs_def)
  qed
  assume "c \<in> numbered k"
  then obtain u where u: "procs k c = Some u" by (rule numberedE)
  show "on_procs proc_less k a c" if "on_procs proc_less k a b" "on_procs proc_less k b c"
    using that v(1) w(1) u by (auto simp: on_procs_def intro: proc_less_trans)
  show "on_procs proc_less k a c = on_procs proc_less k b c \<and> on_procs proc_less k c a = on_procs proc_less k c b"
    if "on_procs proc_eq k a b"
    using that eq by simp
qed

text \<open>The run queue of a kernel: a consistent tree of numbered processes in order, with its size.\<close>

definition run_queue_ok :: "kern \<Rightarrow> nat tree \<Rightarrow> bool" where
  "run_queue_ok k T \<longleftrightarrow> rb_ok (run_queue k) T \<and> ordered_keys (on_procs proc_less k) (numbered k) (run_queue k) (inorder T) \<and>
     rb_sz (run_queue k) = of_nat (size T)"

definition queued :: "kern \<Rightarrow> nat tree \<Rightarrow> nat list" where
  "queued k T = map (\<lambda>x. rkey (nd (run_queue k) x)) (inorder T)"

lemma modify_Some [simp]: "procs k p = Some v \<Longrightarrow> modify p f k = Some (k\<lparr>procs := (procs k)(p \<mapsto> f v)\<rparr>)"
  by (simp add: modify_def)

lemma on_procs_upd [simp]:
  "on_procs R (k\<lparr>run_queue := q\<rparr>) = on_procs R k" "numbered (k\<lparr>run_queue := q\<rparr>) = numbered k"
  by (simp_all add: on_procs_def fun_eq_iff numbered_def)

lemma on_proc_eq_numbered:
  assumes "a \<in> numbered k" "b \<in> numbered k"
  shows "on_procs proc_eq k a b \<longleftrightarrow> a = b"
proof -
  obtain v where v: "procs k a = Some v" using assms(1) by (rule numberedE)
  obtain w where w: "procs k b = Some w" "\<And>c u. procs k c = Some u \<Longrightarrow> tid u = tid w \<Longrightarrow> c = b" using assms(2) by (rule numberedE) blast
  show ?thesis using v w(1) w(2) [OF v] by (auto simp: on_procs_def proc_eq_def)
qed

text \<open>The order is that of the run times, the nice values and the thread ids.\<close>

definition sched_key :: "kern \<Rightarrow> nat \<Rightarrow> proc_key option" where "sched_key k a = map_option key_of (procs k a)"

lemma on_procs_key: "sched_key k a = sched_key k' a \<Longrightarrow> sched_key k b = sched_key k' b \<Longrightarrow>
    on_procs proc_less k a b = on_procs proc_less k' a b"
  by (auto simp: sched_key_def on_procs_def proc_less_key split: option.splits)

lemma numbered_tid: "(\<And>a. map_option tid (procs k a) = map_option tid (procs k' a)) \<Longrightarrow> numbered k = numbered k'"
proof -
  assume t: "\<And>a. map_option tid (procs k a) = map_option tid (procs k' a)"
  have "numbered k = {a. \<exists>t. map_option tid (procs k a) = Some t \<and> (\<forall>b. map_option tid (procs k b) = Some t \<longrightarrow> b = a)}" for k :: kern
    by (force simp: numbered_def)
  then show ?thesis by (simp only: t)
qed

lemma ordered_keys_change:
  assumes "ordered_keys (on_procs proc_less k) (numbered k) q xs" "numbered k = numbered k'"
    and "\<And>x. x \<in> set xs \<Longrightarrow> sched_key k' (rkey (nd q x)) = sched_key k (rkey (nd q x))"
  shows "ordered_keys (on_procs proc_less k') (numbered k') q xs"
proof -
  have "on_procs proc_less k' (rkey (nd q x)) (rkey (nd q y))"
    if "x \<in> set xs" "y \<in> set xs" "on_procs proc_less k (rkey (nd q x)) (rkey (nd q y))" for x y
    using that on_procs_key [OF assms(3) assms(3), of x y] by blast
  moreover have "sorted_wrt (\<lambda>x y. on_procs proc_less k (rkey (nd q x)) (rkey (nd q y))) xs"
    using assms(1) by (simp add: ordered_keys_def)
  ultimately have "sorted_wrt (\<lambda>x y. on_procs proc_less k' (rkey (nd q x)) (rkey (nd q y))) xs"
    by (rule sorted_wrt_mono_rel)
  then show ?thesis using assms(1,2) by (simp add: ordered_keys_def)
qed

lemma run_queue_ok_change:
  assumes "run_queue_ok k T" "run_queue k' = run_queue k" "\<And>a. map_option tid (procs k' a) = map_option tid (procs k a)"
    and "\<And>a. a \<in> set (queued k T) \<Longrightarrow> sched_key k' a = sched_key k a"
  shows "run_queue_ok k' T" "queued k' T = queued k T"
proof -
  have "ordered_keys (on_procs proc_less k') (numbered k') (run_queue k) (inorder T)"
    using ordered_keys_change [of k "run_queue k" "inorder T" k'] assms numbered_tid [of k k']
    by (auto simp: run_queue_ok_def queued_def)
  then show "run_queue_ok k' T" using assms(1,2) by (simp add: run_queue_ok_def)
  show "queued k' T = queued k T" using assms(2) by (simp add: queued_def)
qed

text \<open>Inserting a process that is not in the queue.\<close>

lemma run_insert_ok:
  assumes ok: "run_queue_ok k T" and p: "p \<in> numbered k" "p \<notin> set (queued k T)"
  shows "\<exists>x q T' A B. run_insert p k = modify p (\<lambda>v. v\<lparr>queue_handle := Tree_node x\<rparr>) (k\<lparr>run_queue := q\<rparr>) \<and>
    run_queue_ok (k\<lparr>run_queue := q\<rparr>) T' \<and> x \<in> set_tree T' \<and> rkey (nd q x) = p \<and> queued k T = A @ B \<and> queued (k\<lparr>run_queue := q\<rparr>) T' = A @ p # B"
proof -
  have o: "rb_ok (run_queue k) T" "ordered_keys (on_procs proc_less k) (numbered k) (run_queue k) (inorder T)"
    "rb_sz (run_queue k) = of_nat (size T)" using ok by (auto simp: run_queue_ok_def)
  have new: "\<not> (\<exists>y \<in> set_tree T. on_procs proc_eq k p (rkey (nd (run_queue k) y)))"
    using p o(2) by (auto simp: on_proc_eq_numbered ordered_keys_def queued_def)
  obtain x q T' where i: "rb_insert (on_procs proc_less k) (on_procs proc_eq k) p (run_queue k) = Some (x, q)" "rb_ok q T'"
    "ordered_keys (on_procs proc_less k) (numbered k) q (inorder T')" "x \<in> set_tree T'" "\<forall>a \<in> set_tree T. rkey (nd q a) = rkey (nd (run_queue k) a)"
    "rkey (nd q x) = p" "rb_sz q = rb_sz (run_queue k) + 1" "\<exists>A B. inorder T = A @ B \<and> inorder T' = A @ x # B"
    using proc_keys.insert_ok [OF o(1,2) p(1)] new by (simp only: if_False) blast
  obtain A B where AB: "inorder T = A @ B" "inorder T' = A @ x # B" using i(8) by blast
  have sz: "size T' = Suc (size T)" using AB by (metis length_inorder length_append length_Cons add_Suc_right)
  have keys: "rkey (nd q a) = rkey (nd (run_queue k) a)" if "a \<in> set A \<union> set B" for a
    using i(5) that AB(1) by (metis set_inorder set_append)
  let ?k = "k\<lparr>run_queue := q\<rparr>"
  have "run_queue_ok ?k T'"
    using i(2,3,7) o(3) sz by (simp add: run_queue_ok_def)
  moreover have "queued k T = map (\<lambda>x. rkey (nd (run_queue k) x)) A @ map (\<lambda>x. rkey (nd (run_queue k) x)) B"
    "queued ?k T' = map (\<lambda>x. rkey (nd (run_queue k) x)) A @ p # map (\<lambda>x. rkey (nd (run_queue k) x)) B"
    using AB i(6) keys by (auto simp: queued_def)
  moreover have "run_insert p k = modify p (\<lambda>v. v\<lparr>queue_handle := Tree_node x\<rparr>) ?k" using i(1) by (simp add: run_insert_def)
  ultimately show ?thesis using i(4,6) by blast
qed

lemma enqueue_run_ok:
  assumes ok: "run_queue_ok k T" and p: "p \<in> numbered k" "p \<notin> set (queued k T)"
    and v: "procs k p = Some v" "cur_queue v = NO_QUEUE"
  shows "\<exists>x q T' A B. enqueue_run p k = Some (k\<lparr>run_queue := q, procs := (procs k)(p \<mapsto> v\<lparr>vruntime := vruntime v + min_vruntime k,
      cur_queue := RUN_QUEUE, queue_handle := Tree_node x, status := READY\<rparr>)\<rparr>) \<and>
    rkey (nd q x) = p \<and> queued k T = A @ B \<and> (\<forall>k'. run_queue k' = q \<longrightarrow> queued k' T' = A @ p # B) \<and>
    (\<forall>w. tid w = tid v \<and> nice w = nice v \<and> vruntime w = vruntime v + min_vruntime k \<longrightarrow>
      run_queue_ok (k\<lparr>run_queue := q, procs := (procs k)(p \<mapsto> w)\<rparr>) T')"
proof -
  let ?v = "v\<lparr>queue_handle := No_handle, vruntime := vruntime v + min_vruntime k, cur_queue := RUN_QUEUE\<rparr>"
  let ?k = "k\<lparr>procs := (procs k)(p \<mapsto> ?v)\<rparr>"
  have t: "map_option tid (procs ?k a) = map_option tid (procs k a)" for a using v(1) by simp
  have s: "sched_key ?k a = sched_key k a" if "a \<in> set (queued k T)" for a
    using that p(2) by (auto simp: sched_key_def)
  have "run_queue_ok ?k T" "queued ?k T = queued k T"
    by (rule run_queue_ok_change [OF ok _ t s]; simp)+
  moreover have "p \<in> numbered ?k" using numbered_tid [OF t] p(1) by simp
  moreover have "p \<notin> set (queued ?k T)" using calculation(2) p(2) by simp
  ultimately obtain x q T' A B where i: "run_insert p ?k = modify p (\<lambda>v. v\<lparr>queue_handle := Tree_node x\<rparr>) (?k\<lparr>run_queue := q\<rparr>)"
    "run_queue_ok (?k\<lparr>run_queue := q\<rparr>) T'" "rkey (nd q x) = p" "queued k T = A @ B" "queued (?k\<lparr>run_queue := q\<rparr>) T' = A @ p # B"
    using run_insert_ok [of ?k T p] by metis
  have "enqueue_run p k = Some (k\<lparr>run_queue := q, procs := (procs k)(p \<mapsto> v\<lparr>vruntime := vruntime v + min_vruntime k,
      cur_queue := RUN_QUEUE, queue_handle := Tree_node x, status := READY\<rparr>)\<rparr>)"
    using v i(1) by (simp add: enqueue_run_def remove_from_queue_def deref_def queue_erase_def)
  moreover have "run_queue_ok (k\<lparr>run_queue := q, procs := (procs k)(p \<mapsto> w)\<rparr>) T'"
    if "tid w = tid v" "nice w = nice v" "vruntime w = vruntime v + min_vruntime k" for w
    by (rule run_queue_ok_change(1) [OF i(2)]) (use that in \<open>auto simp: sched_key_def key_of_def\<close>)
  moreover have "queued k' T' = A @ p # B" if "run_queue k' = q" for k' using i(5) that by (simp add: queued_def)
  ultimately show ?thesis using i(3,4) by blast
qed

section \<open>Properties of the scheduler\<close>

text \<open>C11: a process that is in no queue and may be woken is put into the run queue: its run time is
  moved up by the least run time, it becomes ready and the queue, which is again a consistent tree in the order of
  run time, nice value and thread id, holds the processes it held before, in the same order, and the process; its
  handle is the node it is at; a signal marks a process that waits as interrupted; no other process changes.\<close>

theorem add_proc_run_correct:
  assumes "run_queue_ok k T" "p \<in> numbered k" "p \<notin> set (queued k T)" "procs k p = Some v" "cur_queue v = NO_QUEUE"
    and "\<not> (intr \<and> status v = WAITING_NOINTERRUPT)"
  shows "\<exists>k' T' A B x v'. add_proc_run p intr k = Some (True, k') \<and> run_queue_ok k' T' \<and>
    queued k T = A @ B \<and> queued k' T' = A @ p # B \<and> procs k' = (procs k)(p \<mapsto> v') \<and>
    v' = v\<lparr>interrupted := (interrupted v \<or> (intr \<and> status v = WAITING)), vruntime := vruntime v + min_vruntime k,
           cur_queue := RUN_QUEUE, queue_handle := Tree_node x, status := READY\<rparr> \<and>
    rkey (nd (run_queue k') x) = p \<and> sleep_queue k' = sleep_queue k \<and> waiting_procs k' = waiting_procs k"
proof -
  let ?v = "v\<lparr>interrupted := (interrupted v \<or> (intr \<and> status v = WAITING))\<rparr>"
  let ?k = "k\<lparr>procs := (procs k)(p \<mapsto> ?v)\<rparr>"
  have t: "map_option tid (procs ?k a) = map_option tid (procs k a)" for a using assms(4) by simp
  have s: "sched_key ?k a = sched_key k a" for a using assms(4) by (simp add: sched_key_def key_of_def)
  have o: "run_queue_ok ?k T" "queued ?k T = queued k T" "p \<in> numbered ?k" "procs ?k p = Some ?v" "cur_queue ?v = NO_QUEUE"
    using run_queue_ok_change [OF assms(1) _ t s] numbered_tid [OF t] assms(2,5) by (auto split: if_splits)
  obtain x q T' A B where i: "enqueue_run p ?k = Some (?k\<lparr>run_queue := q, procs := (procs ?k)(p \<mapsto> ?v\<lparr>vruntime := vruntime ?v + min_vruntime ?k,
      cur_queue := RUN_QUEUE, queue_handle := Tree_node x, status := READY\<rparr>)\<rparr>)" "rkey (nd q x) = p" "queued k T = A @ B"
    "\<forall>k'. run_queue k' = q \<longrightarrow> queued k' T' = A @ p # B"
    "\<forall>w. tid w = tid ?v \<and> nice w = nice ?v \<and> vruntime w = vruntime ?v + min_vruntime ?k \<longrightarrow>
      run_queue_ok (?k\<lparr>run_queue := q, procs := (procs ?k)(p \<mapsto> w)\<rparr>) T'"
    using enqueue_run_ok [OF o(1,3) _ o(4,5)] assms(3) o(2) by auto
  let ?v' = "v\<lparr>interrupted := (interrupted v \<or> (intr \<and> status v = WAITING)), vruntime := vruntime v + min_vruntime k,
           cur_queue := RUN_QUEUE, queue_handle := Tree_node x, status := READY\<rparr>"
  let ?k' = "k\<lparr>run_queue := q, procs := (procs k)(p \<mapsto> ?v')\<rparr>"
  have pre: "(if intr \<and> status v = WAITING then modify p (\<lambda>v. v\<lparr>interrupted := True\<rparr>) k else Some k) = Some ?k"
    using assms(4) by (cases v) (auto simp: fun_upd_idem)
  have "add_proc_run p intr k = Some (True, ?k')"
    using assms(4,6) pre i(1) by (auto simp: add_proc_run_def deref_def)
  moreover have "run_queue_ok ?k' T'" using i(5) [rule_format, of ?v'] by simp
  moreover have "queued ?k' T' = A @ p # B" using i(4) by simp
  ultimately show ?thesis using i(2,3) by (intro exI conjI) (assumption | simp)+
qed

text \<open>A kernel with the given processes and empty queues, for examples.\<close>

definition example_proc :: "int \<Rightarrow> proc" where
  "example_proc t =
     \<lparr>tid = t, pid = t, puid = 0, status = READY,
      pstate = \<lparr>gregs = \<lparr>eflags = 0, eip = 0, edi = 0, esi = 0, ebp = 0, esp = 0, ebx = 0, edx = 0, ecx = 0, eax = 0\<rparr>,
                fpu_buf = [], fpu_used = False\<rparr>,
      pdir = Some 0, user = True, interrupted = False, vruntime = 0, nice = 0, clone_flags = 0, exit_status = 0,
      pbrk = \<lparr>brk_start = 0, brk_end = 0, stack_bot = 0\<rparr>, pparent = None, last_child = None, next_sibling = None, prev_sibling = None,
      cur_queue = NO_QUEUE, queue_handle = No_handle, signals = \<lparr>words = [0], allocated = True, nbits = 32, bsz = 1\<rparr>, wait_pid = 0\<rparr>"

definition example_kern :: "(nat \<Rightarrow> proc option) \<Rightarrow> kern" where
  "example_kern ps =
     \<lparr>procs = ps, shared = (\<lambda>_. Some \<lparr>sdir = 0, cloned_dir = None\<rparr>), refs = (\<lambda>_. 2), tmp_dir = None, next_addr = 10, next_tid = 10,
      run_queue = rb_new 0 0, sleep_queue = rb_new (0, 0) 0, waiting_procs = (\<lambda>_. ll_new 0), proc_list = rb_new 0 0, cur_proc = None,
      min_vruntime = 5, online = True, last_sched = 0, cpu_fpu = [], mm = zero_example\<rparr>"

lemma example_kern_sel [simp]:
  "procs (example_kern ps) = ps" "run_queue (example_kern ps) = rb_new 0 0" "online (example_kern ps)"
  "cur_proc (example_kern ps) = None" "min_vruntime (example_kern ps) = 5"
  by (simp_all add: example_kern_def)

lemma example_run_queue: "run_queue_ok (example_kern ps) Leaf" "queued (example_kern ps) Leaf = []"
  using rb_new_ok [of "0 :: nat" 0] by (simp_all add: run_queue_ok_def queued_def) (simp add: rb_new_def)

theorem add_proc_run_correct_witness:
  "\<exists>k' T'. add_proc_run 1 True (example_kern [1 \<mapsto> (example_proc 7)\<lparr>status := WAITING\<rparr>]) = Some (True, k') \<and>
     run_queue_ok k' T' \<and> queued k' T' = [1] \<and> map_option interrupted (procs k' 1) = Some True"
proof -
  let ?v = "(example_proc 7)\<lparr>status := WAITING\<rparr>"
  let ?k = "example_kern [1 \<mapsto> ?v]"
  have "1 \<in> numbered ?k" by (auto simp: numbered_def)
  moreover have "procs ?k 1 = Some ?v" "cur_queue ?v = NO_QUEUE" "status ?v = WAITING" by (simp_all add: example_proc_def)
  ultimately show ?thesis
    using add_proc_run_correct [OF example_run_queue(1), of 1 "[1 \<mapsto> ?v]" ?v True] by (auto simp: example_run_queue)
qed

text \<open>C12: with no process running and no signal pending for the process it chooses, \<open>schedule\<close>
  switches to the process of the run queue with the least run time, the least nice value among those, the least thread
  id among those: it is running, its page directory and its floating point state are loaded, and its run time is the
  least run time new processes are given.\<close>

theorem schedule_picks_least:
  assumes "run_queue_ok k T" "T \<noteq> Leaf" "size T < 2 ^ 32" "online k" "cur_proc k = None"
    and c: "c = hd (queued k T)" "procs k c = Some v" "first_one 0 (signals v) = - 1" "sdir_of (pdir v) k = Some d"
  shows "\<exists>k'. schedule now regs k = Some (Switched c (user v), k') \<and> cur_proc k' = Some c \<and>
    procs k' = (procs k)(c \<mapsto> v\<lparr>status := RUNNING\<rparr>) \<and> min_vruntime k' = vruntime v \<and> last_sched k' = now \<and>
    cur_dir (mm k') = d \<and> cpu_fpu k' = fpu_buf (pstate v) \<and> run_queue k' = run_queue k \<and>
    (\<forall>b w. b \<in> set (queued k T) \<and> procs k b = Some w \<and> b \<noteq> c \<longrightarrow> proc_less v w)"
proof -
  have ok: "rb_ok (run_queue k) T" "ordered_keys (on_procs proc_less k) (numbered k) (run_queue k) (inorder T)"
    "rb_sz (run_queue k) = of_nat (size T)" using assms(1) by (auto simp: run_queue_ok_def)
  have ne: "inorder T \<noteq> []" "0 < size T" using assms(2) by (cases T; simp)+
  then have "rb_sz (run_queue k) \<noteq> 0" using ok(3) assms(3) by (simp add: word_of_nat_eq_0_iff nat_dvd_not_less)
  then have e: "\<not> rb_empty (run_queue k)" by (simp add: rb_empty_def)
  have "rb_min (run_queue k) = Some (hd (inorder T))"
    using extreme_ok [of "run_queue k" Rbtree.NIL T True] ok(1) assms(2)
    by (simp add: rb_min_def node_min_def rb_ok_def located_def)
  moreover have "rkey (nd (run_queue k) (hd (inorder T))) = c" using c(1) ne(1) by (simp add: queued_def hd_map)
  ultimately have n: "choose_next now k = Some (None, k\<lparr>last_sched := now, cur_proc := Some c, min_vruntime := vruntime v\<rparr>)"
    using c by (simp add: choose_next_def deref_def)
  have "proc_less v w" if b: "b \<in> set (queued k T)" "procs k b = Some w" "b \<noteq> c" for b w
  proof -
    obtain y where y: "y \<in> set (inorder T)" "b = rkey (nd (run_queue k) y)" using b(1) by (auto simp: queued_def)
    have "y \<noteq> hd (inorder T)" using b(3) y(2) \<open>rkey _ = c\<close> by auto
    then have "y \<in> set (tl (inorder T))" using y(1) ne(1) by (cases "inorder T") auto
    then have "on_procs proc_less k c b"
      using ok(2) ne(1) y(2) \<open>rkey _ = c\<close> by (cases "inorder T") (auto simp: ordered_keys_def)
    then show ?thesis using b(2) c(2) by (simp add: on_procs_def)
  qed
  moreover have "schedule now regs k = dispatch now None k" using assms(4,5) e by (simp add: schedule_def)
  moreover have "dispatch now None k = switch_to None (k\<lparr>last_sched := now, cur_proc := Some c, min_vruntime := vruntime v\<rparr>)"
    by (subst dispatch.simps) (simp add: n)
  moreover have "switch_to None (k\<lparr>last_sched := now, cur_proc := Some c, min_vruntime := vruntime v\<rparr>) =
      Some (Switched c (user v), k\<lparr>last_sched := now, cur_proc := Some c, min_vruntime := vruntime v,
        procs := (procs k)(c \<mapsto> v\<lparr>status := RUNNING\<rparr>), mm := (mm k)\<lparr>cur_dir := d\<rparr>, cpu_fpu := fpu_buf (pstate v)\<rparr>)"
    using c(2,4) by (auto simp: switch_to_def deref_def sdir_of_def bind_eq_Some_conv)
  ultimately show ?thesis by (simp only:) auto
qed

theorem schedule_picks_least_witness:
  "\<exists>k1 k2. add_proc_run 1 False (example_kern [1 \<mapsto> example_proc 7]) = Some (True, k1) \<and>
     schedule 99 None k1 = Some (Switched 1 True, k2) \<and> min_vruntime k2 = 5 \<and> cur_proc k2 = Some 1"
proof -
  let ?k = "example_kern [1 \<mapsto> example_proc 7]"
  have "1 \<in> numbered ?k" by (auto simp: numbered_def)
  moreover have "procs ?k 1 = Some (example_proc 7)" "cur_queue (example_proc 7) = NO_QUEUE" by (simp_all add: example_proc_def)
  ultimately obtain x q T' A B where i: "enqueue_run 1 ?k = Some (?k\<lparr>run_queue := q, procs := (procs ?k)(1 \<mapsto> (example_proc 7)\<lparr>vruntime := vruntime (example_proc 7) + min_vruntime ?k,
      cur_queue := RUN_QUEUE, queue_handle := Tree_node x, status := READY\<rparr>)\<rparr>)" "[] = A @ B"
    "\<forall>k'. run_queue k' = q \<longrightarrow> queued k' T' = A @ 1 # B"
    "\<forall>w. tid w = tid (example_proc 7) \<and> nice w = nice (example_proc 7) \<and> vruntime w = vruntime (example_proc 7) + min_vruntime ?k \<longrightarrow>
      run_queue_ok (?k\<lparr>run_queue := q, procs := (procs ?k)(1 \<mapsto> w)\<rparr>) T'"
    using enqueue_run_ok [OF example_run_queue(1), of 1 "[1 \<mapsto> example_proc 7]"] by (auto simp: example_run_queue)
  let ?w = "(example_proc 7)\<lparr>vruntime := 5, cur_queue := RUN_QUEUE, queue_handle := Tree_node x, status := READY\<rparr>"
  let ?k1 = "?k\<lparr>run_queue := q, procs := [1 \<mapsto> ?w]\<rparr>"
  have v: "vruntime (example_proc 7) = 0" "first_one 0 (signals ?w) = - 1" "user ?w" "pdir ?w = Some 0"
    by (simp_all add: example_proc_def first_one_def)
  have q: "queued ?k1 T' = [1]" using i(2,3) by simp
  then have "length (map (\<lambda>x. rkey (nd q x)) (inorder T')) = 1" by (simp add: queued_def)
  then have t: "T' \<noteq> Leaf" "size T' < 2 ^ 32" by auto
  have "run_queue_ok ?k1 T'" using i(4) [rule_format, of ?w] v(1) by simp
  from schedule_picks_least [OF this t _ _ _ _ v(2), of 1 0 99 None]
  have "\<exists>k2. schedule 99 None ?k1 = Some (Switched 1 (user ?w), k2) \<and> cur_proc k2 = Some 1 \<and> min_vruntime k2 = vruntime ?w"
    using q v(4) by (auto simp: example_kern_def sdir_of_def)
  moreover have "add_proc_run 1 False ?k = Some (True, ?k1)" using i(1) v(1) by (simp add: add_proc_run_def deref_def)
  ultimately show ?thesis using v(3) by auto
qed

lemma queue_erase_procs: "queue_erase v k = Some k' \<Longrightarrow> procs k' = procs k \<and> min_vruntime k' = min_vruntime k \<and> cur_proc k' = cur_proc k"
  by (auto simp: queue_erase_def list_remove_def split: pqueue.splits handle.splits)

lemma remove_from_queue_procs:
  "remove_from_queue p k = Some k' \<Longrightarrow> procs k p = Some v \<Longrightarrow>
     procs k' = (procs k)(p \<mapsto> v\<lparr>cur_queue := NO_QUEUE, queue_handle := No_handle\<rparr>) \<and> min_vruntime k' = min_vruntime k"
  by (auto simp: remove_from_queue_def deref_def modify_def dest!: queue_erase_procs split: bind_splits)

lemma run_insert_procs:
  "run_insert p k = Some k' \<Longrightarrow> procs k p = Some v \<Longrightarrow> \<exists>x. procs k' = (procs k)(p \<mapsto> v\<lparr>queue_handle := Tree_node x\<rparr>)"
  by (auto simp: run_insert_def modify_def split: bind_splits)

text \<open>the nice value a process asks for is clamped to \<open>NICE_MIN\<close> and \<open>NICE_MAX\<close>, and only root may lower
  it; but the process is put back into the run queue without \<open>cur_queue\<close> being set again, so that later calls of
  \<open>remove_from_queue\<close> leave it in the tree.\<close>

theorem setnice_bounds:
  assumes "cur_proc k = Some c" "procs k c = Some v" "sys_setnice inc k = Some (r, k')"
  shows "if inc < 0 \<and> puid v \<noteq> ROOT_UID then r = Inl EACCES \<and> k' = k
    else if inc = 0 then r = Inr 0 \<and> k' = k
    else r = Inr 0 \<and> (\<exists>v'. procs k' c = Some v' \<and> NICE_MIN \<le> nice v' \<and> nice v' \<le> NICE_MAX \<and>
      (NICE_MIN \<le> nice v + inc \<and> nice v + inc \<le> NICE_MAX \<longrightarrow> nice v' = nice v + inc) \<and>
      cur_queue v' = NO_QUEUE \<and> (\<exists>x. queue_handle v' = Tree_node x))"
proof -
  have "r = Inr 0 \<and> (\<exists>v'. procs k' c = Some v' \<and> nice v' = max NICE_MIN (min NICE_MAX (nice v + inc)) \<and>
      cur_queue v' = NO_QUEUE \<and> (\<exists>x. queue_handle v' = Tree_node x))" if h: "\<not> (inc < 0 \<and> puid v \<noteq> ROOT_UID)" "inc \<noteq> 0"
  proof -
    obtain k1 k2 where k: "remove_from_queue c k = Some k1"
      "modify c (\<lambda>w. w\<lparr>nice := max NICE_MIN (min NICE_MAX (nice w + inc))\<rparr>) k1 = Some k2" "run_insert c k2 = Some k'" "r = Inr 0"
      using assms h by (auto simp: sys_setnice_def deref_def split: bind_splits)
    have "procs k1 c = Some (v\<lparr>cur_queue := NO_QUEUE, queue_handle := No_handle\<rparr>)"
      using remove_from_queue_procs [OF k(1) assms(2)] by simp
    then have "procs k2 c = Some (v\<lparr>cur_queue := NO_QUEUE, queue_handle := No_handle, nice := max NICE_MIN (min NICE_MAX (nice v + inc))\<rparr>)"
      using k(2) by auto
    then show ?thesis using run_insert_procs [OF k(3)] k(4) by fastforce
  qed
  then show ?thesis using assms by (auto simp: sys_setnice_def deref_def NICE_MIN_def NICE_MAX_def)
qed

theorem setnice_bounds_witness:
  "\<exists>k' v'. sys_setnice 30 ((example_kern [1 \<mapsto> example_proc 7])\<lparr>cur_proc := Some 1\<rparr>) = Some (Inr 0, k') \<and>
     procs k' 1 = Some v' \<and> nice v' \<le> 19 \<and> cur_queue v' = NO_QUEUE \<and> queue_handle v' \<noteq> No_handle"
proof -
  let ?k = "(example_kern [1 \<mapsto> example_proc 7])\<lparr>cur_proc := Some 1\<rparr>"
  let ?k2 = "?k\<lparr>procs := [1 \<mapsto> (example_proc 7)\<lparr>nice := 19\<rparr>]\<rparr>"
  have n: "1 \<in> numbered ?k2" by (auto simp: numbered_def)
  have o: "run_queue_ok ?k2 Leaf" "1 \<notin> set (queued ?k2 Leaf)"
    using rb_new_ok [of "0 :: nat" 0] by (simp_all add: run_queue_ok_def queued_def) (simp add: rb_new_def)
  from run_insert_ok [OF o(1) n o(2)] obtain x q
    where "run_insert 1 ?k2 = modify 1 (\<lambda>v. v\<lparr>queue_handle := Tree_node x\<rparr>) (?k2\<lparr>run_queue := q\<rparr>)" by blast
  then have "run_insert 1 ?k2 \<noteq> None" by simp
  moreover have "remove_from_queue 1 ?k = Some ?k"
    by (simp add: remove_from_queue_def deref_def queue_erase_def example_proc_def fun_upd_idem)
  moreover have "max NICE_MIN (min NICE_MAX (nice (example_proc 7) + 30)) = 19"
    by (simp add: NICE_MIN_def NICE_MAX_def example_proc_def)
  ultimately obtain k' where k': "sys_setnice 30 ?k = Some (Inr 0, k')"
    by (auto simp: sys_setnice_def deref_def)
  show ?thesis
    using setnice_bounds [OF _ _ k', of 1 "example_proc 7"] k' by (auto simp: NICE_MAX_def)
qed

text \<open>\<open>tkill\<close> does not check that the signal number is below the 32 bits of the signal set: with a larger
  one \<open>_tkill\<close> writes outside the bitmap of a live process.\<close>

theorem tkill_outside:
  assumes "procs k p = Some v" "status v \<noteq> ZOMBIE" "length (words (signals v)) = 1" "32 \<le> sig" "sig < 2 ^ 31"
  shows "tkill_proc p sig k = None"
proof -
  have "unat (drop_bit 5 (of_nat sig :: u32)) = sig div 32" using assms(5) by (simp add: unat_drop_bit unat_of_nat take_bit_nat_eq_self)
  then have "\<not> unat (drop_bit 5 (of_nat sig :: u32)) < length (words (signals v))" using assms(3,4) by simp
  then show ?thesis using assms(1,2,4) by (simp add: tkill_proc_def deref_def bitmap_set_def)
qed

theorem tkill_outside_witness: "tkill_proc 1 40 (example_kern [1 \<mapsto> example_proc 7]) = None"
  by (rule tkill_outside [of _ _ "example_proc 7"]) (simp_all add: example_proc_def)

end
