(* ===== verification/Syscall.thy ===== *)
theory Syscall
  imports Elf FsSyscall Sched
begin

text \<open>
  The system call layer, \<open>kernel/syscall/syscall.cpp\<close> and \<open>kernel/syscall/entry.s\<close>, on the calls of the theories \<open>Sched\<close>, \<open>FsSyscall\<close> and
  \<open>Memory\<close>, and the first processes, \<open>process::init\<close> of \<open>kernel/proc/proc.cpp\<close>. The state of the system puts together the kernel's
  processes, the files with a descriptor table per process, and the memory as the current process sees it.
\<close>

section \<open>Entry and table\<close>

definition SYSCALL_COUNT :: int where "SYSCALL_COUNT = 11"

datatype call =
    Call_exit | Call_clone | Call_getpid | Call_waitpid | Call_nanosleep | Call_open | Call_close | Call_read | Call_write | Call_lseek | Call_brk

definition syscall_table :: "call list" where
  "syscall_table = [Call_exit, Call_clone, Call_getpid, Call_waitpid, Call_nanosleep, Call_open, Call_close, Call_read, Call_write, Call_lseek, Call_brk]"

text \<open>Where the entry code jumps: the function of the table, the return with \<open>ENOSYS\<close>, or the word at an offset from the table that
  is outside it. \<open>cmp\<close> and \<open>jge\<close> compare signed numbers.\<close>

datatype jump = Dispatch call | No_call | Outside_table u32

definition syscall_jump :: "u32 \<Rightarrow> jump" where
  "syscall_jump n =
     (if SYSCALL_COUNT \<le> sint n then No_call
      else if unat n < length syscall_table then Dispatch (syscall_table ! unat n)
      else Outside_table (4 * n))"

text \<open>What \<open>syscall::init\<close> writes to the model specific registers.\<close>

definition syscall_init :: "u32 \<Rightarrow> u32 \<Rightarrow> (u32 \<times> u32) list" where
  "syscall_init code_seg entry = [(0x174, code_seg), (0x176, entry)]"

definition nanosleep_ns :: "u32 \<Rightarrow> u32 \<Rightarrow> u64" where
  "nanosleep_ns ns_low ns_high = ucast ns_low + push_bit 32 (ucast ns_high)"

section \<open>The state of the system\<close>

record 'c system =
  sk :: kern
  sfs :: fsys
  descriptors :: "nat \<Rightarrow> fd_table option"
  smem :: mem
  skeys :: "u8 list"
  screen :: 'c

text \<open>The file system as the current process sees it.\<close>

definition cur_fs :: "'c system \<Rightarrow> fsys" where
  "cur_fs st = (sfs st)\<lparr>fdt := Option.bind (cur_proc (sk st)) (descriptors st)\<rparr>"

definition put_fs :: "fsys \<Rightarrow> 'c system \<Rightarrow> 'c system" where
  "put_fs fs st = st\<lparr>sfs := fs, descriptors := (case cur_proc (sk st) of None \<Rightarrow> descriptors st | Some c \<Rightarrow> (descriptors st)(c := fdt fs))\<rparr>"

text \<open>The value a call leaves in \<open>eax\<close>, or what the scheduler did when it blocks; a negative error number is \<open>Inl\<close>.\<close>

datatype sysval = Value "errno + u32" | Blocks outcome

definition int_val :: "errno + int \<Rightarrow> sysval" where "int_val r = Value (map_sum id of_int r)"
definition nat_val :: "errno + nat \<Rightarrow> sysval" where "nat_val r = Value (map_sum id of_nat r)"

definition put_word :: "u32 \<Rightarrow> u32 \<Rightarrow> mem \<Rightarrow> mem" where
  "put_word a v m = stos 4 v a m"

section \<open>The calls\<close>

text \<open>The arguments are those of the registers \<open>edi\<close>, \<open>esi\<close>, \<open>edx\<close> and \<open>ecx\<close>. \<open>saved\<close> are the registers the kernel saves for a process
  that blocks or is cloned.\<close>

record args =
  arg1 :: u32
  arg2 :: u32
  arg3 :: u32
  arg4 :: u32

definition call_clone :: "(nat \<Rightarrow> u32) \<Rightarrow> cpu_regs \<Rightarrow> u32 \<Rightarrow> 'c system \<Rightarrow> (sysval \<times> 'c system) option" where
  "call_clone phys_of saved flags st = do {
     (r, k) \<leftarrow> sys_clone phys_of saved flags (sk st);
     (case r of
        Inl e \<Rightarrow> Some (int_val r, st\<lparr>sk := k\<rparr>)
      | Inr _ \<Rightarrow> do {
          (t, fs) \<leftarrow> new_fd_table (tree (sfs st)) (files (sfs st));
          Some (int_val r, st\<lparr>sk := k, sfs := (sfs st)\<lparr>files := fs\<rparr>, descriptors := (descriptors st)(next_addr (sk st) \<mapsto> t)\<rparr>) }) }"

definition call_waitpid :: "u64 \<Rightarrow> cpu_regs \<Rightarrow> u32 \<Rightarrow> u32 \<Rightarrow> u32 \<Rightarrow> 'c system \<Rightarrow> (sysval \<times> 'c system) option" where
  "call_waitpid now saved p ptr options st = do {
     (r, k) \<leftarrow> sys_waitpid now saved (sint p) (uptr_get (mm (sk st)) ptr \<noteq> None) (sint options) (sk st);
     (case r of
        Wait_ret (Inl e) \<Rightarrow> Some (Value (Inl e), st\<lparr>sk := k\<rparr>)
      | Wait_ret (Inr (child, code)) \<Rightarrow> Some (Value (Inr (of_int child)), st\<lparr>sk := k, smem := put_word ptr (of_int code) (smem st)\<rparr>)
      | Wait_blocked out \<Rightarrow> Some (Blocks out, st\<lparr>sk := k\<rparr>)) }"

definition call_nanosleep :: "u64 \<Rightarrow> cpu_regs \<Rightarrow> u32 \<Rightarrow> u32 \<Rightarrow> 'c system \<Rightarrow> (sysval \<times> 'c system) option" where
  "call_nanosleep now saved lo hi st =
     map_option (\<lambda>(r, k). (case r of Ret v \<Rightarrow> int_val v | Blocked out \<Rightarrow> Blocks out, st\<lparr>sk := k\<rparr>))
       (sys_nanosleep now saved (nanosleep_ns lo hi) (sk st))"

definition call_lseek :: "u32 \<Rightarrow> u32 \<Rightarrow> u32 \<Rightarrow> 'c system \<Rightarrow> (sysval \<times> 'c system) option" where
  "call_lseek fd ptr whence st =
     map_option (\<lambda>(r, off, fs). (nat_val r,
         put_fs fs (case r of Inl e \<Rightarrow> st | Inr _ \<Rightarrow> st\<lparr>smem := put_word ptr off (smem st)\<rparr>)))
       (sys_lseek (mm (sk st)) (sint fd) ptr (elf_word (smem st) ptr) (sint whence) (cur_fs st))"

definition call_brk :: "(nat \<Rightarrow> u32) \<Rightarrow> u32 \<Rightarrow> 'c system \<Rightarrow> (sysval \<times> 'c system) option" where
  "call_brk phys_of addr st = do {
     c \<leftarrow> cur_proc (sk st);
     v \<leftarrow> deref c (sk st);
     d \<leftarrow> sdir_of (pdir v) (sk st);
     (r, b, m) \<leftarrow> sys_brk phys_of d addr (pbrk v, mm (sk st));
     k \<leftarrow> modify c (\<lambda>w. w\<lparr>pbrk := b\<rparr>) ((sk st)\<lparr>mm := m\<rparr>);
     Some (Value (Inr r), st\<lparr>sk := k\<rparr>) }"

definition do_call :: "(nat \<Rightarrow> u32) \<Rightarrow> (u8 \<Rightarrow> 'c \<Rightarrow> 'c) \<Rightarrow> u64 \<Rightarrow> cpu_regs \<Rightarrow> args \<Rightarrow> call \<Rightarrow> 'c system \<Rightarrow> (sysval \<times> 'c system) option" where
  "do_call phys_of put now saved a c st =
     (case c of
        Call_exit \<Rightarrow> map_option (\<lambda>(out, k). (Blocks out, st\<lparr>sk := k\<rparr>)) (sys_exit now (sint (arg1 a)) (sk st))
      | Call_clone \<Rightarrow> call_clone phys_of saved (arg1 a) st
      | Call_getpid \<Rightarrow> map_option (\<lambda>p. (Value (Inr (of_int p)), st)) (sys_getpid (sk st))
      | Call_waitpid \<Rightarrow> call_waitpid now saved (arg1 a) (arg2 a) (arg3 a) st
      | Call_nanosleep \<Rightarrow> call_nanosleep now saved (arg1 a) (arg2 a) st
      | Call_open \<Rightarrow> map_option (\<lambda>(r, fs). (nat_val r, put_fs fs st)) (sys_open (mm (sk st)) (smem st) (arg1 a) (arg2 a) (cur_fs st))
      | Call_close \<Rightarrow> (case sys_close (sint (arg1 a)) (cur_fs st) of (r, fs) \<Rightarrow> Some (nat_val r, put_fs fs st))
      | Call_read \<Rightarrow> map_option (\<lambda>(r, keys, m, fs). (nat_val r, put_fs fs (st\<lparr>smem := m, skeys := keys\<rparr>)))
          (sys_read (mm (sk st)) (sint (arg1 a)) (arg2 a) (arg3 a) (skeys st) (smem st) (cur_fs st))
      | Call_write \<Rightarrow> map_option (\<lambda>(r, fs, con). (Value r, put_fs fs (st\<lparr>screen := con\<rparr>)))
          (sys_write put (mm (sk st)) (sint (arg1 a)) (arg2 a) (arg3 a) (smem st) (cur_fs st, screen st))
      | Call_lseek \<Rightarrow> call_lseek (arg1 a) (arg2 a) (arg3 a) st
      | Call_brk \<Rightarrow> call_brk phys_of (arg1 a) st)"

text \<open>A system call: \<open>None\<close> when the kernel halts, follows a null pointer, does not return, or jumps outside the table.\<close>

definition syscall_entry :: "(nat \<Rightarrow> u32) \<Rightarrow> (u8 \<Rightarrow> 'c \<Rightarrow> 'c) \<Rightarrow> u64 \<Rightarrow> cpu_regs \<Rightarrow> u32 \<Rightarrow> args \<Rightarrow> 'c system \<Rightarrow> (sysval \<times> 'c system) option" where
  "syscall_entry phys_of put now saved n a st =
     (case syscall_jump n of
        Dispatch c \<Rightarrow> do_call phys_of put now saved a c st
      | No_call \<Rightarrow> Some (Value (Inl ENOSYS), st)
      | Outside_table off \<Rightarrow> None)"

section \<open>The first processes\<close>

definition KERNEL_STACK_SIZE :: u32 where "KERNEL_STACK_SIZE = 8192"
definition KERNEL_STACK_BOT :: u32 where "KERNEL_STACK_BOT = REMAP_END - KERNEL_STACK_SIZE"
definition EFLAGS_DEFAULT :: u32 where "EFLAGS_DEFAULT = 2"
definition EFLAGS_INT :: u32 where "EFLAGS_INT = 0x200"

text \<open>The directory of a first process: a clone of the current one with a user stack and a kernel stack.\<close>

definition first_dir :: "(nat \<Rightarrow> u32) \<Rightarrow> paging \<Rightarrow> (nat \<times> paging) option" where
  "first_dir phys_of s = do {
     (d, s1) \<leftarrow> dir_clone phys_of (cur_dir s) 0 (- 1) (- 1) s;
     (ok1, s2) \<leftarrow> alloc_block phys_of d (PROC_STACK_TOP - 0x1000) 0x1000 (PAGE_PRESENT OR PAGE_RW OR PAGE_US) s1;
     (ok2, s3) \<leftarrow> alloc_block phys_of d KERNEL_STACK_BOT KERNEL_STACK_SIZE (PAGE_PRESENT OR PAGE_RW) s2;
     Some (d, s3) }"

definition first_state :: "u8 list \<Rightarrow> u32 \<Rightarrow> proc_state" where
  "first_state fpu entry =
     \<lparr>gregs = \<lparr>eflags = EFLAGS_DEFAULT OR EFLAGS_INT, eip = entry, edi = 0, esi = 0, ebp = PROC_STACK_TOP, esp = PROC_STACK_TOP, ebx = 0, edx = 0,
               ecx = 0, eax = 0\<rparr>,
      fpu_buf = fpu, fpu_used = False\<rparr>"

text \<open>One round of the loop: \<open>buf\<close> is the address of the image, \<open>m\<close> the memory as the new directory shows it. The result has that memory with
  the program loaded.\<close>

definition first_proc :: "(nat \<Rightarrow> u32) \<Rightarrow> u8 list \<Rightarrow> u32 \<Rightarrow> machine \<Rightarrow> 'c system \<Rightarrow> (machine \<times> 'c system) option" where
  "first_proc phys_of fpu buf m st = do {
     let k = sk st;
     (d, s1) \<leftarrow> first_dir phys_of (mm k);
     let sd = next_addr k;
     let k1 = k\<lparr>shared := (shared k)(sd \<mapsto> \<lparr>sdir = d, cloned_dir = None\<rparr>), refs := (refs k)(sd := 1), next_addr := Suc sd\<rparr>;
     let (p, k2) = new_proc \<lparr>brk_start = 0, brk_end = 0, stack_bot = 0\<rparr> k1;
     (t, fs) \<leftarrow> new_fd_table (tree (sfs st)) (files (sfs st));
     (r, m', s2) \<leftarrow> load phys_of buf (Some d) m s1;
     (entry, brk) \<leftarrow> (case r of Inl e \<Rightarrow> None | Inr x \<Rightarrow> Some x);
     k3 \<leftarrow> modify p (\<lambda>v. v\<lparr>pdir := Some sd, pstate := first_state fpu entry, user := True, status := READY,
             pbrk := \<lparr>brk_start = brk, brk_end = brk, stack_bot = PROC_STACK_TOP - 0x1000\<rparr>\<rparr>)
           (k2\<lparr>mm := switch_page_dir (cur_dir (mm k)) s2\<rparr>);
     k4 \<leftarrow> run_insert p k3;
     k5 \<leftarrow> modify p (\<lambda>v. v\<lparr>cur_queue := RUN_QUEUE\<rparr>) k4;
     Some (m', st\<lparr>sk := k5, sfs := (sfs st)\<lparr>files := fs\<rparr>, descriptors := (descriptors st)(p \<mapsto> t)\<rparr>) }"

fun first_procs :: "(nat \<Rightarrow> u32) \<Rightarrow> u8 list \<Rightarrow> (u32 \<times> machine) list \<Rightarrow> 'c system \<Rightarrow> (machine list \<times> 'c system) option" where
  "first_procs phys_of fpu [] st = Some ([], st)"
| "first_procs phys_of fpu ((buf, m) # imgs) st = do {
     (m', st1) \<leftarrow> first_proc phys_of fpu buf m st;
     (ms, st2) \<leftarrow> first_procs phys_of fpu imgs st1;
     Some (m' # ms, st2) }"

text \<open>\<open>process::init\<close> after the set-up of the task state segment.\<close>

definition process_init :: "(nat \<Rightarrow> u32) \<Rightarrow> u8 list \<Rightarrow> (u32 \<times> machine) list \<Rightarrow> 'c system \<Rightarrow> (machine list \<times> 'c system) option" where
  "process_init phys_of fpu imgs st =
     map_option (\<lambda>(ms, st1). (ms, st1\<lparr>sk := (sk st1)\<lparr>online := True\<rparr>\<rparr>)) (first_procs phys_of fpu imgs st)"

text \<open>The list of all processes, from which \<open>tkill\<close> takes its targets, does not get the first ones.\<close>

lemma first_procs_unlisted: "first_procs phys_of fpu imgs st = Some (ms, st') \<Longrightarrow> proc_list (sk st') = proc_list (sk st)"
proof (induction imgs arbitrary: st ms)
  case (Cons img imgs)
  obtain buf m where i: "img = (buf, m)" by fastforce
  obtain m1 st1 ms1 where 1: "first_proc phys_of fpu buf m st = Some (m1, st1)" "first_procs phys_of fpu imgs st1 = Some (ms1, st')"
    using Cons.prems by (auto simp: i split: Option.bind_splits)
  have "proc_list (sk st1) = proc_list (sk st)"
    using 1(1) by (auto simp: first_proc_def new_proc_def run_insert_def modify_def Let_def split: Option.bind_splits)
  then show ?case using Cons.IH [OF 1(2)] by simp
qed simp

section \<open>The numbers of the calls\<close>

lemma sint_split: "sint (n :: u32) = (if unat n < 0x80000000 then int (unat n) else int (unat n) - 0x100000000)"
proof -
  have s: "sint n = (uint n + 0x80000000) mod 0x100000000 - 0x80000000"
    by (simp add: sint_uint signed_take_bit_eq_take_bit_shift take_bit_eq_mod)
  have u: "uint n = int (unat n)" by simp
  have "(int m + 0x80000000) mod 0x100000000 - 0x80000000 = (if m < 0x80000000 then int m else int m - 0x100000000)"
    if "m < 4294967296" for m :: nat
  proof (cases "m < 0x80000000")
    case True
    then have "(int m + 0x80000000) mod 0x100000000 = int m + 0x80000000" by (intro mod_pos_pos_trivial) linarith+
    then show ?thesis using True by simp
  next
    case False
    have "(int m + 0x80000000) mod 0x100000000 = (int m + 0x80000000 - 0x100000000) mod 0x100000000" by (rule minus_mod_self2 [symmetric])
    also have "\<dots> = int m + 0x80000000 - 0x100000000" using False that by (intro mod_pos_pos_trivial) linarith+
    finally show ?thesis using False by simp
  qed
  from this [OF unat_u32_lt [of n]] show ?thesis unfolding s u .
qed

lemma syscall_jump_eq:
  "syscall_jump n =
     (if unat n < 11 then Dispatch (syscall_table ! unat n) else if unat n < 2 ^ 31 then No_call else Outside_table (4 * n))"
proof -
  have lt: "int (unat n) < 0x100000000" using unat_u32_lt [of n] by linarith
  have "SYSCALL_COUNT \<le> sint n \<longleftrightarrow> 11 \<le> unat n \<and> unat n < 0x80000000" unfolding sint_split SYSCALL_COUNT_def using lt by presburger
  then show ?thesis by (auto simp: syscall_jump_def syscall_table_def)
qed


section \<open>What a call can change\<close>

text \<open>A state after a call of the process \<open>c\<close> in which nothing of another process and of the scheduler has changed, nor the tree of the file system.\<close>

definition same_queues :: "kern \<Rightarrow> kern \<Rightarrow> bool" where
  "same_queues k k' \<longleftrightarrow> run_queue k' = run_queue k \<and> sleep_queue k' = sleep_queue k \<and> proc_list k' = proc_list k \<and> waiting_procs k' = waiting_procs k \<and>
     cur_proc k' = cur_proc k \<and> online k' = online k"

definition isolated :: "nat \<Rightarrow> 'c system \<Rightarrow> 'c system \<Rightarrow> bool" where
  "isolated c st st' \<longleftrightarrow> (\<forall>p. p \<noteq> c \<longrightarrow> procs (sk st') p = procs (sk st) p \<and> descriptors st' p = descriptors st p) \<and>
     (\<forall>b. map_option (\<lambda>v. v\<lparr>pbrk := b\<rparr>) (procs (sk st') c) = map_option (\<lambda>v. v\<lparr>pbrk := b\<rparr>) (procs (sk st) c)) \<and>
     same_queues (sk st) (sk st') \<and> tree (sfs st') = tree (sfs st)"

lemma sys_open_tree: "sys_open pg m path flags fs = Some (r, fs') \<Longrightarrow> tree fs' = tree fs"
  by (auto simp: sys_open_def Let_def split: option.splits if_splits sum.splits Option.bind_splits)

lemma sys_close_tree: "sys_close fd fs = (r, fs') \<Longrightarrow> tree fs' = tree fs"
  by (auto simp: sys_close_def Let_def split: option.splits if_splits)

lemma sys_read_tree: "sys_read pg fd buf count ks m fs = Some (r, ks', m', fs') \<Longrightarrow> tree fs' = tree fs"
  by (auto simp: sys_read_def put_file_def split: option.splits if_splits sum.splits Option.bind_splits prod.splits)

lemma sys_write_tree: "sys_write put pg fd buf count m (fs, con) = Some (r, fs', con') \<Longrightarrow> tree fs' = tree fs"
  by (auto simp: sys_write_def put_file_def split: option.splits if_splits sum.splits Option.bind_splits prod.splits)

lemma sys_lseek_tree: "sys_lseek pg fd ptr off whence fs = Some (r, off', fs') \<Longrightarrow> tree fs' = tree fs"
  by (auto simp: sys_lseek_def put_file_def split: option.splits if_splits sum.splits)

lemma cur_fs_tree: "tree (cur_fs st) = tree (sfs st)"
  by (simp add: cur_fs_def)

lemma put_isolated:
  assumes "cur_proc (sk st) = Some c" "sk st1 = sk st" "descriptors st1 = descriptors st" "tree fs = tree (sfs st)"
  shows "isolated c st (put_fs fs st1)"
  using assms by (simp add: isolated_def put_fs_def same_queues_def)

lemma call_brk_isolated:
  assumes "cur_proc (sk st) = Some c" "call_brk phys_of addr st = Some (v, st')"
  shows "isolated c st st' \<and> smem st' = smem st \<and> (\<exists>r. v = Value r)"
proof -
  obtain w where w: "procs (sk st) c = Some w" using assms by (auto simp: call_brk_def deref_def split: Option.bind_splits)
  then show ?thesis using assms
    by (auto simp: call_brk_def deref_def modify_def isolated_def same_queues_def split: Option.bind_splits prod.splits)
qed



end
