(* ===== verification/Heap.thy ===== *)
theory Heap
  imports Memory Intrusive
begin

text \<open>
  The kernel heap of \<open>kernel/mem/heap.cpp\<close>: boundary tags around every block and a list of the free blocks ordered by
  size. The headers and the footers are kept field by field, each field a function of the address; the addresses of
  the blocks and their sizes are 32-bit words. Memory that has not been written yet has any value. An assertion that
  fails and \<open>PANIC\<close> are \<open>None\<close>.
\<close>

section \<open>Headers and footers\<close>

record heap =
  hmagic :: "u32 \<Rightarrow> u32"
  hsize :: "u32 \<Rightarrow> u32"
  hprev :: "u32 \<Rightarrow> u32"
  hnext :: "u32 \<Rightarrow> u32"
  hused :: "u32 \<Rightarrow> bool"
  fmagic :: "u32 \<Rightarrow> u32"
  fheader :: "u32 \<Rightarrow> u32"
  heap_end :: u32
  honline :: bool
  hpages :: paging

definition HEAP_INIT_SIZE :: u32 where "HEAP_INIT_SIZE = 0x100000"
definition HEAP_HEADER_MAGIC :: u32 where "HEAP_HEADER_MAGIC = 0x50414548"
definition HEAP_FOOTER_MAGIC :: u32 where "HEAP_FOOTER_MAGIC = 0x48454150"
definition HEAP_HEADER_RM_MAGIC :: u32 where "HEAP_HEADER_RM_MAGIC = 0x48455252"
definition HEAP_FOOTER_RM_MAGIC :: u32 where "HEAP_FOOTER_RM_MAGIC = 0x52524548"
definition MIN_BLOCK_SIZE :: u32 where "MIN_BLOCK_SIZE = 8"
definition MIN_SREL_SIZE :: u32 where "MIN_SREL_SIZE = 0x100000"

text \<open>\<open>sizeof(boundary_header)\<close> and \<open>sizeof(boundary_footer)\<close> on the 32-bit target.\<close>

definition HDR :: u32 where "HDR = 20"
definition FTR :: u32 where "FTR = 8"

text \<open>The address of the static header \<open>_list_nil\<close> in the kernel image: below the heap, not null.\<close>

definition free_blocks :: u32 where "free_blocks = 0xC0100000"

definition hdr_insert :: "u32 \<Rightarrow> u32 \<Rightarrow> heap \<Rightarrow> heap" where
  "hdr_insert this x s0 =
     (let s1 = s0\<lparr>hprev := (hprev s0)(hnext s0 this := x)\<rparr>;
          s2 = s1\<lparr>hprev := (hprev s1)(x := this)\<rparr>;
          s3 = s2\<lparr>hnext := (hnext s2)(x := hnext s2 this)\<rparr>
      in s3\<lparr>hnext := (hnext s3)(this := x)\<rparr>)"

definition hdr_remove :: "u32 \<Rightarrow> heap \<Rightarrow> heap" where
  "hdr_remove this s0 =
     (let s1 = s0\<lparr>hnext := (hnext s0)(hprev s0 this := hnext s0 this)\<rparr>;
          s2 = s1\<lparr>hprev := (hprev s1)(hnext s1 this := hprev s1 this)\<rparr>
      in s2\<lparr>hprev := (hprev s2)(this := 0), hnext := (hnext s2)(this := 0)\<rparr>)"

definition set_size :: "u32 \<Rightarrow> u32 \<Rightarrow> heap \<Rightarrow> heap" where "set_size h v s = s\<lparr>hsize := (hsize s)(h := v)\<rparr>"
definition set_used :: "u32 \<Rightarrow> bool \<Rightarrow> heap \<Rightarrow> heap" where "set_used h v s = s\<lparr>hused := (hused s)(h := v)\<rparr>"

text \<open>A new header that is not in use, and a footer for the header \<open>h\<close>.\<close>

definition write_header :: "u32 \<Rightarrow> u32 \<Rightarrow> heap \<Rightarrow> heap" where
  "write_header h sz s = s\<lparr>hmagic := (hmagic s)(h := HEAP_HEADER_MAGIC), hsize := (hsize s)(h := sz), hused := (hused s)(h := False)\<rparr>"

definition write_footer :: "u32 \<Rightarrow> u32 \<Rightarrow> heap \<Rightarrow> heap" where
  "write_footer f h s = s\<lparr>fmagic := (fmagic s)(f := HEAP_FOOTER_MAGIC), fheader := (fheader s)(f := h)\<rparr>"

definition set_fheader :: "u32 \<Rightarrow> u32 \<Rightarrow> heap \<Rightarrow> heap" where
  "set_fheader f h s = s\<lparr>fheader := (fheader s)(f := h)\<rparr>"

section \<open>The list of free blocks\<close>

partial_function (option) list_place :: "heap \<Rightarrow> u32 \<Rightarrow> u32 \<Rightarrow> u32 \<Rightarrow> u32 option" where
  "list_place s start x l =
     (if l \<noteq> start \<and> hsize s l < hsize s x then
        if hmagic s l \<noteq> HEAP_HEADER_MAGIC \<or> hused s l then None
        else list_place s start x (hnext s l)
      else Some l)"

definition insert_list :: "u32 \<Rightarrow> u32 \<Rightarrow> heap \<Rightarrow> heap option" where
  "insert_list l x s =
     (if hused s x then None
      else map_option (\<lambda>q. hdr_insert (hprev s q) x s) (list_place s l x (hnext s l)))"

section \<open>Growing and shrinking\<close>

definition sbrk :: "(nat \<Rightarrow> u32) \<Rightarrow> u32 \<Rightarrow> heap \<Rightarrow> (u32 \<times> heap) option" where
  "sbrk phys_of inc0 s =
     (let new_end = align_addr (heap_end s + inc0);
          inc = new_end - heap_end s
      in map_option (\<lambda>(ok, pg). (inc, s\<lparr>heap_end := new_end, hpages := pg\<rparr>))
           (alloc_pages phys_of KERNEL_DIR (drop_bit 12 (heap_end s)) (drop_bit 12 inc) (PAGE_PRESENT OR PAGE_RW) (hpages s)))"

text \<open>The loop of \<open>srel\<close>, which follows a null pointer where there is no table.\<close>

fun srel_loop :: "u32 list \<Rightarrow> paging \<Rightarrow> paging option" where
  "srel_loop [] pg = Some pg"
| "srel_loop (a # as) pg =
     (case find_page pg KERNEL_DIR (drop_bit 12 a) of
        None \<Rightarrow> None
      | Some (t, i) \<Rightarrow>
          Option.bind (free_frame (push_bit 12 (pg_addr (tabs pg t i))) pg) (\<lambda>pg'. srel_loop as (write_page t i 0 pg')))"

definition srel :: "u32 \<Rightarrow> heap \<Rightarrow> heap option" where
  "srel dec s =
     (let new_end = align_addr (heap_end s - dec)
      in map_option (\<lambda>pg. s\<lparr>heap_end := new_end, hpages := pg\<rparr>) (srel_loop (page_addrs new_end (heap_end s)) (hpages s)))"

section \<open>Allocating\<close>

text \<open>The size of the block for a request.\<close>

definition block_size :: "u32 \<Rightarrow> u32" where
  "block_size size0 =
     (let sz = (if size0 < MIN_BLOCK_SIZE then MIN_BLOCK_SIZE else size0) + (HDR + FTR)
      in sz + (if sz mod 4 \<noteq> 0 then 4 - sz mod 4 else 0))"

definition align_offset :: "u32 \<Rightarrow> u32" where
  "align_offset h = (let start = h + HDR in align_addr start - start)"

definition block_fits :: "heap \<Rightarrow> u32 \<Rightarrow> bool \<Rightarrow> u32 \<Rightarrow> bool" where
  "block_fits s sz align h =
     (if align then (align_offset h = 0 \<or> MIN_BLOCK_SIZE + FTR + HDR \<le> align_offset h) \<and> sz + align_offset h \<le> hsize s h
      else sz \<le> hsize s h)"

text \<open>The search of \<open>alloc\<close>: \<open>Some free_blocks\<close> when no block fits.\<close>

partial_function (option) find_fit :: "heap \<Rightarrow> u32 \<Rightarrow> bool \<Rightarrow> u32 \<Rightarrow> u32 option" where
  "find_fit s sz align h =
     (if h = free_blocks then Some h
      else if hmagic s h \<noteq> HEAP_HEADER_MAGIC \<or> hused s h then None
      else if block_fits s sz align h then Some h
      else find_fit s sz align (hnext s h))"

definition last_block :: "u32 \<Rightarrow> u32 \<Rightarrow> u32 \<Rightarrow> heap \<Rightarrow> u32 \<times> heap" where
  "last_block old_end footer allocsz s =
     (let last = fheader s footer
      in if hused s last then (old_end, write_header old_end allocsz s)
         else (last, hdr_remove last (set_size last (hsize s last + allocsz) s)))"

definition grow :: "(nat \<Rightarrow> u32) \<Rightarrow> u32 \<Rightarrow> bool \<Rightarrow> heap \<Rightarrow> (u32 \<times> heap) option" where
  "grow phys_of sz align s =
     (let old_end = heap_end s; footer = old_end - FTR
      in if fmagic s footer \<noteq> HEAP_FOOTER_MAGIC then None
         else map_option (\<lambda>(allocsz, s1).
                let (h, s2) = last_block old_end footer allocsz s1 in (h, write_footer (heap_end s2 - FTR) h s2))
              (sbrk phys_of (sz + (if align then 0x1000 else 0)) s))"

text \<open>Splitting off the front of a block so that the data of the rest is aligned.\<close>

definition split_front :: "u32 \<Rightarrow> heap \<Rightarrow> (u32 \<times> heap) option" where
  "split_front h s =
     (let offset = align_offset h; old_footer = h + hsize s h - FTR; oldsize = hsize s h
      in if offset = 0 then Some (h, s)
         else if offset < FTR + HDR + MIN_BLOCK_SIZE \<or> fmagic s old_footer \<noteq> HEAP_FOOTER_MAGIC then None
         else let footer = h + HDR + offset - FTR - HDR;
                  s1 = write_footer footer h (set_used h False (set_size h offset s));
                  h' = footer + FTR
              in map_option (\<lambda>s2. (h', set_fheader old_footer h' (write_header h' (oldsize - offset) s2)))
                   (insert_list free_blocks h s1))"

text \<open>Splitting off the end of a block that is larger than needed.\<close>

definition split_back :: "u32 \<Rightarrow> u32 \<Rightarrow> heap \<Rightarrow> heap option" where
  "split_back h sz s =
     (if hsize s h < sz + HDR + FTR + MIN_BLOCK_SIZE then Some s
      else let old_footer = h + hsize s h - FTR; oldsize = hsize s h;
               s1 = write_footer (h + sz - FTR) h (set_size h sz s);
               p = h + sz
           in insert_list free_blocks p (set_fheader old_footer p (write_header p (oldsize - sz) s1)))"

definition heap_alloc :: "(nat \<Rightarrow> u32) \<Rightarrow> u32 \<Rightarrow> bool \<Rightarrow> heap \<Rightarrow> (u32 \<times> heap) option" where
  "heap_alloc phys_of size0 align s = do {
     let sz = block_size size0;
     h0 \<leftarrow> find_fit s sz align (hnext s free_blocks);
     (h1, s1) \<leftarrow> (if h0 = free_blocks then grow phys_of sz align s else Some (h0, hdr_remove h0 s));
     (h, s2) \<leftarrow> (if align then split_front h1 s1 else Some (h1, s1));
     s3 \<leftarrow> split_back h sz s2;
     Some (h + HDR, set_used h True s3) }"

section \<open>Freeing\<close>

definition merge_right :: "u32 \<Rightarrow> u32 \<Rightarrow> heap \<Rightarrow> u32 \<times> heap" where
  "merge_right header footer s =
     (let right = header + hsize s header; right_footer = right + hsize s right - FTR
      in if right < heap_end s \<and> hmagic s right = HEAP_HEADER_MAGIC \<and> hprev s right \<noteq> 0 \<and>
            fmagic s right_footer = HEAP_FOOTER_MAGIC \<and> fheader s right_footer = right \<and> \<not> hused s right
         then let s1 = hdr_remove right (set_size header (hsize s header + hsize s right) s)
              in (right_footer, s1\<lparr>hmagic := (hmagic s1)(right := HEAP_HEADER_RM_MAGIC)\<rparr>)
         else (footer, s))"

definition merge_left :: "u32 \<Rightarrow> heap \<Rightarrow> u32 \<times> heap" where
  "merge_left header s =
     (let left_footer = header - FTR; left = fheader s left_footer
      in if HEAP_BASE + HDR + FTR + MIN_BLOCK_SIZE \<le> header \<and> fmagic s left_footer = HEAP_FOOTER_MAGIC \<and>
            hmagic s left = HEAP_HEADER_MAGIC \<and> \<not> hused s left \<and> hprev s left \<noteq> 0 \<and> left + hsize s left = header
         then let s1 = hdr_remove left s; s2 = set_size left (hsize s1 left + hsize s1 header) s1
              in (left, s2\<lparr>fmagic := (fmagic s2)(left_footer := HEAP_FOOTER_RM_MAGIC)\<rparr>)
         else (header, s))"

text \<open>Giving the end of the heap back: \<open>None\<close> inside when nothing is left to put into the list.\<close>

definition release_start :: "u32 \<Rightarrow> u32" where
  "release_start header =
     (let start = header + HDR; offset = align_addr start - start
      in start + offset + (if offset < MIN_BLOCK_SIZE + FTR then 0x1000 else 0))"

definition shrink :: "u32 \<Rightarrow> u32 \<Rightarrow> heap \<Rightarrow> (u32 option \<times> heap) option" where
  "shrink header footer s =
     (if heap_end s = footer + FTR \<and> MIN_SREL_SIZE \<le> hsize s header \<and> HEAP_BASE + HEAP_INIT_SIZE < header then
        if header AND 0xFFF \<noteq> 0 then
          let relsize = heap_end s - release_start header
          in if MIN_SREL_SIZE \<le> relsize then
               map_option (\<lambda>s1. let f = heap_end s1 - FTR in
                   (Some f, write_footer f header (set_size header (heap_end s1 - header) s1)))
                 (srel relsize s)
             else Some (Some footer, s)
        else map_option (\<lambda>s1. (None, s1)) (srel (hsize s header) s)
      else Some (Some footer, s))"

definition heap_free :: "u32 \<Rightarrow> heap \<Rightarrow> heap option" where
  "heap_free p s =
     (let header = p - HDR; footer = header + hsize s header - FTR
      in if p < HEAP_BASE \<or> heap_end s \<le> p then None
         else if hmagic s header \<noteq> HEAP_HEADER_MAGIC \<or> fmagic s footer \<noteq> HEAP_FOOTER_MAGIC \<or>
                 fheader s footer \<noteq> header \<or> \<not> hused s header then None
         else case merge_right header footer s of (footer1, s1) \<Rightarrow>
              case merge_left header s1 of (header1, s2) \<Rightarrow>
              Option.bind (shrink header1 footer1 s2) (\<lambda>(f, s3).
                case f of
                  None \<Rightarrow> Some s3
                | Some f \<Rightarrow> insert_list free_blocks header1 (set_used header1 False (set_fheader f header1 s3))))"

definition heap_init :: "(nat \<Rightarrow> u32) \<Rightarrow> heap \<Rightarrow> heap option" where
  "heap_init phys_of s0 = do {
     (ok, pg) \<leftarrow> alloc_pages phys_of KERNEL_DIR (drop_bit 12 HEAP_BASE) (drop_bit 12 HEAP_INIT_SIZE) (PAGE_PRESENT OR PAGE_RW) (hpages s0);
     let s1 = s0\<lparr>hpages := pg, hmagic := (hmagic s0)(free_blocks := HEAP_HEADER_MAGIC), hsize := (hsize s0)(free_blocks := 0),
                 hprev := (hprev s0)(free_blocks := free_blocks), hnext := (hnext s0)(free_blocks := free_blocks)\<rparr>;
     let s2 = write_footer (HEAP_BASE + HEAP_INIT_SIZE - FTR) HEAP_BASE (write_header HEAP_BASE HEAP_INIT_SIZE s1);
     s3 \<leftarrow> insert_list free_blocks HEAP_BASE s2;
     Some (s3\<lparr>honline := True\<rparr>) }"

interpretation blocks: intrusive hnext hprev hdr_insert hdr_remove
  by unfold_locales (auto simp: hdr_insert_def hdr_remove_def Let_def fun_eq_iff)

end
