(* ===== verification/HeapBlocks.thy ===== *)
theory HeapBlocks
  imports Heap
begin

text \<open>
  The structure of the kernel heap: the list of free blocks and the boundary tags. A heap is described by the list \<open>L\<close> of the
  addresses of its blocks, with the end of the heap as last element, and the list \<open>fs\<close> of its free blocks. The lemmas say
  how the parts of \<open>alloc\<close> change these lists.
\<close>

section \<open>The free list\<close>

definition list_ok :: "heap \<Rightarrow> u32 list \<Rightarrow> bool" where
  "list_ok s fs \<longleftrightarrow> dring (hnext s) (hprev s) free_blocks fs \<and> sorted_wrt (\<lambda>a b. hsize s a \<le> hsize s b) fs \<and>
     (\<forall>z \<in> set fs. hmagic s z = HEAP_HEADER_MAGIC \<and> \<not> hused s z)"

text \<open>Operations on the list change nothing but the links.\<close>

definition relinked :: "heap \<Rightarrow> heap \<Rightarrow> bool" where
  "relinked s s' \<longleftrightarrow> s' = s\<lparr>hnext := hnext s', hprev := hprev s'\<rparr>"

lemma relinked_fields:
  assumes "relinked s s'"
  shows "hmagic s' = hmagic s" "hsize s' = hsize s" "hused s' = hused s" "fmagic s' = fmagic s" "fheader s' = fheader s"
    "heap_end s' = heap_end s" "honline s' = honline s" "hpages s' = hpages s"
  using assms by (simp_all add: relinked_def) (metis heap.ext_inject heap.surjective heap.update_convs(3,4))+

lemma relinked_ops [simp]: "relinked s (hdr_insert t x s)" "relinked s (hdr_remove x s)"
  by (simp_all add: relinked_def hdr_insert_def hdr_remove_def Let_def)

lemmas remove_fields = relinked_fields [OF relinked_ops(2)]

lemma list_ok_cong:
  assumes "list_ok s fs" "hnext s' = hnext s" "hprev s' = hprev s"
    and "\<forall>z \<in> set fs. hsize s' z = hsize s z \<and> hmagic s' z = hmagic s z \<and> hused s' z = hused s z"
  shows "list_ok s' fs"
proof -
  have "sorted_wrt (\<lambda>a b. hsize s' a \<le> hsize s' b) fs"
    using assms(1,4) by (auto simp: list_ok_def intro: sorted_wrt_mono_rel [rotated])
  then show ?thesis using assms by (simp add: list_ok_def)
qed

lemma list_place_ok:
  assumes "dseg (hnext s) (hprev s) a bs c" "c \<notin> set bs" "\<forall>z \<in> set bs. hmagic s z = HEAP_HEADER_MAGIC \<and> \<not> hused s z"
  shows "list_place s c x (hd (bs @ [c])) = Some (hd (dropWhile (\<lambda>l. hsize s l < hsize s x) bs @ [c]))"
  using assms
proof (induction bs arbitrary: a)
  case Nil
  then show ?case by (simp add: list_place.simps)
next
  case (Cons z bs)
  then have "hnext s z = hd (bs @ [c])" by (auto dest: dseg_first)
  then show ?case using Cons.IH [of z] Cons.prems by (subst list_place.simps) auto
qed

lemma dring_prev:
  assumes "dring n p c (as @ bs)"
  shows "p (hd (bs @ [c])) = last (c # as)"
proof (cases bs)
  case Nil
  then show ?thesis using dring_next_last [OF assms] by simp
next
  case (Cons b bs')
  then have "dseg n p c as b" using assms by (simp add: dring_def dseg_append)
  then show ?thesis using Cons dseg_last by fastforce
qed

lemma sorted_wrt_mid: "sorted_wrt R (as @ bs) \<Longrightarrow> \<forall>a \<in> set as. R a x \<Longrightarrow> \<forall>b \<in> set bs. R x b \<Longrightarrow> sorted_wrt R (as @ x # bs)"
  by (auto simp: sorted_wrt_append)

lemma insert_list_ok:
  assumes "list_ok s fs" "x \<notin> insert free_blocks (set fs)" "\<not> hused s x" "hmagic s x = HEAP_HEADER_MAGIC"
  shows "\<exists>s' fs'. insert_list free_blocks x s = Some s' \<and> relinked s s' \<and> list_ok s' fs' \<and> set fs' = insert x (set fs)"
proof -
  let ?small = "\<lambda>l. hsize s l < hsize s x"
  let ?as = "takeWhile ?small fs" and ?bs = "dropWhile ?small fs"
  have ring: "dring (hnext s) (hprev s) free_blocks (?as @ ?bs)" using assms(1) by (simp add: list_ok_def)
  have "hnext s free_blocks = hd (fs @ [free_blocks])" using dring_next_first [OF ring] by simp
  moreover have "list_place s free_blocks x (hd (fs @ [free_blocks])) = Some (hd (?bs @ [free_blocks]))"
    using assms(1) by (intro list_place_ok [of s free_blocks]) (auto simp: list_ok_def dring_def)
  ultimately have i: "insert_list free_blocks x s = Some (hdr_insert (last (free_blocks # ?as)) x s)"
    using assms(3) dring_prev [OF ring] by (simp add: insert_list_def)
  let ?s = "hdr_insert (last (free_blocks # ?as)) x s"
  have "x \<notin> insert free_blocks (set (?as @ ?bs))" using assms(2) by simp
  from blocks.ins_ring [OF ring refl this] have ring': "dring (hnext ?s) (hprev ?s) free_blocks (?as @ x # ?bs)" .
  have sz: "hsize ?s = hsize s" "hmagic ?s = hmagic s" "hused ?s = hused s" using relinked_fields [OF relinked_ops(1)] by auto
  have so: "sorted_wrt (\<lambda>a b. hsize s a \<le> hsize s b) fs" using assms(1) by (simp add: list_ok_def)
  have "hsize s x \<le> hsize s b" if b: "b \<in> set ?bs" for b
  proof -
    obtain c cs where c: "?bs = c # cs" using b by (metis list.exhaust list.set(1) empty_iff)
    then have x: "hsize s x \<le> hsize s c" using hd_dropWhile [of ?small fs] by (simp add: not_less)
    have "sorted_wrt (\<lambda>a b. hsize s a \<le> hsize s b) (?as @ ?bs)" using so by simp
    then have "hsize s c \<le> hsize s b" using b unfolding sorted_wrt_append c by auto
    then show ?thesis using x by simp
  qed
  moreover have "hsize s a \<le> hsize s x" if "a \<in> set ?as" for a using set_takeWhileD [OF that] by (blast intro: less_imp_le)
  moreover have "sorted_wrt (\<lambda>a b. hsize s a \<le> hsize s b) (?as @ ?bs)" using so by (simp only: takeWhile_dropWhile_id)
  ultimately have "sorted_wrt (\<lambda>a b. hsize s a \<le> hsize s b) (?as @ x # ?bs)" by (intro sorted_wrt_mid) blast+
  then have "list_ok ?s (?as @ x # ?bs)"
    using assms ring' unfolding list_ok_def sz by (auto dest: set_takeWhileD set_dropWhileD)
  moreover have "set fs = set (?as @ ?bs)" by (simp only: takeWhile_dropWhile_id)
  then have "set (?as @ x # ?bs) = insert x (set fs)" by (simp only: set_append list.set(2) Un_insert_right)
  ultimately show ?thesis using i relinked_ops(1) by blast
qed

lemma hdr_remove_ok:
  assumes "list_ok s fs" "x \<in> set fs"
  shows "list_ok (hdr_remove x s) (remove1 x fs)" "set (remove1 x fs) = set fs - {x}"
proof -
  obtain as bs where f: "fs = as @ x # bs" using assms(2) by (meson split_list)
  have d: "distinct fs" using assms(1) by (simp add: list_ok_def dring_def)
  then have r: "remove1 x fs = as @ bs" unfolding f by (simp add: remove1_append)
  have "dring (hnext (hdr_remove x s)) (hprev (hdr_remove x s)) free_blocks (as @ bs)"
    using assms(1) unfolding f list_ok_def by (intro blocks.del_ring) simp
  then show "list_ok (hdr_remove x s) (remove1 x fs)"
    using assms(1) [unfolded f] relinked_fields(1-3) [OF relinked_ops(2) [of s x]] unfolding r list_ok_def by (auto simp: sorted_wrt_append)
  show "set (remove1 x fs) = set fs - {x}" using d by simp
qed

lemma find_fit_ok:
  assumes "dseg (hnext s) (hprev s) a bs free_blocks" "free_blocks \<notin> set bs" "\<forall>z \<in> set bs. hmagic s z = HEAP_HEADER_MAGIC \<and> \<not> hused s z"
  shows "find_fit s sz align (hd (bs @ [free_blocks])) = Some (case find (block_fits s sz align) bs of None \<Rightarrow> free_blocks | Some h \<Rightarrow> h)"
  using assms
proof (induction bs arbitrary: a)
  case Nil
  then show ?case by (simp add: find_fit.simps)
next
  case (Cons z bs)
  then have "hnext s z = hd (bs @ [free_blocks])" by (auto dest: dseg_first)
  then show ?case using Cons.IH [of z] Cons.prems by (subst find_fit.simps) auto
qed

section \<open>The blocks\<close>

text \<open>The block from \<open>a\<close> to \<open>b\<close> has its tags, and so have the blocks between the addresses of a list. The last address is
  the end of the heap.\<close>

definition tag :: "heap \<Rightarrow> u32 \<Rightarrow> u32 \<Rightarrow> bool" where
  "tag s a b \<longleftrightarrow> hmagic s a = HEAP_HEADER_MAGIC \<and> unat a + 36 \<le> unat b \<and> hsize s a = b - a \<and>
     fmagic s (b - FTR) = HEAP_FOOTER_MAGIC \<and> fheader s (b - FTR) = a"

fun tagged :: "heap \<Rightarrow> u32 list \<Rightarrow> bool" where
  "tagged s (a # b # bs) \<longleftrightarrow> tag s a b \<and> tagged s (b # bs)"
| "tagged s _ \<longleftrightarrow> True"

lemma tagged_append: "tagged s (xs @ b # ys) \<longleftrightarrow> tagged s (xs @ [b]) \<and> tagged s (b # ys)"
proof (induction xs)
  case (Cons a xs)
  then show ?case by (cases xs) auto
qed simp

lemma tagged_order: "tagged s L \<Longrightarrow> sorted_wrt (\<lambda>x y. unat x + 36 \<le> unat y) L"
proof (induction s L rule: tagged.induct)
  case (1 s a b bs)
  then show ?case by (auto simp: tag_def)
qed auto

lemma tagged_cong:
  assumes "tagged s L" "\<forall>a \<in> set (butlast L). hmagic s' a = hmagic s a \<and> hsize s' a = hsize s a"
    and "\<forall>c \<in> set (tl L). fmagic s' (c - FTR) = fmagic s (c - FTR) \<and> fheader s' (c - FTR) = fheader s (c - FTR)"
  shows "tagged s' L"
  using assms
proof (induction s L rule: tagged.induct)
  case (1 s a b bs)
  then have "tagged s' (b # bs)" by (intro "1.IH") (auto split: if_splits)
  then show ?case using "1.prems" by (auto simp: tag_def)
qed auto

lemma tagged_replace:
  assumes "tagged s (xs @ h # ms @ b # ys)" "tagged s' (h # zs @ [b])"
    and "\<forall>a \<in> set xs \<union> set (butlast (b # ys)). hmagic s' a = hmagic s a \<and> hsize s' a = hsize s a"
    and "\<forall>c \<in> set (tl (xs @ [h])) \<union> set ys. fmagic s' (c - FTR) = fmagic s (c - FTR) \<and> fheader s' (c - FTR) = fheader s (c - FTR)"
  shows "tagged s' (xs @ h # zs @ b # ys)"
proof -
  have "tagged s (xs @ [h])" "tagged s (h # ms @ b # ys)" using assms(1) tagged_append [of s xs h "ms @ b # ys"] by simp_all
  then have "tagged s (b # ys)" using tagged_append [of s "h # ms" b ys] by simp
  moreover have "\<forall>a \<in> set (butlast (b # ys)). hmagic s' a = hmagic s a \<and> hsize s' a = hsize s a"
    "\<forall>c \<in> set (tl (b # ys)). fmagic s' (c - FTR) = fmagic s (c - FTR) \<and> fheader s' (c - FTR) = fheader s (c - FTR)"
    using assms(3,4) unfolding list.sel by blast+
  ultimately have "tagged s' (b # ys)" by (rule tagged_cong)
  moreover have "\<forall>a \<in> set (butlast (xs @ [h])). hmagic s' a = hmagic s a \<and> hsize s' a = hsize s a"
    "\<forall>c \<in> set (tl (xs @ [h])). fmagic s' (c - FTR) = fmagic s (c - FTR) \<and> fheader s' (c - FTR) = fheader s (c - FTR)"
    using assms(3,4) unfolding butlast_snoc by blast+
  then have "tagged s' (xs @ [h])" by (rule tagged_cong [OF \<open>tagged s (xs @ [h])\<close>])
  ultimately show ?thesis
    using assms(2) tagged_append [of s' xs h "zs @ b # ys"] tagged_append [of s' "h # zs" b ys] by simp
qed

text \<open>The shape of the heap, and the heap with the block \<open>h\<close> taken out of the free list.\<close>

definition heap_shape :: "heap \<Rightarrow> u32 list \<Rightarrow> bool" where
  "heap_shape s L \<longleftrightarrow> 2 \<le> length L \<and> hd L = HEAP_BASE \<and> last L = heap_end s \<and> tagged s L \<and> unat (heap_end s) mod 4096 = 0"

definition heap_inv :: "heap \<Rightarrow> u32 list \<Rightarrow> u32 list \<Rightarrow> bool" where
  "heap_inv s L fs \<longleftrightarrow> heap_shape s L \<and> list_ok s fs \<and> set fs = {a \<in> set (butlast L). \<not> hused s a}"

definition heap_but :: "heap \<Rightarrow> u32 list \<Rightarrow> u32 list \<Rightarrow> u32 \<Rightarrow> bool" where
  "heap_but s L fs h \<longleftrightarrow> heap_shape s L \<and> list_ok s fs \<and> h \<in> set (butlast L) \<and> set fs = {a \<in> set (butlast L). \<not> hused s a} - {h}"

definition used_blocks :: "heap \<Rightarrow> u32 list \<Rightarrow> (u32 \<times> u32) set" where
  "used_blocks s L = (\<lambda>a. (a, hsize s a)) ` {a \<in> set (butlast L). hused s a}"

definition used_but :: "heap \<Rightarrow> u32 list \<Rightarrow> u32 \<Rightarrow> (u32 \<times> u32) set" where
  "used_but s L h = (\<lambda>a. (a, hsize s a)) ` {a \<in> set (butlast L). hused s a \<and> a \<noteq> h}"

lemma block_split:
  assumes "h \<in> set (butlast L)"
  shows "\<exists>xs b ys. L = xs @ h # b # ys"
proof -
  obtain xs zs where "butlast L = xs @ h # zs" using assms by (meson split_list)
  moreover have "L = butlast L @ [last L]" using assms by (cases L rule: rev_cases) auto
  ultimately have "L = xs @ h # zs @ [last L]" by simp
  then show ?thesis by (cases "zs @ [last L]") auto
qed

lemma shape_order:
  assumes "heap_shape s L"
  shows "sorted_wrt (\<lambda>x y. unat x + 36 \<le> unat y) L" "distinct L" "x \<in> set L \<Longrightarrow> unat HEAP_BASE \<le> unat x" "free_blocks \<notin> set L"
proof -
  show o: "sorted_wrt (\<lambda>x y. unat x + 36 \<le> unat y) L" using assms tagged_order [of s L] by (simp add: heap_shape_def)
  show "distinct L" using o by (induction L) auto
  obtain bs where L: "L = HEAP_BASE # bs" using assms by (cases L) (simp_all add: heap_shape_def)
  have ge: "unat HEAP_BASE \<le> unat x" if "x \<in> set L" for x using o that unfolding L by auto
  then show "x \<in> set L \<Longrightarrow> unat HEAP_BASE \<le> unat x" .
  have "\<not> unat HEAP_BASE \<le> unat free_blocks" by (simp add: HEAP_BASE_def free_blocks_def)
  then show "free_blocks \<notin> set L" using ge by blast
qed

lemma split_order:
  assumes "sorted_wrt (\<lambda>x y. unat x + 36 \<le> unat y) (xs @ h # b # ys)"
  shows "\<forall>x \<in> set xs. unat x + 36 \<le> unat h" "\<forall>y \<in> set ys. unat b + 36 \<le> unat y" "unat h + 36 \<le> unat (b :: u32)"
  using assms by (auto simp: sorted_wrt_append)

lemma butlast_split: "butlast (xs @ h # b # ys) = xs @ h # butlast (b # ys)"
  by (simp add: butlast_append)

lemma shape_relinked: "relinked s s' \<Longrightarrow> heap_shape s L \<Longrightarrow> heap_shape s' L"
proof -
  assume r: "relinked s s'" and h: "heap_shape s L"
  note f = relinked_fields [OF r]
  have "tagged s L" using h by (simp add: heap_shape_def)
  then have "tagged s' L" by (rule tagged_cong) (simp_all add: f)
  then show ?thesis using h unfolding heap_shape_def f by blast
qed

lemma shape_tag:
  assumes "heap_shape s (xs @ h # b # ys)"
  shows "tag s h b" "unat (hsize s h) = unat b - unat h" "h + hsize s h = b" "unat h + 36 \<le> unat b"
proof -
  have "tagged s (h # b # ys)" using assms tagged_append [of s xs h "b # ys"] by (simp add: heap_shape_def)
  then show t: "tag s h b" by simp
  then show "unat h + 36 \<le> unat b" "h + hsize s h = b" by (simp_all add: tag_def)
  then show "unat (hsize s h) = unat b - unat h" using t by (simp add: tag_def unat_sub word_le_nat_alt)
qed

lemma shape_replace:
  assumes sh: "heap_shape s (xs @ h # ms @ b # ys)" and t: "tagged s' (h # zs @ [b])" and e: "heap_end s' = heap_end s"
    and "\<forall>a \<in> set xs \<union> set (butlast (b # ys)). hmagic s' a = hmagic s a \<and> hsize s' a = hsize s a"
    and "\<forall>c \<in> set (tl (xs @ [h])) \<union> set ys. fmagic s' (c - FTR) = fmagic s (c - FTR) \<and> fheader s' (c - FTR) = fheader s (c - FTR)"
  shows "heap_shape s' (xs @ h # zs @ b # ys)"
proof -
  have "tagged s (xs @ h # ms @ b # ys)" "hd (xs @ h # ms @ b # ys) = HEAP_BASE" "last (xs @ h # ms @ b # ys) = heap_end s"
    "unat (heap_end s) mod 4096 = 0" using sh unfolding heap_shape_def by blast+
  note f = this
  have "hd (xs @ h # zs @ b # ys) = HEAP_BASE" using f(2) by (cases xs) simp_all
  moreover have "last (xs @ h # zs @ b # ys) = heap_end s'" using f(3) e by simp
  ultimately show ?thesis
    unfolding heap_shape_def using tagged_replace [OF f(1) t assms(4,5)] f(4) e by simp
qed

text \<open>Cutting the block \<open>h\<close> at the address \<open>p\<close>: \<open>s'\<close> has the tags of the two parts.\<close>

definition cut_at :: "u32 \<Rightarrow> u32 \<Rightarrow> u32 \<Rightarrow> heap \<Rightarrow> heap \<Rightarrow> bool" where
  "cut_at h p b s s' \<longleftrightarrow>
     hmagic s' = (hmagic s)(p := HEAP_HEADER_MAGIC) \<and> hsize s' = (hsize s)(h := p - h, p := b - p) \<and>
     fmagic s' = (fmagic s)(p - FTR := HEAP_FOOTER_MAGIC) \<and> fheader s' = (fheader s)(p - FTR := h, b - FTR := p) \<and> heap_end s' = heap_end s"

lemma cut_shape:
  assumes sh: "heap_shape s (xs @ h # b # ys)" and c: "cut_at h p b s s'" and p: "unat h + 36 \<le> unat p" "unat p + 36 \<le> unat b"
  shows "heap_shape s' (xs @ h # p # b # ys)" "p \<notin> set (xs @ h # b # ys)"
proof -
  note o = split_order [OF shape_order(1) [OF sh]]
  show np: "p \<notin> set (xs @ h # b # ys)" using o p by force
  have "tagged s' (h # [p] @ [b])" using c p shape_tag(1) [OF sh] by (auto simp: cut_at_def tag_def)
  moreover have "\<forall>a \<in> set xs \<union> set (butlast (b # ys)). hmagic s' a = hmagic s a \<and> hsize s' a = hsize s a"
  proof
    fix a assume a: "a \<in> set xs \<union> set (butlast (b # ys))"
    then have "a \<in> set xs \<union> set (b # ys)" by (blast dest: in_set_butlastD)
    then have "a \<noteq> p" "a \<noteq> h" using np o by force+
    then show "hmagic s' a = hmagic s a \<and> hsize s' a = hsize s a" using c by (simp add: cut_at_def)
  qed
  moreover have "\<forall>x \<in> set (tl (xs @ [h])) \<union> set ys. fmagic s' (x - FTR) = fmagic s (x - FTR) \<and> fheader s' (x - FTR) = fheader s (x - FTR)"
  proof
    fix a assume a: "a \<in> set (tl (xs @ [h])) \<union> set ys"
    then have "a \<in> set (xs @ [h]) \<union> set ys" by (cases xs) auto
    then have "a \<noteq> p" "a \<noteq> b" using np o p by force+
    then show "fmagic s' (a - FTR) = fmagic s (a - FTR) \<and> fheader s' (a - FTR) = fheader s (a - FTR)" using c by (simp add: cut_at_def)
  qed
  moreover have "heap_end s' = heap_end s" using c by (simp add: cut_at_def)
  ultimately show "heap_shape s' (xs @ h # p # b # ys)" using shape_replace [of s xs h "[]" b ys s' "[p]"] sh by simp
qed

lemma shape_magic: "heap_shape s L \<Longrightarrow> h \<in> set (butlast L) \<Longrightarrow> hmagic s h = HEAP_HEADER_MAGIC"
  using block_split [of h L] shape_tag(1) [of s] by (auto simp: tag_def)

lemma shape_not_list: "heap_shape s L \<Longrightarrow> h \<in> set (butlast L) \<Longrightarrow> h \<noteq> free_blocks"
  using shape_order(4) by (auto dest: in_set_butlastD)

lemma insert_but:
  assumes "heap_shape s L" "list_ok s fs" "set fs = {a \<in> set (butlast L). \<not> hused s a} - {x, y}"
    and "x \<in> set (butlast L)" "y \<in> set (butlast L)" "x \<noteq> y" "\<not> hused s x"
  shows "\<exists>s' fs'. insert_list free_blocks x s = Some s' \<and> relinked s s' \<and> heap_but s' L fs' y"
proof -
  have "x \<notin> insert free_blocks (set fs)" using assms(3) shape_not_list [OF assms(1,4)] by blast
  from insert_list_ok [OF assms(2) this assms(7) shape_magic [OF assms(1,4)]] obtain s' fs' where
    i: "insert_list free_blocks x s = Some s'" "relinked s s'" "list_ok s' fs'" "set fs' = insert x (set fs)" by blast
  have "set fs' = {a \<in> set (butlast L). \<not> hused s' a} - {y}"
    unfolding relinked_fields(3) [OF i(2)] i(4) using assms(3,4,6,7) by blast
  then have "heap_but s' L fs' y"
    unfolding heap_but_def using i shape_relinked [OF i(2) assms(1)] assms(5) by blast
  then show ?thesis using i by blast
qed

lemma sized_cong: "A = B \<Longrightarrow> \<forall>a \<in> B. f a = g a \<Longrightarrow> (\<lambda>a. (a, f a)) ` A = (\<lambda>a. (a, g a)) ` B"
  by auto

lemma cut_list:
  assumes but: "heap_but s (xs @ h # b # ys) fs h" and c: "cut_at h p b s s'" and p: "unat h + 36 \<le> unat p" "unat p + 36 \<le> unat b"
    and l: "\<forall>a. a \<noteq> h \<longrightarrow> a \<noteq> p \<longrightarrow> hused s' a = hused s a"
  shows "hnext s' = hnext s \<Longrightarrow> hprev s' = hprev s \<Longrightarrow> list_ok s' fs" "set fs = {a \<in> set (butlast (xs @ h # p # b # ys)). \<not> hused s' a} - {h, p}"
    "(\<lambda>a. (a, hsize s' a)) ` {a \<in> set (butlast (xs @ h # p # b # ys)). hused s' a \<and> a \<noteq> h \<and> a \<noteq> p} = used_but s (xs @ h # b # ys) h"
proof -
  let ?C = "butlast (b # ys)"
  have B: "butlast (xs @ h # b # ys) = xs @ h # ?C" "butlast (xs @ h # p # b # ys) = xs @ h # p # ?C"
    using butlast_split [of xs h b ys] butlast_split [of "xs @ [h]" p b ys] by simp_all
  have sh: "heap_shape s (xs @ h # b # ys)" "list_ok s fs" "set fs = {a \<in> set (xs @ h # ?C). \<not> hused s a} - {h}"
    using but unfolding heap_but_def B by blast+
  have np: "p \<notin> set (xs @ h # b # ys)" by (rule cut_shape(2) [OF sh(1) c p])
  then have pC: "p \<notin> set ?C" "p \<notin> set xs" by (auto dest: in_set_butlastD simp del: butlast.simps)
  have f: "\<forall>z. z \<noteq> h \<longrightarrow> z \<noteq> p \<longrightarrow> hsize s' z = hsize s z \<and> hmagic s' z = hmagic s z" using c by (simp add: cut_at_def)
  have "h \<notin> set fs" "p \<notin> set fs" using sh(3) pC by auto
  then show "hnext s' = hnext s \<Longrightarrow> hprev s' = hprev s \<Longrightarrow> list_ok s' fs" using f l by (intro list_ok_cong [OF sh(2)]) auto
  show "set fs = {a \<in> set (butlast (xs @ h # p # b # ys)). \<not> hused s' a} - {h, p}"
    unfolding B sh(3) using l pC by auto
  have "{a \<in> set (xs @ h # p # ?C). hused s' a \<and> a \<noteq> h \<and> a \<noteq> p} = {a \<in> set (xs @ h # ?C). hused s a \<and> a \<noteq> h}"
    using l pC by auto
  moreover have "\<forall>a \<in> {a \<in> set (xs @ h # ?C). hused s a \<and> a \<noteq> h}. hsize s' a = hsize s a" using f pC by auto
  ultimately show "(\<lambda>a. (a, hsize s' a)) ` {a \<in> set (butlast (xs @ h # p # b # ys)). hused s' a \<and> a \<noteq> h \<and> a \<noteq> p} = used_but s (xs @ h # b # ys) h"
    unfolding used_but_def B by (rule sized_cong)
qed

lemma split_back_ok:
  assumes but: "heap_but s L fs h" and sz: "36 \<le> unat sz" "sz \<le> hsize s h"
  shows "\<exists>s' L' fs'. split_back h sz s = Some s' \<and> heap_but s' L' fs' h \<and> sz \<le> hsize s' h \<and> used_but s' L' h = used_but s L h \<and>
    hpages s' = hpages s \<and> heap_end s' = heap_end s"
proof (cases "hsize s h < sz + HDR + FTR + MIN_BLOCK_SIZE")
  case True
  then show ?thesis using but sz by (intro exI [of _ s] exI [of _ L] exI [of _ fs]) (simp add: split_back_def)
next
  case False
  have hL: "h \<in> set (butlast L)" and sh: "heap_shape s L" using but by (simp_all add: heap_but_def)
  obtain xs b ys where L: "L = xs @ h # b # ys" using block_split [OF hL] by blast
  note t = shape_tag [OF sh [unfolded L]]
  have ge: "unat HEAP_BASE \<le> unat h" using shape_order(3) [OF sh] hL by (auto dest: in_set_butlastD)
  have "unat sz \<le> unat b - unat h" using sz(2) t(2) by (simp add: word_le_nat_alt)
  then have "unat sz + 36 < 2 ^ 32" using ge unat_u32_lt [of b] by (simp add: HEAP_BASE_def)
  then have "unat (sz + HDR + FTR + MIN_BLOCK_SIZE) = unat sz + 36"
    by (simp add: HDR_def FTR_def MIN_BLOCK_SIZE_def unat_word_ariths)
  then have u: "unat sz + 36 \<le> unat b - unat h" using False t(2) by (simp add: word_less_nat_alt not_less)
  let ?p = "h + sz"
  have up: "unat ?p = unat h + unat sz" using u unat_u32_lt [of b] by (intro unat_add_lt) simp
  then have p: "unat h + 36 \<le> unat ?p" "unat ?p + 36 \<le> unat b" using sz(1) u by simp_all
  define s2 where "s2 = set_fheader (h + hsize s h - FTR) ?p (write_header ?p (hsize s h - sz) (write_footer (h + sz - FTR) h (set_size h sz s)))"
  have bsz: "hsize s h - sz = b - ?p" using t(3) by (simp flip: t(3))
  have c: "cut_at h ?p b s s2"
    unfolding cut_at_def s2_def t(3) bsz by (simp add: set_fheader_def write_header_def write_footer_def set_size_def)
  have fr: "hnext s2 = hnext s" "hprev s2 = hprev s" "hused s2 = (hused s)(?p := False)" "hpages s2 = hpages s"
    by (simp_all add: s2_def set_fheader_def write_header_def write_footer_def set_size_def)
  have used2: "\<forall>a. a \<noteq> h \<longrightarrow> a \<noteq> ?p \<longrightarrow> hused s2 a = hused s a" "\<not> hused s2 ?p" by (simp_all add: fr(3))
  note cs = cut_shape [OF sh [unfolded L] c p] and cl = cut_list [OF but [unfolded L] c p used2(1)]
  let ?L = "xs @ h # ?p # b # ys"
  have mem: "?p \<in> set (butlast ?L)" "h \<in> set (butlast ?L)" by (simp_all add: butlast_append)
  have ne: "?p \<noteq> h" using p by auto
  have set2: "set fs = {a \<in> set (butlast ?L). \<not> hused s2 a} - {?p, h}" using cl(2) by (simp only: insert_commute)
  from insert_but [OF cs(1) cl(1) [OF fr(1,2)] set2 mem ne used2(2)] obtain s' fs' where
    i: "insert_list free_blocks ?p s2 = Some s'" "relinked s2 s'" "heap_but s' ?L fs' h" by blast
  note rf = relinked_fields [OF i(2)]
  have "split_back h sz s = Some s'" using False i(1) by (simp add: split_back_def Let_def s2_def)
  moreover have "hsize s' h = sz" using rf(2) c ne by (simp add: cut_at_def)
  moreover have "used_but s' ?L h = used_but s L h"
  proof -
    have "{a \<in> set (butlast ?L). hused s2 a \<and> a \<noteq> h} = {a \<in> set (butlast ?L). hused s2 a \<and> a \<noteq> h \<and> a \<noteq> ?p}" using used2(2) by blast
    then have "used_but s' ?L h = (\<lambda>a. (a, hsize s2 a)) ` {a \<in> set (butlast ?L). hused s2 a \<and> a \<noteq> h \<and> a \<noteq> ?p}"
      unfolding used_but_def rf(2,3) by (simp only:)
    then show ?thesis unfolding cl(3) L .
  qed
  ultimately show ?thesis using i(3) rf(6,8) fr(4) c by (intro exI [of _ s'] exI [of _ ?L] exI [of _ fs']) (simp add: cut_at_def)
qed

lemma block_bounds:
  assumes "heap_shape s L" "h \<in> set (butlast L)"
  shows "unat HEAP_BASE \<le> unat h" "unat h + unat (hsize s h) \<le> unat (heap_end s)" "36 \<le> unat (hsize s h)" "unat (heap_end s) \<le> 2 ^ 32 - 4096"
proof -
  obtain xs b ys where L: "L = xs @ h # b # ys" using block_split [OF assms(2)] by blast
  note t = shape_tag [OF assms(1) [unfolded L]] and o = split_order(2) [OF shape_order(1) [OF assms(1), unfolded L]]
  show "unat HEAP_BASE \<le> unat h" using shape_order(3) [OF assms(1)] assms(2) by (auto dest: in_set_butlastD)
  have "last (b # ys) = heap_end s" using assms(1) unfolding L heap_shape_def by simp
  then have "unat b \<le> unat (heap_end s)" using o by (cases ys rule: rev_cases) auto
  then show "unat h + unat (hsize s h) \<le> unat (heap_end s)" "36 \<le> unat (hsize s h)" using t(2,4) by simp_all
  obtain k where "unat (heap_end s) = 4096 * k" using assms(1) by (auto simp: heap_shape_def)
  then show "unat (heap_end s) \<le> 2 ^ 32 - 4096" using unat_u32_lt [of "heap_end s"] by simp
qed

lemma take_block:
  assumes "heap_inv s L fs" "h \<in> set fs"
  shows "heap_but (hdr_remove h s) L (remove1 h fs) h" "used_but (hdr_remove h s) L h = used_blocks s L"
proof -
  have f: "hsize (hdr_remove h s) = hsize s" "hused (hdr_remove h s) = hused s" using relinked_fields(2,3) [OF relinked_ops(2) [of s h]] .
  have h: "h \<in> set (butlast L)" "\<not> hused s h" "heap_shape s L" "list_ok s fs" "set fs = {a \<in> set (butlast L). \<not> hused s a}"
    using assms by (auto simp: heap_inv_def)
  show "heap_but (hdr_remove h s) L (remove1 h fs) h"
    unfolding heap_but_def hdr_remove_ok(2) [OF h(4) assms(2)] f
    using h shape_relinked [OF relinked_ops(2) h(3)] hdr_remove_ok(1) [OF h(4) assms(2)] by blast
  show "used_but (hdr_remove h s) L h = used_blocks s L"
    unfolding used_but_def used_blocks_def f using h(2) by (intro sized_cong) auto
qed

lemma use_block:
  assumes "heap_but s L fs h"
  shows "heap_inv (set_used h True s) L fs" "used_blocks (set_used h True s) L = insert (h, hsize s h) (used_but s L h)"
proof -
  have h: "h \<in> set (butlast L)" "heap_shape s L" "list_ok s fs" "set fs = {a \<in> set (butlast L). \<not> hused s a} - {h}"
    using assms by (auto simp: heap_but_def)
  let ?s = "set_used h True s"
  have f: "hused ?s = (hused s)(h := True)" "hsize ?s = hsize s" by (simp_all add: set_used_def)
  have "list_ok ?s fs" using h(4) by (intro list_ok_cong [OF h(3)]) (auto simp: set_used_def)
  moreover have "tagged s L" using h(2) by (simp add: heap_shape_def)
  then have "tagged ?s L" by (rule tagged_cong) (simp_all add: set_used_def)
  then have "heap_shape ?s L" using h(2) by (simp add: heap_shape_def set_used_def)
  moreover have "set fs = {a \<in> set (butlast L). \<not> hused ?s a}" unfolding h(4) f by auto
  ultimately show "heap_inv ?s L fs" by (simp add: heap_inv_def)
  have "{a \<in> set (butlast L). hused ?s a} = insert h {a \<in> set (butlast L). hused s a \<and> a \<noteq> h}" using h(1) unfolding f by auto
  then show "used_blocks ?s L = insert (h, hsize s h) (used_but s L h)" unfolding used_blocks_def used_but_def f(2) by simp
qed

lemma split_front_ok:
  assumes but: "heap_but s L fs h" and off: "align_offset h = 0 \<or> 36 \<le> unat (align_offset h) \<and> unat (align_offset h) + 36 \<le> unat (hsize s h)"
  shows "\<exists>h' s' L' fs'. split_front h s = Some (h', s') \<and> heap_but s' L' fs' h' \<and> h' = h + align_offset h \<and> hsize s' h' = hsize s h - align_offset h \<and>
    used_but s' L' h' = used_but s L h \<and> hpages s' = hpages s \<and> heap_end s' = heap_end s"
proof (cases "align_offset h = 0")
  case True
  then show ?thesis using but by (intro exI [of _ h] exI [of _ s] exI [of _ L] exI [of _ fs]) (simp add: split_front_def Let_def)
next
  case False
  let ?o = "align_offset h" and ?p = "h + align_offset h"
  have o: "36 \<le> unat ?o" "unat ?o + 36 \<le> unat (hsize s h)" using off False by simp_all
  have h: "h \<in> set (butlast L)" and sh: "heap_shape s L" and lo: "list_ok s fs" and fs: "set fs = {a \<in> set (butlast L). \<not> hused s a} - {h}"
    using but by (simp_all add: heap_but_def)
  obtain xs b ys where L: "L = xs @ h # b # ys" using block_split [OF h] by blast
  note t = shape_tag [OF sh [unfolded L]]
  have up: "unat ?p = unat h + unat ?o" using o t(2,4) unat_u32_lt [of b] by (intro unat_add_lt) simp
  then have p: "unat h + 36 \<le> unat ?p" "unat ?p + 36 \<le> unat b" using o t(2,4) by simp_all
  let ?L = "xs @ h # ?p # b # ys"
  define s1 where "s1 = write_footer (?p - FTR) h (set_used h False (set_size h ?o s))"
  have hf: "h \<notin> insert free_blocks (set fs)" using fs shape_not_list [OF sh h] by blast
  have l1: "list_ok s1 fs" using hf by (intro list_ok_cong [OF lo]) (auto simp: s1_def write_footer_def set_used_def set_size_def)
  have m1: "\<not> hused s1 h" "hmagic s1 h = HEAP_HEADER_MAGIC"
    using shape_magic [OF sh h] by (simp_all add: s1_def write_footer_def set_used_def set_size_def)
  from insert_list_ok [OF l1 hf m1] obtain s2 fs' where i: "insert_list free_blocks h s1 = Some s2" "relinked s1 s2" "list_ok s2 fs'" "set fs' = insert h (set fs)"
    by blast
  note rf = relinked_fields [OF i(2)]
  define s3 where "s3 = set_fheader (h + hsize s h - FTR) ?p (write_header ?p (hsize s h - ?o) s2)"
  have bsz: "hsize s h - ?o = b - ?p" by (simp flip: t(3))
  have fm: "fmagic s (b - FTR) = HEAP_FOOTER_MAGIC" using t(1) by (simp add: tag_def)
  have sf: "split_front h s = Some (?p, s3)"
  proof -
    have e: "h + HDR + ?o - FTR - HDR = ?p - FTR" "?p - FTR + FTR = ?p" by simp_all
    have "\<not> ?o < FTR + HDR + MIN_BLOCK_SIZE" using o(1) by (simp add: word_less_nat_alt FTR_def HDR_def MIN_BLOCK_SIZE_def)
    then show ?thesis using False fm i(1) unfolding split_front_def Let_def e s3_def s1_def t(3) by simp
  qed
  have c: "cut_at h ?p b s s3"
    unfolding cut_at_def s3_def t(3) bsz by (simp add: rf set_fheader_def write_header_def s1_def write_footer_def set_used_def set_size_def)
  have u3: "hused s3 = (hused s)(h := False, ?p := False)" "hnext s3 = hnext s2" "hprev s3 = hprev s2" "hpages s3 = hpages s"
    by (simp_all add: s3_def rf set_fheader_def write_header_def s1_def write_footer_def set_used_def set_size_def)
  have used3: "\<forall>a. a \<noteq> h \<longrightarrow> a \<noteq> ?p \<longrightarrow> hused s3 a = hused s a" by (simp add: u3(1))
  note cs = cut_shape [OF sh [unfolded L] c p] and cl = cut_list [OF but [unfolded L] c p used3]
  have ne: "?p \<noteq> h" using p by auto
  have pf: "?p \<notin> set fs'" using i(4) cl(2) ne by auto
  have "list_ok s3 fs'" using pf by (intro list_ok_cong [OF i(3)]) (auto simp: s3_def set_fheader_def write_header_def)
  moreover have mem: "?p \<in> set (butlast ?L)" "h \<in> set (butlast ?L)" by (simp_all add: butlast_append)
  moreover have "set fs' = {a \<in> set (butlast ?L). \<not> hused s3 a} - {?p}"
    unfolding i(4) cl(2) using mem(2) ne by (auto simp: u3(1))
  ultimately have "heap_but s3 ?L fs' ?p" unfolding heap_but_def using cs(1) by blast
  moreover have "{a \<in> set (butlast ?L). hused s3 a \<and> a \<noteq> ?p} = {a \<in> set (butlast ?L). hused s3 a \<and> a \<noteq> h \<and> a \<noteq> ?p}" using u3(1) ne by auto
  then have "used_but s3 ?L ?p = used_but s L h" unfolding L cl(3) [symmetric] used_but_def [of s3] by (simp only:)
  moreover have "hsize s3 ?p = hsize s h - ?o" using c bsz by (simp add: cut_at_def)
  moreover have "heap_end s3 = heap_end s" using c by (simp add: cut_at_def)
  ultimately show ?thesis using sf u3(4) by blast
qed

end
