(* ===== verification/HeapPages.thy ===== *)
theory HeapPages
  imports Heap
begin

text \<open>
  The pages behind the kernel heap: growing the heap maps fresh frames at its end and shrinking it gives them back, so that
  every page of the heap has a frame of its own and the pages behind the heap are not mapped.
\<close>

definition page_region :: "nat \<Rightarrow> nat \<Rightarrow> u32 set" where "page_region a b = {x. a \<le> unat x \<and> unat x < b}"

text \<open>The pages from \<open>a\<close> up to \<open>b\<close> have frames of their own, taken from the frame allocator; the pages from \<open>b\<close> to \<open>c\<close> are
  free to be mapped.\<close>

definition backed :: "paging \<Rightarrow> nat \<Rightarrow> nat \<Rightarrow> nat \<Rightarrow> bool" where
  "backed pg a b c \<longleftrightarrow> paging_wf KERNEL_DIR pg \<and>
     (\<exists>A U. owns (frames pg) A U \<and> U \<subseteq> {0 <..< 2 ^ 20} \<and> 0 \<notin> covered A \<and> page_frames pg KERNEL_DIR (page_region a b) \<subseteq> A) \<and>
     (\<forall>x \<in> page_region a b. pg_present (lookup pg KERNEL_DIR x)) \<and>
     inj_on (\<lambda>x. pg_addr (lookup pg KERNEL_DIR x)) (page_region a b) \<and>
     (\<forall>x \<in> page_region b c. \<not> pg_present (lookup pg KERNEL_DIR x))"

lemma frame_covered: "(f, 0) \<in> A \<Longrightarrow> f \<in> covered A"
  by (force simp: covered_def frames_of_def)

lemma owns_bound:
  assumes "owns b A U"
  shows "U \<subseteq> {..< 2 ^ 20}"
proof
  fix f assume "f \<in> U"
  then obtain F i k where F: "buddy_inv b F A" "(i, k) \<in> Buddy.free_blocks F" "f \<in> frames_of (i, k)"
    using assms by (force simp: owns_def covered_def)
  then have "block_wf (frames_total b) (i, k)" by (simp add: buddy_inv_def tiling_def)
  then have "f < frames_total b" using F(3) by (auto simp: block_wf_def frames_of_def)
  moreover have "frames_total b < 2 ^ 20"
    unfolding frames_total_def using unat_u32_lt [of "memory_size b"] by (intro less_mult_imp_div_less) (simp add: PAGE_SHIFT_def)
  ultimately show "f \<in> {..< 2 ^ 20}" by simp
qed

lemma backed_grow:
  assumes b: "backed pg a b c" and le: "a \<le> b" "b \<le> b'" "b' \<le> c" and v: "unat vs = b * 4096" "unat ve = b' * 4096"
  shows "\<exists>ok pg'. alloc_pages phys_of KERNEL_DIR (drop_bit 12 vs) (drop_bit 12 (ve - vs)) (PAGE_PRESENT OR PAGE_RW) pg = Some (ok, pg') \<and>
    (ok \<longrightarrow> backed pg' a b' c)"
proof -
  let ?K = KERNEL_DIR and ?is = "page_range (drop_bit 12 vs) (drop_bit 12 (ve - vs))"
  obtain A U where w: "paging_wf ?K pg" "owns (frames pg) A U" "U \<subseteq> {0 <..< 2 ^ 20}" "page_frames pg ?K (page_region a b) \<subseteq> A" "0 \<notin> covered A"
    and pr: "\<forall>x \<in> page_region a b. pg_present (lookup pg ?K x)" and inj: "inj_on (\<lambda>x. pg_addr (lookup pg ?K x)) (page_region a b)"
    and np: "\<forall>x \<in> page_region b c. \<not> pg_present (lookup pg ?K x)" using b unfolding backed_def by blast
  have m: "unat vs mod 4096 = 0" "unat ve mod 4096 = 0" "vs \<le> ve" using v le by (simp_all add: word_le_nat_alt)
  have d: "unat vs div 4096 = b" "unat ve div 4096 = b'" using v by simp_all
  have R: "set ?is = page_region b b'"
  proof -
    have "unat (drop_bit 12 vs) + unat (drop_bit 12 (ve - vs)) < 2 ^ 32"
      unfolding block_pages(1) [OF m] using unat_u32_lt [of ve] by (simp add: div_le_dividend le_less_trans)
    from page_range_nth(3) [OF this] show ?thesis unfolding block_pages(2) [OF m] d page_region_def by blast
  qed
  have fl: "unat (PAGE_PRESENT OR PAGE_RW) < 2 ^ 12" "pg_present (PAGE_PRESENT OR PAGE_RW)"
    by (simp_all add: PAGE_PRESENT_def PAGE_RW_def pg_present_def)
  from alloc_loop_ok [OF w(1-3) fl page_range_distinct, of phys_of "drop_bit 12 vs" "drop_bit 12 (ve - vs)"] obtain ok pg' N where
    l: "alloc_loop phys_of ?K (PAGE_PRESENT OR PAGE_RW) ?is pg = Some (ok, pg')" "paging_wf ?K pg'" "N \<subseteq> U"
    "owns (frames pg') ((\<lambda>f. (f, 0)) ` N \<union> A) (U - N)" "\<forall>x. x \<notin> page_region b b' \<longrightarrow> lookup pg' ?K x = lookup pg ?K x"
    "ok \<Longrightarrow> range_given (lookup pg ?K) (lookup pg' ?K) (PAGE_PRESENT OR PAGE_RW) (page_region b b') N"
    unfolding R by metis
  have "backed pg' a b' c" if ok: "ok"
  proof -
    note g = l(6) [OF ok, unfolded range_given_def]
    have new: "{x \<in> page_region b b'. \<not> pg_present (lookup pg ?K x)} = page_region b b'"
      using np le(3) by (auto simp: page_region_def)
    have bij: "bij_betw (\<lambda>x. unat (pg_addr (lookup pg' ?K x))) (page_region b b') N" using g unfolding new by blast
    have un: "page_region a b' = page_region a b \<union> page_region b b'" "page_region a b \<inter> page_region b b' = {}"
      using le by (auto simp: page_region_def)
    have old: "lookup pg' ?K x = lookup pg ?K x" if "x \<in> page_region a b" for x using l(5) un(2) that by blast
    have inA: "(unat (pg_addr (lookup pg' ?K x)), 0) \<in> A" if "x \<in> page_region a b" for x
      using w(4) pr that old [OF that] unfolding page_frames_def by auto
    have inN: "unat (pg_addr (lookup pg' ?K x)) \<in> N" if "x \<in> page_region b b'" for x using bij that by (auto simp: bij_betw_def)
    have "page_frames pg' ?K (page_region a b') \<subseteq> (\<lambda>f. (f, 0)) ` N \<union> A"
      unfolding page_frames_def un(1) using inA inN by blast
    moreover have "\<forall>x \<in> page_region a b'. pg_present (lookup pg' ?K x)" using pr old g unfolding un(1) by auto
    moreover have "inj_on (\<lambda>x. pg_addr (lookup pg' ?K x)) (page_region a b')"
    proof (rule inj_onI)
      fix x y assume xy: "x \<in> page_region a b'" "y \<in> page_region a b'" "pg_addr (lookup pg' ?K x) = pg_addr (lookup pg' ?K y)"
      have apart: "covered A \<inter> U = {}" using owns_apart [OF w(2)] by blast
      have cross: False if "x \<in> page_region a b" "y \<in> page_region b b'" "pg_addr (lookup pg' ?K x) = pg_addr (lookup pg' ?K y)" for x y
        using frame_covered [OF inA [OF that(1)]] inN [OF that(2)] l(3) apart that(3) by auto
      consider "x \<in> page_region a b" "y \<in> page_region a b" | "x \<in> page_region b b'" "y \<in> page_region b b'"
        using xy cross [of x y] cross [of y x] unfolding un(1) by force
      then show "x = y"
      proof cases
        case 1
        then show ?thesis using inj_onD [OF inj] old xy(3) by auto
      next
        case 2
        then show ?thesis using bij xy(3) by (auto simp: bij_betw_def inj_on_def)
      qed
    qed
    moreover have "\<forall>x \<in> page_region b' c. \<not> pg_present (lookup pg' ?K x)"
      using np l(5) le(2) by (auto simp: page_region_def)
    moreover have "U - N \<subseteq> {0 <..< 2 ^ 20}" "0 \<notin> covered ((\<lambda>f. (f, 0)) ` N \<union> A)"
      using w(3,5) l(3) by (auto simp: covered_def frames_of_def)
    ultimately show ?thesis unfolding backed_def using l(2,4) by blast
  qed
  then show ?thesis using l(1) unfolding alloc_pages_def by blast
qed

lemma srel_loop_free:
  assumes "paging_wf KERNEL_DIR pg" "owns (frames pg) A U" "page_frames pg KERNEL_DIR (drop_bit 12 ` set as) \<subseteq> A"
    and "inj_on (\<lambda>a. pg_addr (lookup pg KERNEL_DIR a)) (drop_bit 12 ` set as)" "distinct (map (drop_bit 12) as)"
    and "\<forall>a \<in> set as. pg_present (lookup pg KERNEL_DIR (drop_bit 12 a))"
  shows "srel_loop as pg = free_page_loop KERNEL_DIR as pg"
  using assms
proof (induction as arbitrary: pg A U)
  case (Cons a as)
  let ?p = "drop_bit 12 a" and ?K = KERNEL_DIR
  have pres: "pg_present (lookup pg ?K ?p)" using Cons.prems(6) by simp
  then obtain t k where f: "find_page pg ?K ?p = Some (t, k)"
    by (cases "find_page pg ?K ?p") (auto simp: lookup_def page_value_def pg_present_def)
  have fp: "(unat (pg_addr (lookup pg ?K ?p)), 0) \<in> A" using Cons.prems(3) pres by (auto simp: page_frames_def)
  from free_page_ok [OF Cons.prems(1,2) this] pres obtain pg1 U1 where
    s1: "free_page ?K a pg = Some pg1" "paging_wf ?K pg1" "owns (frames pg1) (A - {(unat (pg_addr (lookup pg ?K ?p)), 0)}) U1"
    "\<forall>b. lookup pg1 ?K b = (if b = ?p then 0 else lookup pg ?K b)" by auto
  have np: "?p \<notin> drop_bit 12 ` set as" using Cons.prems(5) by auto
  have same: "lookup pg1 ?K b = lookup pg ?K b" if "b \<in> drop_bit 12 ` set as" for b using s1(4) np that by metis
  have ne: "unat (pg_addr (lookup pg ?K b)) \<noteq> unat (pg_addr (lookup pg ?K ?p))" if "b \<in> drop_bit 12 ` set as" for b
  proof
    assume "unat (pg_addr (lookup pg ?K b)) = unat (pg_addr (lookup pg ?K ?p))"
    then have "pg_addr (lookup pg ?K b) = pg_addr (lookup pg ?K ?p)" by (rule word_unat_eq_iff [THEN iffD2])
    moreover have "b \<in> drop_bit 12 ` set (a # as)" "?p \<in> drop_bit 12 ` set (a # as)" using that by simp_all
    ultimately have "b = ?p" by (rule inj_onD [OF Cons.prems(4)])
    then show False using np that by blast
  qed
  have "page_frames pg1 ?K (drop_bit 12 ` set as) \<subseteq> A - {(unat (pg_addr (lookup pg ?K ?p)), 0)}"
  proof
    fix z assume "z \<in> page_frames pg1 ?K (drop_bit 12 ` set as)"
    then obtain b where b0: "b \<in> drop_bit 12 ` set as" "pg_present (lookup pg1 ?K b)" "z = (unat (pg_addr (lookup pg1 ?K b)), 0)"
      unfolding page_frames_def by blast
    note b = b0 [unfolded same [OF b0(1)]]
    then have "z \<in> A" using Cons.prems(3) unfolding page_frames_def by auto
    then show "z \<in> A - {(unat (pg_addr (lookup pg ?K ?p)), 0)}" using ne [OF b(1)] b(3) by simp
  qed
  moreover have "inj_on (\<lambda>a. pg_addr (lookup pg1 ?K a)) (drop_bit 12 ` set as)"
  proof -
    have "inj_on (\<lambda>a. pg_addr (lookup pg ?K a)) (drop_bit 12 ` set as)" by (rule inj_on_subset [OF Cons.prems(4)]) auto
    then show ?thesis by (rule inj_on_cong [THEN iffD1, rotated]) (simp only: same)
  qed
  moreover have "\<forall>a \<in> set as. pg_present (lookup pg1 ?K (drop_bit 12 a))" using Cons.prems(6) same by simp
  ultimately have IH: "srel_loop as pg1 = free_page_loop ?K as pg1" using Cons.prems(5) by (intro Cons.IH [OF s1(2,3)]) simp_all
  have "pg_present (tabs pg t k)" using pres lookup_find [OF f] by simp
  then obtain pg0 where "free_frame (push_bit 12 (pg_addr (tabs pg t k))) pg = Some pg0" "pg1 = write_page t k 0 pg0"
    using s1(1) f by (auto simp: free_page_def)
  then show ?case using IH f s1(1) by simp
qed simp

lemma backed_shrink:
  assumes b: "backed pg a b c" and le: "a \<le> b'" "b' \<le> b" and v: "unat vs = b * 4096" "unat ve = b' * 4096"
  shows "\<exists>pg'. srel_loop (page_addrs ve vs) pg = Some pg' \<and> backed pg' a b' c"
proof -
  let ?K = KERNEL_DIR and ?as = "page_addrs ve vs"
  obtain A U where w: "paging_wf ?K pg" "owns (frames pg) A U" "U \<subseteq> {0 <..< 2 ^ 20}" "page_frames pg ?K (page_region a b) \<subseteq> A" "0 \<notin> covered A"
    and pr: "\<forall>x \<in> page_region a b. pg_present (lookup pg ?K x)" and inj: "inj_on (\<lambda>x. pg_addr (lookup pg ?K x)) (page_region a b)"
    and np: "\<forall>x \<in> page_region b c. \<not> pg_present (lookup pg ?K x)" using b unfolding backed_def by blast
  have m: "unat ve mod 4096 = 0" "unat vs mod 4096 = 0" using v by simp_all
  have R: "drop_bit 12 ` set ?as = page_region b' b"
    by (rule set_eqI) (simp only: page_addrs_nth(1) [OF m] page_region_def mem_Collect_eq v nonzero_mult_div_cancel_right numeral_neq_zero simp_thms)
  have sub: "page_region b' b \<subseteq> page_region a b" using le by (auto simp: page_region_def)
  have pf: "page_frames pg ?K (drop_bit 12 ` set ?as) \<subseteq> A" using w(4) sub unfolding R page_frames_def by blast
  have inj': "inj_on (\<lambda>x. pg_addr (lookup pg ?K x)) (drop_bit 12 ` set ?as)" unfolding R by (rule inj_on_subset [OF inj sub])
  have pr': "\<forall>x \<in> set ?as. pg_present (lookup pg ?K (drop_bit 12 x))" using pr sub R by blast
  have ds: "distinct (map (drop_bit 12) ?as)" by (rule page_addrs_nth(2) [OF m])
  have inj2: "inj_on (\<lambda>x. pg_addr (lookup pg ?K x)) {x \<in> drop_bit 12 ` set ?as. pg_present (lookup pg ?K x)}"
    by (rule inj_on_subset [OF inj']) blast
  from free_page_loop_ok [OF w(1,2) pf inj2 ds] obtain pg' U' where
    l: "free_page_loop ?K ?as pg = Some pg'" "paging_wf ?K pg'" "owns (frames pg') (A - page_frames pg ?K (page_region b' b)) U'"
    "\<forall>x. lookup pg' ?K x = (if x \<in> page_region b' b \<and> pg_present (lookup pg ?K x) then 0 else lookup pg ?K x)" "U' \<subseteq> U \<union> covered A"
    unfolding R by blast
  have z: "\<not> pg_present 0" by (simp add: pg_present_def)
  have keep: "lookup pg' ?K x = lookup pg ?K x" if "x \<in> page_region a b'" for x using l(4) that by (auto simp: page_region_def)
  have sub2: "page_region a b' \<subseteq> page_region a b" using le by (auto simp: page_region_def)
  have "page_frames pg' ?K (page_region a b') \<subseteq> A - page_frames pg ?K (page_region b' b)"
  proof
    fix f assume "f \<in> page_frames pg' ?K (page_region a b')"
    then obtain x where x0: "x \<in> page_region a b'" "pg_present (lookup pg' ?K x)" "f = (unat (pg_addr (lookup pg' ?K x)), 0)"
      unfolding page_frames_def by blast
    note x = x0 [unfolded keep [OF x0(1)]]
    have "f \<notin> page_frames pg ?K (page_region b' b)"
    proof
      assume "f \<in> page_frames pg ?K (page_region b' b)"
      then obtain y where y: "y \<in> page_region b' b" "pg_addr (lookup pg ?K y) = pg_addr (lookup pg ?K x)"
        using x(3) unfolding page_frames_def by (auto simp: word_unat_eq_iff)
      then have "y = x" using inj_onD [OF inj y(2)] sub sub2 x(1) by blast
      then show False using x(1) y(1) by (simp add: page_region_def)
    qed
    moreover have "f \<in> A" using w(4) x sub2 unfolding page_frames_def by blast
    ultimately show "f \<in> A - page_frames pg ?K (page_region b' b)" by blast
  qed
  moreover have "U' \<subseteq> {0 <..< 2 ^ 20}" "0 \<notin> covered (A - page_frames pg ?K (page_region b' b))"
  proof -
    show "0 \<notin> covered (A - page_frames pg ?K (page_region b' b))" using w(5) by (auto simp: covered_def)
    have "0 \<notin> U'" using l(5) w(3,5) by auto
    then show "U' \<subseteq> {0 <..< 2 ^ 20}" using owns_bound [OF l(3)] by (auto intro: gr0I)
  qed
  moreover have "\<forall>x \<in> page_region a b'. pg_present (lookup pg' ?K x)" using pr keep sub2 by auto
  moreover have "inj_on (\<lambda>x. pg_addr (lookup pg' ?K x)) (page_region a b')"
    using inj_on_subset [OF inj sub2] keep by (simp add: inj_on_def)
  moreover have "\<forall>x \<in> page_region b' c. \<not> pg_present (lookup pg' ?K x)" using l(4) np z by (auto simp: page_region_def)
  ultimately have "backed pg' a b' c" unfolding backed_def using l(2,3) by blast
  then show ?thesis using l(1) srel_loop_free [OF w(1,2) pf inj' ds pr'] by auto
qed

text \<open>With as many free frames as pages the frame allocator does not run out.\<close>

lemma alloc_loop_enough:
  assumes "paging_wf d s" "owns (frames s) A U" "U \<subseteq> {0 <..< 2 ^ 20}" "unat flags < 2 ^ 12" "pg_present flags" "length is \<le> card U"
  shows "\<exists>s'. alloc_loop phys_of d flags is s = Some (True, s')"
  using assms
proof (induction "is" arbitrary: s A U)
  case (Cons i "is")
  obtain ok s1 N where p: "alloc_page phys_of d flags i s = Some (ok, s1)" "paging_wf d s1" "N \<subseteq> U"
    "owns (frames s1) ((\<lambda>f. (f, 0)) ` N \<union> A) (U - N)"
    "if ok then page_given (lookup s d i) (lookup s1 d i) flags N
     else U = {} \<and> N = {} \<and> \<not> pg_present (lookup s d i) \<and> lookup s1 d i = set_addr 0 flags"
    using alloc_page_ok [OF Cons.prems(1-5), of phys_of i] by blast
  have "U \<noteq> {}" using Cons.prems(6) by auto
  then have ok: ok "card N \<le> 1" using p(5) by (auto simp: page_given_def split: if_splits)
  have "finite U" using Cons.prems(3) by (rule finite_subset) simp
  then have "card (U - N) = card U - card N" using p(3) by (intro card_Diff_subset) (auto intro: finite_subset)
  then have "length is \<le> card (U - N)" "U - N \<subseteq> {0 <..< 2 ^ 20}" using Cons.prems(3,6) ok(2) by auto
  then show ?case using Cons.IH [OF p(2,4) _ Cons.prems(4,5)] p(1) ok(1) by simp
qed simp

end
