(* ===== verification/HeapCorrect.thy ===== *)
theory HeapCorrect
  imports HeapBlocks HeapPages
begin

text \<open>
  Correctness of \<open>alloc\<close> on the kernel heap: it returns a block that is disjoint from every block in use and keeps the invariant,
  which \<open>init\<close> establishes; \<open>free\<close> is in theory \<open>HeapFree\<close>.
\<close>

section \<open>Growing\<close>

definition pages_ok :: "heap \<Rightarrow> bool" where
  "pages_ok s \<longleftrightarrow> backed (hpages s) 0xD0000 (unat (heap_end s) div 4096) 0xF0000"

text \<open>The frame allocator does not run out of frames when the heap grows by \<open>inc\<close> bytes.\<close>

definition frames_left :: "(nat \<Rightarrow> u32) \<Rightarrow> u32 \<Rightarrow> heap \<Rightarrow> bool" where
  "frames_left phys_of inc s \<longleftrightarrow>
     \<not> (\<exists>pg. alloc_pages phys_of KERNEL_DIR (drop_bit 12 (heap_end s)) (drop_bit 12 (align_addr (heap_end s + inc) - heap_end s))
        (PAGE_PRESENT OR PAGE_RW) (hpages s) = Some (False, pg))"

lemma sbrk_ok:
  assumes "pages_ok s" "unat (heap_end s) mod 4096 = 0" "0xD0000000 \<le> unat (heap_end s)" "unat (heap_end s) + unat inc + 4095 \<le> 0xF0000000"
    and "frames_left phys_of inc s"
  shows "\<exists>pg inc'. sbrk phys_of inc s = Some (inc', s\<lparr>heap_end := heap_end s + inc', hpages := pg\<rparr>) \<and> unat inc \<le> unat inc' \<and>
    unat (heap_end s + inc') = unat (heap_end s) + unat inc' \<and> unat (heap_end s + inc') mod 4096 = 0 \<and>
    pages_ok (s\<lparr>heap_end := heap_end s + inc', hpages := pg\<rparr>)"
proof -
  let ?e = "heap_end s" and ?ne = "align_addr (heap_end s + inc)"
  obtain k where k: "unat ?e = k * 4096" using assms(2) by (metis dvd_def mod_0_imp_dvd mult.commute)
  have ue: "unat (?e + inc) = unat ?e + unat inc" using assms(4) by (intro unat_add_lt) simp
  have ub: "unat (?e + inc) + 4095 < 2 ^ 32" using assms(4) ue by simp
  define k' where "k' = (unat ?e + unat inc + 4095) div 4096"
  have une: "unat ?ne = k' * 4096" using align_addr_unat [OF ub] ue by (simp add: k'_def)
  have kk: "k \<le> k'" "k' \<le> 0xF0000" "0xD0000 \<le> k"
  proof -
    have "k * 4096 div 4096 \<le> k'" unfolding k'_def k by (intro div_le_mono) simp
    then show "k \<le> k'" by simp
    have "k' \<le> 0xF0000000 div 4096" unfolding k'_def using assms(4) by (intro div_le_mono)
    then show "k' \<le> 0xF0000" by simp
    show "0xD0000 \<le> k" using assms(3) k by simp
  qed
  have kd: "unat ?e div 4096 = k" using k by simp
  from backed_grow [OF assms(1) [unfolded pages_ok_def kd] kk(3,1,2) k une, of phys_of] assms(5) obtain pg where
    a: "alloc_pages phys_of KERNEL_DIR (drop_bit 12 ?e) (drop_bit 12 (?ne - ?e)) (PAGE_PRESENT OR PAGE_RW) (hpages s) = Some (True, pg)"
    "backed pg 0xD0000 k' 0xF0000" unfolding frames_left_def by (metis (full_types))
  have le: "?e \<le> ?ne" using kk k une by (simp add: word_le_nat_alt)
  have "sbrk phys_of inc s = Some (?ne - ?e, s\<lparr>heap_end := ?e + (?ne - ?e), hpages := pg\<rparr>)" using a(1) by (simp add: sbrk_def Let_def)
  moreover have "unat inc \<le> unat (?ne - ?e)"
  proof -
    have "unat ?e + unat inc + 4095 = k' * 4096 + (unat ?e + unat inc + 4095) mod 4096" "(unat ?e + unat inc + 4095) mod 4096 < 4096"
      unfolding k'_def by simp_all
    then have "unat inc \<le> unat ?ne - unat ?e" unfolding une by linarith
    then show ?thesis using le by (simp add: unat_sub)
  qed
  moreover have "unat (?e + (?ne - ?e)) = unat ?e + unat (?ne - ?e)" using le by (simp add: unat_sub word_le_nat_alt)
  moreover have "unat (?e + (?ne - ?e)) mod 4096 = 0" using une by simp
  moreover have "pages_ok (s\<lparr>heap_end := ?e + (?ne - ?e), hpages := pg\<rparr>)" using a(2) une by (simp add: pages_ok_def)
  ultimately show ?thesis by (intro exI [of _ pg] exI [of _ "?ne - ?e"] conjI)
qed

definition last_header :: "heap \<Rightarrow> u32" where "last_header s = fheader s (heap_end s - FTR)"

text \<open>Where the block lies that \<open>alloc\<close> makes by growing the heap.\<close>

definition grow_at :: "heap \<Rightarrow> u32" where
  "grow_at s = (if hused s (last_header s) then heap_end s else last_header s)"

lemma heap_last:
  assumes "heap_shape s L"
  shows "\<exists>ws. L = ws @ [last_header s, heap_end s]" "fmagic s (heap_end s - FTR) = HEAP_FOOTER_MAGIC"
proof -
  have "2 \<le> length L" "last L = heap_end s" using assms by (simp_all add: heap_shape_def)
  then obtain ws l where L: "L = ws @ [l, heap_end s]"
    by (cases L rule: rev_cases; cases "butlast L" rule: rev_cases) auto
  then have "tag s l (heap_end s)" using shape_tag(1) [of s ws l "heap_end s" "[]"] assms by simp
  then show "\<exists>ws. L = ws @ [last_header s, heap_end s]" "fmagic s (heap_end s - FTR) = HEAP_FOOTER_MAGIC"
    using L by (auto simp: tag_def last_header_def)
qed

lemma shape_end:
  assumes sh: "heap_shape s (ws @ [l, e])" and t: "tagged s' (l # zs @ [ne])" and e: "heap_end s' = ne" "unat ne mod 4096 = 0"
    and "\<forall>a \<in> set ws. hmagic s' a = hmagic s a \<and> hsize s' a = hsize s a"
    and "\<forall>c \<in> set (tl (ws @ [l])). fmagic s' (c - FTR) = fmagic s (c - FTR) \<and> fheader s' (c - FTR) = fheader s (c - FTR)"
  shows "heap_shape s' (ws @ l # zs @ [ne])"
proof -
  have f: "tagged s (ws @ [l, e])" "hd (ws @ [l, e]) = HEAP_BASE" using sh unfolding heap_shape_def by blast+
  have "tagged s (ws @ [l])" using f(1) tagged_append [of s ws l "[e]"] by simp
  then have "tagged s' (ws @ [l])" by (rule tagged_cong) (use assms(5,6) in \<open>simp_all only: butlast_snoc\<close>)
  then have "tagged s' (ws @ l # zs @ [ne])" using t tagged_append [of s' ws l "zs @ [ne]"] by simp
  moreover have "hd (ws @ l # zs @ [ne]) = HEAP_BASE" using f(2) by (cases ws) simp_all
  ultimately show ?thesis unfolding heap_shape_def using e by simp
qed

lemma grow_ok:
  assumes inv: "heap_inv s L fs" and pg: "pages_ok s" and n: "n = sz + (if align then 0x1000 else 0)"
    and room: "36 \<le> unat n" "unat (heap_end s) + unat n + 4095 \<le> 0xF0000000" and fl: "frames_left phys_of n s"
  shows "\<exists>s' L' fs'. grow phys_of sz align s = Some (grow_at s, s') \<and> heap_but s' L' fs' (grow_at s) \<and> used_but s' L' (grow_at s) = used_blocks s L \<and>
    pages_ok s' \<and> unat n \<le> unat (hsize s' (grow_at s))"
proof -
  let ?e = "heap_end s" and ?l = "last_header s"
  have sh: "heap_shape s L" and lo: "list_ok s fs" and fs: "set fs = {a \<in> set (butlast L). \<not> hused s a}"
    using inv by (simp_all add: heap_inv_def)
  obtain ws where L: "L = ws @ [?l, ?e]" using heap_last(1) [OF sh] by blast
  note shL = sh [unfolded L] and t = shape_tag [OF sh [unfolded L]] and o = split_order [OF shape_order(1) [OF sh, unfolded L]]
  have bl: "butlast L = ws @ [?l]" unfolding L by (simp add: butlast_append)
  have "0xD0000000 \<le> unat ?e" using shape_order(3) [OF sh, of ?e] unfolding L by (simp add: HEAP_BASE_def)
  moreover have "unat ?e mod 4096 = 0" using sh by (simp add: heap_shape_def)
  ultimately obtain p inc where sb: "sbrk phys_of n s = Some (inc, s\<lparr>heap_end := ?e + inc, hpages := p\<rparr>)" "unat n \<le> unat inc"
    "unat (?e + inc) = unat ?e + unat inc" "unat (?e + inc) mod 4096 = 0" "pages_ok (s\<lparr>heap_end := ?e + inc, hpages := p\<rparr>)"
    using sbrk_ok [OF pg _ _ room(2) fl] by metis
  let ?ne = "?e + inc"
  define s1 where "s1 = s\<lparr>heap_end := ?ne, hpages := p\<rparr>"
  have ge: "unat ?e + 36 \<le> unat ?ne" using sb(2,3) room(1) by simp
  have notne: "?ne \<notin> set L" "?e \<notin> set (ws @ [?l])" using o ge unfolding L by force+
  have g: "grow phys_of sz align s = (let (h, s2) = last_block ?e (?e - FTR) inc s1 in Some (h, write_footer (heap_end s2 - FTR) h s2))"
    using sb(1) heap_last(2) [OF sh] by (simp add: grow_def Let_def n s1_def case_prod_beta)
  have lh: "fheader s1 (?e - FTR) = ?l" by (simp add: s1_def last_header_def)
  show ?thesis
  proof (cases "hused s ?l")
    case True
    define s' where "s' = write_footer (?ne - FTR) ?e (write_header ?e inc s1)"
    have f: "hmagic s' = (hmagic s)(?e := HEAP_HEADER_MAGIC)" "hsize s' = (hsize s)(?e := inc)" "hused s' = (hused s)(?e := False)"
      "fmagic s' = (fmagic s)(?ne - FTR := HEAP_FOOTER_MAGIC)" "fheader s' = (fheader s)(?ne - FTR := ?e)" "heap_end s' = ?ne"
      "hnext s' = hnext s" "hprev s' = hprev s" "hpages s' = p"
      by (simp_all add: s'_def s1_def write_footer_def write_header_def)
    have gs: "grow phys_of sz align s = Some (?e, s')" "grow_at s = ?e"
      unfolding g using True lh by (simp_all add: last_block_def s'_def grow_at_def Let_def write_header_def s1_def)
    let ?L = "ws @ ?l # [?e] @ [?ne]"
    have "tagged s' (?l # [?e] @ [?ne])"
      using t(1) ge o(3) notne by (auto simp: tag_def f)
    then have sh': "heap_shape s' ?L"
    proof (rule shape_end [OF shL])
      show "\<forall>a \<in> set ws. hmagic s' a = hmagic s a \<and> hsize s' a = hsize s a" using notne(2) by (auto simp: f)
      show "\<forall>c \<in> set (tl (ws @ [?l])). fmagic s' (c - FTR) = fmagic s (c - FTR) \<and> fheader s' (c - FTR) = fheader s (c - FTR)"
        using notne(1) unfolding L f by (auto dest: list.set_sel(2) [rotated])
    qed (simp_all add: f sb(4))
    have bl': "butlast ?L = ws @ [?l, ?e]" by (simp add: butlast_append)
    have "set fs = {a \<in> set (butlast ?L). \<not> hused s' a} - {?e}" unfolding fs bl bl' f using notne(2) by auto
    moreover have "list_ok s' fs" using notne(2) fs bl by (intro list_ok_cong [OF lo]) (auto simp: f)
    ultimately have "heap_but s' ?L fs ?e" unfolding heap_but_def bl' using sh' by simp
    moreover have "used_but s' ?L ?e = used_blocks s L"
      unfolding used_but_def used_blocks_def bl bl' f using notne(2) by (intro sized_cong) auto
    moreover have "pages_ok s'" using sb(5) by (simp add: pages_ok_def f)
    ultimately show ?thesis unfolding gs(2) using gs(1) sb(2) by (intro exI [of _ s'] exI [of _ ?L] exI [of _ fs]) (simp add: f)
  next
    case False
    then have lf: "?l \<in> set fs" using fs bl by simp
    define s2 where "s2 = hdr_remove ?l (set_size ?l (hsize s ?l + inc) s1)"
    define s' where "s' = write_footer (?ne - FTR) ?l s2"
    have f: "hmagic s' = hmagic s" "hsize s' = (hsize s)(?l := hsize s ?l + inc)" "hused s' = hused s"
      "fmagic s' = (fmagic s)(?ne - FTR := HEAP_FOOTER_MAGIC)" "fheader s' = (fheader s)(?ne - FTR := ?l)" "heap_end s' = ?ne" "hpages s' = p"
      by (simp_all add: s'_def s2_def remove_fields s1_def set_size_def write_footer_def)
    have hn: "hnext s' = hnext (hdr_remove ?l s)" "hprev s' = hprev (hdr_remove ?l s)"
      by (simp_all add: s'_def s2_def s1_def set_size_def write_footer_def hdr_remove_def Let_def)
    have gs: "grow phys_of sz align s = Some (?l, s')" "grow_at s = ?l"
      unfolding g using False lh f(6) by (simp_all add: last_block_def s'_def s2_def grow_at_def Let_def s1_def write_footer_def)
    let ?L = "ws @ ?l # [] @ [?ne]"
    have "hsize s ?l + inc = ?ne - ?l" using t(1) by (simp add: tag_def)
    then have "tagged s' (?l # [] @ [?ne])" using t(1) ge o(3) by (simp add: tag_def f)
    then have sh': "heap_shape s' ?L"
    proof (rule shape_end [OF shL])
      show "\<forall>a \<in> set ws. hmagic s' a = hmagic s a \<and> hsize s' a = hsize s a" using o(1) by (auto simp: f)
      show "\<forall>c \<in> set (tl (ws @ [?l])). fmagic s' (c - FTR) = fmagic s (c - FTR) \<and> fheader s' (c - FTR) = fheader s (c - FTR)"
        using notne(1) unfolding L f by (auto dest: list.set_sel(2) [rotated])
    qed (simp_all add: f sb(4))
    have bl': "butlast ?L = ws @ [?l]" by (simp add: butlast_append)
    note rm = hdr_remove_ok [OF lo lf] and rr = relinked_fields [OF relinked_ops(2) [of s ?l]]
    have "list_ok s' (remove1 ?l fs)" using hn rm(2) by (intro list_ok_cong [OF rm(1)]) (auto simp: f rr)
    moreover have "set (remove1 ?l fs) = {a \<in> set (butlast ?L). \<not> hused s' a} - {?l}" unfolding rm(2) fs bl bl' f by blast
    ultimately have "heap_but s' ?L (remove1 ?l fs) ?l" unfolding heap_but_def bl' using sh' by simp
    moreover have "used_but s' ?L ?l = used_blocks s L"
      unfolding used_but_def used_blocks_def bl bl' f using False by (intro sized_cong) auto
    moreover have "pages_ok s'" using sb(5) by (simp add: pages_ok_def f)
    moreover have "unat n \<le> unat (hsize s' ?l)"
    proof -
      have "unat (?ne - ?l) = unat ?ne - unat ?l" using o(3) ge by (simp add: unat_sub word_le_nat_alt)
      then have "unat n \<le> unat (?ne - ?l)" using sb(2,3) o(3) by simp
      then show ?thesis using \<open>hsize s ?l + inc = ?ne - ?l\<close> by (simp only: f fun_upd_same)
    qed
    ultimately show ?thesis unfolding gs(2) using gs(1) by blast
  qed
qed

section \<open>Allocating\<close>

lemma block_size_bounds:
  assumes "unat n \<le> 0x20000000"
  shows "unat n + 28 \<le> unat (block_size n)" "36 \<le> unat (block_size n)" "unat (block_size n) \<le> unat n + 40"
proof -
  let ?m = "if n < MIN_BLOCK_SIZE then MIN_BLOCK_SIZE else n"
  have m: "unat ?m = max 8 (unat n)" by (auto simp: MIN_BLOCK_SIZE_def word_less_nat_alt max_def)
  let ?z = "?m + (HDR + FTR)"
  have z: "unat ?z = max 8 (unat n) + 28" using m assms by (subst unat_add_lt) (auto simp: HDR_def FTR_def)
  have "unat (?z mod 4) = unat ?z mod 4" by (simp add: unat_mod)
  moreover have lt: "unat ?z mod 4 < 4" by simp
  ultimately have a: "unat (4 - ?z mod 4) = 4 - unat ?z mod 4" by (subst unat_sub) (simp_all add: word_le_nat_alt)
  have "unat (block_size n) = unat ?z + (if ?z mod 4 \<noteq> 0 then 4 - unat ?z mod 4 else 0)"
    unfolding block_size_def Let_def using a z assms by (auto simp: unat_add_lt)
  then show "unat n + 28 \<le> unat (block_size n)" "36 \<le> unat (block_size n)" "unat (block_size n) \<le> unat n + 40"
    using z lt by (auto split: if_splits)
qed

lemma align_offset_bounds:
  assumes "unat h + 20 + 4095 < 2 ^ 32"
  shows "unat (align_offset h) < 4096" "unat (h + align_offset h + HDR) mod 4096 = 0"
    "unat (h + align_offset h) = unat h + unat (align_offset h)"
proof -
  have u: "unat (h + HDR) = unat h + 20" using assms by (subst unat_add_lt) (simp_all add: HDR_def)
  then have b: "unat (h + HDR) + 4095 < 2 ^ 32" using assms by simp
  note a = align_addr_unat [OF b]
  have d: "unat (h + HDR) + 4095 = (unat (h + HDR) + 4095) div 4096 * 4096 + (unat (h + HDR) + 4095) mod 4096"
    "(unat (h + HDR) + 4095) mod 4096 < 4096" by simp_all
  then have le: "unat (h + HDR) \<le> unat (align_addr (h + HDR))" unfolding a by linarith
  then have o: "unat (align_offset h) = unat (align_addr (h + HDR)) - unat (h + HDR)"
    by (simp add: align_offset_def Let_def unat_sub word_le_nat_alt)
  show "unat (align_offset h) < 4096" unfolding o a using d by linarith
  have e: "h + align_offset h + HDR = align_addr (h + HDR)" by (simp add: align_offset_def Let_def)
  show "unat (h + align_offset h + HDR) mod 4096 = 0" unfolding e a by simp
  have "unat h + unat (align_offset h) < 2 ^ 32" unfolding o using le u unat_u32_lt [of "align_addr (h + HDR)"] by simp
  then show "unat (h + align_offset h) = unat h + unat (align_offset h)" by (intro unat_add_lt) simp
qed

text \<open>Once a block is at hand that is large enough, the rest of \<open>alloc\<close> succeeds.\<close>

definition offset_ok :: "u32 \<Rightarrow> bool" where
  "offset_ok h \<longleftrightarrow> align_offset h = 0 \<or> MIN_BLOCK_SIZE + FTR + HDR \<le> align_offset h"

definition alloc_rest :: "u32 \<Rightarrow> bool \<Rightarrow> u32 \<Rightarrow> heap \<Rightarrow> (u32 \<times> heap) option" where
  "alloc_rest sz align h1 s1 = do {
     (h, s2) \<leftarrow> (if align then split_front h1 s1 else Some (h1, s1));
     s3 \<leftarrow> split_back h sz s2;
     Some (h + HDR, set_used h True s3) }"

lemma alloc_rest_ok:
  assumes but: "heap_but s L fs h" and pg: "pages_ok s" and sz: "36 \<le> unat sz"
    and fit: "unat sz + (if align then unat (align_offset h) else 0) \<le> unat (hsize s h)" "align \<Longrightarrow> offset_ok h"
  shows "\<exists>p s' L' fs' z. alloc_rest sz align h s = Some (p, s') \<and> heap_inv s' L' fs' \<and> pages_ok s' \<and>
    used_blocks s' L' = insert (p - HDR, z) (used_but s L h) \<and> unat sz \<le> unat z \<and> (align \<longrightarrow> unat p mod 4096 = 0) \<and>
    p - HDR \<notin> fst ` used_but s L h"
proof -
  have sh: "heap_shape s L" "h \<in> set (butlast L)" using but by (simp_all add: heap_but_def)
  note bb = block_bounds [OF sh]
  have hb: "unat h + 20 + 4095 < 2 ^ 32" using bb by simp
  obtain h' s2 L2 fs2 where f: "(if align then split_front h s else Some (h, s)) = Some (h', s2)" "heap_but s2 L2 fs2 h'"
    "unat sz \<le> unat (hsize s2 h')" "used_but s2 L2 h' = used_but s L h" "hpages s2 = hpages s" "heap_end s2 = heap_end s"
    "align \<longrightarrow> unat (h' + HDR) mod 4096 = 0"
  proof (cases align)
    case True
    have "align_offset h = 0 \<or> 36 \<le> unat (align_offset h) \<and> unat (align_offset h) + 36 \<le> unat (hsize s h)"
      using fit True sz by (auto simp: offset_ok_def word_le_nat_alt MIN_BLOCK_SIZE_def FTR_def HDR_def)
    from split_front_ok [OF but this] obtain s2 L2 fs2 where
      g: "split_front h s = Some (h + align_offset h, s2)" "heap_but s2 L2 fs2 (h + align_offset h)"
      "hsize s2 (h + align_offset h) = hsize s h - align_offset h" "used_but s2 L2 (h + align_offset h) = used_but s L h"
      "hpages s2 = hpages s" "heap_end s2 = heap_end s" by blast
    have "unat (hsize s h - align_offset h) = unat (hsize s h) - unat (align_offset h)"
      using fit(1) True by (intro unat_sub) (simp add: word_le_nat_alt)
    then show ?thesis using g fit(1) True align_offset_bounds(2) [OF hb] by (intro that [of "h + align_offset h" s2 L2 fs2]) simp_all
  next
    case False
    then show ?thesis using but fit(1) by (intro that [of h s L fs]) simp_all
  qed
  have "sz \<le> hsize s2 h'" using f(3) by (simp add: word_le_nat_alt)
  from split_back_ok [OF f(2) sz this] obtain s3 L3 fs3 where
    b: "split_back h' sz s2 = Some s3" "heap_but s3 L3 fs3 h'" "sz \<le> hsize s3 h'" "used_but s3 L3 h' = used_but s2 L2 h'"
    "hpages s3 = hpages s2" "heap_end s3 = heap_end s2" by blast
  have "alloc_rest sz align h s = Some (h' + HDR, set_used h' True s3)" using f(1) b(1) by (simp add: alloc_rest_def)
  moreover have "pages_ok (set_used h' True s3)" using pg b(5,6) f(5,6) by (simp add: pages_ok_def set_used_def)
  moreover have "h' + HDR - HDR = h'" by simp
  moreover have "h' \<notin> fst ` used_but s L h" unfolding f(4) [symmetric] unfolding used_but_def by auto
  ultimately show ?thesis using use_block [OF b(2)] b(3,4) f(4,7) by (metis word_le_nat_alt)
qed

text \<open>A well-formed heap whose blocks in use are \<open>B\<close>, as pairs of the address of the header and the size.\<close>

definition heap_ok :: "heap \<Rightarrow> (u32 \<times> u32) set \<Rightarrow> bool" where
  "heap_ok s B \<longleftrightarrow> (\<exists>L fs. heap_inv s L fs \<and> B = used_blocks s L) \<and> pages_ok s"

text \<open>The heap can be extended for a request: there is address space and there are frames, and the new block can be aligned.\<close>

definition can_grow :: "(nat \<Rightarrow> u32) \<Rightarrow> u32 \<Rightarrow> bool \<Rightarrow> heap \<Rightarrow> bool" where
  "can_grow phys_of n align s \<longleftrightarrow>
     (let m = block_size n + (if align then 0x1000 else 0)
      in unat (heap_end s) + unat m + 4095 \<le> 0xF0000000 \<and> frames_left phys_of m s \<and> (align \<longrightarrow> offset_ok (grow_at s)))"

lemma heap_end_bounds:
  assumes "heap_shape s L"
  shows "unat (last_header s) + 36 \<le> unat (heap_end s)"
proof -
  obtain ws where "L = ws @ [last_header s, heap_end s]" using heap_last(1) [OF assms] by blast
  then show ?thesis using shape_tag(4) [of s ws "last_header s" "heap_end s" "[]"] assms by simp
qed

lemma find_fit_eq:
  assumes "list_ok s fs"
  shows "find_fit s z align (hnext s free_blocks) = Some (case find (block_fits s z align) fs of None \<Rightarrow> free_blocks | Some h \<Rightarrow> h)"
proof -
  have "dring (hnext s) (hprev s) free_blocks fs" using assms by (simp add: list_ok_def)
  then have "hnext s free_blocks = hd (fs @ [free_blocks])" by (rule dring_next_first)
  moreover have "find_fit s z align (hd (fs @ [free_blocks])) = Some (case find (block_fits s z align) fs of None \<Rightarrow> free_blocks | Some h \<Rightarrow> h)"
    using assms by (intro find_fit_ok [of s free_blocks]) (auto simp: list_ok_def dring_def)
  ultimately show ?thesis by simp
qed

lemma alloc_take:
  assumes inv: "heap_inv s L fs" and pg: "pages_ok s" and n: "unat n \<le> 0x20000000"
    and room: "find_fit s (block_size n) align (hnext s free_blocks) \<noteq> Some free_blocks \<or> can_grow phys_of n align s"
  shows "\<exists>h s' L' fs'. heap_alloc phys_of n align s = alloc_rest (block_size n) align h s' \<and> heap_but s' L' fs' h \<and> pages_ok s' \<and>
    used_but s' L' h = used_blocks s L \<and> unat (block_size n) + (if align then unat (align_offset h) else 0) \<le> unat (hsize s' h) \<and>
    (align \<longrightarrow> offset_ok h)"
proof -
  let ?z = "block_size n"
  note z = block_size_bounds [OF n]
  have lo: "list_ok s fs" and sh: "heap_shape s L" and fs: "set fs = {a \<in> set (butlast L). \<not> hused s a}" using inv by (simp_all add: heap_inv_def)
  have ring: "dring (hnext s) (hprev s) free_blocks fs" using lo by (simp add: list_ok_def)
  note ff = find_fit_eq [OF lo, of ?z align]
  show ?thesis
  proof (cases "find (block_fits s ?z align) fs")
    case None
    let ?m = "?z + (if align then 0x1000 else 0)"
    have m: "unat ?m = unat ?z + (if align then 4096 else 0)" using z n by (auto simp: unat_add_lt)
    have cg: "unat (heap_end s) + unat ?m + 4095 \<le> 0xF0000000" "frames_left phys_of ?m s" "align \<longrightarrow> offset_ok (grow_at s)"
      using room ff None by (simp_all add: can_grow_def Let_def)
    have "36 \<le> unat ?m" using m z(2) by simp
    from grow_ok [OF inv pg refl this cg(1,2)] obtain s' L' fs' where
      g: "grow phys_of ?z align s = Some (grow_at s, s')" "heap_but s' L' fs' (grow_at s)" "used_but s' L' (grow_at s) = used_blocks s L"
      "pages_ok s'" "unat ?m \<le> unat (hsize s' (grow_at s))" by blast
    have "unat (grow_at s) \<le> unat (heap_end s)" using heap_end_bounds [OF sh] by (simp add: grow_at_def)
    then have "unat (grow_at s) + 20 + 4095 < 2 ^ 32" using cg(1) by simp
    then have "unat (align_offset (grow_at s)) < 4096" by (rule align_offset_bounds(1))
    then have "unat ?z + (if align then unat (align_offset (grow_at s)) else 0) \<le> unat (hsize s' (grow_at s))"
      using g(5) m by (simp split: if_splits)
    moreover have "heap_alloc phys_of n align s = alloc_rest ?z align (grow_at s) s'"
      unfolding heap_alloc_def alloc_rest_def Let_def using ff None g(1) by simp
    ultimately show ?thesis using g(2-4) cg(3) by blast
  next
    case (Some h)
    then have h: "h \<in> set fs" "block_fits s ?z align h" by (auto simp: find_Some_iff)
    note tb = take_block [OF inv h(1)]
    have "h \<noteq> free_blocks" using h(1) ring by (auto simp: dring_def)
    then have "heap_alloc phys_of n align s = alloc_rest ?z align h (hdr_remove h s)"
      unfolding heap_alloc_def alloc_rest_def Let_def using ff Some by simp
    moreover have "pages_ok (hdr_remove h s)" using pg by (simp add: pages_ok_def remove_fields)
    moreover have hL: "h \<in> set (butlast L)" using h(1) fs by simp
    then have "unat h + 20 + 4095 < 2 ^ 32" using block_bounds [OF sh hL] by simp
    then have o: "unat (align_offset h) < 4096" by (rule align_offset_bounds(1))
    then have "unat (?z + align_offset h) = unat ?z + unat (align_offset h)" using z(3) n by (intro unat_add_lt) simp
    then have "unat ?z + (if align then unat (align_offset h) else 0) \<le> unat (hsize (hdr_remove h s) h) \<and> (align \<longrightarrow> offset_ok h)"
      using h(2) by (auto simp: block_fits_def offset_ok_def remove_fields word_le_nat_alt split: if_splits)
    ultimately show ?thesis using tb by blast
  qed
qed

lemma blocks_disjoint:
  assumes "heap_shape s L" "a \<in> set (butlast L)" "b \<in> set (butlast L)" "a \<noteq> b"
  shows "unat a + unat (hsize s a) \<le> unat b \<or> unat b + unat (hsize s b) \<le> unat a"
proof -
  have *: "unat x + unat (hsize s x) \<le> unat y" if L: "butlast L = xs @ x # ys" and y: "y \<in> set ys" for x y xs ys
  proof -
    have "L = butlast L @ [last L]" using assms(2) by (cases L rule: rev_cases) auto
    then obtain c zs where c: "L = xs @ x # c # zs" "ys @ [last L] = c # zs" using L by (cases "ys @ [last L]") auto
    have "y \<in> set (c # zs)" using y unfolding c(2) [symmetric] by simp
    then have "unat c \<le> unat y" using split_order(2) [OF shape_order(1) [OF assms(1), unfolded c(1)]] by auto
    then show ?thesis using shape_tag(2,4) [OF assms(1) [unfolded c(1)]] by simp
  qed
  obtain xs ys where L: "butlast L = xs @ a # ys" using assms(2) by (meson split_list)
  then consider "b \<in> set xs" | "b \<in> set ys" using assms(3,4) by auto
  then show ?thesis
  proof cases
    case 1
    then obtain us vs where "xs = us @ b # vs" by (meson split_list)
    then have "butlast L = us @ b # vs @ a # ys" using L by simp
    then show ?thesis using * [of us b "vs @ a # ys" a] by simp
  next
    case 2
    then show ?thesis using * [OF L] by simp
  qed
qed

text \<open>Distinct blocks in use do not overlap, and lie within the heap.\<close>

definition block_apart :: "u32 \<times> u32 \<Rightarrow> u32 \<times> u32 \<Rightarrow> bool" where
  "block_apart x y \<longleftrightarrow> unat (fst x) + unat (snd x) \<le> unat (fst y) \<or> unat (fst y) + unat (snd y) \<le> unat (fst x)"

lemma heap_ok_disjoint:
  assumes "heap_ok s B" "x \<in> B" "y \<in> B" "fst x \<noteq> fst y"
  shows "block_apart x y"
proof -
  obtain L fs where L: "heap_shape s L" "B = used_blocks s L" using assms(1) by (auto simp: heap_ok_def heap_inv_def)
  obtain a b where "x = (a, hsize s a)" "y = (b, hsize s b)" "a \<in> set (butlast L)" "b \<in> set (butlast L)" "a \<noteq> b"
    using assms(2-4) unfolding L(2) used_blocks_def by auto
  then show ?thesis using blocks_disjoint [OF L(1)] by (simp add: block_apart_def)
qed

lemma heap_ok_within:
  assumes "heap_ok s B" "(a, z) \<in> B"
  shows "unat HEAP_BASE \<le> unat a" "unat a + unat z \<le> unat (heap_end s)"
proof -
  obtain L fs where L: "heap_shape s L" "B = used_blocks s L" using assms(1) by (auto simp: heap_ok_def heap_inv_def)
  have "a \<in> set (butlast L)" "z = hsize s a" using assms(2) unfolding L(2) used_blocks_def by auto
  then show "unat HEAP_BASE \<le> unat a" "unat a + unat z \<le> unat (heap_end s)" using block_bounds(1,2) [OF L(1)] by simp_all
qed

text \<open>On a well-formed heap whose blocks in use are \<open>B\<close>, when a free block fits or the heap can be extended, the
  allocator returns a pointer: it takes one more block into use, at least as large as the request and the two tags, within the
  heap and apart from every block that was in use, whose data is page-aligned when that was asked for; every other block stays in use,
  with its address and size, and the heap stays well-formed: the tags, the ordered free list and the pages behind the heap.\<close>

lemma heap_alloc_ok:
  assumes "heap_ok s B" "unat n \<le> 0x20000000"
    and "find_fit s (block_size n) align (hnext s free_blocks) \<noteq> Some free_blocks \<or> can_grow phys_of n align s"
  shows "\<exists>p s' z. heap_alloc phys_of n align s = Some (p, s') \<and> heap_ok s' (insert (p - HDR, z) B) \<and> p - HDR \<notin> fst ` B \<and>
    (\<forall>x \<in> B. block_apart (p - HDR, z) x) \<and> unat n + 28 \<le> unat z \<and> unat (p - HDR) + unat z \<le> unat (heap_end s') \<and>
    (align \<longrightarrow> unat p mod 4096 = 0)"
proof -
  obtain L fs where inv: "heap_inv s L fs" and B: "B = used_blocks s L" and pg: "pages_ok s" using assms(1) by (auto simp: heap_ok_def)
  from alloc_take [OF inv pg assms(2,3)] obtain h s1 L1 fs1 where
    t: "heap_alloc phys_of n align s = alloc_rest (block_size n) align h s1" "heap_but s1 L1 fs1 h" "pages_ok s1" "used_but s1 L1 h = B"
    "unat (block_size n) + (if align then unat (align_offset h) else 0) \<le> unat (hsize s1 h)" "align \<longrightarrow> offset_ok h"
    unfolding B by blast
  note z = block_size_bounds [OF assms(2)]
  have "align \<Longrightarrow> offset_ok h" using t(6) by blast
  from alloc_rest_ok [OF t(2,3) z(2) t(5) this] obtain p s' L' fs' z where
    r: "heap_alloc phys_of n align s = Some (p, s')" "heap_inv s' L' fs'" "pages_ok s'" "used_blocks s' L' = insert (p - HDR, z) B"
    "unat (block_size n) \<le> unat z" "align \<longrightarrow> unat p mod 4096 = 0" "p - HDR \<notin> fst ` B" unfolding t(1,4) by metis
  have ok: "heap_ok s' (insert (p - HDR, z) B)" unfolding heap_ok_def using r(2-4) by blast
  have "\<forall>x \<in> B. block_apart (p - HDR, z) x"
  proof
    fix x assume x: "x \<in> B"
    then have "fst x \<noteq> p - HDR" using r(7) by (metis imageI)
    then show "block_apart (p - HDR, z) x" using heap_ok_disjoint [OF ok, of "(p - HDR, z)" x] x by (simp add: eq_commute)
  qed
  moreover have "unat (p - HDR) + unat z \<le> unat (heap_end s')" using heap_ok_within(2) [OF ok, of "p - HDR" z] by simp
  moreover have "unat n + 28 \<le> unat z" using r(5) z(1) by simp
  ultimately show ?thesis using r(1,6,7) ok by (intro exI [of _ p] exI [of _ s'] exI [of _ z] conjI)
qed

section \<open>The first heap\<close>

lemma heap_init_ok:
  assumes b: "backed (hpages s0) 0xD0000 0xD0000 0xF0000" and own: "owns (frames (hpages s0)) A U" "U \<subseteq> {0 <..< 2 ^ 20}" "256 \<le> card U"
    and e: "heap_end s0 = HEAP_BASE + HEAP_INIT_SIZE"
  shows "\<exists>s. heap_init phys_of s0 = Some s \<and> heap_inv s [HEAP_BASE, heap_end s0] [HEAP_BASE] \<and> pages_ok s \<and> honline s"
proof -
  let ?e = "HEAP_BASE + HEAP_INIT_SIZE" and ?fl = "PAGE_PRESENT OR PAGE_RW"
  have n: "drop_bit 12 (?e - HEAP_BASE) = drop_bit 12 HEAP_INIT_SIZE" by simp
  have u: "unat HEAP_BASE = 0xD0000 * 4096" "unat ?e = 0xD0100 * 4096" by (simp_all add: HEAP_BASE_def HEAP_INIT_SIZE_def)
  from backed_grow [OF b _ _ _ u, of phys_of] obtain ok pg where
    g: "alloc_pages phys_of KERNEL_DIR (drop_bit 12 HEAP_BASE) (drop_bit 12 HEAP_INIT_SIZE) ?fl (hpages s0) = Some (ok, pg)"
    "ok \<longrightarrow> backed pg 0xD0000 0xD0100 0xF0000" unfolding n by auto
  have wf: "paging_wf KERNEL_DIR (hpages s0)" using b by (simp add: backed_def)
  have fl: "unat ?fl < 2 ^ 12" "pg_present ?fl" by (simp_all add: PAGE_PRESENT_def PAGE_RW_def pg_present_def)
  have "length (page_range (drop_bit 12 HEAP_BASE) (drop_bit 12 HEAP_INIT_SIZE)) \<le> card U"
    using own(3) by (subst page_range_nth(1)) (simp_all add: HEAP_BASE_def HEAP_INIT_SIZE_def)
  from alloc_loop_enough [OF wf own(1,2) fl this, of phys_of] have ok using g(1) by (auto simp: alloc_pages_def)
  then have bp: "backed pg 0xD0000 0xD0100 0xF0000" using g(2) by blast
  define s1 where "s1 = s0\<lparr>hpages := pg, hmagic := (hmagic s0)(free_blocks := HEAP_HEADER_MAGIC), hsize := (hsize s0)(free_blocks := 0),
    hprev := (hprev s0)(free_blocks := free_blocks), hnext := (hnext s0)(free_blocks := free_blocks)\<rparr>"
  define s2 where "s2 = write_footer (?e - FTR) HEAP_BASE (write_header HEAP_BASE HEAP_INIT_SIZE s1)"
  have f: "hmagic s2 HEAP_BASE = HEAP_HEADER_MAGIC" "hsize s2 HEAP_BASE = HEAP_INIT_SIZE" "\<not> hused s2 HEAP_BASE" "fmagic s2 (?e - FTR) = HEAP_FOOTER_MAGIC"
    "fheader s2 (?e - FTR) = HEAP_BASE" "heap_end s2 = ?e" "hpages s2 = pg" "hnext s2 free_blocks = free_blocks" "hprev s2 free_blocks = free_blocks"
    using e by (simp_all add: s2_def s1_def write_footer_def write_header_def)
  have "list_ok s2 []" using f by (simp add: list_ok_def dring_def)
  moreover have nf: "HEAP_BASE \<notin> insert free_blocks (set [])" by (simp add: HEAP_BASE_def free_blocks_def)
  ultimately obtain s3 fs where i: "insert_list free_blocks HEAP_BASE s2 = Some s3" "relinked s2 s3" "list_ok s3 fs" "set fs = {HEAP_BASE}"
    using insert_list_ok [of s2 "[]" HEAP_BASE] f by auto
  have "distinct fs" using i(3) by (simp add: list_ok_def dring_def)
  then have fs: "fs = [HEAP_BASE]" using i(4) by (cases fs) (auto simp: subset_singleton_iff)
  note r = relinked_fields [OF i(2)]
  define s where "s = s3\<lparr>honline := True\<rparr>"
  have "heap_init phys_of s0 = Some s" using g(1) i(1) by (simp add: heap_init_def s_def s2_def s1_def)
  moreover have "heap_shape s [HEAP_BASE, ?e]"
    using f by (simp add: heap_shape_def tag_def s_def r) (simp add: HEAP_BASE_def HEAP_INIT_SIZE_def)
  moreover have "list_ok s fs" using i(3) by (rule list_ok_cong) (simp_all add: s_def)
  moreover have "pages_ok s" unfolding pages_ok_def using bp u(2) by (simp add: s_def r f(6,7))
  moreover have "set fs = {a \<in> set (butlast [HEAP_BASE, ?e]). \<not> hused s a}" using f(3) by (auto simp: fs s_def r)
  moreover have "honline s" by (simp add: s_def)
  ultimately show ?thesis unfolding heap_inv_def e fs by blast
qed

definition heap_start :: "paging \<Rightarrow> heap" where
  "heap_start pg = \<lparr>hmagic = (\<lambda>_. 0), hsize = (\<lambda>_. 0), hprev = (\<lambda>_. 0), hnext = (\<lambda>_. 0), hused = (\<lambda>_. False), fmagic = (\<lambda>_. 0),
     fheader = (\<lambda>_. 0), heap_end = HEAP_BASE + HEAP_INIT_SIZE, honline = False, hpages = pg\<rparr>"

lemma heap_example:
  "\<exists>s0 s. heap_init (\<lambda>t. of_nat t * 4096) s0 = Some s \<and> memory_size (frames (hpages s0)) = 0x800000 \<and> heap_ok s {} \<and> honline s \<and> block_fits s (block_size 100) True HEAP_BASE \<and>
     find_fit s (block_size 100) True (hnext s free_blocks) = Some HEAP_BASE"
proof -
  have f: "1024 \<le> unat (0x800000 :: u32) div 2 ^ PAGE_SHIFT" by (simp add: PAGE_SHIFT_def)
  obtain b where b: "owns b {} {1024 ..< 2048}" "memory_size b = 0x800000" using owns_init [OF _ f] by (auto simp: PAGE_SHIFT_def)
  let ?s0 = "heap_start (blank_paging b)"
  have own: "owns (frames (hpages ?s0)) {} {1024 ..< 2048}" using b(1) by (simp add: blank_paging_def heap_start_def)
  have U: "{1024 ..< 2048} \<subseteq> {0 <..< 2 ^ 20 :: nat}" by auto
  have "page_region 0xD0000 0xD0000 = {}" by (auto simp: page_region_def)
  then have "backed (hpages ?s0) 0xD0000 0xD0000 0xF0000" unfolding backed_def using own U blank_paging_wf lookup_blank
    by (auto simp: heap_start_def page_frames_def covered_def pg_present_def intro!: exI [of _ "{}"] exI [of _ "{1024 ..< 2048}"])
  from heap_init_ok [OF this own U] obtain s where
    s: "heap_init (\<lambda>t. of_nat t * 4096) ?s0 = Some s" "heap_inv s [HEAP_BASE, HEAP_BASE + HEAP_INIT_SIZE] [HEAP_BASE]" "pages_ok s" "honline s"
    by (auto simp: heap_start_def)
  have sh: "heap_shape s ([] @ HEAP_BASE # (HEAP_BASE + HEAP_INIT_SIZE) # [])" "list_ok s [HEAP_BASE]" "\<not> hused s HEAP_BASE"
    using s(2) by (auto simp: heap_inv_def)
  have "hsize s HEAP_BASE = HEAP_INIT_SIZE" using shape_tag(1) [OF sh(1)] by (simp add: tag_def)
  then have bf: "block_fits s (block_size 100) True HEAP_BASE"
    by (simp add: block_fits_def align_offset_def align_addr_def block_size_def HEAP_BASE_def HDR_def FTR_def MIN_BLOCK_SIZE_def HEAP_INIT_SIZE_def)
  moreover have "used_blocks s [HEAP_BASE, HEAP_BASE + HEAP_INIT_SIZE] = {}" using sh(3) by (simp add: used_blocks_def)
  then have "heap_ok s {}" unfolding heap_ok_def using s(2,3) by blast
  moreover have "memory_size (frames (hpages ?s0)) = 0x800000" using b(2) by (simp add: blank_paging_def heap_start_def)
  ultimately show ?thesis using s(1,4) find_fit_eq [OF sh(2)] by (intro exI [of _ ?s0] exI [of _ s]) simp
qed

lemma heap_allocated:
  "\<exists>s p s' z. heap_ok s {} \<and> heap_alloc (\<lambda>t. of_nat t * 4096) 100 True s = Some (p, s') \<and> heap_ok s' {(p - HDR, z)} \<and> honline s"
proof -
  obtain s where s: "heap_ok s {}" "find_fit s (block_size 100) True (hnext s free_blocks) = Some HEAP_BASE" "honline s" using heap_example by blast
  have "HEAP_BASE \<noteq> free_blocks" by (simp add: HEAP_BASE_def free_blocks_def)
  then have "find_fit s (block_size 100) True (hnext s free_blocks) \<noteq> Some free_blocks" using s(2) by simp
  then show ?thesis using heap_alloc_ok [OF s(1), of 100 True "\<lambda>t. of_nat t * 4096"] s(1,3) by auto
qed

end
