(* ===== verification/HeapFree.thy ===== *)
theory HeapFree
  imports HeapCorrect
begin

text \<open>
  Correctness of \<open>free\<close> on the kernel heap: merging with the free neighbours, giving the end of the heap back, and putting
  what is left into the free list.
\<close>

section \<open>Joining two blocks\<close>

text \<open>\<open>s'\<close> has the tags of \<open>s\<close> with the block \<open>m\<close> made part of the block \<open>a\<close> that precedes it.\<close>

definition joined :: "u32 \<Rightarrow> u32 \<Rightarrow> u32 \<Rightarrow> heap \<Rightarrow> heap \<Rightarrow> bool" where
  "joined a m b s s' \<longleftrightarrow> (\<forall>x. x \<noteq> m \<longrightarrow> hmagic s' x = hmagic s x) \<and> hsize s' = (hsize s)(a := hsize s a + hsize s m) \<and> hused s' = hused s \<and>
     (\<forall>x. x \<noteq> m - FTR \<longrightarrow> fmagic s' x = fmagic s x \<and> fheader s' x = ((fheader s)(b - FTR := a)) x) \<and> heap_end s' = heap_end s"

lemma join_shape:
  assumes sh: "heap_shape s (xs @ a # m # b # ys)" and j: "joined a m b s s'"
  shows "heap_shape s' (xs @ a # b # ys)"
proof -
  note t = shape_tag [OF sh] and o = split_order [OF shape_order(1) [OF sh]]
  have sh2: "heap_shape s ((xs @ [a]) @ m # b # ys)" using sh by simp
  note t2 = shape_tag [OF sh2] and o2 = split_order [OF shape_order(1) [OF sh2]]
  have "hsize s a + hsize s m = b - a" using t(1) t2(1) by (simp add: tag_def)
  moreover have "a \<noteq> m" "b - FTR \<noteq> m - FTR" "unat a + 36 \<le> unat b" using t(4) t2(4) by auto
  ultimately have "tagged s' (a # [] @ [b])" using j t(1) t2(1) by (simp add: joined_def tag_def)
  moreover have "\<forall>x \<in> set xs \<union> set (butlast (b # ys)). hmagic s' x = hmagic s x \<and> hsize s' x = hsize s x"
  proof
    fix x assume "x \<in> set xs \<union> set (butlast (b # ys))"
    then have "x \<in> set xs \<union> set (b # ys)" by (blast dest: in_set_butlastD)
    then have "x \<noteq> m" "x \<noteq> a" using o o2 by force+
    then show "hmagic s' x = hmagic s x \<and> hsize s' x = hsize s x" using j by (simp add: joined_def)
  qed
  moreover have "\<forall>c \<in> set (tl (xs @ [a])) \<union> set ys. fmagic s' (c - FTR) = fmagic s (c - FTR) \<and> fheader s' (c - FTR) = fheader s (c - FTR)"
  proof
    fix c assume "c \<in> set (tl (xs @ [a])) \<union> set ys"
    then have "c \<in> set (xs @ [a]) \<union> set ys" by (cases xs) auto
    then have "c \<noteq> m" "c \<noteq> b" using o o2 by force+
    then show "fmagic s' (c - FTR) = fmagic s (c - FTR) \<and> fheader s' (c - FTR) = fheader s (c - FTR)" using j by (simp add: joined_def)
  qed
  moreover have "heap_end s' = heap_end s" using j by (simp add: joined_def)
  ultimately show ?thesis using shape_replace [of s xs a "[m]" b ys s' "[]"] sh by simp
qed

text \<open>One of the two blocks is free and leaves the list, the other one is being freed.\<close>

lemma join_but:
  assumes but: "heap_but s (xs @ a # m # b # ys) fs h" and j: "joined a m b s s'" and ho: "(h, g) = (a, m) \<or> (h, g) = (m, a)"
    and g: "\<not> hused s g" and l: "hnext s' = hnext (hdr_remove g s)" "hprev s' = hprev (hdr_remove g s)"
  shows "heap_but s' (xs @ a # b # ys) (remove1 g fs) a" "used_but s' (xs @ a # b # ys) a = used_but s (xs @ a # m # b # ys) h"
proof -
  let ?L = "xs @ a # m # b # ys" and ?L' = "xs @ a # b # ys"
  have sh: "heap_shape s ?L" and lo: "list_ok s fs" and fs: "set fs = {x \<in> set (butlast ?L). \<not> hused s x} - {h}"
    using but by (simp_all add: heap_but_def)
  have d: "distinct ?L" by (rule shape_order(2) [OF sh])
  have B: "butlast ?L = xs @ a # m # butlast (b # ys)" "butlast ?L' = xs @ a # butlast (b # ys)" by (simp_all add: butlast_append)
  have nm: "a \<notin> set xs" "m \<notin> set xs" "a \<noteq> m" "a \<notin> set (butlast (b # ys))" "m \<notin> set (butlast (b # ys))"
    using d by (auto dest: in_set_butlastD)
  have gf: "g \<in> set fs" unfolding fs B using ho g nm by auto
  note rm = hdr_remove_ok [OF lo gf] and r = relinked_fields [OF relinked_ops(2) [of s g]]
  have js: "hsize s' = (hsize s)(a := hsize s a + hsize s m)" "hused s' = hused s" "\<And>x. x \<noteq> m \<Longrightarrow> hmagic s' x = hmagic s x"
    using j by (simp_all add: joined_def)
  have out: "z \<noteq> a \<and> z \<noteq> m" if "z \<in> set (remove1 g fs)" for z using that ho unfolding rm(2) fs by auto
  have "list_ok s' (remove1 g fs)"
    by (rule list_ok_cong [OF rm(1) l]) (use out in \<open>simp add: js r\<close>)
  moreover have "set (remove1 g fs) = {x \<in> set (butlast ?L'). \<not> hused s' x} - {a}" unfolding rm(2) fs B js using ho nm by auto
  ultimately show "heap_but s' ?L' (remove1 g fs) a" unfolding heap_but_def using join_shape [OF sh j] by (simp add: B)
  have "{x \<in> set (butlast ?L'). hused s' x \<and> x \<noteq> a} = {x \<in> set (butlast ?L). hused s x \<and> x \<noteq> h}"
    unfolding B js using ho g nm by auto
  then show "used_but s' ?L' a = used_but s ?L h"
    unfolding used_but_def by (rule sized_cong) (use ho g nm in \<open>auto simp: js B\<close>)
qed

section \<open>The steps of freeing\<close>

text \<open>The block \<open>h\<close> is being freed: it is not in the free list, its footer at \<open>f\<close> may still name another header, and the other
  blocks in use are \<open>B\<close>.\<close>

definition freeing :: "heap \<Rightarrow> u32 \<Rightarrow> u32 \<Rightarrow> (u32 \<times> u32) set \<Rightarrow> bool" where
  "freeing s h f B \<longleftrightarrow> pages_ok s \<and> (\<exists>xs b ys fs. f = b - FTR \<and> heap_but (set_fheader f h s) (xs @ h # b # ys) fs h \<and>
     used_but (set_fheader f h s) (xs @ h # b # ys) h = B)"

lemma set_fheader_fields [simp]:
  "hmagic (set_fheader f h s) = hmagic s" "hsize (set_fheader f h s) = hsize s" "hused (set_fheader f h s) = hused s"
  "fmagic (set_fheader f h s) = fmagic s" "fheader (set_fheader f h s) = (fheader s)(f := h)" "heap_end (set_fheader f h s) = heap_end s"
  "hnext (set_fheader f h s) = hnext s" "hprev (set_fheader f h s) = hprev s" "hpages (set_fheader f h s) = hpages s"
  by (simp_all add: set_fheader_def)

lemma set_fheader_same: "fheader s f = h \<Longrightarrow> set_fheader f h s = s"
  by (simp add: set_fheader_def fun_upd_idem)

lemma free_start:
  assumes inv: "heap_inv s L fs" and h: "(h, z) \<in> used_blocks s L" and pg: "pages_ok s"
  shows "freeing s h (h + hsize s h - FTR) (used_blocks s L - {(h, z)})"
    "hmagic s h = HEAP_HEADER_MAGIC" "fmagic s (h + hsize s h - FTR) = HEAP_FOOTER_MAGIC" "fheader s (h + hsize s h - FTR) = h" "hused s h"
proof -
  have sh: "heap_shape s L" and hb: "h \<in> set (butlast L)" and u: "hused s h" and z: "z = hsize s h" using inv h by (auto simp: heap_inv_def used_blocks_def)
  obtain xs b ys where L: "L = xs @ h # b # ys" using block_split [OF hb] by blast
  note t = shape_tag [OF sh [unfolded L]]
  show f: "hmagic s h = HEAP_HEADER_MAGIC" "fmagic s (h + hsize s h - FTR) = HEAP_FOOTER_MAGIC" "fheader s (h + hsize s h - FTR) = h" "hused s h"
    using t u by (simp_all add: tag_def)
  have "heap_but s L fs h" using inv hb u by (auto simp: heap_inv_def heap_but_def)
  moreover have "used_but s L h = used_blocks s L - {(h, z)}" unfolding used_but_def used_blocks_def z by auto
  ultimately show "freeing s h (h + hsize s h - FTR) (used_blocks s L - {(h, z)})"
    unfolding freeing_def set_fheader_same [OF f(3)] using pg t(3) L by metis
qed

lemma free_linked:
  assumes "list_ok s fs" "free_blocks \<notin> set fs" "x \<in> set fs" "0 \<notin> set fs"
  shows "hprev s x \<noteq> 0"
proof -
  obtain as bs where f: "fs = as @ x # bs" using assms(3) by (meson split_list)
  have "dring (hnext s) (hprev s) free_blocks (as @ x # bs)" using assms(1) by (simp add: list_ok_def f)
  from dring_prev [OF this] have "hprev s x = last (free_blocks # as)" by simp
  moreover have "last (free_blocks # as) \<in> insert free_blocks (set as)" by (metis last_in_set list.distinct(1) list.simps(15))
  moreover have "0 \<notin> set as" "free_blocks \<noteq> 0" using assms(4) f by (auto simp: free_blocks_def)
  ultimately show ?thesis by auto
qed

lemma block_nonzero:
  assumes "heap_but s L fs h"
  shows "free_blocks \<notin> set fs" "0 \<notin> set fs"
proof -
  have sub: "set fs \<subseteq> set L" "heap_shape s L" using assms by (auto simp: heap_but_def dest: in_set_butlastD)
  show "free_blocks \<notin> set fs" using sub shape_order(4) by blast
  have "unat HEAP_BASE \<le> unat x" if "x \<in> set fs" for x using sub shape_order(3) that by blast
  then show "0 \<notin> set fs" by (force simp: HEAP_BASE_def)
qed

lemma merge_right_ok:
  assumes "freeing s h f B"
  shows "\<exists>f' s'. merge_right h f s = (f', s') \<and> freeing s' h f' B"
proof -
  obtain xs b ys fs where f: "f = b - FTR" and but: "heap_but (set_fheader f h s) (xs @ h # b # ys) fs h"
    and B: "used_but (set_fheader f h s) (xs @ h # b # ys) h = B" and pg: "pages_ok s" using assms unfolding freeing_def by blast
  let ?t = "set_fheader f h s"
  have sh: "heap_shape ?t (xs @ h # b # ys)" and lo: "list_ok ?t fs" and fs: "set fs = {a \<in> set (butlast (xs @ h # b # ys)). \<not> hused s a} - {h}"
    using but by (simp_all add: heap_but_def)
  have right: "h + hsize s h = b" using shape_tag(3) [OF sh] by simp
  show ?thesis
  proof (cases "b < heap_end s \<and> \<not> hused s b")
    case False
    then have "merge_right h f s = (f, s)" by (auto simp: merge_right_def Let_def right)
    then show ?thesis using assms by blast
  next
    case True
    have "last (b # ys) = heap_end s" using sh by (simp add: heap_shape_def)
    then obtain c zs where ys: "ys = c # zs" using True by (cases ys) auto
    have sh2: "heap_shape ?t ((xs @ [h]) @ b # c # zs)" using sh by (simp add: ys)
    note t = shape_tag [OF sh2] and o = shape_tag(4) [OF sh]
    have ne: "c - FTR \<noteq> f" "b \<noteq> h" using t(4) o unfolding f by auto
    have tb: "hmagic s b = HEAP_HEADER_MAGIC" "b + hsize s b = c" "fmagic s (c - FTR) = HEAP_FOOTER_MAGIC" "fheader s (c - FTR) = b"
      using t(1,3) ne by (auto simp: tag_def)
    have "b \<in> set fs" unfolding fs ys using True ne by (simp add: butlast_append)
    then have "hprev s b \<noteq> 0" using free_linked [OF lo block_nonzero(1) [OF but] _ block_nonzero(2) [OF but]] by simp
    define s' where "s' = (let s1 = hdr_remove b (set_size h (hsize s h + hsize s b) s) in s1\<lparr>hmagic := (hmagic s1)(b := HEAP_HEADER_RM_MAGIC)\<rparr>)"
    have m: "merge_right h f s = (c - FTR, s')"
      using True \<open>hprev s b \<noteq> 0\<close> by (simp add: merge_right_def Let_def right tb s'_def)
    let ?t' = "set_fheader (c - FTR) h s'"
    have j: "joined h b c ?t ?t'"
      by (auto simp: joined_def s'_def Let_def remove_fields set_size_def f)
    have l: "hnext ?t' = hnext (hdr_remove b ?t)" "hprev ?t' = hprev (hdr_remove b ?t)"
      by (simp_all add: s'_def Let_def hdr_remove_def set_size_def)
    note jb = join_but [OF but [unfolded ys] j _ _ l]
    have "heap_but ?t' (xs @ h # c # zs) (remove1 b fs) h" "used_but ?t' (xs @ h # c # zs) h = B"
      using jb True B ys by simp_all
    moreover have "pages_ok s'" using pg by (simp add: pages_ok_def s'_def Let_def remove_fields set_size_def)
    ultimately show ?thesis unfolding m freeing_def by blast
  qed
qed

lemma merge_left_ok:
  assumes "freeing s h f B"
  shows "\<exists>h' s'. merge_left h s = (h', s') \<and> freeing s' h' f B"
proof -
  obtain xs b ys fs where f: "f = b - FTR" and but: "heap_but (set_fheader f h s) (xs @ h # b # ys) fs h"
    and B: "used_but (set_fheader f h s) (xs @ h # b # ys) h = B" and pg: "pages_ok s" using assms unfolding freeing_def by blast
  let ?t = "set_fheader f h s"
  have sh: "heap_shape ?t (xs @ h # b # ys)" and lo: "list_ok ?t fs" and fs: "set fs = {a \<in> set (butlast (xs @ h # b # ys)). \<not> hused s a} - {h}"
    using but by (simp_all add: heap_but_def)
  have ob: "unat h + 36 \<le> unat b" by (rule shape_tag(4) [OF sh])
  show ?thesis
  proof (cases xs rule: rev_cases)
    case Nil
    then have "h = HEAP_BASE" using sh by (simp add: heap_shape_def)
    then have "merge_left h s = (h, s)" by (simp add: merge_left_def Let_def HEAP_BASE_def HDR_def FTR_def MIN_BLOCK_SIZE_def)
    then show ?thesis using assms by blast
  next
    case (snoc ws a)
    have sh2: "heap_shape ?t (ws @ a # h # b # ys)" using sh by (simp add: snoc)
    note t = shape_tag [OF sh2]
    have ne: "h - FTR \<noteq> f" "a \<noteq> h" using t(4) ob unfolding f by auto
    have ta: "hmagic s a = HEAP_HEADER_MAGIC" "a + hsize s a = h" "fmagic s (h - FTR) = HEAP_FOOTER_MAGIC" "fheader s (h - FTR) = a"
      using t(1,3) ne by (auto simp: tag_def)
    show ?thesis
    proof (cases "hused s a")
      case True
      then have "merge_left h s = (h, s)" by (simp add: merge_left_def Let_def ta)
      then show ?thesis using assms by blast
    next
      case False
      have "unat HEAP_BASE \<le> unat a" using shape_order(3) [OF sh2] by simp
      then have ge: "HEAP_BASE + HDR + FTR + MIN_BLOCK_SIZE \<le> h"
        using t(4) by (simp add: word_le_nat_alt HEAP_BASE_def HDR_def FTR_def MIN_BLOCK_SIZE_def)
      have "a \<in> set fs" unfolding fs snoc using False ne by (simp add: butlast_append)
      then have "hprev s a \<noteq> 0" using free_linked [OF lo block_nonzero(1) [OF but] _ block_nonzero(2) [OF but]] by simp
      define s' where "s' = (let s1 = hdr_remove a s; s2 = set_size a (hsize s1 a + hsize s1 h) s1
        in s2\<lparr>fmagic := (fmagic s2)(h - FTR := HEAP_FOOTER_RM_MAGIC)\<rparr>)"
      have m: "merge_left h s = (a, s')" using False \<open>hprev s a \<noteq> 0\<close> ge by (simp add: merge_left_def Let_def ta s'_def)
      let ?t' = "set_fheader f a s'"
      have j: "joined a h b ?t ?t'" by (auto simp: joined_def s'_def Let_def remove_fields set_size_def f)
      have l: "hnext ?t' = hnext (hdr_remove a ?t)" "hprev ?t' = hprev (hdr_remove a ?t)"
        by (simp_all add: s'_def Let_def hdr_remove_def set_size_def)
      have but2: "heap_but ?t (ws @ a # h # b # ys) fs h" using but by (simp add: snoc)
      have "heap_but ?t' (ws @ a # b # ys) (remove1 a fs) a" "used_but ?t' (ws @ a # b # ys) a = B"
        using join_but [OF but2 j _ _ l] False B snoc by simp_all
      moreover have "pages_ok s'" using pg by (simp add: pages_ok_def s'_def Let_def remove_fields set_size_def)
      ultimately show ?thesis unfolding m freeing_def f by blast
    qed
  qed
qed

lemma insert_freed:
  assumes "freeing s h f B"
  shows "\<exists>s'. insert_list free_blocks h (set_used h False (set_fheader f h s)) = Some s' \<and> heap_ok s' B"
proof -
  let ?t = "set_fheader f h s" and ?u = "set_used h False (set_fheader f h s)"
  obtain L fs where but: "heap_but ?t L fs h" and B: "used_but ?t L h = B" and pg: "pages_ok s" using assms unfolding freeing_def by blast
  have h: "h \<in> set (butlast L)" "heap_shape ?t L" "list_ok ?t fs" "set fs = {a \<in> set (butlast L). \<not> hused s a} - {h}"
    using but by (auto simp: heap_but_def)
  have u: "hused ?u = (hused s)(h := False)" "hsize ?u = hsize s" "hmagic ?u = hmagic s" by (simp_all add: set_used_def)
  have lo: "list_ok ?u fs" using h(4) by (intro list_ok_cong [OF h(3)]) (auto simp: set_used_def)
  have "tagged ?t L" using h(2) by (simp add: heap_shape_def)
  then have "tagged ?u L" by (rule tagged_cong) (simp_all add: set_used_def)
  then have sh: "heap_shape ?u L" using h(2) by (simp add: heap_shape_def set_used_def)
  have "h \<notin> insert free_blocks (set fs)" using h(4) shape_not_list [OF h(2,1)] by blast
  from insert_list_ok [OF lo this _ shape_magic [OF sh h(1)]] obtain s' fs' where
    i: "insert_list free_blocks h ?u = Some s'" "relinked ?u s'" "list_ok s' fs'" "set fs' = insert h (set fs)" using u by auto
  note r = relinked_fields [OF i(2)]
  have "set fs' = {a \<in> set (butlast L). \<not> hused s' a}" unfolding i(4) r u h(4) using h(1) by auto
  then have "heap_inv s' L fs'" unfolding heap_inv_def using shape_relinked [OF i(2) sh] i(3) by blast
  moreover have "used_blocks s' L = B" unfolding B [symmetric] used_blocks_def used_but_def r u by (intro sized_cong) auto
  moreover have "pages_ok s'" using pg by (simp add: pages_ok_def r) (simp add: set_used_def)
  ultimately show ?thesis using i(1) unfolding heap_ok_def by blast
qed

section \<open>Giving the end of the heap back\<close>

lemma srel_ok:
  assumes "pages_ok s" "unat (heap_end s) mod 4096 = 0" "heap_end s - dec = e'" "unat e' mod 4096 = 0"
    and "0xD0000000 \<le> unat e'" "e' \<le> heap_end s"
  shows "\<exists>pg. srel dec s = Some (s\<lparr>heap_end := e', hpages := pg\<rparr>) \<and> pages_ok (s\<lparr>heap_end := e', hpages := pg\<rparr>)"
proof -
  obtain k k' where k: "unat (heap_end s) = k * 4096" "unat e' = k' * 4096"
    using assms(2,4) by (metis dvd_def mod_0_imp_dvd mult.commute)
  have d: "unat (heap_end s) div 4096 = k" using k by simp
  have le: "0xD0000 \<le> k'" "k' \<le> k" using assms(5,6) k by (simp_all add: word_le_nat_alt)
  have "unat e' + 4095 < 2 ^ 32" using unat_u32_lt [of e'] k(2) by simp
  then have "unat (align_addr e') = unat e'" unfolding align_addr_unat [OF \<open>unat e' + 4095 < 2 ^ 32\<close>] using k(2) by simp
  then have a: "align_addr e' = e'" by (rule word_unat_eq_iff [THEN iffD2])
  from backed_shrink [OF assms(1) [unfolded pages_ok_def d] le k] obtain pg where
    "srel_loop (page_addrs e' (heap_end s)) (hpages s) = Some pg" "backed pg 0xD0000 k' 0xF0000" by blast
  then show ?thesis using k(2) by (intro exI [of _ pg]) (simp add: srel_def assms(3) a pages_ok_def)
qed

lemma release_start_bounds:
  assumes "unat h + 20 + 4095 + 4096 < 2 ^ 32"
  shows "unat h + 36 \<le> unat (release_start h)" "unat (release_start h) \<le> unat h + 8211" "unat (release_start h) mod 4096 = 0"
proof -
  have b: "unat h + 20 + 4095 < 2 ^ 32" using assms by simp
  note o = align_offset_bounds [OF b]
  let ?x = "h + align_offset h + HDR"
  have x: "unat ?x = unat h + unat (align_offset h) + 20"
    using o(1,3) assms by (subst unat_add_lt) (simp_all add: HDR_def)
  have r: "release_start h = ?x + (if align_offset h < MIN_BLOCK_SIZE + FTR then 0x1000 else 0)"
    by (simp add: release_start_def align_offset_def Let_def)
  have "unat ?x + 4096 < 2 ^ 32" using x o(1) assms by simp
  then have u: "unat (release_start h) = unat ?x + (if unat (align_offset h) < 16 then 4096 else 0)"
    unfolding r by (auto simp: unat_add_lt word_less_nat_alt MIN_BLOCK_SIZE_def FTR_def)
  show "unat h + 36 \<le> unat (release_start h)" "unat (release_start h) \<le> unat h + 8211" using u x o(1) by auto
  show "unat (release_start h) mod 4096 = 0" unfolding u using o(2) by simp
qed

lemma cut_end:
  assumes but: "heap_but t (xs @ [h, e]) fs h" and r: "unat h + 36 \<le> unat r" "unat r mod 4096 = 0" "unat r \<le> unat e"
    and s': "hmagic s' = hmagic t" "hsize s' = (hsize t)(h := r - h)" "hused s' = hused t" "hnext s' = hnext t" "hprev s' = hprev t"
      "fmagic s' (r - FTR) = HEAP_FOOTER_MAGIC" "fheader s' (r - FTR) = h" "heap_end s' = r"
      "\<And>c. c \<noteq> r \<Longrightarrow> c \<noteq> e \<Longrightarrow> fmagic s' (c - FTR) = fmagic t (c - FTR) \<and> fheader s' (c - FTR) = fheader t (c - FTR)"
  shows "heap_but s' (xs @ [h, r]) fs h" "used_but s' (xs @ [h, r]) h = used_but t (xs @ [h, e]) h"
proof -
  have h: "heap_shape t (xs @ [h, e])" "list_ok t fs" "set fs = {a \<in> set (butlast (xs @ [h, e])). \<not> hused t a} - {h}"
    using but by (auto simp: heap_but_def)
  note o = split_order [OF shape_order(1) [OF h(1)]]
  have B: "butlast (xs @ [h, e]) = xs @ [h]" "butlast (xs @ [h, r]) = xs @ [h]" by (simp_all add: butlast_append)
  have nh: "h \<notin> set xs" using o(1) by auto
  have "tagged s' (h # [] @ [r])" using s' r(1) shape_tag(1) [OF h(1)] by (simp add: tag_def)
  then have "heap_shape s' (xs @ h # [] @ [r])"
  proof (rule shape_end [OF h(1)])
    show "\<forall>a \<in> set xs. hmagic s' a = hmagic t a \<and> hsize s' a = hsize t a" using nh by (auto simp: s'(1,2))
    show "\<forall>c \<in> set (tl (xs @ [h])). fmagic s' (c - FTR) = fmagic t (c - FTR) \<and> fheader s' (c - FTR) = fheader t (c - FTR)"
    proof
      fix c assume "c \<in> set (tl (xs @ [h]))"
      then have "c \<in> set (xs @ [h])" by (cases xs) auto
      then have "unat c \<le> unat h" using o(1) by auto
      then have "c \<noteq> r" "c \<noteq> e" using r(1) o(3) by auto
      then show "fmagic s' (c - FTR) = fmagic t (c - FTR) \<and> fheader s' (c - FTR) = fheader t (c - FTR)" by (rule s'(9))
    qed
  qed (simp_all add: s' r)
  moreover have "list_ok s' fs" using h(3) by (intro list_ok_cong [OF h(2)]) (auto simp: s')
  ultimately show "heap_but s' (xs @ [h, r]) fs h" using h(3) unfolding heap_but_def B s'(3) by simp
  show "used_but s' (xs @ [h, r]) h = used_but t (xs @ [h, e]) h"
    unfolding used_but_def B s'(2,3) by (intro sized_cong) auto
qed

lemma drop_end:
  assumes but: "heap_but t (xs @ [h, e]) fs h" and x: "xs \<noteq> []" "unat h mod 4096 = 0"
    and s': "hmagic s' = hmagic t" "hsize s' = hsize t" "hused s' = hused t" "hnext s' = hnext t" "hprev s' = hprev t" "heap_end s' = h"
      "\<And>c. c \<noteq> e \<Longrightarrow> fmagic s' (c - FTR) = fmagic t (c - FTR) \<and> fheader s' (c - FTR) = fheader t (c - FTR)"
  shows "heap_inv s' (xs @ [h]) fs" "used_blocks s' (xs @ [h]) = used_but t (xs @ [h, e]) h"
proof -
  have h: "heap_shape t (xs @ [h, e])" "list_ok t fs" "set fs = {a \<in> set (butlast (xs @ [h, e])). \<not> hused t a} - {h}"
    using but by (auto simp: heap_but_def)
  note o = split_order [OF shape_order(1) [OF h(1)]]
  have B: "butlast (xs @ [h, e]) = xs @ [h]" by (simp add: butlast_append)
  have nh: "h \<notin> set xs" using o(1) by auto
  have "tagged t (xs @ [h])" using h(1) tagged_append [of t xs h "[e]"] by (simp add: heap_shape_def)
  then have "tagged s' (xs @ [h])"
  proof (rule tagged_cong)
    show "\<forall>c \<in> set (tl (xs @ [h])). fmagic s' (c - FTR) = fmagic t (c - FTR) \<and> fheader s' (c - FTR) = fheader t (c - FTR)"
    proof
      fix c assume "c \<in> set (tl (xs @ [h]))"
      then have "c \<in> set (xs @ [h])" by (cases xs) auto
      then have "c \<noteq> e" using o(1,3) by auto
      then show "fmagic s' (c - FTR) = fmagic t (c - FTR) \<and> fheader s' (c - FTR) = fheader t (c - FTR)" by (rule s'(7))
    qed
  qed (simp add: s')
  moreover have "hd (xs @ [h]) = HEAP_BASE" using h(1) x(1) by (simp add: heap_shape_def)
  ultimately have "heap_shape s' (xs @ [h])" unfolding heap_shape_def using x s'(6) by (cases xs) simp_all
  moreover have "list_ok s' fs" by (intro list_ok_cong [OF h(2)]) (simp_all add: s')
  ultimately show "heap_inv s' (xs @ [h]) fs" using h(3) nh unfolding heap_inv_def B s'(3) by auto
  show "used_blocks s' (xs @ [h]) = used_but t (xs @ [h, e]) h"
    unfolding used_blocks_def used_but_def B s'(2,3) using nh by (intro sized_cong) auto
qed

lemma shrink_ok:
  assumes fr: "freeing s h f B"
  shows "\<exists>r s'. shrink h f s = Some (r, s') \<and> (case r of None \<Rightarrow> heap_ok s' B | Some f' \<Rightarrow> freeing s' h f' B)"
proof (cases "heap_end s = f + FTR \<and> MIN_SREL_SIZE \<le> hsize s h \<and> HEAP_BASE + HEAP_INIT_SIZE < h")
  case False
  then have "shrink h f s = Some (Some f, s)" unfolding shrink_def by (rule if_not_P)
  then show ?thesis using fr by simp
next
  case c: True
  obtain xs b ys fs where f: "f = b - FTR" and but0: "heap_but (set_fheader f h s) (xs @ h # b # ys) fs h"
    and B0: "used_but (set_fheader f h s) (xs @ h # b # ys) h = B" and pg: "pages_ok s" using fr unfolding freeing_def by blast
  let ?t = "set_fheader f h s" and ?e = "heap_end s"
  have sh0: "heap_shape ?t (xs @ h # b # ys)" using but0 by (simp add: heap_but_def)
  have be: "b = ?e" using c f by simp
  have "ys = []"
  proof (rule ccontr)
    assume "ys \<noteq> []"
    then have "?e \<in> set ys" using sh0 last_in_set [of ys] by (simp add: heap_shape_def)
    then show False using split_order(2) [OF shape_order(1) [OF sh0]] be by auto
  qed
  then have but: "heap_but ?t (xs @ [h, ?e]) fs h" and B: "used_but ?t (xs @ [h, ?e]) h = B" using but0 B0 be by simp_all
  have sh: "heap_shape ?t (xs @ h # ?e # [])" using but by (simp add: heap_but_def)
  have hb: "h \<in> set (butlast (xs @ h # ?e # []))" by (simp add: butlast_append)
  note bb = block_bounds [OF sh hb] and t = shape_tag [OF sh]
  have al: "unat ?e mod 4096 = 0" using sh by (simp add: heap_shape_def)
  have sz: "unat ?e = unat h + unat (hsize s h)" "0x100000 \<le> unat (hsize s h)" "unat HEAP_BASE \<le> unat h"
    using t(2,4) c bb(1) by (simp_all add: word_le_nat_alt MIN_SREL_SIZE_def)
  have hn: "h + hsize s h = ?e" using t(3) by simp
  show ?thesis
  proof (cases "h AND 0xFFF = 0")
    case True
    then have hm: "unat h mod 4096 = 0" by (simp add: low_zero_iff)
    have "?e - hsize s h = h" using hn by (metis add_diff_cancel)
    from srel_ok [OF pg al this hm] sz obtain p where
      p: "srel (hsize s h) s = Some (s\<lparr>heap_end := h, hpages := p\<rparr>)" "pages_ok (s\<lparr>heap_end := h, hpages := p\<rparr>)"
      by (auto simp: HEAP_BASE_def word_le_nat_alt)
    let ?s = "s\<lparr>heap_end := h, hpages := p\<rparr>"
    have "xs \<noteq> []" using sh c by (auto simp: heap_shape_def HEAP_BASE_def HEAP_INIT_SIZE_def)
    from drop_end [OF but this hm, of ?s] have "heap_inv ?s (xs @ [h]) fs" "used_blocks ?s (xs @ [h]) = B"
      unfolding B by (auto simp: f be)
    then have "heap_ok ?s B" unfolding heap_ok_def using p(2) by blast
    moreover have "shrink h f s = Some (None, ?s)" using c True p(1) by (simp add: shrink_def)
    ultimately show ?thesis by (intro exI [of _ None] exI [of _ ?s]) simp
  next
    case False
    let ?r = "release_start h"
    have "unat h + 20 + 4095 + 4096 < 2 ^ 32" using sz bb(4) by simp
    note r = release_start_bounds [OF this]
    have le: "unat ?r \<le> unat ?e" using r(2) sz by simp
    show ?thesis
    proof (cases "MIN_SREL_SIZE \<le> ?e - ?r")
      case ge: True
      have "?e - (?e - ?r) = ?r" by simp
      from srel_ok [OF pg al this r(3)] r(1) sz(3) le obtain p where
        p: "srel (?e - ?r) s = Some (s\<lparr>heap_end := ?r, hpages := p\<rparr>)" "pages_ok (s\<lparr>heap_end := ?r, hpages := p\<rparr>)"
        by (auto simp: HEAP_BASE_def word_le_nat_alt)
      define s' where "s' = write_footer (?r - FTR) h (set_size h (?r - h) (s\<lparr>heap_end := ?r, hpages := p\<rparr>))"
      have sk: "shrink h f s = Some (Some (?r - FTR), s')" using c False ge p(1) by (simp add: shrink_def Let_def s'_def)
      let ?t' = "set_fheader (?r - FTR) h s'"
      note ce = cut_end [OF but r(1,3) le, of ?t']
      have "heap_but ?t' (xs @ [h, ?r]) fs h" "used_but ?t' (xs @ [h, ?r]) h = B"
        using ce unfolding B by (auto simp: s'_def write_footer_def set_size_def f be)
      moreover have "pages_ok s'" using p(2) by (simp add: s'_def pages_ok_def write_footer_def set_size_def)
      ultimately have "freeing s' h (?r - FTR) B" unfolding freeing_def by blast
      then show ?thesis using sk by (intro exI [of _ "Some (?r - FTR)"] exI [of _ s']) simp
    next
      case False2: False
      then have "shrink h f s = Some (Some f, s)" using c False by (simp add: shrink_def Let_def)
      then show ?thesis using fr by (intro exI [of _ "Some f"] exI [of _ s]) simp
    qed
  qed
qed

section \<open>Freeing\<close>

text \<open>Freeing the data of a block in use, on a well-formed heap, succeeds: exactly that block leaves the set of blocks in
  use, every other one keeps its address and size, and the heap stays well-formed, whatever the free neighbours it is merged with and
  whether or not the end of the heap is given back to the frame allocator.\<close>

lemma heap_free_ok:
  assumes "heap_ok s B" "(h, z) \<in> B"
  shows "\<exists>s'. heap_free (h + HDR) s = Some s' \<and> heap_ok s' (B - {(h, z)})"
proof -
  obtain L fs where inv: "heap_inv s L fs" and B: "B = used_blocks s L" and pg: "pages_ok s" using assms(1) by (auto simp: heap_ok_def)
  let ?f = "h + hsize s h - FTR"
  note st = free_start [OF inv assms(2) [unfolded B] pg]
  obtain f1 s1 where r: "merge_right h ?f s = (f1, s1)" "freeing s1 h f1 (B - {(h, z)})" using merge_right_ok [OF st(1)] B by blast
  obtain h2 s2 where l: "merge_left h s1 = (h2, s2)" "freeing s2 h2 f1 (B - {(h, z)})" using merge_left_ok [OF r(2)] by blast
  obtain q s3 where k: "shrink h2 f1 s2 = Some (q, s3)" "case q of None \<Rightarrow> heap_ok s3 (B - {(h, z)}) | Some f' \<Rightarrow> freeing s3 h2 f' (B - {(h, z)})"
    using shrink_ok [OF l(2)] by blast
  have sh: "heap_shape s L" "h \<in> set (butlast L)" using inv assms(2) by (auto simp: heap_inv_def B used_blocks_def)
  note bb = block_bounds [OF sh]
  have "unat (h + HDR) = unat h + 20" using bb by (subst unat_add_lt) (simp_all add: HDR_def)
  then have g: "\<not> (h + HDR < HEAP_BASE \<or> heap_end s \<le> h + HDR)" using bb by (simp add: word_less_nat_alt word_le_nat_alt)
  have e: "heap_free (h + HDR) s = (case q of None \<Rightarrow> Some s3 | Some f \<Rightarrow> insert_list free_blocks h2 (set_used h2 False (set_fheader f h2 s3)))"
    unfolding heap_free_def Let_def using g st(2-5) r(1) l(1) k(1) by simp
  show ?thesis
  proof (cases q)
    case None
    then show ?thesis using e k(2) by simp
  next
    case (Some f)
    then show ?thesis using e k(2) insert_freed [of s3 h2 f "B - {(h, z)}"] by simp
  qed
qed

end
