(* ===== verification/Kmalloc.thy ===== *)
theory Kmalloc
  imports HeapFree KString
begin

text \<open>
  The kernel's memory interface on top of the heap, of \<open>kernel/mem/memory.cpp\<close>: \<open>kmalloc\<close>, \<open>kfree\<close> and \<open>init\<close>. The
  contents of the memory are the bytes of theory \<open>KString\<close>; the tags of the heap are kept apart from them, in the record
  of theory \<open>Heap\<close>.
\<close>

section \<open>Definitions\<close>

record kernel_memory =
  kheap :: heap
  placement_addr :: u32
  kbytes :: machine

text \<open>\<open>want\<close> says that the argument \<open>phys_addr\<close> is not null; the value stored there is the second result. An assertion that
  fails is \<open>None\<close>.\<close>

definition heap_phys :: "u32 \<Rightarrow> heap \<Rightarrow> u32 option" where
  "heap_phys p h = map_option (\<lambda>(t, k). push_bit 12 (pg_addr (tabs (hpages h) t k)) + (p AND 0xFFF))
     (find_page (hpages h) KERNEL_DIR (drop_bit 12 p))"

definition kzero :: "u32 \<Rightarrow> u32 \<Rightarrow> machine \<Rightarrow> machine" where
  "kzero p sz m = snd (if sz AND 3 = 0 then memsetd p 0 (drop_bit 2 sz) m else memset p 0 sz m)"

definition kmalloc :: "(nat \<Rightarrow> u32) \<Rightarrow> u32 \<Rightarrow> u32 \<Rightarrow> bool \<Rightarrow> kernel_memory \<Rightarrow> (u32 \<times> u32 option \<times> kernel_memory) option" where
  "kmalloc phys_of sz flags want st = do {
     (p, phys, st1) \<leftarrow>
       (if honline (kheap st) then do {
          (p, h) \<leftarrow> heap_alloc phys_of sz (flags AND KMALLOC_ALIGN \<noteq> 0) (kheap st);
          phys \<leftarrow> (if want then map_option Some (heap_phys p h) else Some None);
          Some (p, phys, st\<lparr>kheap := h\<rparr>) }
        else let (p, phys, placement) = kmalloc_placement sz flags (placement_addr st)
             in Some (p, if want then Some phys else None, st\<lparr>placement_addr := placement\<rparr>));
     Some (p, phys, if flags AND KMALLOC_ZERO \<noteq> 0 then st1\<lparr>kbytes := kzero p sz (kbytes st1)\<rparr> else st1) }"

definition kfree :: "u32 \<Rightarrow> kernel_memory \<Rightarrow> kernel_memory option" where
  "kfree p st = (if honline (kheap st) then map_option (\<lambda>h. st\<lparr>kheap := h\<rparr>) (heap_free p (kheap st)) else Some st)"

text \<open>The start: too little memory panics, then paging and the heap. \<open>placement\<close> is the placement address once paging has made its
  lists, bitmaps and tables; it is not used any more when the heap is online.\<close>

definition memory_init :: "(nat \<Rightarrow> u32) \<Rightarrow> u32 \<Rightarrow> u32 \<Rightarrow> kernel_memory \<Rightarrow> kernel_memory option" where
  "memory_init phys_of placement mem_size st =
     (if mem_size < push_bit 25 1 then None
      else do {
        pg \<leftarrow> paging_init phys_of mem_size placement (hpages (kheap st));
        h \<leftarrow> heap_init phys_of ((kheap st)\<lparr>hpages := pg\<rparr>);
        Some (st\<lparr>kheap := h, placement_addr := placement\<rparr>) })"

section \<open>Zeroing\<close>

lemma kzero_region:
  assumes "fits p (unat sz)"
  shows "mem (kzero p sz m) = (\<lambda>a. if in_region p (unat sz) a then 0 else mem m a)"
proof (cases "sz AND 3 = 0")
  case True
  have m: "sz AND 3 = take_bit 2 sz" by (simp add: take_bit_eq_mask mask_eq_exp_minus_1)
  have "unat (take_bit 2 sz) = 0" using True unfolding m by simp
  then have "unat sz mod 4 = 0" by (simp only: unsigned_take_bit_eq) (simp add: take_bit_eq_mod)
  then have e: "4 * unat (drop_bit 2 sz) = unat sz" by (simp add: unat_drop_bit) presburger
  then show ?thesis using True assms rep_stos_zero [of p 4 "unat (drop_bit 2 sz)" "mem m"] by (simp add: kzero_def memsetd_def)
next
  case False
  then show ?thesis using memset_region [OF assms, of 0 m] by (simp add: kzero_def cong: if_cong)
qed

section \<open>Allocating and freeing\<close>

lemma insert_list_online: "insert_list l x s = Some s' \<Longrightarrow> honline s' = honline s"
  using relinked_fields(7) [OF relinked_ops(1)] by (auto simp: insert_list_def split: if_splits)

lemma sbrk_online: "sbrk phys_of inc s = Some (n, s') \<Longrightarrow> honline s' = honline s"
  by (auto simp: sbrk_def Let_def)

lemma grow_online: "grow phys_of sz align s = Some (h, s') \<Longrightarrow> honline s' = honline s"
  by (auto simp: grow_def last_block_def Let_def write_footer_def write_header_def set_size_def remove_fields
      dest!: sbrk_online split: if_splits)

lemma split_online:
  "split_front h s = Some (h', s') \<Longrightarrow> honline s' = honline s" "split_back h sz s = Some s' \<Longrightarrow> honline s' = honline s"
  by (auto simp: split_front_def split_back_def Let_def write_footer_def write_header_def set_size_def set_used_def set_fheader_def
      dest!: insert_list_online split: if_splits)

lemma heap_alloc_online: "heap_alloc phys_of n align s = Some (p, s') \<Longrightarrow> honline s' = honline s"
  by (auto simp: heap_alloc_def Let_def set_used_def bind_eq_Some_conv remove_fields dest!: split_online grow_online split: if_splits)

lemma owned_below: "owns b A U \<Longrightarrow> (f, 0) \<in> A \<Longrightarrow> f < frames_total b"
  by (force simp: owns_def buddy_inv_def tiling_def block_wf_def)

lemma heap_phys_ok:
  assumes "pages_ok h" "0xD0000000 \<le> unat p" "unat p < unat (heap_end h)" "unat (heap_end h) mod 4096 = 0"
  shows "pg_present (lookup (hpages h) KERNEL_DIR (drop_bit 12 p)) \<and>
    unat (pg_addr (lookup (hpages h) KERNEL_DIR (drop_bit 12 p))) < frames_total (frames (hpages h)) \<and>
    heap_phys p h = Some (push_bit 12 (pg_addr (lookup (hpages h) KERNEL_DIR (drop_bit 12 p))) + (p AND 0xFFF))"
proof -
  let ?x = "drop_bit 12 p"
  obtain k where k: "unat (heap_end h) = 4096 * k" using assms(4) by auto
  have x: "unat ?x = unat p div 4096" by (simp add: unat_drop_bit)
  have "unat p div 4096 < k" using assms(3) k by (simp add: less_mult_imp_div_less mult.commute)
  moreover have "0xD0000000 div 4096 \<le> unat p div 4096" by (rule div_le_mono [OF assms(2)])
  ultimately have reg: "?x \<in> page_region 0xD0000 (unat (heap_end h) div 4096)" using x k by (simp add: page_region_def)
  then have pr: "pg_present (lookup (hpages h) KERNEL_DIR ?x)" using assms(1) unfolding pages_ok_def backed_def by blast
  obtain A U where own: "owns (frames (hpages h)) A U" "page_frames (hpages h) KERNEL_DIR (page_region 0xD0000 (unat (heap_end h) div 4096)) \<subseteq> A"
    using assms(1) unfolding pages_ok_def backed_def by blast
  have "(unat (pg_addr (lookup (hpages h) KERNEL_DIR ?x)), 0) \<in> A" using own(2) reg pr unfolding page_frames_def by blast
  then have below: "unat (pg_addr (lookup (hpages h) KERNEL_DIR ?x)) < frames_total (frames (hpages h))" by (rule owned_below [OF own(1)])
  obtain t i where f: "find_page (hpages h) KERNEL_DIR ?x = Some (t, i)"
    using pr by (cases "find_page (hpages h) KERNEL_DIR ?x") (auto simp: lookup_def page_value_def pg_present_def)
  then show ?thesis using pr below lookup_find [OF f] by (simp add: heap_phys_def)
qed

lemma kmalloc_ok:
  assumes "heap_ok (kheap st) B" "honline (kheap st)" "unat n \<le> 0x20000000"
    and "find_fit (kheap st) (block_size n) (flags AND KMALLOC_ALIGN \<noteq> 0) (hnext (kheap st) free_blocks) \<noteq> Some free_blocks \<or>
      can_grow phys_of n (flags AND KMALLOC_ALIGN \<noteq> 0) (kheap st)"
  shows "\<exists>p z phys st'. kmalloc phys_of n flags want st = Some (p, phys, st') \<and> heap_ok (kheap st') (insert (p - HDR, z) B) \<and> honline (kheap st') \<and>
    (\<forall>x \<in> B. block_apart (p - HDR, z) x) \<and> unat n + 28 \<le> unat z \<and> (flags AND KMALLOC_ALIGN \<noteq> 0 \<longrightarrow> unat p mod 4096 = 0) \<and>
    (want \<longrightarrow> (let e = lookup (hpages (kheap st')) KERNEL_DIR (drop_bit 12 p) in pg_present e \<and> unat (pg_addr e) < frames_total (frames (hpages (kheap st'))) \<and> phys = Some (push_bit 12 (pg_addr e) + (p AND 0xFFF)))) \<and>
    (\<forall>a. mem (kbytes st') a = (if flags AND KMALLOC_ZERO \<noteq> 0 \<and> unat p \<le> unat a \<and> unat a < unat p + unat n then 0 else mem (kbytes st) a))"
proof -
  let ?al = "flags AND KMALLOC_ALIGN \<noteq> 0"
  from heap_alloc_ok [OF assms(1,3,4)] obtain p h z where
    a: "heap_alloc phys_of n ?al (kheap st) = Some (p, h)" "heap_ok h (insert (p - HDR, z) B)" "\<forall>x \<in> B. block_apart (p - HDR, z) x"
    "unat n + 28 \<le> unat z" "?al \<longrightarrow> unat p mod 4096 = 0" "unat (p - HDR) + unat z \<le> unat (heap_end h)" by metis
  have base: "0xD0000000 \<le> unat (p - HDR)" using heap_ok_within(1) [OF a(2), of "p - HDR" z] by (simp add: HEAP_BASE_def)
  have "unat (p - HDR + HDR) = unat (p - HDR) + 20"
    using a(4,6) unat_u32_lt [of "heap_end h"] by (subst unat_add_lt) (simp_all add: HDR_def)
  then have p: "unat p = unat (p - HDR) + 20" by simp
  have fit: "fits p (unat n)" using a(4,6) unat_u32_lt [of "heap_end h"] unfolding p by simp
  have pg: "pages_ok h" "unat (heap_end h) mod 4096 = 0" using a(2) by (auto simp: heap_ok_def heap_inv_def heap_shape_def)
  have "unat p < unat (heap_end h)" "0xD0000000 \<le> unat p" using a(4,6) base unfolding p by simp_all
  from heap_phys_ok [OF pg(1) this(2,1) pg(2)] have
    ph: "pg_present (lookup (hpages h) KERNEL_DIR (drop_bit 12 p))"
    "unat (pg_addr (lookup (hpages h) KERNEL_DIR (drop_bit 12 p))) < frames_total (frames (hpages h))"
    "heap_phys p h = Some (push_bit 12 (pg_addr (lookup (hpages h) KERNEL_DIR (drop_bit 12 p))) + (p AND 0xFFF))" by blast+
  define st' where "st' = (if flags AND KMALLOC_ZERO \<noteq> 0 then st\<lparr>kheap := h, kbytes := kzero p n (kbytes st)\<rparr> else st\<lparr>kheap := h\<rparr>)"
  have k: "kmalloc phys_of n flags want st = Some (p, if want then heap_phys p h else None, st')"
    unfolding kmalloc_def using assms(2) a(1) ph(3) by (simp add: st'_def)
  have h: "kheap st' = h" by (simp add: st'_def)
  have m: "\<forall>b. mem (kbytes st') b = (if flags AND KMALLOC_ZERO \<noteq> 0 \<and> unat p \<le> unat b \<and> unat b < unat p + unat n then 0 else mem (kbytes st) b)"
    by (simp add: st'_def kzero_region [OF fit])
  have "honline h" using heap_alloc_online [OF a(1)] assms(2) by simp
  then show ?thesis using k a(2-5) ph m
    by (intro exI [of _ p] exI [of _ z] exI [of _ "if want then heap_phys p h else None"] exI [of _ st'] conjI) (simp_all add: h Let_def)
qed

text \<open>C7: with the heap online, when a free block fits or the heap can grow, \<open>kmalloc\<close> returns a pointer to data that is
  large enough, apart from every block in use and page-aligned when \<open>KMALLOC_ALIGN\<close> is given. The physical address it reports is the one the
  page tables of the kernel translate the pointer to, in a frame of the memory. With \<open>KMALLOC_ZERO\<close> exactly the bytes asked for are cleared, for sizes that
  are a multiple of four and for the others, and no other byte of memory changes. The heap stays well-formed and online.\<close>

theorem kmalloc_correct:
  assumes "heap_ok (kheap st) B" "honline (kheap st)" "unat n \<le> 0x20000000"
    and "find_fit (kheap st) (block_size n) (flags AND KMALLOC_ALIGN \<noteq> 0) (hnext (kheap st) free_blocks) \<noteq> Some free_blocks \<or>
      can_grow phys_of n (flags AND KMALLOC_ALIGN \<noteq> 0) (kheap st)"
  shows "\<exists>p z phys st'. kmalloc phys_of n flags want st = Some (p, phys, st') \<and> heap_ok (kheap st') (insert (p - HDR, z) B) \<and> honline (kheap st') \<and>
    (\<forall>x \<in> B. block_apart (p - HDR, z) x) \<and> unat n + 28 \<le> unat z \<and> (flags AND KMALLOC_ALIGN \<noteq> 0 \<longrightarrow> unat p mod 4096 = 0) \<and>
    (want \<longrightarrow> (let e = lookup (hpages (kheap st')) KERNEL_DIR (drop_bit 12 p) in pg_present e \<and> unat (pg_addr e) < frames_total (frames (hpages (kheap st'))) \<and> phys = Some (push_bit 12 (pg_addr e) + (p AND 0xFFF)))) \<and>
    (\<forall>a. mem (kbytes st') a = (if flags AND KMALLOC_ZERO \<noteq> 0 \<and> unat p \<le> unat a \<and> unat a < unat p + unat n then 0 else mem (kbytes st) a))"
  by (rule kmalloc_ok [OF assms])

theorem kmalloc_correct_witness:
  "\<exists>st p z phys st'. heap_ok (kheap st) {} \<and> kmalloc (\<lambda>t. of_nat t * 4096) 100 3 True st = Some (p, Some phys, st') \<and>
     heap_ok (kheap st') {(p - HDR, z)} \<and> 128 \<le> unat z \<and> unat p mod 4096 = 0 \<and> mem (kbytes st') p = 0"
proof -
  obtain s where s: "heap_ok s {}" "honline s" "find_fit s (block_size 100) True (hnext s free_blocks) = Some HEAP_BASE" using heap_example by blast
  let ?st = "\<lparr>kheap = s, placement_addr = 0, kbytes = \<lparr>mem = \<lambda>_. 7, df = False\<rparr>\<rparr>"
  have f: "(3 :: u32) AND KMALLOC_ALIGN \<noteq> 0" "(3 :: u32) AND KMALLOC_ZERO \<noteq> 0" by (simp_all add: KMALLOC_ALIGN_def KMALLOC_ZERO_def)
  have "HEAP_BASE \<noteq> free_blocks" by (simp add: HEAP_BASE_def free_blocks_def)
  then have "find_fit (kheap ?st) (block_size 100) (3 AND KMALLOC_ALIGN \<noteq> 0) (hnext (kheap ?st) free_blocks) \<noteq> Some free_blocks"
    using s(3) f(1) by simp
  then obtain p z phys st' where
    k: "kmalloc (\<lambda>t. of_nat t * 4096) 100 3 True ?st = Some (p, Some phys, st')" "heap_ok (kheap st') {(p - HDR, z)}"
    "unat (100 :: u32) + 28 \<le> unat z" "unat p mod 4096 = 0" "mem (kbytes st') p = 0"
    using kmalloc_correct [of ?st "{}" 100 3 "\<lambda>t. of_nat t * 4096" True] s(1,2) f by (auto simp: Let_def)
  show ?thesis using k s(1)
    by (intro exI [of _ ?st] exI [of _ p] exI [of _ z] exI [of _ phys] exI [of _ st'] conjI) simp_all
qed

section \<open>Giving blocks back in any order\<close>

text \<open>What a client needs of an allocator to give its blocks back: each block in use can be given back, and leaves the others in use.\<close>

locale releasing =
  fixes ok :: "'s \<Rightarrow> 'b set \<Rightarrow> bool" and rel :: "'b \<Rightarrow> 's \<Rightarrow> 's option"
  assumes rel: "ok s B \<Longrightarrow> x \<in> B \<Longrightarrow> \<exists>s'. rel x s = Some s' \<and> ok s' (B - {x})"
begin

fun rel_all :: "'b list \<Rightarrow> 's \<Rightarrow> 's option" where
  "rel_all [] s = Some s"
| "rel_all (x # xs) s = Option.bind (rel x s) (rel_all xs)"

lemma rel_all_ok: "ok s B \<Longrightarrow> distinct xs \<Longrightarrow> set xs \<subseteq> B \<Longrightarrow> \<exists>s'. rel_all xs s = Some s' \<and> ok s' (B - set xs)"
proof (induction xs arbitrary: s B)
  case (Cons x xs)
  obtain s1 where s1: "rel x s = Some s1" "ok s1 (B - {x})" using rel [OF Cons.prems(1)] Cons.prems(3) by auto
  have "set xs \<subseteq> B - {x}" using Cons.prems(2,3) by auto
  from Cons.IH [OF s1(2) _ this] Cons.prems(2) obtain s' where "rel_all xs s1 = Some s'" "ok s' (B - {x} - set xs)" by auto
  moreover have "B - {x} - set xs = B - set (x # xs)" by auto
  ultimately show ?case using s1(1) by (intro exI [of _ s']) simp
qed simp

end

lemma merge_online: "honline (snd (merge_right h f s)) = honline s" "honline (snd (merge_left h s)) = honline s"
  by (auto simp: merge_right_def merge_left_def Let_def set_size_def remove_fields)

lemma shrink_online: "shrink h f s = Some (q, s') \<Longrightarrow> honline s' = honline s"
  by (auto simp: shrink_def srel_def Let_def write_footer_def set_size_def split: if_splits)

lemma heap_free_online:
  assumes "heap_free p s = Some s'"
  shows "honline s' = honline s"
proof -
  obtain f1 s1 where r: "merge_right (p - HDR) (p - HDR + hsize s (p - HDR) - FTR) s = (f1, s1)" by fastforce
  obtain h2 s2 where l: "merge_left (p - HDR) s1 = (h2, s2)" by fastforce
  have o: "honline s2 = honline s" using merge_online(1) [of "p - HDR" "p - HDR + hsize s (p - HDR) - FTR" s] merge_online(2) [of "p - HDR" s1] r l by simp
  obtain q s3 where k: "shrink h2 f1 s2 = Some (q, s3)"
    "(case q of None \<Rightarrow> Some s3 | Some f \<Rightarrow> insert_list free_blocks h2 (set_used h2 False (set_fheader f h2 s3))) = Some s'"
    using assms unfolding heap_free_def Let_def r by (auto simp: l bind_eq_Some_conv split: if_splits)
  have "honline s' = honline s3" using k(2) by (auto simp: set_used_def set_fheader_def dest!: insert_list_online split: option.splits)
  then show ?thesis using shrink_online [OF k(1)] o by simp
qed

definition kfree_block :: "u32 \<times> u32 \<Rightarrow> kernel_memory \<Rightarrow> kernel_memory option" where
  "kfree_block x st = kfree (fst x + HDR) st"

definition online_with :: "machine \<Rightarrow> kernel_memory \<Rightarrow> (u32 \<times> u32) set \<Rightarrow> bool" where
  "online_with m st B \<longleftrightarrow> heap_ok (kheap st) B \<and> honline (kheap st) \<and> kbytes st = m"

interpretation kmem: releasing "online_with m" kfree_block
proof unfold_locales
  fix st B and x :: "u32 \<times> u32" assume st: "online_with m st B" and x: "x \<in> B"
  obtain h z where hz: "x = (h, z)" by fastforce
  obtain s' where s': "heap_free (h + HDR) (kheap st) = Some s'" "heap_ok s' (B - {(h, z)})"
    using heap_free_ok [of "kheap st" B h z] st x hz by (auto simp: online_with_def)
  then show "\<exists>st'. kfree_block x st = Some st' \<and> online_with m st' (B - {x})"
    using st heap_free_online [OF s'(1)] by (intro exI [of _ "st\<lparr>kheap := s'\<rparr>"]) (simp add: kfree_block_def kfree_def online_with_def hz)
qed

fun kfree_all :: "u32 list \<Rightarrow> kernel_memory \<Rightarrow> kernel_memory option" where
  "kfree_all [] st = Some st"
| "kfree_all (p # ps) st = Option.bind (kfree p st) (kfree_all ps)"

lemma kfree_all_blocks: "kfree_all (map (\<lambda>x. fst x + HDR) xs) = kmem.rel_all xs"
proof (induction xs)
  case (Cons x xs)
  show ?case by (rule ext) (simp only: list.map kfree_all.simps kmem.rel_all.simps Cons.IH, subst kfree_block_def, rule refl)
qed (simp add: fun_eq_iff)

text \<open>C8: the pointers to any blocks in use can be given back one after the other, in every order: each call succeeds, the blocks
  in use are then exactly the others, and the contents of memory do not change. When all are given back, no block is in use.\<close>

theorem kfree_any_order:
  assumes "heap_ok (kheap st) B" "honline (kheap st)" "distinct xs" "set xs \<subseteq> B"
  shows "\<exists>st'. kfree_all (map (\<lambda>x. fst x + HDR) xs) st = Some st' \<and> heap_ok (kheap st') (B - set xs) \<and> honline (kheap st') \<and> kbytes st' = kbytes st"
  using kmem.rel_all_ok [of "kbytes st" st B xs] assms unfolding kfree_all_blocks online_with_def by blast

theorem kfree_any_order_witness:
  "\<exists>(st :: kernel_memory) p st'. heap_ok (kheap st) {} \<and> kfree_all [p] st' \<noteq> None \<and> heap_alloc (\<lambda>t. of_nat t * 4096) 100 True (kheap st) = Some (p, kheap st')"
proof -
  obtain s p s' z where s: "heap_ok s {}" "heap_alloc (\<lambda>t. of_nat t * 4096) 100 True s = Some (p, s')" "heap_ok s' {(p - HDR, z)}" "honline s"
    using heap_allocated by blast
  let ?k = "\<lambda>s. \<lparr>kheap = s, placement_addr = 0, kbytes = \<lparr>mem = \<lambda>_. 7, df = False\<rparr>\<rparr>"
  have "honline s'" using heap_alloc_online [OF s(2)] s(4) by simp
  then have "\<exists>st'. kfree_all [p] (?k s') = Some st'" using kfree_any_order [of "?k s'" "{(p - HDR, z)}" "[(p - HDR, z)]"] s(3) by auto
  then show ?thesis using s by (intro exI [of _ "?k s"] exI [of _ p] exI [of _ "?k s'"] conjI) auto
qed

end
