(* ===== verification/Boot.thy ===== *)
theory Boot
  imports Kmalloc
begin

text \<open>
  Start-up of the memory of the kernel, \<open>memory::init\<close>: paging, the frame allocator, the first page directory and the heap together.
\<close>

section \<open>Page directories at the start\<close>

text \<open>Every table is an object that has been made, the kernel directory uses each table once, and its tables map nothing.\<close>

definition clean :: "paging \<Rightarrow> bool" where
  "clean s \<longleftrightarrow> paging_wf KERNEL_DIR s \<and> KERNEL_DIR < next_obj s \<and> (\<forall>i t k. tables (dirs s KERNEL_DIR) i = Some t \<longrightarrow> tabs s t k = 0)"

lemma clean_lookup: "clean s \<Longrightarrow> lookup s KERNEL_DIR a = 0"
  by (auto simp: clean_def lookup_def page_value_def find_page_def split: option.splits)

lemma fold_keeps: "(\<And>i s. P s \<Longrightarrow> P (f i s)) \<Longrightarrow> P s \<Longrightarrow> P (fold f xs s)"
  by (induction xs arbitrary: s) simp_all

lemma map_kernel_clean: "clean s \<Longrightarrow> clean (map_kernel s) \<and> frames (map_kernel s) = frames s"
  unfolding map_kernel_def
  by (rule fold_keeps [of "\<lambda>x. clean x \<and> frames x = frames s"]) (auto simp: clean_def paging_wf_def set_dir_def Let_def)

lemma get_page_clean:
  assumes "clean s"
  shows "clean (snd (get_page phys_of KERNEL_DIR a True flags s)) \<and> frames (snd (get_page phys_of KERNEL_DIR a True flags s)) = frames s"
proof -
  have wf: "\<And>e i t. tables (dirs s e) i = Some t \<Longrightarrow> t < next_obj s"
    "\<And>i j t. tables (dirs s KERNEL_DIR) i = Some t \<Longrightarrow> tables (dirs s KERNEL_DIR) j = Some t \<Longrightarrow> i = j"
    using assms unfolding clean_def paging_wf_def by blast+
  have z: "\<And>i t k. tables (dirs s KERNEL_DIR) i = Some t \<Longrightarrow> tabs s t k = 0" "KERNEL_DIR < next_obj s" using assms by (auto simp: clean_def)
  have "\<not> tables (dirs s e) i = Some (next_obj s)" for e i using wf(1) by blast
  then show ?thesis using wf z
    by (auto simp: get_page_def new_table_def set_dir_def clean_def paging_wf_def Let_def less_Suc_eq split: option.split)
qed

lemma make_tables_clean: "clean s \<Longrightarrow> clean (make_tables phys_of s) \<and> frames (make_tables phys_of s) = frames s"
  unfolding make_tables_def by (rule fold_keeps [of "\<lambda>x. clean x \<and> frames x = frames s"]) (simp_all add: get_page_clean)

lemma clone_empty: "\<forall>k. tabs s t k = 0 \<Longrightarrow> clone_pages phys_of t t' is s = Some s"
  by (induction "is") (simp_all add: pg_present_def)

lemma clone_entry_clean:
  assumes c: "clean s" and d: "dir \<noteq> KERNEL_DIR"
  shows "\<exists>s'. clone_entry phys_of KERNEL_DIR 0 sbot stop dir i s = Some s' \<and> clean s' \<and> frames s' = frames s"
proof (cases "tables (dirs s KERNEL_DIR) i")
  case None
  then show ?thesis using c d by (auto simp: clone_entry_def Let_def set_dir_def clean_def paging_wf_def)
next
  case (Some t)
  show ?thesis
  proof (cases "i \<ge> KERNEL_HIGHMEM_START \<and> \<not> is_kstack i")
    case True
    then show ?thesis using c d by (auto simp: clone_entry_def Let_def set_dir_def clean_def paging_wf_def)
  next
    case False
    let ?s1 = "snd (new_table s)"
    have wf: "\<And>e i t. tables (dirs s e) i = Some t \<Longrightarrow> t < next_obj s" using c unfolding clean_def paging_wf_def by blast
    have t: "t < next_obj s" "\<forall>k. tabs s t k = 0" using wf Some c by (auto simp: clean_def)
    have "\<forall>k. tabs ?s1 t k = 0" using t by (simp add: new_table_def)
    then have "clone_pages phys_of t (next_obj s) is ?s1 = Some ?s1" for "is" by (rule clone_empty)
    then have tc: "table_clone phys_of t s = Some (next_obj s, ?s1)" by (simp add: table_clone_def new_table_def)
    let ?D = "dirs s dir"
    let ?s' = "set_dir dir (?D\<lparr>tables := (tables ?D)(i := Some (next_obj s)),
      entries := (entries ?D)(i := set_addr (drop_bit 12 (phys_of (next_obj s))) (entries (dirs s KERNEL_DIR) i))\<rparr>) ?s1"
    have "clone_entry phys_of KERNEL_DIR 0 sbot stop dir i s = Some ?s'"
      using False Some tc by (auto simp: clone_entry_def Let_def new_table_def)
    moreover have "clean ?s'" using c d wf by (auto simp: set_dir_def new_table_def clean_def paging_wf_def less_Suc_eq)
    moreover have "frames ?s' = frames s" by (simp add: set_dir_def new_table_def)
    ultimately show ?thesis by blast
  qed
qed

lemma clone_loop_clean:
  "clean s \<Longrightarrow> dir \<noteq> KERNEL_DIR \<Longrightarrow>
     \<exists>s'. clone_loop phys_of KERNEL_DIR 0 sbot stop dir is s = Some s' \<and> clean s' \<and> frames s' = frames s"
proof (induction "is" arbitrary: s)
  case (Cons i "is")
  obtain s1 where s1: "clone_entry phys_of KERNEL_DIR 0 sbot stop dir i s = Some s1" "clean s1" "frames s1 = frames s"
    using clone_entry_clean [OF Cons.prems] by blast
  from Cons.IH [OF s1(2) Cons.prems(2)] s1 show ?case by auto
qed simp

lemma dir_clone_clean:
  assumes "clean s"
  shows "\<exists>d s'. dir_clone phys_of KERNEL_DIR 0 sbot stop s = Some (d, s') \<and> clean s' \<and> frames s' = frames s"
proof -
  let ?s = "set_dir (next_obj s) \<lparr>entries = (\<lambda>_. 0), tables = (\<lambda>_. None), phys_addr = phys_of (next_obj s)\<rparr> (s\<lparr>next_obj := Suc (next_obj s)\<rparr>)"
  have "clean ?s" using assms by (auto simp: clean_def paging_wf_def set_dir_def less_SucI)
  moreover have "next_obj s \<noteq> KERNEL_DIR" using assms by (simp add: clean_def)
  ultimately obtain s' where "clone_loop phys_of KERNEL_DIR 0 sbot stop (next_obj s) is ?s = Some s' \<and> clean s' \<and> frames s' = frames ?s"
    if "is = [0 ..< 1024]" for "is" using clone_loop_clean by metis
  then show ?thesis by (auto simp: dir_clone_def Let_def set_dir_def)
qed

section \<open>The frames at the start\<close>

lemma low_4m: "unat (a AND 0x3FFFFF :: u32) = unat a mod 0x400000"
proof -
  have m: "(0x3FFFFF :: u32) = mask 22" by (simp add: mask_eq_exp_minus_1)
  have "a AND 0x3FFFFF = take_bit 22 a" by (simp only: m take_bit_eq_mask)
  then show ?thesis by (simp only: unsigned_take_bit_eq) (simp add: take_bit_eq_mod)
qed

lemma round_4m: "unat (a AND NOT 0x3FFFFF :: u32) = unat a div 0x400000 * 0x400000"
proof -
  have m: "(0x3FFFFF :: u32) = mask 22" by (simp add: mask_eq_exp_minus_1)
  have "unat a div 0x400000 * 0x400000 < 2 ^ 32" using unat_u32_lt [of a] by (simp add: le_less_trans [OF div_times_less_eq_dividend])
  then show ?thesis unfolding m and_not_mask by (subst unat_push_bit_lt) (simp_all add: unat_drop_bit)
qed

lemma align_4m:
  assumes "unat a + 0x400000 < 2 ^ 32"
  shows "unat (align_addr_4m a) mod 0x400000 = 0" "unat a \<le> unat (align_addr_4m a)" "unat (align_addr_4m a) < unat a + 0x400000"
proof -
  define q r where "q = unat a div 0x400000" and "r = unat a mod 0x400000"
  have a: "unat a = q * 0x400000 + r" "r < 0x400000" by (simp_all add: q_def r_def)
  have z: "(a AND 0x3FFFFF = 0) \<longleftrightarrow> r = 0" unfolding r_def by (metis low_4m unat_eq_0)
  have lo: "unat (a AND NOT 0x3FFFFF) = q * 0x400000" by (simp only: round_4m q_def)
  have "unat (align_addr_4m a) = (if r = 0 then q else q + 1) * 0x400000"
  proof (cases "r = 0")
    case True
    then have "align_addr_4m a = a AND NOT 0x3FFFFF" using z by (simp add: align_addr_4m_def)
    then show ?thesis using lo True by (simp only: refl if_True)
  next
    case False
    then have "align_addr_4m a = (a AND NOT 0x3FFFFF) + 0x400000" using z by (simp add: align_addr_4m_def)
    moreover have "unat (x + 0x400000) = unat x + 0x400000" if "unat x = q * 0x400000" for x :: u32
      using that a assms by (subst unat_add_lt) simp_all
    ultimately show ?thesis using lo False by (simp only: if_False add_mult_distrib mult_1)
  qed
  then show "unat (align_addr_4m a) mod 0x400000 = 0" "unat a \<le> unat (align_addr_4m a)" "unat (align_addr_4m a) < unat a + 0x400000"
    using a by auto
qed

section \<open>Starting the memory\<close>

lemma clean_backed:
  assumes "clean pg" "owns (frames pg) {} U" "U \<subseteq> {0 <..< 2 ^ 20}"
  shows "backed pg a a c"
proof -
  have "page_region a a = {}" by (auto simp: page_region_def)
  then show ?thesis unfolding backed_def using assms clean_lookup [OF assms(1)]
    by (auto simp: clean_def page_frames_def covered_def pg_present_def intro!: exI [of _ "{}"] exI [of _ U])
qed

text \<open>The memory at boot: the kernel directory has no tables yet, the heap has its first size, and the kernel image with what paging has
  placed behind it ends more than 5 MiB before the end of the memory.\<close>

definition boot_ok :: "u32 \<Rightarrow> u32 \<Rightarrow> kernel_memory \<Rightarrow> bool" where
  "boot_ok placement mem_size st \<longleftrightarrow>
     (\<forall>e i. tables (dirs (hpages (kheap st)) e) i = None) \<and> KERNEL_DIR < next_obj (hpages (kheap st)) \<and>
     heap_end (kheap st) = HEAP_BASE + HEAP_INIT_SIZE \<and> 0x2000000 \<le> unat mem_size \<and> unat KERNEL_VIRTUAL_BASE < unat placement \<and>
     unat placement - unat KERNEL_VIRTUAL_BASE + 0x500000 \<le> unat mem_size \<and> unat placement + 0x400000 < 2 ^ 32"

lemma paging_init_ok:
  assumes "boot_ok placement mem_size st"
  shows "\<exists>pg U. paging_init phys_of mem_size placement (hpages (kheap st)) = Some pg \<and> clean pg \<and> owns (frames pg) {} U \<and>
    U \<subseteq> {0 <..< 2 ^ 20} \<and> 256 \<le> card U"
proof -
  let ?pg = "hpages (kheap st)"
  have "clean ?pg" using assms by (simp add: boot_ok_def clean_def paging_wf_def)
  then have "clean (map_kernel ?pg)" using map_kernel_clean by blast
  then have "clean (switch_page_dir KERNEL_DIR (map_kernel ?pg))" by (simp add: clean_def paging_wf_def switch_page_dir_def)
  then have c: "clean (make_tables phys_of (switch_page_dir KERNEL_DIR (map_kernel ?pg)))" (is "clean ?s2") using make_tables_clean by blast
  let ?e = "align_addr_4m placement" and ?K = "unat KERNEL_VIRTUAL_BASE"
  have pl: "?K < unat placement" "unat placement - ?K + 0x500000 \<le> unat mem_size" "unat placement + 0x400000 < 2 ^ 32" using assms unfolding boot_ok_def by blast+
  note al = align_4m [OF pl(3)]
  have K: "?K = 0xC0000000" by (simp add: KERNEL_VIRTUAL_BASE_def)
  obtain q where q: "unat ?e = 0x400000 * q" using al(1) by auto
  have "768 < q" using q al(2) pl(1) K by simp
  have "unat (?e - KERNEL_VIRTUAL_BASE) = unat ?e - ?K" using al(2) pl(1) by (intro unat_sub) (simp add: word_le_nat_alt)
  then have first: "unat (drop_bit 12 (?e - KERNEL_VIRTUAL_BASE)) = 1024 * (q - 768)" unfolding unat_drop_bit q K by simp
  have "0x400000 * (q - 768) < unat placement - ?K + 0x400000" using al(3) q pl(1) K by simp
  then have "0x400000 * (q - 768) + 0x100000 \<le> unat mem_size" using pl(2) by simp
  then have "(0x400000 * (q - 768) + 0x100000) div 4096 \<le> unat mem_size div 4096" by (rule div_le_mono)
  then have le: "1024 * (q - 768) + 256 \<le> unat mem_size div 2 ^ PAGE_SHIFT" by (simp add: PAGE_SHIFT_def)
  then have fle: "1024 * (q - 768) \<le> unat mem_size div 2 ^ PAGE_SHIFT" by simp
  let ?U = "{1024 * (q - 768) ..< unat mem_size div 2 ^ PAGE_SHIFT}"
  obtain b where b: "buddy_init mem_size (1024 * (q - 768)) = Some b" "owns b {} ?U" using owns_init [OF dvd_triv_left fle] by blast
  have "clean (?s2\<lparr>frames := b\<rparr>)" using c by (simp add: clean_def paging_wf_def)
  from dir_clone_clean [OF this, of phys_of "- 1" "- 1"] obtain d s3 where
    d: "dir_clone phys_of KERNEL_DIR 0 (- 1) (- 1) (?s2\<lparr>frames := b\<rparr>) = Some (d, s3)" "clean s3" "frames s3 = b" by auto
  have "paging_init phys_of mem_size placement ?pg = Some (switch_page_dir d s3)" using b(1) d(1) by (simp add: paging_init_def first Let_def)
  moreover have "clean (switch_page_dir d s3)" "owns (frames (switch_page_dir d s3)) {} ?U"
    using d(2,3) b(2) by (simp_all add: clean_def paging_wf_def switch_page_dir_def)
  moreover have "?U \<subseteq> {0 <..< 2 ^ 20}"
  proof
    fix x assume x: "x \<in> ?U"
    have "x \<in> {..< 2 ^ 20}" using owns_bound [OF b(2)] x by blast
    moreover have "0 < 1024 * (q - 768)" "1024 * (q - 768) \<le> x" using \<open>768 < q\<close> x by simp_all
    then have "0 < x" by (rule less_le_trans)
    ultimately show "x \<in> {0 <..< 2 ^ 20}" by simp
  qed
  moreover have "256 \<le> card ?U" using le by simp
  ultimately show ?thesis by blast
qed



end
