(* ===== verification/Sync.thy ===== *)
theory Sync
  imports Prelude
begin

text \<open>
  The locks of \<open>kernel/include/lib\<close>: \<open>spinlock.h\<close>, \<open>mutex.h\<close> and \<open>semaphore.h\<close>. A call is a program with one step per
  access to shared memory; a process is a number and has one program counter. \<open>None\<close> as the result of a step
  means that the process cannot go on now: it spins, or it sleeps in a condition variable, whose effect on the
  scheduler is in theory \<open>Sched\<close>. Any process may take the next step, which is how preemption interleaves them.
\<close>

section \<open>Spinlock\<close>

definition test_and_set :: "bool \<Rightarrow> bool \<times> bool" where "test_and_set l = (l, True)"

text \<open>One turn of the loop of \<open>spinlock::lock\<close>: \<open>None\<close> is another turn.\<close>

definition spin_lock :: "bool \<Rightarrow> bool option" where
  "spin_lock l = (case test_and_set l of (old, l') \<Rightarrow> if old then None else Some l')"

definition spin_try_lock :: "bool \<Rightarrow> (errno + unit) \<times> bool" where
  "spin_try_lock l = (case test_and_set l of (old, l') \<Rightarrow> (if old then Inl EBUSY else Inr (), l'))"

definition spin_unlock :: "bool \<Rightarrow> bool" where "spin_unlock l = False"

definition spin_is_locked :: "bool \<Rightarrow> bool \<times> bool" where
  "spin_is_locked l = (case test_and_set l of (old, l') \<Rightarrow> (old, if old then l' else spin_unlock l'))"

section \<open>Mutex\<close>

record mutex =
  mlock :: bool
  lockproc :: "nat option"
  unlocked :: "nat list"

definition mutex_new :: mutex where "mutex_new = \<lparr>mlock = False, lockproc = None, unlocked = []\<rparr>"

text \<open>Where a process is. The flag of the states of \<open>unlock\<close> says whether the caller had taken the lock, that of
  \<open>Lock_relock\<close> whether the sleep was interrupted.\<close>

datatype mpc =
    Out | Held
  | Lock_enter | Lock_loop | Lock_own | Lock_leave | Lock_waiting | Lock_relock bool | Lock_failed
  | Try_enter | Try_test | Try_busy
  | Unlock_enter bool | Unlock_test bool | Unlock_denied bool | Unlock_clear | Unlock_leave

definition mutex_lock_step :: "nat \<Rightarrow> mutex \<Rightarrow> mpc \<Rightarrow> (mutex \<times> mpc) option" where
  "mutex_lock_step p m c =
     (case c of
        Lock_enter \<Rightarrow> map_option (\<lambda>l. (m\<lparr>mlock := l\<rparr>, Lock_loop)) (spin_lock (mlock m))
      | Lock_loop \<Rightarrow>
          (if lockproc m \<noteq> None then Some (m\<lparr>unlocked := p # unlocked m, mlock := spin_unlock (mlock m)\<rparr>, Lock_waiting)
           else Some (m, Lock_own))
      | Lock_relock intr \<Rightarrow> map_option (\<lambda>l. (m\<lparr>mlock := l\<rparr>, if intr then Lock_failed else Lock_loop)) (spin_lock (mlock m))
      | Lock_failed \<Rightarrow> Some (m, Out)
      | Lock_own \<Rightarrow> Some (m\<lparr>lockproc := Some p\<rparr>, Lock_leave)
      | Lock_leave \<Rightarrow> Some (m\<lparr>mlock := spin_unlock (mlock m)\<rparr>, Held)
      | _ \<Rightarrow> None)"

definition mutex_try_step :: "nat \<Rightarrow> mutex \<Rightarrow> mpc \<Rightarrow> (mutex \<times> mpc) option" where
  "mutex_try_step p m c =
     (case c of
        Try_enter \<Rightarrow> map_option (\<lambda>l. (m\<lparr>mlock := l\<rparr>, Try_test)) (spin_lock (mlock m))
      | Try_test \<Rightarrow> Some (m, if lockproc m \<noteq> None then Try_busy else Lock_own)
      | Try_busy \<Rightarrow> Some (m\<lparr>mlock := spin_unlock (mlock m)\<rparr>, Out)
      | _ \<Rightarrow> None)"

definition mutex_unlock_step :: "nat \<Rightarrow> mutex \<Rightarrow> mpc \<Rightarrow> (mutex \<times> mpc) option" where
  "mutex_unlock_step p m c =
     (case c of
        Unlock_enter b \<Rightarrow> map_option (\<lambda>l. (m\<lparr>mlock := l\<rparr>, Unlock_test b)) (spin_lock (mlock m))
      | Unlock_test b \<Rightarrow> Some (m, if lockproc m \<noteq> Some p then Unlock_denied b else Unlock_clear)
      | Unlock_denied b \<Rightarrow> Some (m\<lparr>mlock := spin_unlock (mlock m)\<rparr>, if b then Held else Out)
      | Unlock_clear \<Rightarrow> Some (m\<lparr>lockproc := None\<rparr>, Unlock_leave)
      | Unlock_leave \<Rightarrow> Some (m\<lparr>mlock := spin_unlock (mlock m)\<rparr>, Out)
      | _ \<Rightarrow> None)"

definition mutex_local :: "nat \<Rightarrow> mutex \<Rightarrow> mpc \<Rightarrow> (mutex \<times> mpc) option" where
  "mutex_local p m c =
     (case mutex_lock_step p m c of
        Some r \<Rightarrow> Some r
      | None \<Rightarrow> (case mutex_try_step p m c of Some r \<Rightarrow> Some r | None \<Rightarrow> mutex_unlock_step p m c))"

text \<open>Processes call the operations in any order, except that one that holds the lock only calls \<open>unlock\<close>.\<close>

inductive mutex_step :: "mutex \<times> (nat \<Rightarrow> mpc) \<Rightarrow> mutex \<times> (nat \<Rightarrow> mpc) \<Rightarrow> bool" where
  call_lock: "pc p = Out \<Longrightarrow> mutex_step (m, pc) (m, pc(p := Lock_enter))"
| call_try: "pc p = Out \<Longrightarrow> mutex_step (m, pc) (m, pc(p := Try_enter))"
| call_unlock: "pc p = Held \<Longrightarrow> mutex_step (m, pc) (m, pc(p := Unlock_enter True))"
| call_wrong: "pc p = Out \<Longrightarrow> mutex_step (m, pc) (m, pc(p := Unlock_enter False))"
| local: "mutex_local p m (pc p) = Some (m', c) \<Longrightarrow> mutex_step (m, pc) (m', pc(p := c))"

text \<open>A signal wakes a sleeping process, which then returns from \<open>wait\<close> with an error.\<close>

inductive mutex_signal :: "mutex \<times> (nat \<Rightarrow> mpc) \<Rightarrow> mutex \<times> (nat \<Rightarrow> mpc) \<Rightarrow> bool" where
  "pc p = Lock_waiting \<Longrightarrow> mutex_signal (m, pc) (m\<lparr>unlocked := removeAll p (unlocked m)\<rparr>, pc(p := Lock_relock True))"

inductive_cases mutex_stepE: "mutex_step s s'"

definition mutex_start :: "mutex \<times> (nat \<Rightarrow> mpc)" where "mutex_start = (mutex_new, \<lambda>_. Out)"

definition mutex_reach :: "mutex \<times> (nat \<Rightarrow> mpc) \<Rightarrow> bool" where
  "mutex_reach s \<longleftrightarrow> (\<lambda>a b. mutex_step a b \<or> mutex_signal a b)\<^sup>*\<^sup>* mutex_start s"

text \<open>The states between taking the spinlock and releasing it, and those in which the mutex is taken.\<close>

fun inside :: "mpc \<Rightarrow> bool" where
  "inside Out = False" | "inside Held = False" | "inside Lock_enter = False" | "inside Lock_waiting = False"
| "inside (Lock_relock b) = False" | "inside Try_enter = False" | "inside (Unlock_enter b) = False"
| "inside c = True"

fun owner :: "mpc \<Rightarrow> bool" where
  "owner Lock_leave = True" | "owner Held = True" | "owner (Unlock_enter b) = b" | "owner (Unlock_test b) = b"
| "owner (Unlock_denied b) = b" | "owner Unlock_clear = True"
| "owner c = False"

definition mutex_inv :: "mutex \<times> (nat \<Rightarrow> mpc) \<Rightarrow> bool" where
  "mutex_inv s \<longleftrightarrow> (case s of (m, pc) \<Rightarrow>
     (\<forall>p. inside (pc p) \<longrightarrow> mlock m) \<and> (\<forall>p q. inside (pc p) \<and> inside (pc q) \<longrightarrow> p = q) \<and>
     (\<forall>p. owner (pc p) \<longrightarrow> lockproc m = Some p) \<and> (\<forall>p. pc p = Lock_own \<longrightarrow> lockproc m = None))"

lemmas mutex_steps_def = mutex_local_def mutex_lock_step_def mutex_try_step_def mutex_unlock_step_def
  spin_lock_def spin_unlock_def test_and_set_def

lemma mutex_invD:
  assumes "mutex_inv (m, pc)"
  shows "inside (pc q) \<Longrightarrow> mlock m" "inside (pc q) \<Longrightarrow> inside (pc r) \<Longrightarrow> q = r"
    "owner (pc q) \<Longrightarrow> lockproc m = Some q" "pc q = Lock_own \<Longrightarrow> lockproc m = None"
  using assms unfolding mutex_inv_def by blast+

text \<open>What a step of \<open>p\<close> may do to the shared state.\<close>

lemma mutex_inv_move:
  assumes "mutex_inv (m, pc)"
    and "inside c \<Longrightarrow> mlock m' \<and> (inside (pc p) \<or> \<not> mlock m)" "\<not> inside (pc p) \<Longrightarrow> mlock m \<Longrightarrow> mlock m'"
    and "owner c \<Longrightarrow> lockproc m' = Some p" "c = Lock_own \<Longrightarrow> lockproc m' = None"
    and "lockproc m' \<noteq> lockproc m \<Longrightarrow> inside (pc p) \<and> (lockproc m = None \<or> lockproc m = Some p)"
  shows "mutex_inv (m', pc(p := c))"
proof -
  note i = mutex_invD [OF assms(1)]
  have "mlock m'" if "inside ((pc(p := c)) q)" for q
    using that assms(2,3) i(1) [of q] i(2) [of p q] by (cases "q = p") auto
  moreover have "q = r" if "inside ((pc(p := c)) q)" "inside ((pc(p := c)) r)" for q r
    using that assms(2) i(1) [of q] i(1) [of r] i(2) [of q r] i(2) [of p q] i(2) [of p r] by (cases "q = p"; cases "r = p") auto
  moreover have "lockproc m' = Some q" if "owner ((pc(p := c)) q)" for q
    using that assms(4,6) i(3) [of q] by (cases "q = p") auto
  moreover have "lockproc m' = None" if "(pc(p := c)) q = Lock_own" for q
  proof (cases "q = p")
    case False
    then have "pc q = Lock_own" using that by simp
    then have "lockproc m = None" "\<not> inside (pc p)" using i(4) [of q] i(2) [of q p] False by auto
    moreover have "lockproc m' = lockproc m" using calculation(2) assms(6) by blast
    ultimately show ?thesis by simp
  next
    case True
    then show ?thesis using that assms(5) by simp
  qed
  ultimately show ?thesis by (simp only: mutex_inv_def prod.case) blast
qed

lemma mutex_inv_local:
  assumes "mutex_inv (m, pc)" "mutex_local p m (pc p) = Some (m', c)"
  shows "mutex_inv (m', pc(p := c))"
proof (rule mutex_inv_move [OF assms(1)])
  have o: "owner (pc p) \<Longrightarrow> lockproc m = Some p" "pc p = Lock_own \<Longrightarrow> lockproc m = None"
    "inside (pc p) \<Longrightarrow> mlock m" by (rule mutex_invD [OF assms(1)]; assumption)+
  note d = assms(2) [unfolded mutex_steps_def]
  show "mlock m' \<and> (inside (pc p) \<or> \<not> mlock m)" if "inside c"
    using o(3) d that by (cases "pc p") (auto split: if_splits)
  show "mlock m'" if "\<not> inside (pc p)" "mlock m" using d that by (cases "pc p") auto
  show "lockproc m' = Some p" if "owner c" using d that o by (cases "pc p") (auto split: if_splits)
  show "lockproc m' = None" if "c = Lock_own" using d that o by (cases "pc p") (auto split: if_splits)
  show "inside (pc p) \<and> (lockproc m = None \<or> lockproc m = Some p)" if "lockproc m' \<noteq> lockproc m"
    using d that o by (cases "pc p") (auto split: if_splits)
qed

lemma mutex_inv_step: "mutex_step s s' \<Longrightarrow> mutex_inv s \<Longrightarrow> mutex_inv s'"
proof (induction rule: mutex_step.induct)
  case (local p m pc m' c)
  then show ?case by (rule mutex_inv_local [rotated])
next
  case (call_unlock pc p m)
  then show ?case using mutex_invD(3) [of m pc p] by (intro mutex_inv_move) auto
qed (erule mutex_inv_move; simp)+

lemma mutex_inv_signal: "mutex_signal s s' \<Longrightarrow> mutex_inv s \<Longrightarrow> mutex_inv s'"
  by (induction rule: mutex_signal.induct) (erule mutex_inv_move; simp)

lemma mutex_inv_reach: "mutex_reach s \<Longrightarrow> mutex_inv s"
  unfolding mutex_reach_def
proof (induction rule: rtranclp_induct)
  case base
  show ?case by (simp add: mutex_start_def mutex_inv_def mutex_new_def)
qed (auto intro: mutex_inv_step mutex_inv_signal)

text \<open>C22: whatever calls of \<open>lock\<close>, \<open>try_lock\<close> and \<open>unlock\<close> processes make, however their steps are
  interleaved and whichever of them are interrupted by signals, at most one process holds the mutex, and it is the
  one the mutex records.\<close>

theorem mutex_exclusion:
  assumes "mutex_reach (m, pc)" "pc p = Held" "pc q = Held"
  shows "p = q \<and> lockproc m = Some p"
  using mutex_invD(3) [OF mutex_inv_reach [OF assms(1)], of p] mutex_invD(3) [OF mutex_inv_reach [OF assms(1)], of q] assms(2,3)
  by simp

text \<open>A run given by the processes that take the steps, for examples.\<close>

datatype mutex_event = Call_lock nat | Call_unlock nat | Go nat | Signal nat

fun mutex_run :: "mutex_event list \<Rightarrow> mutex \<times> (nat \<Rightarrow> mpc) \<Rightarrow> (mutex \<times> (nat \<Rightarrow> mpc)) option" where
  "mutex_run [] s = Some s"
| "mutex_run (Call_lock p # es) (m, pc) = (if pc p = Out then mutex_run es (m, pc(p := Lock_enter)) else None)"
| "mutex_run (Call_unlock p # es) (m, pc) = (if pc p = Held then mutex_run es (m, pc(p := Unlock_enter True)) else None)"
| "mutex_run (Go p # es) (m, pc) =
     (case mutex_local p m (pc p) of None \<Rightarrow> None | Some (m', c) \<Rightarrow> mutex_run es (m', pc(p := c)))"
| "mutex_run (Signal p # es) (m, pc) =
     (if pc p = Lock_waiting then mutex_run es (m\<lparr>unlocked := removeAll p (unlocked m)\<rparr>, pc(p := Lock_relock True)) else None)"

lemma mutex_run_steps: "mutex_run es s = Some s' \<Longrightarrow> (\<lambda>a b. mutex_step a b \<or> mutex_signal a b)\<^sup>*\<^sup>* s s'"
proof (induction es s rule: mutex_run.induct)
  case (4 p es m pc)
  then obtain m' c where "mutex_local p m (pc p) = Some (m', c)" "mutex_run es (m', pc(p := c)) = Some s'"
    by (auto split: option.splits)
  then show ?case using 4(1) [of "(m', c)"] local [of p m pc m' c] by (auto intro: converse_rtranclp_into_rtranclp)
qed (auto split: if_splits intro: converse_rtranclp_into_rtranclp mutex_step.intros mutex_signal.intros)

lemma mutex_run_reach: "mutex_run es mutex_start = Some s \<Longrightarrow> mutex_reach s"
  by (simp add: mutex_reach_def mutex_run_steps)

theorem mutex_exclusion_witness:
  "\<exists>m pc. mutex_run [Call_lock 1, Go 1, Call_lock 2, Go 1, Go 1, Go 1] mutex_start = Some (m, pc) \<and> pc 1 = Held \<and> lockproc m = Some 1"
proof -
  let ?r = "mutex_run [Call_lock 1, Go 1, Call_lock 2, Go 1, Go 1, Go 1] mutex_start"
  have "\<exists>m pc. ?r = Some (m, pc) \<and> pc 1 = Held" by (simp add: mutex_start_def mutex_new_def mutex_steps_def)
  then obtain m pc where r: "?r = Some (m, pc)" "pc 1 = Held" by blast
  have "mutex_reach (m, pc)" using r(1) by (rule mutex_run_reach)
  from mutex_exclusion [OF this r(2) r(2)] show ?thesis using r by blast
qed

text \<open>C24: \<open>unlock\<close> never wakes a process that sleeps in \<open>lock\<close>. Such a process stays asleep through
  every step of every process, as long as no signal interrupts it, also when the mutex has been released and no other
  process wants it; and a run in which this happens exists.\<close>

theorem mutex_lost_wakeup:
  "(\<forall>s s' p. mutex_step\<^sup>*\<^sup>* s s' \<longrightarrow> snd s p = Lock_waiting \<longrightarrow> snd s' p = Lock_waiting) \<and>
   (\<exists>m pc. mutex_reach (m, pc) \<and> pc 2 = Lock_waiting \<and> (\<forall>p. p \<noteq> 2 \<longrightarrow> pc p = Out) \<and> lockproc m = None \<and> \<not> mlock m)"
proof (intro conjI allI impI)
  fix s s' :: "mutex \<times> (nat \<Rightarrow> mpc)" and p
  have one: "snd b p = Lock_waiting" if "mutex_step a b" "snd a p = Lock_waiting" for a b
    using that
  proof (induction rule: mutex_step.induct)
    case (local q m pc m' c)
    then show ?case by (cases "q = p") (auto simp: mutex_steps_def)
  qed auto
  show "mutex_step\<^sup>*\<^sup>* s s' \<Longrightarrow> snd s p = Lock_waiting \<Longrightarrow> snd s' p = Lock_waiting"
    by (induction rule: rtranclp_induct) (auto dest: one)
next
  let ?r = "mutex_run [Call_lock 1, Go 1, Go 1, Go 1, Go 1, Call_lock 2, Go 2, Go 2, Call_unlock 1, Go 1, Go 1, Go 1, Go 1] mutex_start"
  have "\<exists>m pc. ?r = Some (m, pc) \<and> pc 2 = Lock_waiting \<and> (\<forall>p. p \<noteq> 2 \<longrightarrow> pc p = Out) \<and> lockproc m = None \<and> \<not> mlock m"
    by (simp add: mutex_start_def mutex_new_def mutex_steps_def)
  then show "\<exists>m pc. mutex_reach (m, pc) \<and> pc 2 = Lock_waiting \<and> (\<forall>p. p \<noteq> 2 \<longrightarrow> pc p = Out) \<and> lockproc m = None \<and> \<not> mlock m"
    using mutex_run_reach by blast
qed

theorem mutex_lost_wakeup_witness: "\<exists>m pc. mutex_reach (m, pc) \<and> pc 2 = Lock_waiting \<and> lockproc m = None"
  using mutex_lost_wakeup by blast

text \<open>Once the spinlock is taken and nobody is past it, nobody ever gets past it.\<close>

definition mutex_later :: "(mutex \<times> (nat \<Rightarrow> mpc)) \<Rightarrow> (mutex \<times> (nat \<Rightarrow> mpc)) \<Rightarrow> bool" where
  "mutex_later = (\<lambda>a b. mutex_step a b \<or> mutex_signal a b)\<^sup>*\<^sup>*"

definition mutex_stuck :: "(mutex \<times> (nat \<Rightarrow> mpc)) \<Rightarrow> bool" where
  "mutex_stuck s \<longleftrightarrow> mlock (fst s) \<and> range (snd s) \<subseteq> {Out, Lock_enter, Try_enter, Unlock_enter False}"

lemma mutex_stuck_pc: "mutex_stuck s \<Longrightarrow> snd s p \<in> {Out, Lock_enter, Try_enter, Unlock_enter False}"
  by (auto simp: mutex_stuck_def)

lemma mutex_stuck_local: "mutex_stuck (m, pc) \<Longrightarrow> mutex_local p m (pc p) = None"
  using mutex_stuck_pc [of "(m, pc)" p] by (auto simp: mutex_stuck_def mutex_steps_def)

lemma mutex_stuck_step: "mutex_step a b \<Longrightarrow> mutex_stuck a \<Longrightarrow> mutex_stuck b"
proof (induction rule: mutex_step.induct)
  case (local p m pc m' c)
  then show ?case using mutex_stuck_local by simp
next
  case (call_unlock pc p m)
  then show ?case using mutex_stuck_pc [of "(m, pc)" p] by simp
qed (auto simp: mutex_stuck_def)

lemma mutex_stuck_signal: "mutex_signal a b \<Longrightarrow> \<not> mutex_stuck a"
proof (induction rule: mutex_signal.induct)
  case (1 pc p m)
  then show ?case using mutex_stuck_pc [of "(m, pc)" p] by auto
qed

lemma mutex_stuck_later: "mutex_later s s' \<Longrightarrow> mutex_stuck s \<Longrightarrow> mutex_stuck s'"
  unfolding mutex_later_def
  by (induction rule: rtranclp_induct) (blast dest: mutex_stuck_step mutex_stuck_signal)+

text \<open>\<open>lock\<close> returns without releasing the spinlock when its sleep is interrupted: there is a run
  after which no process is in a call and the spinlock is taken, and then no call on the mutex ever gets past it.\<close>

theorem mutex_interrupt_leak:
  "\<exists>m. mutex_reach (m, \<lambda>_. Out) \<and> mlock m \<and> \<not> (\<exists>s'. mutex_later (m, \<lambda>_. Out) s' \<and> \<not> mlock (fst s')) \<and>
     \<not> (\<exists>s' p. mutex_later (m, \<lambda>_. Out) s' \<and> snd s' p = Held)"
proof -
  let ?r = "mutex_run [Call_lock 1, Go 1, Go 1, Go 1, Go 1, Call_lock 2, Go 2, Go 2, Call_unlock 1, Go 1, Go 1, Go 1, Go 1,
    Signal 2, Go 2, Go 2] mutex_start"
  have "\<exists>m. ?r = Some (m, \<lambda>_. Out) \<and> mlock m"
    by (simp add: mutex_start_def mutex_new_def mutex_steps_def fun_eq_iff)
  then obtain m where m: "mutex_reach (m, \<lambda>_. Out)" "mlock m" using mutex_run_reach by blast
  then have "mutex_stuck (m, \<lambda>_. Out)" by (simp add: mutex_stuck_def)
  then have later: "mutex_later (m, \<lambda>_. Out) s' \<Longrightarrow> mutex_stuck s'" for s' using mutex_stuck_later by blast
  have "mlock (fst s') \<and> snd s' p \<noteq> Held" if "mutex_later (m, \<lambda>_. Out) s'" for s' p
    using later [OF that] mutex_stuck_pc [OF later [OF that], of p] by (auto simp: mutex_stuck_def)
  then show ?thesis using m by blast
qed

section \<open>Semaphore\<close>

record sem =
  scount :: u32
  smax :: u32
  slock :: bool
  notmax :: "nat list"
  notmin :: "nat list"

definition sem_new :: "u32 \<Rightarrow> u32 \<Rightarrow> sem" where
  "sem_new val maxval = \<lparr>scount = val, smax = maxval, slock = False, notmax = [], notmin = []\<rparr>"

text \<open>\<open>up\<close> is \<open>True\<close>, \<open>down\<close> is \<open>False\<close>; the second flag is set for the variants that do not wait.\<close>

datatype spc =
    Sem_out | Sem_enter bool bool | Sem_test bool bool | Sem_change bool | Sem_wake bool | Sem_leave
  | Sem_busy | Sem_waiting bool | Sem_relock bool bool | Sem_failed

definition sem_blocked :: "bool \<Rightarrow> sem \<Rightarrow> bool" where
  "sem_blocked up s = (if up then smax s \<le> scount s else scount s \<le> 0)"

definition sem_wait :: "bool \<Rightarrow> nat \<Rightarrow> sem \<Rightarrow> sem" where
  "sem_wait up p s =
     (if up then s\<lparr>notmax := p # notmax s, slock := spin_unlock (slock s)\<rparr>
      else s\<lparr>notmin := p # notmin s, slock := spin_unlock (slock s)\<rparr>)"

definition sem_count :: "bool \<Rightarrow> sem \<Rightarrow> sem" where
  "sem_count up s = s\<lparr>scount := (if up then scount s + 1 else scount s - 1)\<rparr>"

text \<open>One step: the semaphore, the state of the caller, and the processes it wakes.\<close>

definition sem_local :: "nat \<Rightarrow> sem \<Rightarrow> spc \<Rightarrow> (sem \<times> spc \<times> nat list) option" where
  "sem_local p s c =
     (case c of
        Sem_enter up nowait \<Rightarrow> map_option (\<lambda>l. (s\<lparr>slock := l\<rparr>, Sem_test up nowait, [])) (spin_lock (slock s))
      | Sem_test up nowait \<Rightarrow>
          (if sem_blocked up s then
             if nowait then Some (s, Sem_busy, []) else Some (sem_wait up p s, Sem_waiting up, [])
           else Some (s, Sem_change up, []))
      | Sem_change up \<Rightarrow> Some (sem_count up s, Sem_wake up, [])
      | Sem_wake up \<Rightarrow>
          (if up then Some (s\<lparr>notmin := []\<rparr>, Sem_leave, notmin s) else Some (s\<lparr>notmax := []\<rparr>, Sem_leave, notmax s))
      | Sem_leave \<Rightarrow> Some (s\<lparr>slock := spin_unlock (slock s)\<rparr>, Sem_out, [])
      | Sem_busy \<Rightarrow> Some (s\<lparr>slock := spin_unlock (slock s)\<rparr>, Sem_out, [])
      | Sem_relock up intr \<Rightarrow>
          map_option (\<lambda>l. (s\<lparr>slock := l\<rparr>, if intr then Sem_failed else Sem_test up False, [])) (spin_lock (slock s))
      | Sem_failed \<Rightarrow> Some (s, Sem_out, [])
      | _ \<Rightarrow> None)"

text \<open>A process that is woken leaves its queue and goes on to take the spinlock again.\<close>

definition woken :: "nat list \<Rightarrow> (nat \<Rightarrow> spc) \<Rightarrow> nat \<Rightarrow> spc" where
  "woken ws pc q = (if q \<in> set ws then (case pc q of Sem_waiting up \<Rightarrow> Sem_relock up False | c \<Rightarrow> c) else pc q)"

text \<open>The state counts the completed \<open>up\<close> and \<open>down\<close> operations.\<close>

record sem_state =
  the_sem :: sem
  spcs :: "nat \<Rightarrow> spc"
  ups :: nat
  downs :: nat

definition sem_after :: "nat \<Rightarrow> sem \<times> spc \<times> nat list \<Rightarrow> sem_state \<Rightarrow> sem_state" where
  "sem_after p r g =
     (case r of (s, c, ws) \<Rightarrow>
        g\<lparr>the_sem := s, spcs := (woken ws (spcs g))(p := c),
          ups := ups g + (if spcs g p = Sem_change True then 1 else 0),
          downs := downs g + (if spcs g p = Sem_change False then 1 else 0)\<rparr>)"

inductive sem_step :: "sem_state \<Rightarrow> sem_state \<Rightarrow> bool" where
  sem_call: "spcs g p = Sem_out \<Longrightarrow> sem_step g (g\<lparr>spcs := (spcs g)(p := Sem_enter up nowait)\<rparr>)"
| sem_go: "sem_local p (the_sem g) (spcs g p) = Some r \<Longrightarrow> sem_step g (sem_after p r g)"
| sem_signal: "spcs g p = Sem_waiting up \<Longrightarrow>
    sem_step g (g\<lparr>the_sem := (the_sem g)\<lparr>notmax := removeAll p (notmax (the_sem g)), notmin := removeAll p (notmin (the_sem g))\<rparr>,
      spcs := (spcs g)(p := Sem_relock up True)\<rparr>)"

definition sem_start :: "u32 \<Rightarrow> u32 \<Rightarrow> sem_state" where
  "sem_start val maxval = \<lparr>the_sem = sem_new val maxval, spcs = (\<lambda>_. Sem_out), ups = 0, downs = 0\<rparr>"

fun sem_inside :: "spc \<Rightarrow> bool" where
  "sem_inside (Sem_test up nowait) = True" | "sem_inside (Sem_change up) = True" | "sem_inside (Sem_wake up) = True"
| "sem_inside Sem_leave = True" | "sem_inside Sem_busy = True" | "sem_inside Sem_failed = True"
| "sem_inside c = False"

definition sem_inv :: "nat \<Rightarrow> u32 \<Rightarrow> sem_state \<Rightarrow> bool" where
  "sem_inv n M g \<longleftrightarrow>
     (\<forall>p. sem_inside (spcs g p) \<longrightarrow> slock (the_sem g)) \<and>
     (\<forall>p q. sem_inside (spcs g p) \<longrightarrow> sem_inside (spcs g q) \<longrightarrow> p = q) \<and>
     (\<forall>p up. spcs g p = Sem_change up \<longrightarrow> \<not> sem_blocked up (the_sem g)) \<and>
     smax (the_sem g) = M \<and> scount (the_sem g) \<le> M \<and> unat (scount (the_sem g)) + downs g = n + ups g"

lemma sem_inside_woken [simp]: "sem_inside (woken ws pc q) = sem_inside (pc q)"
  by (auto simp: woken_def split: spc.splits)

lemma woken_change [simp]: "woken ws pc q = Sem_change up \<longleftrightarrow> pc q = Sem_change up"
  by (auto simp: woken_def split: spc.splits)

lemma sem_invD:
  assumes "sem_inv n M g"
  shows "sem_inside (spcs g p) \<Longrightarrow> slock (the_sem g)" "sem_inside (spcs g p) \<Longrightarrow> sem_inside (spcs g q) \<Longrightarrow> p = q"
    "spcs g p = Sem_change up \<Longrightarrow> \<not> sem_blocked up (the_sem g)"
    "smax (the_sem g) = M" "scount (the_sem g) \<le> M" "unat (scount (the_sem g)) + downs g = n + ups g"
  using assms unfolding sem_inv_def by blast+

lemma sem_inv_upd:
  "sem_inv n M (g\<lparr>the_sem := s, spcs := pc, ups := u, downs := d\<rparr>) \<longleftrightarrow>
     (\<forall>q. sem_inside (pc q) \<longrightarrow> slock s) \<and> (\<forall>q r. sem_inside (pc q) \<longrightarrow> sem_inside (pc r) \<longrightarrow> q = r) \<and>
     (\<forall>q up. pc q = Sem_change up \<longrightarrow> \<not> sem_blocked up s) \<and> smax s = M \<and> scount s \<le> M \<and> unat (scount s) + d = n + u"
  by (simp add: sem_inv_def)

text \<open>What a step of \<open>p\<close> may do.\<close>

lemma sem_inv_move:
  assumes "sem_inv n M g"
    and "sem_inside c \<Longrightarrow> slock s \<and> (sem_inside (spcs g p) \<or> \<not> slock (the_sem g))"
    and "\<not> sem_inside (spcs g p) \<Longrightarrow> slock (the_sem g) \<Longrightarrow> slock s"
    and "\<And>up. c = Sem_change up \<Longrightarrow> \<not> sem_blocked up s" "smax s = M" "scount s \<le> M"
    and "\<not> sem_inside (spcs g p) \<Longrightarrow> scount s = scount (the_sem g)" "unat (scount s) + d = n + u"
  shows "sem_inv n M (g\<lparr>the_sem := s, spcs := (woken ws (spcs g))(p := c), ups := u, downs := d\<rparr>)"
proof -
  note i = sem_invD [OF assms(1)]
  let ?pc = "(woken ws (spcs g))(p := c)"
  have "slock s" if "sem_inside (?pc q)" for q
    using that assms(2,3) i(1) [of q] i(2) [of p q] by (cases "q = p") auto
  moreover have "q = r" if "sem_inside (?pc q)" "sem_inside (?pc r)" for q r
    using that assms(2) i(1) [of q] i(1) [of r] i(2) [of q r] i(2) [of p q] i(2) [of p r] by (cases "q = p"; cases "r = p") auto
  moreover have "\<not> sem_blocked up s" if "?pc q = Sem_change up" for q up
  proof (cases "q = p")
    case False
    then have q: "spcs g q = Sem_change up" using that by simp
    then have "\<not> sem_inside (spcs g p)" using False i(2) [of q p] by auto
    then have "sem_blocked up s = sem_blocked up (the_sem g)" using i(4) assms(5,7) by (simp add: sem_blocked_def)
    then show ?thesis using i(3) [OF q] by simp
  next
    case True
    then show ?thesis using that assms(4) [of up] by simp
  qed
  ultimately have "(\<forall>q. sem_inside (?pc q) \<longrightarrow> slock s) \<and> (\<forall>q r. sem_inside (?pc q) \<longrightarrow> sem_inside (?pc r) \<longrightarrow> q = r) \<and>
      (\<forall>q up. ?pc q = Sem_change up \<longrightarrow> \<not> sem_blocked up s) \<and> smax s = M \<and> scount s \<le> M \<and> unat (scount s) + d = n + u"
    using assms(5,6,8) by blast
  then show ?thesis unfolding sem_inv_upd .
qed

lemma word_less_Suc: "a < b \<Longrightarrow> unat (a + 1) = Suc (unat a)" for a b :: u32
  using unat_u32_lt [of b] unat_add_lem [of a 1] by (auto simp: word_less_nat_alt)

lemma sem_inv_local:
  assumes "sem_inv n M g" "sem_local p (the_sem g) (spcs g p) = Some r"
  shows "sem_inv n M (sem_after p r g)"
proof -
  obtain s c ws where r: "r = (s, c, ws)" by (cases r)
  note i = sem_invD [OF assms(1)]
  note d = assms(2) [unfolded r sem_local_def spin_lock_def spin_unlock_def test_and_set_def]
  let ?u = "ups g + (if spcs g p = Sem_change True then 1 else 0)"
  let ?d = "downs g + (if spcs g p = Sem_change False then 1 else 0)"
  have max: "smax s = M" using d i(4) by (cases "spcs g p") (auto simp: sem_wait_def sem_count_def split: if_splits)
  have cnt: "scount s = (case spcs g p of Sem_change up \<Rightarrow> if up then scount (the_sem g) + 1 else scount (the_sem g) - 1 | _ \<Rightarrow> scount (the_sem g))"
    using d by (cases "spcs g p") (auto simp: sem_wait_def sem_count_def split: if_splits)
  have chg: "scount (the_sem g) < M" if "spcs g p = Sem_change True" using i(3) [OF that] i(4) by (auto simp: sem_blocked_def)
  have chg': "scount (the_sem g) \<noteq> 0" if "spcs g p = Sem_change False" using i(3) [OF that] by (auto simp: sem_blocked_def)
  have "sem_inv n M (g\<lparr>the_sem := s, spcs := (woken ws (spcs g))(p := c), ups := ?u, downs := ?d\<rparr>)"
  proof (rule sem_inv_move [OF assms(1)])
    show "slock s \<and> (sem_inside (spcs g p) \<or> \<not> slock (the_sem g))" if "sem_inside c"
      using d that i(1) [of p] by (cases "spcs g p") (auto simp: sem_wait_def sem_count_def split: if_splits)
    show "slock s" if "\<not> sem_inside (spcs g p)" "slock (the_sem g)" using d that by (cases "spcs g p") auto
    show "\<not> sem_blocked up s" if "c = Sem_change up" for up
      using d that by (cases "spcs g p") (auto split: if_splits)
    show "smax s = M" by (rule max)
    show "scount s \<le> M"
    proof (cases "spcs g p = Sem_change True")
      case True
      then show ?thesis using cnt chg by (simp add: inc_le)
    next
      case False
      then show ?thesis using cnt i(5) chg' by (cases "spcs g p") (auto split: if_splits simp: word_le_nat_alt unat_minus_one)
    qed
    show "scount s = scount (the_sem g)" if "\<not> sem_inside (spcs g p)" using cnt that by (cases "spcs g p") auto
    show "unat (scount s) + ?d = n + ?u"
    proof (cases "spcs g p")
      case (Sem_change up)
      then show ?thesis
      proof (cases up)
        case True
        then have "unat (scount s) = Suc (unat (scount (the_sem g)))"
          using cnt chg Sem_change word_less_Suc [of "scount (the_sem g)" M] by simp
        then show ?thesis using i(6) Sem_change True by simp
      next
        case False
        then have "Suc (unat (scount s)) = unat (scount (the_sem g))"
          using cnt chg' Sem_change by (auto simp: unat_minus_one unat_gt_0)
        then show ?thesis using i(6) Sem_change False by simp
      qed
    qed (use cnt i(6) in auto)
  qed
  then show ?thesis by (simp add: sem_after_def r)
qed

lemma sem_inv_step: "sem_step g g' \<Longrightarrow> sem_inv n M g \<Longrightarrow> sem_inv n M g'"
proof (induction rule: sem_step.induct)
  case (sem_call g p up nowait)
  have w: "woken [] (spcs g) = spcs g" by (simp add: woken_def fun_eq_iff)
  have "sem_inv n M (g\<lparr>the_sem := the_sem g, spcs := (woken [] (spcs g))(p := Sem_enter up nowait), ups := ups g, downs := downs g\<rparr>)"
    using sem_invD(4-6) [OF sem_call.prems] by (intro sem_inv_move [OF sem_call.prems]) auto
  then show ?case by (simp add: w)
next
  case (sem_go p g r)
  then show ?case by (intro sem_inv_local)
next
  case (sem_signal g p up)
  let ?s = "(the_sem g)\<lparr>notmax := removeAll p (notmax (the_sem g)), notmin := removeAll p (notmin (the_sem g))\<rparr>"
  have w: "woken [] (spcs g) = spcs g" by (simp add: woken_def fun_eq_iff)
  have "sem_inv n M (g\<lparr>the_sem := ?s, spcs := (woken [] (spcs g))(p := Sem_relock up True), ups := ups g, downs := downs g\<rparr>)"
    using sem_invD(4-6) [OF sem_signal.prems] by (intro sem_inv_move [OF sem_signal.prems]) auto
  then show ?case by (simp add: w)
qed

text \<open>C23: through every interleaving of \<open>up\<close>, \<open>down\<close> and their variants that do not wait, with signals, the count
  of a semaphore is its first value plus the completed \<open>up\<close> less the completed \<open>down\<close> operations; it never exceeds
  the maximum and never wraps around.\<close>

theorem semaphore_counts:
  assumes "sem_step\<^sup>*\<^sup>* (sem_start val maxval) g" "val \<le> maxval"
  shows "int (unat (scount (the_sem g))) = int (unat val) + int (ups g) - int (downs g) \<and> scount (the_sem g) \<le> maxval"
proof -
  have "sem_inv (unat val) maxval g"
    using assms(1)
  proof (induction rule: rtranclp_induct)
    case base
    then show ?case using assms(2) by (simp add: sem_start_def sem_inv_def sem_new_def)
  qed (rule sem_inv_step)
  then have "scount (the_sem g) \<le> maxval" "unat (scount (the_sem g)) + downs g = unat val + ups g" by (rule sem_invD)+
  then show ?thesis by linarith
qed

lemma sem_go_example:
  "sem_local p (the_sem g) (spcs g p) = Some r \<Longrightarrow> sem_step\<^sup>*\<^sup>* (sem_after p r g) g' \<Longrightarrow> sem_step\<^sup>*\<^sup>* g g'"
  by (meson sem_go converse_rtranclp_into_rtranclp)

theorem semaphore_counts_witness:
  "\<exists>g. sem_step\<^sup>*\<^sup>* (sem_start 0 5) g \<and> ups g = 1 \<and> int (unat (scount (the_sem g))) = 1"
proof -
  let ?g = "(sem_start 0 5)\<lparr>spcs := (\<lambda>_. Sem_out)(1 := Sem_enter True False)\<rparr>"
  have "sem_step (sem_start 0 5) ?g" using sem_call [of "sem_start 0 5" 1 True False] by (simp add: sem_start_def)
  moreover have "\<exists>g. sem_step\<^sup>*\<^sup>* ?g g \<and> ups g = 1 \<and> downs g = 0"
    by (intro exI conjI, rule sem_go_example [of 1], simp add: sem_local_def sem_start_def sem_new_def spin_lock_def test_and_set_def,
        rule sem_go_example [of 1], simp add: sem_local_def sem_after_def sem_start_def sem_new_def sem_blocked_def,
        rule sem_go_example [of 1], simp add: sem_local_def sem_after_def, rule rtranclp.rtrancl_refl)
      (simp_all add: sem_after_def sem_start_def)
  ultimately obtain g where g: "sem_step\<^sup>*\<^sup>* (sem_start 0 5) g" "ups g = 1" "downs g = 0"
    by (meson converse_rtranclp_into_rtranclp)
  then show ?thesis using semaphore_counts [OF g(1)] by auto
qed

end
