(* ===== verification/Keyboard.thy ===== *)
theory Keyboard
  imports KString
begin

text \<open>
  The keyboard driver, \<open>kernel/devices/keyboard.cpp\<close>: the translation of scan codes, the modifiers and the ring buffer
  between the interrupt handler and \<open>getch\<close>. The buffer refines a queue of bounded length, an interface that is
  stated as a locale.
\<close>

section \<open>Tables\<close>

definition kbdus :: "u8 list" where
  "kbdus =
     [0, 27, 49, 50, 51, 52, 53, 54, 55, 56, 57, 48, 45, 61, 8, 9, 113, 119, 101, 114, 116, 121, 117, 105, 111, 112, 91, 93, 10,
      0, 97, 115, 100, 102, 103, 104, 106, 107, 108, 59, 39, 96, 0, 92, 122, 120, 99, 118, 98, 110, 109, 44, 46, 47, 0, 42, 0, 32,
      0, 0, 0, 0, 0, 0, 0, 0, 0, 0, 0, 0, 0, 0, 0, 0, 45, 0, 0, 0, 43] @ replicate 49 0"

definition KEY_CNTRL :: u8 where "KEY_CNTRL = 0x1D"
definition KEY_LSHIFT :: u8 where "KEY_LSHIFT = 0x2A"
definition KEY_RSHIFT :: u8 where "KEY_RSHIFT = 0x36"
definition KEY_ALT :: u8 where "KEY_ALT = 0x38"

text \<open>The assignments of \<open>init\<close> to \<open>shift_table\<close>, in order.\<close>

definition shift_pairs :: "(nat \<times> u8) list" where
  "shift_pairs =
     [(49, 33), (50, 64), (51, 35), (52, 36), (53, 37), (54, 94), (55, 38), (56, 42), (57, 40), (48, 41), (96, 126), (45, 95),
      (61, 43), (91, 123), (93, 125), (92, 124), (59, 58), (39, 34), (44, 60), (46, 62), (47, 63)]"

definition shift_table :: "u8 list" where
  "shift_table =
     fold (\<lambda>(i, c) t. t[i := c]) shift_pairs
       (fold (\<lambda>i t. t[i + 97 := of_nat (i + 65)]) [0 ..< 26] (map of_nat [0 ..< 128]))"

section \<open>The driver\<close>

record kbd =
  kbuffer :: "u8 list"
  buffer_begin :: nat
  buffer_end :: nat
  mod_ctrl :: bool
  mod_alt :: bool
  mod_lshift :: bool
  mod_rshift :: bool

definition BUFFER_SIZE :: nat where "BUFFER_SIZE = 4096"

definition kbd_new :: kbd where
  "kbd_new = \<lparr>kbuffer = replicate BUFFER_SIZE 0, buffer_begin = 0, buffer_end = 0,
     mod_ctrl = False, mod_alt = False, mod_lshift = False, mod_rshift = False\<rparr>"

definition kbd_full :: "kbd \<Rightarrow> bool" where
  "kbd_full k \<longleftrightarrow> (buffer_end k + 1) mod BUFFER_SIZE = buffer_begin k"

text \<open>A modifier key is pressed or released; the flag is \<open>False\<close> for other keys.\<close>

definition set_modifier :: "u8 \<Rightarrow> bool \<Rightarrow> kbd \<Rightarrow> bool \<times> kbd" where
  "set_modifier sc v k =
     (if sc = KEY_CNTRL then (True, k\<lparr>mod_ctrl := v\<rparr>)
      else if sc = KEY_ALT then (True, k\<lparr>mod_alt := v\<rparr>)
      else if sc = KEY_LSHIFT then (True, k\<lparr>mod_lshift := v\<rparr>)
      else if sc = KEY_RSHIFT then (True, k\<lparr>mod_rshift := v\<rparr>)
      else (False, k))"

definition kbd_char :: "u8 \<Rightarrow> kbd \<Rightarrow> u8" where
  "kbd_char sc k =
     (let c = kbdus ! unat sc in if mod_lshift k \<or> mod_rshift k then shift_table ! unat c else c)"

definition kbd_put :: "u8 \<Rightarrow> kbd \<Rightarrow> kbd" where
  "kbd_put c k =
     k\<lparr>kbuffer := (kbuffer k)[buffer_end k := c], buffer_end := (buffer_end k + 1) mod BUFFER_SIZE\<rparr>"

text \<open>\<open>read_scancode\<close>, where \<open>sc\<close> is what port \<open>0x60\<close> holds: the character it passes to the console, if any, and the
  driver; the processes waiting for input are woken when a character was stored.\<close>

definition read_scancode :: "u8 \<Rightarrow> kbd \<Rightarrow> u8 option \<times> bool \<times> kbd" where
  "read_scancode sc k =
     (if kbd_full k then (None, False, k)
      else if bit sc 7 then (None, False, snd (set_modifier (sc AND 0x7f) False k))
      else case set_modifier sc True k of
             (True, k') \<Rightarrow> (None, False, k')
           | (False, k') \<Rightarrow>
               let c = kbd_char sc k
               in (Some c, c \<noteq> 0, if c \<noteq> 0 then kbd_put c k else k))"

text \<open>\<open>getch\<close> when it does not have to wait.\<close>

definition getch :: "kbd \<Rightarrow> (u8 \<times> kbd) option" where
  "getch k =
     (if buffer_begin k = buffer_end k then None
      else Some (kbuffer k ! buffer_begin k, k\<lparr>buffer_begin := (buffer_begin k + 1) mod BUFFER_SIZE\<rparr>))"

section \<open>The buffer is a queue\<close>

text \<open>Taking \<open>n\<close> elements.\<close>

fun gets :: "('s \<Rightarrow> ('a \<times> 's) option) \<Rightarrow> nat \<Rightarrow> 's \<Rightarrow> ('a list \<times> 's) option" where
  "gets get 0 s = Some ([], s)"
| "gets get (Suc n) s = (case get s of None \<Rightarrow> None | Some (x, s') \<Rightarrow> map_option (\<lambda>(xs, t). (x # xs, t)) (gets get n s'))"

locale bounded_queue =
  fixes holds :: "'s \<Rightarrow> 'a list \<Rightarrow> bool"
    and put :: "'a \<Rightarrow> 's \<Rightarrow> 's"
    and get :: "'s \<Rightarrow> ('a \<times> 's) option"
    and cap :: nat
  assumes put_holds: "holds s xs \<Longrightarrow> length xs < cap \<Longrightarrow> holds (put x s) (xs @ [x])"
    and get_empty: "holds s [] \<Longrightarrow> get s = None"
    and get_holds: "holds s (x # xs) \<Longrightarrow> \<exists>s'. get s = Some (x, s') \<and> holds s' xs"
begin

lemma puts_holds: "holds s xs \<Longrightarrow> length xs + length ys \<le> cap \<Longrightarrow> holds (fold put ys s) (xs @ ys)"
proof (induction ys arbitrary: s xs)
  case (Cons y ys)
  then show ?case using Cons.IH [OF put_holds [of s xs y]] by simp
qed simp

lemma gets_holds: "holds s (xs @ ys) \<Longrightarrow> \<exists>s'. gets get (length xs) s = Some (xs, s') \<and> holds s' ys"
proof (induction xs arbitrary: s)
  case (Cons x xs)
  then show ?case using get_holds [of s x "xs @ ys"] by fastforce
qed simp

lemma fifo:
  assumes "holds s []" "length ys \<le> cap"
  shows "\<exists>s'. gets get (length ys) (fold put ys s) = Some (ys, s') \<and> holds s' []"
  using gets_holds [of "fold put ys s" ys "[]"] puts_holds [OF assms(1)] assms(2) by simp

end

text \<open>The driver holds \<open>xs\<close>: the elements lie from \<open>buffer_begin\<close> on, around the end of the array.\<close>

definition kbd_holds :: "kbd \<Rightarrow> u8 list \<Rightarrow> bool" where
  "kbd_holds k xs \<longleftrightarrow> length (kbuffer k) = BUFFER_SIZE \<and> buffer_begin k < BUFFER_SIZE \<and> length xs < BUFFER_SIZE \<and>
     buffer_end k = (buffer_begin k + length xs) mod BUFFER_SIZE \<and>
     (\<forall>i < length xs. kbuffer k ! ((buffer_begin k + i) mod BUFFER_SIZE) = xs ! i)"

lemma add_mod_inj: "b < n \<Longrightarrow> i < n \<Longrightarrow> j < n \<Longrightarrow> (b + i) mod n = (b + j) mod n \<longleftrightarrow> i = j" for b i j n :: nat
  by (cases "b + i < n"; cases "b + j < n") (auto simp: mod_if)

interpretation keyq: bounded_queue kbd_holds kbd_put getch "BUFFER_SIZE - 1"
proof
  fix k xs x
  assume h: "kbd_holds k xs" "length xs < BUFFER_SIZE - 1"
  have "kbuffer (kbd_put x k) ! ((buffer_begin k + i) mod BUFFER_SIZE) = (xs @ [x]) ! i" if i: "i < length (xs @ [x])" for i
  proof (cases "i = length xs")
    case True
    then show ?thesis using h by (simp add: kbd_put_def kbd_holds_def)
  next
    case False
    then have "(buffer_begin k + i) mod BUFFER_SIZE \<noteq> buffer_end k" using h i by (simp add: kbd_holds_def add_mod_inj)
    then show ?thesis using h i False by (simp add: kbd_put_def kbd_holds_def nth_append)
  qed
  then show "kbd_holds (kbd_put x k) (xs @ [x])" using h by (auto simp: kbd_holds_def kbd_put_def mod_Suc_eq)
next
  fix k x xs
  show "kbd_holds k [] \<Longrightarrow> getch k = None" by (auto simp: kbd_holds_def getch_def)
  assume h: "kbd_holds k (x # xs)"
  let ?k = "k\<lparr>buffer_begin := (buffer_begin k + 1) mod BUFFER_SIZE\<rparr>"
  have "(buffer_begin k + Suc (length xs)) mod BUFFER_SIZE \<noteq> (buffer_begin k + 0) mod BUFFER_SIZE"
    using h by (subst add_mod_inj) (auto simp: kbd_holds_def)
  then have "getch k = Some (x, ?k)" using h by (fastforce simp: getch_def kbd_holds_def)
  moreover have "kbuffer k ! (((buffer_begin k + 1) mod BUFFER_SIZE + i) mod BUFFER_SIZE) = xs ! i" if "i < length xs" for i
  proof -
    have "((buffer_begin k + 1) mod BUFFER_SIZE + i) mod BUFFER_SIZE = (buffer_begin k + Suc i) mod BUFFER_SIZE" by (simp add: mod_add_left_eq)
    then show ?thesis using h that by (auto simp: kbd_holds_def)
  qed
  then have "kbd_holds ?k xs" using h by (simp add: kbd_holds_def mod_add_left_eq BUFFER_SIZE_def)
  ultimately show "\<exists>k'. getch k = Some (x, k') \<and> kbd_holds k' xs" by blast
qed

lemma kbd_full_iff:
  assumes "kbd_holds k xs"
  shows "kbd_full k \<longleftrightarrow> length xs = BUFFER_SIZE - 1"
proof -
  have b: "buffer_begin k < BUFFER_SIZE" "length xs < BUFFER_SIZE" "buffer_end k = (buffer_begin k + length xs) mod BUFFER_SIZE"
    using assms by (auto simp: kbd_holds_def)
  have "kbd_full k \<longleftrightarrow> (buffer_begin k + Suc (length xs)) mod BUFFER_SIZE = buffer_begin k"
    using b(3) by (simp add: kbd_full_def mod_Suc_eq)
  also have "\<dots> \<longleftrightarrow> length xs = BUFFER_SIZE - 1"
  proof (cases "length xs = BUFFER_SIZE - 1")
    case True
    then show ?thesis using b by (simp add: BUFFER_SIZE_def)
  next
    case False
    then have "Suc (length xs) < BUFFER_SIZE" using b(2) by simp
    then show ?thesis using add_mod_inj [OF b(1), of "Suc (length xs)" 0] False b(1) by simp
  qed
  finally show ?thesis .
qed

section \<open>Properties\<close>

text \<open>The character a scan code stands for; \<open>0\<close> for a release, a modifier and keys without one.\<close>

definition key_char :: "u8 \<Rightarrow> kbd \<Rightarrow> u8" where
  "key_char sc k = (if bit sc 7 \<or> sc \<in> {KEY_CNTRL, KEY_ALT, KEY_LSHIFT, KEY_RSHIFT} then 0 else kbd_char sc k)"

lemma set_modifier_holds: "kbd_holds (snd (set_modifier sc v k)) xs = kbd_holds k xs"
  by (simp add: set_modifier_def kbd_holds_def)

lemma read_scancode_holds:
  assumes "kbd_holds k xs"
  shows "kbd_holds (snd (snd (read_scancode sc k)))
    (if length xs = BUFFER_SIZE - 1 \<or> key_char sc k = 0 then xs else xs @ [key_char sc k])"
proof (cases "kbd_full k")
  case False
  then have "length xs < BUFFER_SIZE - 1" using assms kbd_full_iff [OF assms] by (auto simp: kbd_holds_def)
  note put = keyq.put_holds [OF assms this] and room = this
  show ?thesis
  proof (cases "bit sc 7 \<or> sc \<in> {KEY_CNTRL, KEY_ALT, KEY_LSHIFT, KEY_RSHIFT}")
    case True
    then have "kbd_holds (snd (snd (read_scancode sc k))) xs"
      using assms False set_modifier_holds [of "sc AND 0x7f" False k xs] by (auto simp: read_scancode_def set_modifier_def kbd_holds_def)
    then show ?thesis using True by (simp add: key_char_def)
  next
    case other: False
    then have "set_modifier sc True k = (False, k)" by (simp add: set_modifier_def)
    then have "snd (snd (read_scancode sc k)) = (if kbd_char sc k \<noteq> 0 then kbd_put (kbd_char sc k) k else k)"
      using False other by (simp add: read_scancode_def Let_def)
    then show ?thesis using other put assms room by (simp add: key_char_def)
  qed
qed (use assms kbd_full_iff [OF assms] in \<open>simp add: read_scancode_def\<close>)

text \<open>C36: the keyboard driver is a queue of at most 4095 characters. \<open>getch\<close> waits when it is empty and else
  takes the first one; an interrupt appends the character of its scan code, if it has one and there is room; a scan
  code that arrives when the queue is full changes nothing, not even the state of a modifier key that is released.\<close>

theorem keyboard_queue:
  assumes "kbd_holds k xs"
  shows "(case getch k of None \<Rightarrow> xs = [] | Some (x, k') \<Rightarrow> xs \<noteq> [] \<and> x = hd xs \<and> kbd_holds k' (tl xs)) \<and>
    (if length xs = BUFFER_SIZE - 1 then read_scancode sc k = (None, False, k)
     else kbd_holds (snd (snd (read_scancode sc k))) (if key_char sc k = 0 then xs else xs @ [key_char sc k]))"
proof -
  have "case getch k of None \<Rightarrow> xs = [] | Some (x, k') \<Rightarrow> xs \<noteq> [] \<and> x = hd xs \<and> kbd_holds k' (tl xs)"
    using assms keyq.get_empty keyq.get_holds by (cases xs) fastforce+
  moreover have "read_scancode sc k = (None, False, k)" if "length xs = BUFFER_SIZE - 1"
    using kbd_full_iff [OF assms] that by (simp add: read_scancode_def)
  ultimately show ?thesis using read_scancode_holds [OF assms, of sc] by (auto split: if_splits)
qed

lemma kbd_new_holds: "kbd_holds kbd_new []"
  by (simp add: kbd_holds_def kbd_new_def BUFFER_SIZE_def)

theorem keyboard_queue_witness: "kbd_holds (snd (snd (read_scancode 0x1E kbd_new))) [97]"
proof -
  have "key_char 0x1E kbd_new = 97"
    by (simp add: key_char_def kbd_char_def kbdus_def KEY_CNTRL_def KEY_ALT_def KEY_LSHIFT_def KEY_RSHIFT_def kbd_new_def)
  then show ?thesis using keyboard_queue [OF kbd_new_holds, of "0x1E"] by (simp add: BUFFER_SIZE_def)
qed

text \<open>characters that are typed into an empty buffer, at most 4095 of them, are read back by as many calls of
  \<open>getch\<close>, in order, and leave it empty.\<close>

theorem typed_is_read:
  assumes "kbd_holds k []" "length cs \<le> 4095"
  shows "\<exists>k'. gets getch (length cs) (fold kbd_put cs k) = Some (cs, k') \<and> kbd_holds k' []"
  using keyq.fifo [OF assms(1), of cs] assms(2) by (simp add: BUFFER_SIZE_def)

theorem typed_is_read_witness: "\<exists>k'. gets getch 3 (fold kbd_put [104, 105, 10] kbd_new) = Some ([104, 105, 10], k')"
  using typed_is_read [OF kbd_new_holds, of "[104, 105, 10]"] by (simp only: list.size numeral_3_eq_3) auto

lemma kbd_tables: "length kbdus = 128" "kbdus ! 29 = 0" "kbdus ! 57 = 32" "kbdus ! 74 = 45" "kbdus ! 78 = 43"
  by (simp_all add: kbdus_def)

end
