(* ===== verification/Console.thy ===== *)
theory Console
  imports Prelude
begin

text \<open>
  The text console of \<open>kernel/devices/console.cpp\<close> and the formatted output of \<open>kernel/devices/consoleprintf.cpp\<close>.
  Characters are bytes; \<open>char\<close> is signed on the target. The console is \<open>None\<close> after a write outside the video memory.
  Arguments of \<open>printf\<close> are a list of words and strings; \<open>None\<close> when it takes one that is not there.
\<close>

section \<open>The screen\<close>

record console =
  cursor_x :: nat
  cursor_y :: nat
  video :: "u16 list"

definition blank :: u16 where "blank = 0x0F20"
definition attbyte :: u16 where "attbyte = 0x0F"

definition con_scroll :: "console \<Rightarrow> console" where
  "con_scroll s =
     (if 25 \<le> cursor_y s then s\<lparr>video := take (80 * 24) (drop 80 (video s)) @ replicate 80 blank, cursor_y := 24\<rparr> else s)"

definition con_poke :: "u8 \<Rightarrow> console \<Rightarrow> console option" where
  "con_poke c s =
     (let i = cursor_y s * 80 + cursor_x s in
      if i < length (video s)
      then Some (s\<lparr>video := (video s)[i := ucast c OR push_bit 8 attbyte], cursor_x := cursor_x s + 1\<rparr>) else None)"

definition con_char :: "u8 \<Rightarrow> console \<Rightarrow> console option" where
  "con_char c s =
     (if c = 8 then Some (if 0 < cursor_x s then s\<lparr>cursor_x := cursor_x s - 1\<rparr> else s)
      else if c = 9 then Some (s\<lparr>cursor_x := (cursor_x s + 8) div 8 * 8\<rparr>)
      else if c = 10 then Some (s\<lparr>cursor_y := cursor_y s + 1, cursor_x := 0\<rparr>)
      else if c = 13 then Some (s\<lparr>cursor_x := 0\<rparr>)
      else if 32 \<le> sint c then con_poke c s
      else Some s)"

definition con_wrap :: "console \<Rightarrow> console" where
  "con_wrap s = (if 80 \<le> cursor_x s then s\<lparr>cursor_x := 0, cursor_y := cursor_y s + 1\<rparr> else s)"

definition con_put :: "u8 \<Rightarrow> console \<Rightarrow> console option" where
  "con_put c s = map_option (\<lambda>t. con_scroll (con_wrap t)) (con_char c s)"

text \<open>The position that \<open>move_cursor\<close> sends to the hardware, as the two bytes.\<close>

definition move_cursor :: "console \<Rightarrow> u8 \<times> u8" where
  "move_cursor s = (let i = of_nat (cursor_y s * 80 + cursor_x s) :: u16 in (ucast (drop_bit 8 i), ucast i))"

fun con_puts :: "u8 list \<Rightarrow> console \<Rightarrow> console option" where
  "con_puts [] s = Some s"
| "con_puts (c # cs) s = (if c = 0 then Some s else Option.bind (con_put c s) (con_puts cs))"

definition con_clear :: console where
  "con_clear = \<lparr>cursor_x = 0, cursor_y = 0, video = replicate (80 * 25) blank\<rparr>"

section \<open>Formatted output\<close>

text \<open>\<open>pbuf\<close> is what lies in \<open>buffer\<close> before \<open>cur_loc\<close>, \<open>pout\<close> what has been passed to the console.\<close>

record pf =
  pbuf :: "u8 list"
  num_printed :: int
  pout :: "u8 list"
  stores :: "(nat \<times> int) list"

definition flush :: "pf \<Rightarrow> pf" where
  "flush s = s\<lparr>pout := pout s @ takeWhile (\<lambda>c. c \<noteq> 0) (pbuf s), pbuf := []\<rparr>"

definition put_n :: "u8 \<Rightarrow> pf \<Rightarrow> pf" where
  "put_n c s =
     (let t = (if 1022 < length (pbuf s) then flush s else s\<lparr>pbuf := pbuf s @ [c]\<rparr>)
      in t\<lparr>num_printed := num_printed t + 1\<rparr>)"

definition put_pad :: "int \<Rightarrow> u8 \<Rightarrow> pf \<Rightarrow> pf" where
  "put_pad n c s = fold put_n (replicate (nat n) c) s"

definition isdigit :: "u8 \<Rightarrow> bool" where "isdigit c \<longleftrightarrow> 48 \<le> c \<and> c \<le> 57"

fun skip_atoi :: "int \<Rightarrow> u8 list \<Rightarrow> int \<times> u8 list" where
  "skip_atoi i [] = (i, [])"
| "skip_atoi i (c # cs) = (if isdigit c then skip_atoi (i * 10 + (uint c - 48)) cs else (i, c # cs))"

definition ZEROPAD :: u32 where "ZEROPAD = 1"
definition SIGN :: u32 where "SIGN = 2"
definition PLUS :: u32 where "PLUS = 4"
definition SPACE :: u32 where "SPACE = 8"
definition LEFT :: u32 where "LEFT = 16"
definition SPECIAL :: u32 where "SPECIAL = 32"
definition SMALL :: u32 where "SMALL = 64"

definition has :: "u32 \<Rightarrow> u32 \<Rightarrow> bool" where "has t f \<longleftrightarrow> t AND f \<noteq> 0"

text \<open>The digit \<open>d\<close>, from \<open>0123...XYZ\<close> or \<open>0123...xyz\<close>.\<close>

definition digit :: "bool \<Rightarrow> nat \<Rightarrow> u8" where
  "digit small d = (if d < 10 then of_nat (48 + d) else if small then of_nat (87 + d) else of_nat (55 + d))"

text \<open>\<open>tmp\<close>: the digits of \<open>n\<close>, the last one first.\<close>

function digits_from :: "bool \<Rightarrow> nat \<Rightarrow> nat \<Rightarrow> u8 list" where
  "digits_from small base n = (if n = 0 \<or> base < 2 then [] else digit small (n mod base) # digits_from small base (n div base))"
  by pat_completeness auto
termination
  by (relation "measure (\<lambda>(_, _, n). n)") auto

declare digits_from.simps [simp del]

definition digits_of :: "bool \<Rightarrow> nat \<Rightarrow> nat \<Rightarrow> u8 list" where
  "digits_of small base n = (if n = 0 then [48] else digits_from small base n)"

definition sign_char :: "u32 \<Rightarrow> u32 \<Rightarrow> u8" where
  "sign_char typ num =
     (if has typ SIGN \<and> sint num < 0 then 45 else if has typ PLUS then 43 else if has typ SPACE then 32 else 0)"

definition magnitude :: "u32 \<Rightarrow> u32 \<Rightarrow> nat" where
  "magnitude typ num = unat (if has typ SIGN \<and> sint num < 0 then - num else num)"

definition put_prefix :: "u32 \<Rightarrow> nat \<Rightarrow> pf \<Rightarrow> pf" where
  "put_prefix typ base s =
     (if has typ SPECIAL \<and> base = 8 then put_n 48 s
      else if has typ SPECIAL \<and> base = 16 then put_n (digit (has typ SMALL) 33) (put_n 48 s)
      else s)"

text \<open>A loop \<open>while (size-- > 0)\<close> leaves a negative \<open>size\<close>.\<close>

definition after_pad :: "int \<Rightarrow> int" where "after_pad n = min n 0 - 1"

definition number :: "u32 \<Rightarrow> nat \<Rightarrow> int \<Rightarrow> int \<Rightarrow> u32 \<Rightarrow> pf \<Rightarrow> pf" where
  "number num base size0 precision0 typ0 s0 =
     (if base < 2 \<or> 36 < base then s0
      else let typ = (if has typ0 LEFT then typ0 AND NOT ZEROPAD else typ0);
               c = (if has typ ZEROPAD then 48 else 32);
               sign = sign_char typ num;
               size1 = size0 - (if sign \<noteq> 0 then 1 else 0)
                 - (if has typ SPECIAL then (if base = 16 then 2 else if base = 8 then 1 else 0) else 0);
               tmp = digits_of (has typ SMALL) base (magnitude typ num);
               i = int (length tmp);
               precision = max precision0 i;
               size2 = size1 - precision;
               blanks = \<not> has typ (ZEROPAD OR LEFT);
               s1 = (if blanks then put_pad size2 32 s0 else s0);
               size3 = (if blanks then after_pad size2 else size2);
               s2 = (if sign \<noteq> 0 then put_n sign s1 else s1);
               s3 = put_prefix typ base s2;
               s4 = (if has typ LEFT then s3 else put_pad size3 c s3);
               size4 = (if has typ LEFT then size3 else after_pad size3);
               s5 = put_pad (precision - i) 48 s4;
               s6 = fold put_n (rev tmp) s5
           in put_pad size4 32 s6)"

section \<open>Format strings\<close>

datatype parg = Arg_word u32 | Arg_str "u8 list" | Arg_ptr nat

fun parse_flags :: "u32 \<Rightarrow> u8 list \<Rightarrow> u32 \<times> u8 list" where
  "parse_flags f (c # cs) =
     (if c = 45 then parse_flags (f OR LEFT) cs
      else if c = 43 then parse_flags (f OR PLUS) cs
      else if c = 32 then parse_flags (f OR SPACE) cs
      else if c = 35 then parse_flags (f OR SPECIAL) cs
      else if c = 48 then parse_flags (f OR ZEROPAD) cs
      else (f, c # cs))"
| "parse_flags f [] = (f, [])"

definition arg_word :: "parg list \<Rightarrow> (u32 \<times> parg list) option" where
  "arg_word as = (case as of Arg_word w # r \<Rightarrow> Some (w, r) | _ \<Rightarrow> None)"

text \<open>The field width: a number, or with \<open>*\<close> an argument, in which case the format pointer stays where it is.\<close>

definition parse_width :: "u32 \<Rightarrow> u8 list \<Rightarrow> parg list \<Rightarrow> (int \<times> u32 \<times> u8 list \<times> parg list) option" where
  "parse_width f cs as =
     (case cs of
        c # _ \<Rightarrow>
          if isdigit c then (case skip_atoi 0 cs of (w, r) \<Rightarrow> Some (w, f, r, as))
          else if c = 42 then
            map_option (\<lambda>(w, r). if sint w < 0 then (- sint w, f OR LEFT, cs, r) else (sint w, f, cs, r)) (arg_word as)
          else Some (- 1, f, cs, as)
      | [] \<Rightarrow> Some (- 1, f, cs, as))"

definition parse_precision :: "u8 list \<Rightarrow> parg list \<Rightarrow> (int \<times> u8 list \<times> parg list) option" where
  "parse_precision cs as =
     (case cs of
        c # r \<Rightarrow>
          if c = 46 then
            (case r of
               d # _ \<Rightarrow>
                 if isdigit d then (case skip_atoi 0 r of (p, r') \<Rightarrow> Some (p, r', as))
                 else if d = 42 then map_option (\<lambda>(w, as'). (max 0 (sint w), r, as')) (arg_word as)
                 else Some (0, r, as)
             | [] \<Rightarrow> Some (0, r, as))
          else Some (- 1, cs, as)
      | [] \<Rightarrow> Some (- 1, cs, as))"

definition skip_qualifier :: "u8 list \<Rightarrow> u8 list" where
  "skip_qualifier cs = (case cs of c # r \<Rightarrow> if c = 104 \<or> c = 108 \<or> c = 76 then r else cs | [] \<Rightarrow> [])"

definition put_char_arg :: "u32 \<Rightarrow> int \<Rightarrow> u8 \<Rightarrow> pf \<Rightarrow> pf" where
  "put_char_arg f w c s =
     (if has f LEFT then put_pad (w - 1) 32 (put_n c s) else put_n c (put_pad (w - 1) 32 s))"

definition put_str_arg :: "u32 \<Rightarrow> int \<Rightarrow> int \<Rightarrow> u8 list \<Rightarrow> pf \<Rightarrow> pf" where
  "put_str_arg f w p xs s =
     (let n = (if p < 0 then length xs else min (length xs) (nat p)); ys = take n xs
      in if has f LEFT then put_pad (w - int n) 32 (fold put_n ys s) else fold put_n ys (put_pad (w - int n) 32 s))"

text \<open>The conversion \<open>c\<close>: the arguments that are left and the output.\<close>

definition convert :: "u32 \<Rightarrow> int \<Rightarrow> int \<Rightarrow> u8 \<Rightarrow> parg list \<Rightarrow> pf \<Rightarrow> (parg list \<times> pf) option" where
  "convert f w p c as s =
     (if c = 99 then map_option (\<lambda>(v, r). (r, put_char_arg f w (ucast v) s)) (arg_word as)
      else if c = 115 then (case as of Arg_str xs # r \<Rightarrow> Some (r, put_str_arg f w p xs s) | _ \<Rightarrow> None)
      else if c = 111 then map_option (\<lambda>(v, r). (r, number v 8 w p f s)) (arg_word as)
      else if c = 112 then
        map_option (\<lambda>(v, r). (r, if w = - 1 then number v 16 8 p (f OR ZEROPAD) s else number v 16 w p f s)) (arg_word as)
      else if c = 120 then map_option (\<lambda>(v, r). (r, number v 16 w p (f OR SMALL) s)) (arg_word as)
      else if c = 88 then map_option (\<lambda>(v, r). (r, number v 16 w p f s)) (arg_word as)
      else if c = 100 \<or> c = 105 then map_option (\<lambda>(v, r). (r, number v 10 w p (f OR SIGN) s)) (arg_word as)
      else if c = 117 then map_option (\<lambda>(v, r). (r, number v 10 w p f s)) (arg_word as)
      else if c = 110 then (case as of Arg_ptr a # r \<Rightarrow> Some (r, s\<lparr>stores := stores s @ [(a, num_printed s)]\<rparr>) | _ \<Rightarrow> None)
      else Some (as, put_n c (if c \<noteq> 37 then put_n 37 s else s)))"

text \<open>What follows a percent sign: the rest of the format, the arguments left, the output.\<close>

definition directive :: "u8 list \<Rightarrow> parg list \<Rightarrow> pf \<Rightarrow> (u8 list \<times> parg list \<times> pf) option" where
  "directive cs as s =
     (case parse_flags 0 cs of (f, cs1) \<Rightarrow> do {
        (w, f', cs2, as1) \<leftarrow> parse_width f cs1 as;
        (p, cs3, as2) \<leftarrow> parse_precision cs2 as1;
        (case skip_qualifier cs3 of
           [] \<Rightarrow> Some ([], as2, put_n 37 s)
         | c # r \<Rightarrow> map_option (\<lambda>(as3, s'). (r, as3, s')) (convert f' w p c as2 s)) })"

lemma parse_flags_le: "parse_flags f cs = (f', cs') \<Longrightarrow> length cs' \<le> length cs"
  by (induction f cs rule: parse_flags.induct) (auto split: if_splits simp: le_SucI)

lemma skip_atoi_le: "skip_atoi i cs = (n, cs') \<Longrightarrow> length cs' \<le> length cs"
  by (induction i cs rule: skip_atoi.induct) (auto split: if_splits simp: le_SucI)

lemma directive_le: "directive cs as s = Some (r, as', s') \<Longrightarrow> length r \<le> length cs"
  by (auto simp: directive_def parse_width_def parse_precision_def skip_qualifier_def
      dest!: parse_flags_le skip_atoi_le split: prod.splits list.splits if_splits bind_splits) 

text \<open>The loop of \<open>_vprintf\<close> over a format without a null character.\<close>

function vprintf_loop :: "u8 list \<Rightarrow> parg list \<Rightarrow> pf \<Rightarrow> pf option" where
  "vprintf_loop [] as s = Some s"
| "vprintf_loop (c # cs) as s =
     (if c \<noteq> 37 then vprintf_loop cs as (put_n c s)
      else case directive cs as s of None \<Rightarrow> None | Some (r, as', s') \<Rightarrow> vprintf_loop r as' s')"
  by pat_completeness auto
termination
  by (relation "measure (\<lambda>(cs, _, _). length cs)") (auto dest: directive_le)

definition vprintf :: "u8 list \<Rightarrow> parg list \<Rightarrow> (int \<times> u8 list \<times> (nat \<times> int) list) option" where
  "vprintf fmt as =
     map_option (\<lambda>s. let t = (if pbuf s \<noteq> [] then flush s else s) in (num_printed t, pout t, stores t))
       (vprintf_loop fmt as \<lparr>pbuf = [], num_printed = 0, pout = [], stores = []\<rparr>)"

section \<open>Properties of the screen\<close>

definition con_ok :: "console \<Rightarrow> bool" where
  "con_ok s \<longleftrightarrow> cursor_x s < 80 \<and> cursor_y s < 25 \<and> length (video s) = 80 * 25"

lemma con_char_ok:
  assumes "con_ok s"
  shows "\<exists>t. con_char c s = Some t \<and> cursor_x t \<le> 80 \<and> cursor_y t \<le> 25 \<and> (80 \<le> cursor_x t \<longrightarrow> cursor_y t < 25) \<and> length (video t) = 80 * 25"
proof -
  have x: "cursor_x s < 80" "cursor_y s < 25" "length (video s) = 2000" using assms by (auto simp: con_ok_def)
  then have "cursor_y s * 80 + cursor_x s < 2000" by linarith
  moreover have "(cursor_x s + 8) div 8 * 8 \<le> 80" using x(1) by presburger
  ultimately show ?thesis using x by (auto simp: con_char_def con_poke_def)
qed

lemma con_wrap_ok:
  assumes "cursor_x t \<le> 80" "cursor_y t \<le> 25" "80 \<le> cursor_x t \<longrightarrow> cursor_y t < 25" "length (video t) = 80 * 25"
  shows "con_ok (con_scroll (con_wrap t))"
  using assms by (auto simp: con_wrap_def con_scroll_def con_ok_def)

text \<open>C37: \<open>put\<close> of any byte keeps the cursor on the screen and never writes outside the video memory. A printable
  character appears where the cursor was, on the line above when the screen scrolled, and when it does not fill the
  last cell of the screen every other cell stays as it was.\<close>

theorem console_safe:
  assumes "con_ok s"
  shows "\<exists>t. con_put c s = Some t \<and> con_ok t \<and>
    (32 \<le> sint c \<longrightarrow> (let i = cursor_y s * 80 + cursor_x s; v = ucast c OR 0x0F00 in
      if i < 1999 then video t = (video s)[i := v] else video t = drop 80 ((video s)[i := v]) @ replicate 80 blank))"
proof -
  obtain t where t: "con_char c s = Some t" "con_ok (con_scroll (con_wrap t))"
    using con_char_ok [OF assms, of c] con_wrap_ok by blast
  have x: "cursor_x s < 80" "cursor_y s < 25" "length (video s) = 2000" using assms by (auto simp: con_ok_def)
  let ?i = "cursor_y s * 80 + cursor_x s"
  let ?v = "ucast c OR 0x0F00 :: u16"
  have i: "?i < 2000" using x by linarith
  have "video (con_scroll (con_wrap t)) = (if ?i < 1999 then (video s)[?i := ?v] else drop 80 ((video s)[?i := ?v]) @ replicate 80 blank)"
    if c: "32 \<le> sint c"
  proof -
    have "c \<noteq> 8 \<and> c \<noteq> 9 \<and> c \<noteq> 10 \<and> c \<noteq> 13" using c by auto
    then have t': "t = s\<lparr>video := (video s)[?i := ?v], cursor_x := cursor_x s + 1\<rparr>"
      using t(1) c i x(3) by (auto simp: con_char_def con_poke_def attbyte_def)
    have "?i < 1999 \<longleftrightarrow> \<not> (cursor_x s = 79 \<and> cursor_y s = 24)" using x by auto
    then show ?thesis using t' x by (auto simp: con_wrap_def con_scroll_def)
  qed
  then show ?thesis using t by (simp add: con_put_def Let_def)
qed

theorem console_safe_witness: "\<exists>t. con_put 65 con_clear = Some t \<and> con_ok t \<and> video t ! 0 = 0x0F41"
proof -
  have ok: "con_ok con_clear" by (simp add: con_ok_def con_clear_def)
  have "32 \<le> sint (65 :: u8)" by simp
  then show ?thesis using console_safe [OF ok, of 65] by (auto simp: con_clear_def Let_def)
qed

section \<open>Properties of the output\<close>

text \<open>What comes out of a text when the character that finds the buffer full is dropped.\<close>

function lossy :: "u8 list \<Rightarrow> u8 list" where
  "lossy xs = (if length xs \<le> 1023 then xs else take 1023 xs @ lossy (drop 1024 xs))"
  by pat_completeness auto
termination
  by (relation "measure length") auto

declare lossy.simps [simp del]

lemma fold_put_n_short:
  "length (pbuf s) + length xs \<le> 1023 \<Longrightarrow>
     fold put_n xs s = s\<lparr>pbuf := pbuf s @ xs, num_printed := num_printed s + int (length xs)\<rparr>"
  by (induction xs arbitrary: s) (auto simp: put_n_def Let_def)

definition written :: "pf \<Rightarrow> u8 list" where "written s = pout (flush s)"

lemma fold_put_n_lossy:
  assumes "pbuf s = []" "0 \<notin> set xs"
  shows "written (fold put_n xs s) = pout s @ lossy xs \<and> num_printed (fold put_n xs s) = num_printed s + int (length xs) \<and>
    stores (fold put_n xs s) = stores s"
  using assms
proof (induction xs arbitrary: s rule: lossy.induct)
  case (1 xs)
  show ?case
  proof (cases "length xs \<le> 1023")
    case True
    have "takeWhile (\<lambda>c. c \<noteq> 0) xs = xs" using 1(3) by (auto simp: takeWhile_eq_all_conv)
    then show ?thesis using True 1(2) fold_put_n_short [of s xs] by (simp add: written_def flush_def lossy.simps [of xs])
  next
    case False
    let ?a = "take 1023 xs"
    let ?t = "fold put_n ?a s"
    let ?u = "put_n (xs ! 1023) ?t"
    have xs: "xs = ?a @ xs ! 1023 # drop 1024 xs" using id_take_nth_drop [of 1023 xs] False by simp
    have t: "?t = s\<lparr>pbuf := ?a, num_printed := num_printed s + 1023\<rparr>" using False 1(2) fold_put_n_short [of s ?a] by simp
    have "takeWhile (\<lambda>c. c \<noteq> 0) ?a = ?a" using 1(3) by (auto simp: takeWhile_eq_all_conv dest: in_set_takeD)
    then have u: "pbuf ?u = []" "pout ?u = pout s @ ?a" "num_printed ?u = num_printed s + 1024" "stores ?u = stores s"
      using False by (simp_all add: put_n_def Let_def t flush_def)
    have "fold put_n xs s = fold put_n (drop 1024 xs) ?u" by (subst xs) simp
    moreover have "0 \<notin> set (drop 1024 xs)" using 1(3) by (auto dest: in_set_dropD)
    ultimately show ?thesis using 1(1) [OF False u(1)] u False by (simp add: lossy.simps [of xs])
  qed
qed

lemma vprintf_loop_text: "37 \<notin> set xs \<Longrightarrow> vprintf_loop xs as s = Some (fold put_n xs s)"
  by (induction xs arbitrary: s) auto

text \<open>\<open>printf\<close> of a text without directives returns its length and prints it, when it has at most 1023 characters.
  In a longer text every 1024th character is lost: the one that finds the buffer full is not stored.\<close>

theorem printf_text:
  assumes "37 \<notin> set xs" "0 \<notin> set xs"
  shows "vprintf xs as = Some (int (length xs), lossy xs, []) \<and> (length xs \<le> 1023 \<longrightarrow> lossy xs = xs) \<and>
    (length xs = 1024 \<longrightarrow> lossy xs = butlast xs)"
proof -
  let ?s = "\<lparr>pbuf = [], num_printed = 0, pout = [], stores = []\<rparr>"
  have "written (fold put_n xs ?s) = lossy xs \<and> num_printed (fold put_n xs ?s) = int (length xs) \<and> stores (fold put_n xs ?s) = []"
    using fold_put_n_lossy [of ?s xs] assms(2) by simp
  then have "vprintf xs as = Some (int (length xs), lossy xs, [])"
    using assms(1) by (auto simp: vprintf_def vprintf_loop_text written_def flush_def Let_def)
  moreover have "lossy xs = butlast xs" if "length xs = 1024"
    using that by (subst lossy.simps) (simp add: butlast_conv_take lossy.simps [of "[]"])
  ultimately show ?thesis by (simp add: lossy.simps [of xs])
qed

theorem printf_text_witness: "vprintf [104, 105] [] = Some (2, [104, 105], [])"
  using printf_text [of "[104, 105]" "[]"] by simp

text \<open>the format pointer is not moved past a \<open>*\<close>, so that a width given as an argument consumes the argument and
  then prints the directive: \<open>printf("%*d", 5, 42)\<close> prints \<open>%*d\<close>.\<close>

theorem printf_star:
  "vprintf [37, 42, 100] [Arg_word 5, Arg_word 42] = Some (3, [37, 42, 100], [])"
  by (simp add: vprintf_def directive_def parse_width_def parse_precision_def skip_qualifier_def convert_def arg_word_def
      isdigit_def put_n_def flush_def Let_def)

section \<open>Numbers\<close>

definition digit_val :: "u8 \<Rightarrow> nat" where
  "digit_val c = (if unat c \<le> 57 then unat c - 48 else if unat c \<le> 90 then unat c - 55 else unat c - 87)"

text \<open>The number that digits stand for, the last digit first.\<close>

fun num_value :: "nat \<Rightarrow> u8 list \<Rightarrow> nat" where
  "num_value base [] = 0"
| "num_value base (c # cs) = digit_val c + base * num_value base cs"

lemma digit_val_digit: "d < 36 \<Longrightarrow> digit_val (digit small d) = d"
proof -
  assume d: "d < 36"
  have u: "unat (of_nat n :: u8) = n" if "n < 256" for n using that by (simp add: unat_of_nat_lt)
  have "unat (digit small d) = (if d < 10 then 48 + d else if small then 87 + d else 55 + d)"
    unfolding digit_def using d u [of "48 + d"] u [of "87 + d"] u [of "55 + d"] by (auto simp del: of_nat_add)
  then show ?thesis using d by (auto simp: digit_val_def)
qed

lemma digits_from_value: "2 \<le> base \<Longrightarrow> base \<le> 36 \<Longrightarrow> num_value base (digits_from small base n) = n"
proof (induction small base n rule: digits_from.induct)
  case (1 small base n)
  show ?case
  proof (cases "n = 0")
    case False
    then have "num_value base (digits_from small base (n div base)) = n div base" using 1 by simp
    moreover have "n mod base < 36" using 1(2,3) mod_less_divisor [of base n] by linarith
    ultimately show ?thesis using False 1(2) by (simp add: digits_from.simps [of small base n] digit_val_digit)
  qed (simp add: digits_from.simps)
qed

lemma digits_of_value: "2 \<le> base \<Longrightarrow> base \<le> 36 \<Longrightarrow> num_value base (digits_of small base n) = n"
  by (simp add: digits_of_def digits_from_value digit_val_def)

lemma digits_from_length: "2 \<le> base \<Longrightarrow> n < base ^ k \<Longrightarrow> length (digits_from small base n) \<le> k"
proof (induction k arbitrary: n)
  case (Suc k)
  then have "n div base < base ^ k" by (simp add: less_mult_imp_div_less mult.commute)
  then show ?case using Suc.IH Suc.prems(1) by (simp add: digits_from.simps [of small base n])
qed (simp add: digits_from.simps)

lemma digits_of_length: "2 \<le> base \<Longrightarrow> n < 2 ^ 32 \<Longrightarrow> length (digits_of small base n) \<le> 32"
proof -
  assume b: "2 \<le> base" "n < 2 ^ 32"
  have "(2 :: nat) ^ 32 \<le> base ^ 32" using b(1) by (rule power_mono) simp
  then show ?thesis using digits_from_length [of base n 32 small] b by (auto simp: digits_of_def)
qed

lemma digit_nonzero: "0 < d \<Longrightarrow> d < 36 \<Longrightarrow> digit small d \<noteq> 48 \<and> digit small d \<noteq> 0"
  using digit_val_digit [of d small] by (auto simp: digit_val_def)

lemma digit_not_null: "d < 36 \<Longrightarrow> digit small d \<noteq> 0"
  by (cases "d = 0") (auto simp: digit_nonzero, simp add: digit_def)

lemma digits_of_not_null: "2 \<le> base \<Longrightarrow> base \<le> 36 \<Longrightarrow> 0 \<notin> set (digits_of small base n)"
proof -
  assume b: "2 \<le> base" "base \<le> 36"
  have "0 \<notin> set (digits_from small base n)" using b
  proof (induction small base n rule: digits_from.induct)
    case (1 small base n)
    have "n mod base < 36" using 1(2,3) mod_less_divisor [of base n] by linarith
    then show ?case using 1 by (subst digits_from.simps) (auto dest: digit_not_null simp: eq_commute [of 0])
  qed
  then show ?thesis by (simp add: digits_of_def)
qed


end
