(* ===== verification/Tables.thy ===== *)
theory Tables
  imports Regs
begin

text \<open>
  The descriptor tables and the interrupt entry points: \<open>kernel/gdt.cpp\<close>, \<open>kernel/idt.cpp\<close>, \<open>kernel/isr.cpp\<close> and
  \<open>kernel/include/desc_tables.h\<close>, and the timer \<open>kernel/devices/pit.cpp\<close>. What the code writes to ports is a list of pairs
  of a port and a byte; interrupt handlers are parameters.
\<close>

section \<open>Segment descriptors\<close>

record gdt_entry =
  g_limit_lo :: u16
  g_base_lo :: u16
  g_base_mid :: u8
  g_access :: u8
  g_granularity :: u8
  g_base_hi :: u8

definition gdt_gate :: "u32 \<Rightarrow> u32 \<Rightarrow> u8 \<Rightarrow> u8 \<Rightarrow> gdt_entry" where
  "gdt_gate base limit acc gran =
     \<lparr>g_limit_lo = ucast (limit AND 0xFFFF), g_base_lo = ucast (base AND 0xFFFF), g_base_mid = ucast (drop_bit 16 base AND 0xFF),
      g_access = acc, g_granularity = ucast (drop_bit 16 limit AND 0x0F) OR (gran AND 0xF0),
      g_base_hi = ucast (drop_bit 24 base AND 0xFF)\<rparr>"

text \<open>The table that \<open>init\<close> fills; \<open>tss\<close> is the address of the task state segment, whose size is 104 bytes.\<close>

definition TSS_SIZE :: u32 where "TSS_SIZE = 104"

definition gdt_init :: "u32 \<Rightarrow> gdt_entry list" where
  "gdt_init tss =
     [gdt_gate 0 0 0 0, gdt_gate 0 0xFFFFFFFF 0x9A 0xCF, gdt_gate 0 0xFFFFFFFF 0x92 0xCF, gdt_gate 0 0xFFFFFFFF 0xFA 0xCF,
      gdt_gate 0 0xFFFFFFFF 0xF2 0xCF, gdt_gate tss (tss + TSS_SIZE) 0xE9 0]"

definition KERNEL_CODE_SEG :: u32 where "KERNEL_CODE_SEG = 0x8"
definition KERNEL_DATA_SEG :: u32 where "KERNEL_DATA_SEG = 0x10"
definition USER_CODE_SEG :: u32 where "USER_CODE_SEG = 0x18"
definition USER_DATA_SEG :: u32 where "USER_DATA_SEG = 0x20"
definition TSS_SEG :: u32 where "TSS_SEG = 0x28"

text \<open>How the processor reads a descriptor: base, limit, privilege level, whether it is code.\<close>

definition gdt_base :: "gdt_entry \<Rightarrow> u32" where
  "gdt_base g = ucast (g_base_lo g) OR push_bit 16 (ucast (g_base_mid g)) OR push_bit 24 (ucast (g_base_hi g))"

definition gdt_limit :: "gdt_entry \<Rightarrow> u32" where
  "gdt_limit g = ucast (g_limit_lo g) OR push_bit 16 (ucast (g_granularity g AND 0x0F))"

definition gdt_bytes :: "gdt_entry \<Rightarrow> nat" where
  "gdt_bytes g = (if bit (g_granularity g) 7 then (unat (gdt_limit g) + 1) * 4096 else unat (gdt_limit g) + 1)"

definition gdt_dpl :: "gdt_entry \<Rightarrow> nat" where "gdt_dpl g = unat (drop_bit 5 (g_access g) AND 3)"

section \<open>Interrupt gates\<close>

record idt_entry =
  i_base_lo :: u16
  i_sel :: u16
  i_always0 :: u8
  i_flags :: u8
  i_base_hi :: u16

definition idt_gate :: "u32 \<Rightarrow> u16 \<Rightarrow> u8 \<Rightarrow> idt_entry" where
  "idt_gate base sel flags =
     \<lparr>i_base_lo = ucast (base AND 0xFFFF), i_sel = sel, i_always0 = 0, i_flags = flags, i_base_hi = ucast (drop_bit 16 base AND 0xFFFF)\<rparr>"

definition idt_base :: "idt_entry \<Rightarrow> u32" where
  "idt_base e = ucast (i_base_lo e) OR push_bit 16 (ucast (i_base_hi e))"

definition null_gate :: idt_entry where
  "null_gate = \<lparr>i_base_lo = 0, i_sel = 0, i_always0 = 0, i_flags = 0, i_base_hi = 0\<rparr>"

text \<open>The table: the entry points of \<open>irq.s\<close> are given.\<close>

definition idt_init :: "u32 list \<Rightarrow> u32 list \<Rightarrow> idt_entry list" where
  "idt_init isrs irqs =
     fold (\<lambda>i t. t[i + 32 := idt_gate (irqs ! i) 0x08 0x8E]) [0 ..< 17]
       (fold (\<lambda>i t. t[i := idt_gate (isrs ! i) 0x08 0x8E]) [0 ..< 32] (replicate 256 null_gate))"

definition pic_remap :: "(u16 \<times> u8) list" where
  "pic_remap = [(0x20, 0x11), (0xA0, 0x11), (0x21, 0x20), (0xA1, 0x28), (0x21, 4), (0xA1, 2), (0x21, 1), (0xA1, 1), (0x21, 0), (0xA1, 0)]"

section \<open>Interrupts\<close>

definition correct_esp :: "registers \<Rightarrow> registers" where
  "correct_esp r = (if r_cs r AND 3 \<noteq> 0 then r\<lparr>r_esp := espcpu r\<rparr> else r\<lparr>r_esp := r_esp r + 5 * 4\<rparr>)"

definition IRQ0 :: u32 where "IRQ0 = 32"
definition PIC_EOI :: u8 where "PIC_EOI = 0x20"

definition end_of_interrupt :: "u32 \<Rightarrow> (u16 \<times> u8) list" where
  "end_of_interrupt n =
     (if n < IRQ0 + 16 then (if IRQ0 + 7 < n then [(0xA0, PIC_EOI)] else []) @ [(0x20, PIC_EOI)] else [])"

text \<open>\<open>irq_handler\<close> and \<open>isr_handler\<close>: \<open>handlers\<close> is the table of registered handlers, functions on a state; the
  result of an exception that is not handled is to go on, a general protection fault stops the machine.\<close>

definition register_int_handler :: "u8 \<Rightarrow> 'h \<Rightarrow> (u8 \<Rightarrow> 'h option) \<Rightarrow> u8 \<Rightarrow> 'h option" where
  "register_int_handler n h hs = hs(n \<mapsto> h)"

definition irq_handler :: "(u8 \<Rightarrow> (registers \<Rightarrow> 's \<Rightarrow> 's) option) \<Rightarrow> registers \<Rightarrow> 's \<Rightarrow> (u16 \<times> u8) list \<times> 's" where
  "irq_handler hs r s =
     (let r' = correct_esp r
      in (end_of_interrupt (int_no r'), case hs (ucast (int_no r')) of Some h \<Rightarrow> h r' s | None \<Rightarrow> s))"

definition isr_handler :: "(u8 \<Rightarrow> (registers \<Rightarrow> 's \<Rightarrow> 's) option) \<Rightarrow> registers \<Rightarrow> 's \<Rightarrow> 's option" where
  "isr_handler hs r s =
     (let r' = correct_esp r; s' = (case hs (ucast (int_no r')) of Some h \<Rightarrow> h r' s | None \<Rightarrow> s)
      in if int_no r' = 13 then None else Some s')"

section \<open>The timer\<close>

record pit =
  tick :: u64
  frequency :: u64
  ticklen :: u64

definition PIT_FREQ :: u32 where "PIT_FREQ = 1193180"
definition PIT_HZ :: u32 where "PIT_HZ = 250"

definition pit_callback :: "pit \<Rightarrow> pit" where "pit_callback p = p\<lparr>tick := tick p + 1\<rparr>"

text \<open>\<open>ASSERT\<close> reports a divisor that is too large and goes on; a frequency of 0 divides by zero.\<close>

definition set_frequency :: "u32 \<Rightarrow> pit \<Rightarrow> ((u16 \<times> u8) list \<times> pit) option" where
  "set_frequency freq p =
     (if freq = 0 then None
      else let divisor = PIT_FREQ div freq
           in Some ([(0x43, 0x36), (0x40, ucast divisor), (0x40, ucast (drop_bit 8 divisor))],
                p\<lparr>frequency := ucast freq, ticklen := 1000000000 div ucast freq\<rparr>))"

definition get_ns_passed :: "pit \<Rightarrow> u64" where "get_ns_passed p = tick p * ticklen p"

section \<open>Properties\<close>

lemma masks:
  "0xFFFF = (mask 16 :: u32)" "0xFF = (mask 8 :: u32)" "0x0F = (mask 4 :: u32)" "0x0F = (mask 4 :: u8)" "0xFFFFF = (mask 20 :: u32)"
  "0xF0 = push_bit 4 (mask 4 :: u8)"
  by (simp_all add: mask_eq_exp_minus_1)

lemma gdt_base_gate: "gdt_base (gdt_gate base limit acc gran) = base"
  unfolding gdt_base_def gdt_gate_def gdt_entry.simps masks
proof (rule bit_word_eqI)
  fix n
  assume "n < LENGTH(32)"
  then show "bit (ucast (ucast (base AND mask 16) :: u16) OR push_bit 16 (ucast (ucast (drop_bit 16 base AND mask 8) :: u8)) OR
      push_bit 24 (ucast (ucast (drop_bit 24 base AND mask 8) :: u8)) :: u32) n = bit base n"
    by (cases "n < 24") (auto simp: bit_simps)
qed

lemma gdt_limit_gate: "gdt_limit (gdt_gate base limit acc gran) = limit AND 0xFFFFF"
proof -
  have "(ucast (drop_bit 16 limit AND 0x0F) OR (gran AND 0xF0)) AND 0x0F = (ucast (drop_bit 16 limit AND 0x0F) :: u8)"
    unfolding masks and.assoc bit.conj_disj_distrib2
    by (rule bit_word_eqI) (auto simp: bit_simps)
  then show ?thesis
    unfolding gdt_limit_def gdt_gate_def gdt_entry.simps by (simp only: masks) (rule bit_word_eqI, auto simp: bit_simps)
qed

lemma idt_base_gate: "idt_base (idt_gate base sel flags) = base"
  unfolding idt_base_def idt_gate_def idt_entry.simps masks
  by (rule bit_word_eqI) (auto simp: bit_simps)

text \<open>read the way the processor reads them, the descriptors that the kernel writes have the base and, in 20 bits, the limit they were
  given, and interrupt gates the address of their handler; the four segments of the kernel and of user programs span
  the whole address space and have the privilege levels 0 and 3.\<close>

theorem descriptors_decode:
  "gdt_base (gdt_gate base limit acc gran) = base \<and> gdt_limit (gdt_gate base limit acc gran) = limit AND 0xFFFFF \<and>
   idt_base (idt_gate base sel flags) = base \<and>
   map (\<lambda>i. (gdt_base (gdt_init tss ! i), gdt_bytes (gdt_init tss ! i), gdt_dpl (gdt_init tss ! i))) [1, 2, 3, 4] =
     [(0, 2 ^ 32, 0), (0, 2 ^ 32, 0), (0, 2 ^ 32, 3), (0, 2 ^ 32, 3)]"
proof -
  have "bit (g_granularity (gdt_gate 0 0xFFFFFFFF acc 0xCF)) 7" for acc by (simp add: gdt_gate_def)
  then have "gdt_bytes (gdt_gate 0 0xFFFFFFFF acc 0xCF) = 2 ^ 32" for acc by (simp add: gdt_bytes_def gdt_limit_gate)
  moreover have "gdt_dpl (gdt_gate b l acc g) = unat (drop_bit 5 acc AND 3)" for b l acc g by (simp add: gdt_dpl_def gdt_gate_def)
  ultimately show ?thesis by (simp add: gdt_base_gate gdt_limit_gate idt_base_gate gdt_init_def)
qed

text \<open>the limit in the descriptor of the task state segment is the low part of its end address, where the processor
  expects the size less one: for a segment at an address that is a multiple of a mebibyte it happens to be one more than
  the size, for one at the end of a mebibyte it is too small to hold the segment.\<close>

theorem tss_limit:
  "gdt_limit (gdt_init tss ! 5) = (tss + TSS_SIZE) AND 0xFFFFF \<and>
   gdt_limit (gdt_init 0xC01FFFB0 ! 5) = 24"
  by (simp add: gdt_init_def gdt_limit_gate TSS_SIZE_def)

lemma idt_fold: "length t = 256 \<Longrightarrow> n + k \<le> 256 \<Longrightarrow>
    (fold (\<lambda>i t. t[i + k := f i]) [0 ..< n] t) ! j = (if k \<le> j \<and> j < k + n then f (j - k) else t ! j) \<and>
    length (fold (\<lambda>i t. t[i + k := f i]) [0 ..< n] t) = 256"
  by (induction n) (auto simp: nth_list_update)

text \<open>after \<open>idt::init\<close> the gates 0 to 31 lead to the exception handlers and 32 to 48 to the interrupt handlers, in the
  kernel code segment, and the others are empty.\<close>

theorem idt_complete:
  assumes "i < 256"
  shows "idt_init isrs irqs ! i =
    (if i < 32 then idt_gate (isrs ! i) 0x08 0x8E else if i < 49 then idt_gate (irqs ! (i - 32)) 0x08 0x8E else null_gate)"
  using assms idt_fold [of "replicate 256 null_gate" 32 0 "\<lambda>i. idt_gate (isrs ! i) 0x08 0x8E" i]
    idt_fold [of "fold (\<lambda>i t. t[i := idt_gate (isrs ! i) 0x08 0x8E]) [0 ..< 32] (replicate 256 null_gate)" 17 32 "\<lambda>i. idt_gate (irqs ! i) 0x08 0x8E" i]
  by (auto simp: idt_init_def simp del: upt_Suc)

theorem idt_complete_witness: "idt_init (map of_nat [0 ..< 32]) (map of_nat [100 ..< 117]) ! 33 = idt_gate 101 0x08 0x8E"
  using idt_complete [of 33 "map of_nat [0 ..< 32]" "map of_nat [100 ..< 117]"] by (simp del: upt_Suc)

text \<open>for a frequency of at least 19 Hz the two bytes sent to the timer make up the divisor, and the time that
  \<open>get_ns_passed\<close> adds in a second is at most one second and short of it by less than as many nanoseconds as there
  are ticks; a smaller frequency gives a divisor of more than 16 bits, whose high bits are dropped.\<close>

theorem timer_programmed:
  assumes "freq \<noteq> 0"
  shows "\<exists>lo hi p'. set_frequency freq p = Some ([(0x43, 0x36), (0x40, lo), (0x40, hi)], p') \<and>
    unat lo + 256 * unat hi = (1193180 div unat freq) mod 65536 \<and> (19 \<le> freq \<longleftrightarrow> 1193180 div unat freq < 65536) \<and>
    unat freq * unat (ticklen p') \<le> 1000000000 \<and> 1000000000 < unat freq * unat (ticklen p') + unat freq"
proof -
  let ?d = "PIT_FREQ div freq"
  have d: "unat ?d = 1193180 div unat freq" by (simp add: unat_div PIT_FREQ_def)
  have f: "0 < unat freq" using assms by (simp add: unat_gt_0)
  have "unat (ucast ?d :: u8) = unat ?d mod 256" by (simp add: unsigned_ucast_eq take_bit_eq_mod)
  moreover have "unat (ucast (drop_bit 8 ?d) :: u8) = unat ?d div 256 mod 256" by (simp add: unsigned_ucast_eq take_bit_eq_mod unat_drop_bit)
  moreover have "a mod 256 + 256 * (a div 256 mod 256) = a mod 65536" for a :: nat
    using mod_mult2_eq [of a 256 256] by simp
  moreover have "19 \<le> freq \<longleftrightarrow> 1193180 div unat freq < 65536"
  proof
    assume "19 \<le> freq"
    then have "19 \<le> unat freq" by (simp add: word_le_nat_alt)
    then have "1193180 div unat freq \<le> 1193180 div 19" by (rule div_le_mono2 [rotated]) simp
    then show "1193180 div unat freq < 65536" by simp
  next
    assume "1193180 div unat freq < 65536"
    then have "1193180 < 65536 * unat freq" using f by (simp add: div_less_iff_less_mult)
    then show "19 \<le> freq" by (simp add: word_le_nat_alt)
  qed
  moreover have t: "unat (1000000000 div ucast freq :: u64) = 1000000000 div unat freq"
  proof -
    have "unat (ucast freq :: u64) = unat freq" using unat_u32_lt [of freq] by (simp add: unsigned_ucast_eq take_bit_nat_eq_self)
    then show ?thesis by (simp add: unat_div)
  qed
  moreover have "unat freq * (1000000000 div unat freq) \<le> 1000000000" by simp
  moreover have "1000000000 < unat freq * (1000000000 div unat freq) + unat freq"
    using f by (metis add.commute dividend_less_times_div)
  ultimately show ?thesis using assms d by (simp add: set_frequency_def Let_def)
qed

theorem timer_programmed_witness: "\<exists>lo hi p'. set_frequency 250 \<lparr>tick = 0, frequency = 0, ticklen = 0\<rparr> = Some ([(0x43, 0x36), (0x40, lo), (0x40, hi)], p') \<and> unat lo + 256 * unat hi = 4772"
  using timer_programmed [of 250 "\<lparr>tick = 0, frequency = 0, ticklen = 0\<rparr>"] by auto

end
