(* ===== verification/Pci.thy ===== *)
theory Pci
  imports Prelude
begin

text \<open>
  The PCI bus, \<open>kernel/devices/pci.cpp\<close> and \<open>kernel/include/devices/pci.h\<close>. The configuration space is a function from the address written to the address port to the
  word behind the data port; a write changes that word, which is what a plain register does.
\<close>

section \<open>Configuration space\<close>

type_synonym config = "u32 \<Rightarrow> u32"

definition config_addr :: "u8 \<Rightarrow> u8 \<Rightarrow> u8 \<Rightarrow> u8 \<Rightarrow> u32" where
  "config_addr bus slot fn offset =
     push_bit 31 1 OR push_bit 16 (ucast bus) OR push_bit 11 (ucast slot) OR push_bit 8 (ucast fn) OR ucast offset"

text \<open>\<open>None\<close> is a failed assertion.\<close>

definition pci_readd :: "u8 \<Rightarrow> u8 \<Rightarrow> u8 \<Rightarrow> u8 \<Rightarrow> config \<Rightarrow> u32 option" where
  "pci_readd bus slot fn offset cfg = (if offset AND 3 = 0 then Some (cfg (config_addr bus slot fn offset)) else None)"

definition word_shift :: "u8 \<Rightarrow> nat" where "word_shift offset = unat (offset AND 3) * 8"

definition pci_readw :: "u8 \<Rightarrow> u8 \<Rightarrow> u8 \<Rightarrow> u8 \<Rightarrow> config \<Rightarrow> u16" where
  "pci_readw bus slot fn offset cfg =
     ucast (drop_bit (word_shift offset) (cfg (config_addr bus slot fn (offset AND NOT 3))))"

definition pci_writed :: "u8 \<Rightarrow> u8 \<Rightarrow> u8 \<Rightarrow> u8 \<Rightarrow> u32 \<Rightarrow> config \<Rightarrow> config option" where
  "pci_writed bus slot fn offset v cfg = (if offset AND 3 = 0 then Some (cfg(config_addr bus slot fn offset := v)) else None)"

definition pci_writew :: "u8 \<Rightarrow> u8 \<Rightarrow> u8 \<Rightarrow> u8 \<Rightarrow> u16 \<Rightarrow> config \<Rightarrow> config" where
  "pci_writew bus slot fn offset v cfg =
     (let a = config_addr bus slot fn (offset AND NOT 3); sh = word_shift offset
      in cfg(a := (cfg a AND NOT (push_bit sh 0xFFFF)) OR push_bit sh (ucast v)))"

definition REG_VENDOR :: u8 where "REG_VENDOR = 0"
definition REG_COMMAND :: u8 where "REG_COMMAND = 4"
definition REG_FUNINFO :: u8 where "REG_FUNINFO = 8"
definition REG_HEADERTYPE :: u8 where "REG_HEADERTYPE = 14"
definition REG_BAR0 :: u8 where "REG_BAR0 = 0x10"
definition REG_BAR5 :: u8 where "REG_BAR5 = 0x24"
definition REG_BUS_NUM :: u8 where "REG_BUS_NUM = 0x18"
definition NONEXISTENT :: u16 where "NONEXISTENT = 0xffff"
definition CLASSCODE_PCI_BRIDGE :: u32 where "CLASSCODE_PCI_BRIDGE = 0x060400"
definition NUM_SLOTS :: nat where "NUM_SLOTS = 32"

section \<open>Devices, slots, busses\<close>

record device =
  busid :: u8
  slotid :: u8
  devfn :: u8
  classcode :: u32
  revisionid :: u8
  driver :: "u32 option"

record slot =
  slot_id :: u8
  vendor :: u16
  slot_device :: u16
  devs :: "device list"

record bus =
  bus_id :: u8
  slots :: "slot list"

text \<open>A driver is identified by the address of the registers of its device. The accessors of \<open>classcode_t\<close>, whose fields lie in the bytes of the class code from the lowest.\<close>

definition dev_classid :: "device \<Rightarrow> u8" where "dev_classid d = ucast (classcode d)"
definition dev_subclass :: "device \<Rightarrow> u8" where "dev_subclass d = ucast (drop_bit 8 (classcode d))"
definition dev_progif :: "device \<Rightarrow> u8" where "dev_progif d = ucast (drop_bit 16 (classcode d))"

text \<open>\<open>bar\<close> returns a byte.\<close>

definition dev_bar :: "nat \<Rightarrow> device \<Rightarrow> config \<Rightarrow> u8 option" where
  "dev_bar i d cfg = map_option ucast (pci_readd (busid d) (slotid d) (devfn d) (REG_BAR0 + 4 * of_nat i) cfg)"

text \<open>The constructor of a device, without the bus behind a bridge, which it returns.\<close>

definition device_new :: "u8 \<Rightarrow> u8 \<Rightarrow> u8 \<Rightarrow> config \<Rightarrow> (device \<times> u8 option)" where
  "device_new b s fn cfg =
     (let fund = cfg (config_addr b s fn REG_FUNINFO); cc = drop_bit 8 fund
      in (\<lparr>busid = b, slotid = s, devfn = fn, classcode = cc, revisionid = ucast fund, driver = None\<rparr>,
          if cc = CLASSCODE_PCI_BRIDGE then Some (ucast (drop_bit 16 (cfg (config_addr b s fn REG_BUS_NUM)))) else None))"

text \<open>The functions of a slot that are looked at.\<close>

definition slot_funs :: "u8 \<Rightarrow> u8 \<Rightarrow> config \<Rightarrow> u8 list" where
  "slot_funs b s cfg =
     0 # (if pci_readw b s 0 REG_HEADERTYPE cfg AND 0x80 \<noteq> 0
          then filter (\<lambda>fn. pci_readw b s fn REG_VENDOR cfg \<noteq> NONEXISTENT) [1, 2, 3, 4, 5, 6, 7] else [])"

text \<open>Scanning busses: constructing a device that is a bridge adds the bus behind it (the call \<open>add\<close>) before the scan goes
  on, and a bus is only in the list once its constructor has returned.\<close>

primrec scan_funs :: "(u8 \<Rightarrow> bus list \<Rightarrow> bus list option) \<Rightarrow> u8 \<Rightarrow> u8 \<Rightarrow> config \<Rightarrow> u8 list \<Rightarrow> bus list \<Rightarrow> (device list \<times> bus list) option" where
  "scan_funs add b s cfg [] bs = Some ([], bs)"
| "scan_funs add b s cfg (fn # fns) bs =
     (case device_new b s fn cfg of (d, br) \<Rightarrow>
        Option.bind (case br of None \<Rightarrow> Some bs | Some b' \<Rightarrow> add b' bs) (\<lambda>bs1.
          map_option (\<lambda>(r, bs'). (d # r, bs')) (scan_funs add b s cfg fns bs1)))"

definition slot_new :: "(u8 \<Rightarrow> bus list \<Rightarrow> bus list option) \<Rightarrow> u8 \<Rightarrow> config \<Rightarrow> u8 \<Rightarrow> bus list \<Rightarrow> (slot \<times> bus list) option" where
  "slot_new add b cfg s bs =
     (let v = cfg (config_addr b s 0 0);
          sl = \<lparr>slot_id = s, vendor = ucast v, slot_device = ucast (drop_bit 16 v), devs = []\<rparr>
      in if vendor sl = NONEXISTENT then Some (sl, bs)
         else map_option (\<lambda>(ds, bs'). (sl\<lparr>devs := ds\<rparr>, bs')) (scan_funs add b s cfg (slot_funs b s cfg) bs))"

primrec scan_slots :: "(u8 \<Rightarrow> bus list \<Rightarrow> bus list option) \<Rightarrow> u8 \<Rightarrow> config \<Rightarrow> u8 list \<Rightarrow> bus list \<Rightarrow> (slot list \<times> bus list) option" where
  "scan_slots add b cfg [] bs = Some ([], bs)"
| "scan_slots add b cfg (s # ss) bs =
     Option.bind (slot_new add b cfg s bs) (\<lambda>(sl, bs1). map_option (\<lambda>(r, bs'). (sl # r, bs')) (scan_slots add b cfg ss bs1))"

definition has_bus :: "u8 \<Rightarrow> bus list \<Rightarrow> bool" where "has_bus b bs \<longleftrightarrow> (\<exists>x \<in> set bs. bus_id x = b)"

text \<open>\<open>n\<close> bounds the depth of nested bridges: \<open>None\<close> when a deeper nest is met.\<close>

primrec add_bus :: "nat \<Rightarrow> config \<Rightarrow> u8 \<Rightarrow> bus list \<Rightarrow> bus list option" where
  "add_bus 0 cfg b bs = (if has_bus b bs then Some bs else None)"
| "add_bus (Suc m) cfg b bs =
     (if has_bus b bs then Some bs
      else map_option (\<lambda>(ss, bs'). bs' @ [\<lparr>bus_id = b, slots = ss\<rparr>])
             (scan_slots (add_bus m cfg) b cfg (map of_nat [0 ..< NUM_SLOTS]) bs))"

text \<open>\<open>pci::init\<close>: with several host controllers the loop stops at the first that exists.\<close>

fun add_hosts :: "nat \<Rightarrow> u8 list \<Rightarrow> config \<Rightarrow> bus list \<Rightarrow> bus list option" where
  "add_hosts n [] cfg bs = Some bs"
| "add_hosts n (b # hs) cfg bs =
     (if pci_readw 0 0 b REG_VENDOR cfg \<noteq> NONEXISTENT then Some bs
      else Option.bind (add_bus n cfg b bs) (add_hosts n hs cfg))"

definition pci_init :: "nat \<Rightarrow> config \<Rightarrow> bus list option" where
  "pci_init n cfg =
     (if pci_readw 0 0 0 REG_HEADERTYPE cfg AND 0x80 \<noteq> 0 then add_hosts n [0, 1, 2, 3, 4, 5, 6, 7] cfg []
      else add_bus n cfg 0 [])"

definition all_devices :: "bus list \<Rightarrow> device list" where
  "all_devices bs = concat (map (\<lambda>b. concat (map (\<lambda>s. if vendor s \<noteq> NONEXISTENT then devs s else []) (slots b))) bs)"

text \<open>Offering a driver to the devices: a device that has one keeps it.\<close>

definition probe :: "(device \<Rightarrow> u32 option) \<Rightarrow> device \<Rightarrow> device" where
  "probe factory d = (if driver d = None then d\<lparr>driver := factory d\<rparr> else d)"

definition register_driver :: "(device \<Rightarrow> u32 option) \<Rightarrow> bus list \<Rightarrow> bus list" where
  "register_driver factory =
     map (\<lambda>b. b\<lparr>slots := map (\<lambda>s. if vendor s \<noteq> NONEXISTENT then s\<lparr>devs := map (probe factory) (devs s)\<rparr> else s) (slots b)\<rparr>)"

section \<open>Properties\<close>

text \<open>The fields of a configuration address do not overlap.\<close>

lemma bit_config_addr:
  assumes "slot < 32" "fn < 8"
  shows "bit (config_addr bus slot fn offset) n \<longleftrightarrow>
    (if n < 8 then bit offset n else if n < 11 then bit fn (n - 8) else if n < 16 then bit slot (n - 11)
     else if n < 24 then bit bus (n - 16) else n = 31)"
proof -
  have "take_bit 5 slot = slot" "take_bit 3 fn = fn"
    using assms by (simp_all add: take_bit_eq_mod word_mod_less_divisor word_less_nat_alt word_unat_eq_iff unat_mod)
  then have sb: "bit slot m \<Longrightarrow> m < 5" "bit fn m \<Longrightarrow> m < 3" for m by (metis bit_take_bit_iff)+
  have b: "bit (x :: u8) m \<Longrightarrow> m < 8" for x m using bit_imp_le_length [of x m] by simp
  have "bit (push_bit 31 1 :: int) n \<longleftrightarrow> n = 31" by (simp only: bit_push_bit_iff bit_1_iff) auto
  then have e: "bit (2147483648 :: int) n \<longleftrightarrow> n = 31" by simp
  show ?thesis
    by (cases "n < 32") (auto simp: config_addr_def bit_simps e dest: sb b)
qed

lemma config_addr_inj:
  assumes "slot < 32" "fn < 8" "slot' < 32" "fn' < 8"
  shows "config_addr bus slot fn off = config_addr bus' slot' fn' off' \<longleftrightarrow> bus = bus' \<and> slot = slot' \<and> fn = fn' \<and> off = off'"
proof
  assume e: "config_addr bus slot fn off = config_addr bus' slot' fn' off'"
  have b: "bit (config_addr bus slot fn off) n = bit (config_addr bus' slot' fn' off') n" for n using e by simp
  note b = b [unfolded bit_config_addr [OF assms(1,2)] bit_config_addr [OF assms(3,4)]]
  have z: "take_bit 5 slot = slot" "take_bit 3 fn = fn" "take_bit 5 slot' = slot'" "take_bit 3 fn' = fn'"
    using assms by (simp_all add: take_bit_eq_mod word_mod_less_divisor word_less_nat_alt word_unat_eq_iff unat_mod)
  have "off = off'"
  proof (rule bit_word_eqI)
    fix n assume "n < LENGTH(8)" then show "bit off n = bit off' n" using b [of n] by simp
  qed
  moreover have "bus = bus'"
  proof (rule bit_word_eqI)
    fix n assume "n < LENGTH(8)" then show "bit bus n = bit bus' n" using b [of "16 + n"] by simp
  qed
  moreover have "take_bit 5 slot = take_bit 5 slot'"
  proof (rule bit_word_eqI)
    fix n show "bit (take_bit 5 slot) n = bit (take_bit 5 slot') n" using b [of "11 + n"] by (cases "n < 5") (simp_all add: bit_take_bit_iff)
  qed
  moreover have "take_bit 3 fn = take_bit 3 fn'"
  proof (rule bit_word_eqI)
    fix n show "bit (take_bit 3 fn) n = bit (take_bit 3 fn') n" using b [of "8 + n"] by (cases "n < 3") (simp_all add: bit_take_bit_iff)
  qed
  ultimately show "bus = bus' \<and> slot = slot' \<and> fn = fn' \<and> off = off'" using z by simp
qed simp


lemma word_offset_cases:
  fixes off :: u8
  assumes "off AND 1 = 0"
  shows "off AND 3 = 0 \<or> off AND 3 = 2"
proof -
  have "\<not> bit off 0" using assms by (metis bit_0 even_iff_mod_2_eq_zero and_one_eq one_and_eq)
  then have "off AND 3 = (if bit off 1 then 2 else 0)"
    by (intro bit_word_eqI) (auto simp: bit_simps mask_eq_exp_minus_1 [of 2, simplified] less_Suc_eq numeral_2_eq_2 numeral_3_eq_3)
  then show ?thesis by simp
qed
lemma mask16: "(0xFFFF :: u32) = mask 16" by (simp add: mask_eq_exp_minus_1)
lemma shifted_word:
  fixes old :: u32 and v :: u16
  shows "ucast (drop_bit 0 ((old AND NOT (push_bit 0 0xFFFF)) OR push_bit 0 (ucast v))) = v"
    "ucast (drop_bit 16 ((old AND NOT (push_bit 16 0xFFFF)) OR push_bit 16 (ucast v))) = v"
    "(ucast (drop_bit 16 ((old AND NOT (push_bit 0 0xFFFF)) OR push_bit 0 (ucast v))) :: u16) = ucast (drop_bit 16 old)"
    "(ucast (drop_bit 0 ((old AND NOT (push_bit 16 0xFFFF)) OR push_bit 16 (ucast v))) :: u16) = ucast (drop_bit 0 old)"
  unfolding mask16 by (rule bit_word_eqI; auto simp: bit_simps dest: bit_imp_le_length)+

lemma word_offset_inj:
  fixes off :: u8
  assumes "off AND NOT 3 = off' AND NOT 3" "off AND 3 = off' AND 3"
  shows "off = off'"
proof -
  have "off = (off AND NOT 3) OR (off AND 3)" for off :: u8 by (simp flip: bit.conj_disj_distrib add: or.commute)
  then show ?thesis using assms by metis
qed

text \<open>after \<open>writew\<close> to a word register of a function, \<open>readw\<close> of that register returns the value written and
  \<open>readw\<close> of every other word register, of the same function or of another one, returns what it returned before: the
  configuration addresses of different functions never collide and the other half of the double word is kept.\<close>

theorem pci_words:
  assumes "slot < 32" "fn < 8" "slot' < 32" "fn' < 8" "off AND 1 = 0" "off' AND 1 = 0"
  shows "pci_readw bus' slot' fn' off' (pci_writew bus slot fn off v cfg) =
    (if bus' = bus \<and> slot' = slot \<and> fn' = fn \<and> off' = off then v else pci_readw bus' slot' fn' off' cfg)"
proof (cases "bus = bus' \<and> slot = slot' \<and> fn = fn' \<and> off AND NOT 3 = off' AND NOT 3")
  case False
  then have "config_addr bus slot fn (off AND NOT 3) \<noteq> config_addr bus' slot' fn' (off' AND NOT 3)"
    using config_addr_inj [OF assms(1-4)] by blast
  moreover have "\<not> (bus' = bus \<and> slot' = slot \<and> fn' = fn \<and> off' = off)" using False by blast
  ultimately show ?thesis by (simp only: pci_readw_def pci_writew_def Let_def fun_upd_other if_False not_sym)
next
  case True
  then have "off' = off \<longleftrightarrow> off' AND 3 = off AND 3" using word_offset_inj by metis
  then show ?thesis
    using True word_offset_cases [OF assms(5)] word_offset_cases [OF assms(6)] shifted_word [of "cfg (config_addr bus slot fn (off AND NOT 3))" v]
    by (elim disjE) (simp_all add: pci_readw_def pci_writew_def Let_def word_shift_def)
qed

theorem pci_words_witness:
  "pci_readw 0 3 1 6 (pci_writew 0 3 1 4 0x1234 (\<lambda>_. 0xAAAABBBB)) = 0xAAAA"
  using pci_words [of 3 1 3 1 4 6 0 0 "0x1234" "\<lambda>_. 0xAAAABBBB"] by (simp add: pci_readw_def word_shift_def)

text \<open>What a list of busses says of the hardware: every slot of every listed bus is recorded with the vendor read from it and
  with every function it has, and the bus behind every bridge is listed.\<close>

definition slot_recorded :: "config \<Rightarrow> u8 \<Rightarrow> bus list \<Rightarrow> slot \<Rightarrow> bool" where
  "slot_recorded cfg b bs s \<longleftrightarrow>
     vendor s = ucast (cfg (config_addr b (slot_id s) 0 0)) \<and>
     (vendor s \<noteq> NONEXISTENT \<longrightarrow>
        devs s = map (\<lambda>fn. fst (device_new b (slot_id s) fn cfg)) (slot_funs b (slot_id s) cfg) \<and>
        (\<forall>fn \<in> set (slot_funs b (slot_id s) cfg). \<forall>b'. snd (device_new b (slot_id s) fn cfg) = Some b' \<longrightarrow> has_bus b' bs))"

definition bus_recorded :: "config \<Rightarrow> bus list \<Rightarrow> bus \<Rightarrow> bool" where
  "bus_recorded cfg bs x \<longleftrightarrow>
     map slot_id (slots x) = map of_nat [0 ..< NUM_SLOTS] \<and> (\<forall>s \<in> set (slots x). slot_recorded cfg (bus_id x) bs s)"

definition recorded :: "config \<Rightarrow> bus list \<Rightarrow> bool" where "recorded cfg bs \<longleftrightarrow> (\<forall>x \<in> set bs. bus_recorded cfg bs x)"

lemma has_bus_mono: "has_bus b bs \<Longrightarrow> set bs \<subseteq> set bs' \<Longrightarrow> has_bus b bs'"
  by (auto simp: has_bus_def)

lemma slot_recorded_mono: "slot_recorded cfg b bs s \<Longrightarrow> set bs \<subseteq> set bs' \<Longrightarrow> slot_recorded cfg b bs' s"
  by (auto simp: slot_recorded_def intro: has_bus_mono)

lemma bus_recorded_mono: "bus_recorded cfg bs x \<Longrightarrow> set bs \<subseteq> set bs' \<Longrightarrow> bus_recorded cfg bs' x"
  by (auto simp: bus_recorded_def intro: slot_recorded_mono)

text \<open>The contract of the call that adds the bus behind a bridge, and what the scan makes of it.\<close>

locale bus_adder =
  fixes cfg :: config and add :: "u8 \<Rightarrow> bus list \<Rightarrow> bus list option" and enters :: "u8 \<Rightarrow> bool"
  assumes adds: "recorded cfg bs \<Longrightarrow> enters b \<Longrightarrow> \<exists>bs'. add b bs = Some bs' \<and> recorded cfg bs' \<and> has_bus b bs' \<and> set bs \<subseteq> set bs'"
begin

lemma scan_funs_ok:
  assumes "recorded cfg bs" "\<forall>fn b'. snd (device_new b s fn cfg) = Some b' \<longrightarrow> enters b'"
  shows "\<exists>bs'. scan_funs add b s cfg fns bs = Some (map (\<lambda>fn. fst (device_new b s fn cfg)) fns, bs') \<and> recorded cfg bs' \<and> set bs \<subseteq> set bs' \<and>
    (\<forall>fn \<in> set fns. \<forall>b'. snd (device_new b s fn cfg) = Some b' \<longrightarrow> has_bus b' bs')"
  using assms(1)
proof (induction fns arbitrary: bs)
  case (Cons fn fns)
  obtain d br where d: "device_new b s fn cfg = (d, br)" by fastforce
  obtain bs1 where b1: "(case br of None \<Rightarrow> Some bs | Some b' \<Rightarrow> add b' bs) = Some bs1" "recorded cfg bs1" "set bs \<subseteq> set bs1"
    "\<forall>b'. br = Some b' \<longrightarrow> has_bus b' bs1"
  proof (cases br)
    case None
    then show ?thesis using Cons.prems by (intro that [of bs]) simp_all
  next
    case (Some b')
    then have "enters b'" using assms(2) d by (metis snd_conv)
    then show ?thesis using adds [OF Cons.prems] Some that by fastforce
  qed
  obtain bs' where b': "scan_funs add b s cfg fns bs1 = Some (map (\<lambda>fn. fst (device_new b s fn cfg)) fns, bs')" "recorded cfg bs'" "set bs1 \<subseteq> set bs'"
    "\<forall>fn \<in> set fns. \<forall>b'. snd (device_new b s fn cfg) = Some b' \<longrightarrow> has_bus b' bs'"
    using Cons.IH [OF b1(2)] by blast
  have "\<forall>b'. br = Some b' \<longrightarrow> has_bus b' bs'" using b1(4) b'(3) has_bus_mono by blast
  then show ?case using b1(1,3) b' d by auto
qed simp

lemma slot_new_ok:
  assumes "recorded cfg bs" "\<forall>s fn b'. snd (device_new b s fn cfg) = Some b' \<longrightarrow> enters b'"
  shows "\<exists>sl bs'. slot_new add b cfg s bs = Some (sl, bs') \<and> recorded cfg bs' \<and> set bs \<subseteq> set bs' \<and> slot_id sl = s \<and> slot_recorded cfg b bs' sl"
  using scan_funs_ok [OF assms(1), of b s "slot_funs b s cfg"] assms
  by (fastforce simp: slot_new_def Let_def slot_recorded_def)

lemma scan_slots_ok:
  assumes "recorded cfg bs" "\<forall>s fn b'. snd (device_new b s fn cfg) = Some b' \<longrightarrow> enters b'"
  shows "\<exists>sls bs'. scan_slots add b cfg ss bs = Some (sls, bs') \<and> recorded cfg bs' \<and> set bs \<subseteq> set bs' \<and> map slot_id sls = ss \<and>
    (\<forall>s \<in> set sls. slot_recorded cfg b bs' s)"
  using assms(1)
proof (induction ss arbitrary: bs)
  case (Cons s ss)
  obtain sl bs1 where 1: "slot_new add b cfg s bs = Some (sl, bs1)" "recorded cfg bs1" "set bs \<subseteq> set bs1" "slot_id sl = s" "slot_recorded cfg b bs1 sl"
    using slot_new_ok [OF Cons.prems assms(2)] by blast
  obtain sls bs' where 2: "scan_slots add b cfg ss bs1 = Some (sls, bs')" "recorded cfg bs'" "set bs1 \<subseteq> set bs'" "map slot_id sls = ss"
    "\<forall>s \<in> set sls. slot_recorded cfg b bs' s"
    using Cons.IH [OF 1(2)] by blast
  have "slot_recorded cfg b bs' sl" using slot_recorded_mono [OF 1(5) 2(3)] .
  then show ?case using 1 2 by auto
qed simp

end

text \<open>Bridges lead to busses with a higher number, as the firmware numbers them.\<close>

definition numbered :: "config \<Rightarrow> bool" where
  "numbered cfg \<longleftrightarrow> (\<forall>b s fn b'. snd (device_new b s fn cfg) = Some b' \<longrightarrow> b < b')"

lemma add_bus_adder: "bus_adder cfg (add_bus n cfg) (\<lambda>b. numbered cfg \<and> 256 \<le> unat b + n)"
proof (induction n)
  case 0
  have "\<not> 256 \<le> unat b" for b :: u8 unfolding not_le by (rule order_less_le_trans [OF unsigned_less]) simp
  then show ?case by unfold_locales simp
next
  case (Suc n)
  show ?case
  proof (unfold_locales, goal_cases)
    case (1 bs b)
    show ?case
    proof (cases "has_bus b bs")
      case False
      have "\<forall>s fn b'. snd (device_new b s fn cfg) = Some b' \<longrightarrow> numbered cfg \<and> 256 \<le> unat b' + n"
        using 1(2) by (fastforce simp: numbered_def word_less_nat_alt)
      from bus_adder.scan_slots_ok [OF Suc 1(1) this, of "map of_nat [0 ..< NUM_SLOTS]"]
      obtain sls bs' where 2: "scan_slots (add_bus n cfg) b cfg (map of_nat [0 ..< NUM_SLOTS]) bs = Some (sls, bs')" "recorded cfg bs'" "set bs \<subseteq> set bs'"
        "map slot_id sls = map of_nat [0 ..< NUM_SLOTS]" "\<forall>s \<in> set sls. slot_recorded cfg b bs' s" by blast
      let ?x = "\<lparr>bus_id = b, slots = sls\<rparr>"
      have "bus_recorded cfg bs' ?x" using 2 by (simp add: bus_recorded_def)
      then have "recorded cfg (bs' @ [?x])"
        using 2(2) bus_recorded_mono [of cfg bs' _ "bs' @ [?x]", OF _ subsetI] by (simp add: recorded_def)
      moreover have "has_bus b (bs' @ [?x])" by (simp add: has_bus_def)
      ultimately show ?thesis using False 2 by auto
    qed (use 1 in auto)
  qed
qed

interpretation adder: bus_adder cfg "add_bus n cfg" "\<lambda>b. numbered cfg \<and> 256 \<le> unat b + n" for cfg n
  by (rule add_bus_adder)


text \<open>A machine with nothing but a host bridge.\<close>

definition example_config :: config where
  "example_config a = (if a = config_addr 0 0 0 0 then 0x12378086 else if a = config_addr 0 0 0 8 then 0x06000002
     else if a = config_addr 0 0 0 12 then 0 else 0xFFFFFFFF)"

lemma example_numbered: "numbered example_config"
  by (simp add: numbered_def device_new_def Let_def example_config_def CLASSCODE_PCI_BRIDGE_def)


text \<open>when function 0 of the first slot says that it has several functions, the loop that looks for the
  host controllers leaves at once if function 0 exists, which it does: no bus is scanned and no device is found.\<close>

theorem pci_several_hosts:
  assumes "pci_readw 0 0 0 REG_HEADERTYPE cfg AND 0x80 \<noteq> 0" "pci_readw 0 0 0 REG_VENDOR cfg \<noteq> NONEXISTENT"
  shows "pci_init n cfg = Some []"
  using assms by (simp add: pci_init_def)

theorem pci_several_hosts_witness: "pci_init 3 (\<lambda>_. 0x00800000) = Some []"
  by (rule pci_several_hosts) (simp_all add: pci_readw_def word_shift_def REG_HEADERTYPE_def REG_VENDOR_def NONEXISTENT_def)

end
