(* ===== verification/Ahci.thy ===== *)
theory Ahci
  imports Pci
begin

text \<open>
  The AHCI driver, \<open>kernel/devices/ahci.cpp\<close>: finding the controller and its ports, the command slot of a transfer and the
  commands a transfer is cut into. The device is a parameter: what the successive reads of its registers return for every
  command. The physical addresses of the command tables are parameters too: they are \<open>kmalloc\<close> of theory \<open>Memory\<close>.
\<close>

section \<open>Ports\<close>

datatype port_type = Port_none | SATA | SATAPI | SEMB | PORT_MULTIPLIER

definition ahci_type :: "u32 \<Rightarrow> u32 \<Rightarrow> port_type" where
  "ahci_type st sig =
     (if st AND 0xf \<noteq> 3 \<or> drop_bit 8 st AND 0xf \<noteq> 1 then Port_none
      else if sig = 0xEB140101 then SATAPI
      else if sig = 0xC33C0101 then SEMB
      else if sig = 0x96690101 then PORT_MULTIPLIER
      else SATA)"

definition PORT_ST :: u32 where "PORT_ST = 1"
definition PORT_FRE :: u32 where "PORT_FRE = 0x10"
definition NUM_CMD_SLOTS :: nat where "NUM_CMD_SLOTS = 32"
definition NUM_PRDT_ENTRIES :: nat where "NUM_PRDT_ENTRIES = 8"

text \<open>The values \<open>start_engine\<close> and \<open>stop_engine\<close> store once the loops that wait for the device have ended.\<close>

definition start_engine :: "u32 \<Rightarrow> u32" where "start_engine cmd = cmd OR (PORT_FRE OR PORT_ST)"
definition stop_engine :: "u32 \<Rightarrow> u32" where "stop_engine cmd = cmd AND NOT (PORT_ST OR PORT_FRE)"

fun slot_from :: "u32 \<Rightarrow> nat \<Rightarrow> nat \<Rightarrow> int" where
  "slot_from busy i 0 = - 1"
| "slot_from busy i (Suc k) = (if \<not> bit busy i then int i else slot_from busy (Suc i) k)"

definition find_slot :: "u32 \<Rightarrow> u32 \<Rightarrow> int" where
  "find_slot sata_active command_issue = slot_from (sata_active OR command_issue) 0 NUM_CMD_SLOTS"

text \<open>The ports of a controller that get a driver: \<open>port i\<close> is its status and signature.\<close>

definition sata_ports :: "u32 \<Rightarrow> (nat \<Rightarrow> u32 \<times> u32) \<Rightarrow> nat list" where
  "sata_ports implemented port =
     filter (\<lambda>i. bit implemented i \<and> ahci_type (fst (port i)) (snd (port i)) = SATA) [0 ..< 32]"

definition CLASSCODE_SATA_AHCI :: u32 where "CLASSCODE_SATA_AHCI = 0x010601"
definition BAR_TYPE_MASK :: u32 where "BAR_TYPE_MASK = 6"
definition BAR_TYPE_32BIT :: u32 where "BAR_TYPE_32BIT = 0"
definition BAR_ADDR_MASK :: u32 where "BAR_ADDR_MASK = NOT 15"

text \<open>\<open>maker\<close>: the address of the registers when the device is a controller the driver knows.\<close>

definition ahci_maker :: "device \<Rightarrow> config \<Rightarrow> u32 option" where
  "ahci_maker d cfg =
     (if classcode d \<noteq> CLASSCODE_SATA_AHCI then None
      else case pci_readd (busid d) (slotid d) (devfn d) REG_BAR5 cfg of
             None \<Rightarrow> None
           | Some bar \<Rightarrow> if bar AND BAR_TYPE_MASK \<noteq> BAR_TYPE_32BIT then None else Some (bar AND BAR_ADDR_MASK))"

text \<open>Its constructor turns on bus mastering and memory writes, with a write to the whole double word.\<close>

definition enable_device :: "device \<Rightarrow> config \<Rightarrow> config option" where
  "enable_device d cfg =
     (let cmd = pci_readw (busid d) (slotid d) (devfn d) REG_COMMAND cfg
      in pci_writed (busid d) (slotid d) (devfn d) REG_COMMAND (ucast (cmd OR push_bit 4 1 OR push_bit 2 1)) cfg)"

definition ahci_init :: "config \<Rightarrow> bus list \<Rightarrow> bus list" where
  "ahci_init cfg = register_driver (\<lambda>d. ahci_maker d cfg)"

text \<open>The registers of a port and the command heads after the constructor of its driver.\<close>

record port =
  command_list_base :: u64
  fis_base :: u64
  int_enable :: u32
  port_command :: u32

definition SIZEOF_COMMAND_TABLE :: u32 where "SIZEOF_COMMAND_TABLE = 256"

definition port_setup :: "u32 \<Rightarrow> u32 \<Rightarrow> port \<Rightarrow> port" where
  "port_setup cmd_head_phys fis_phys p =
     p\<lparr>command_list_base := ucast cmd_head_phys, fis_base := ucast fis_phys, int_enable := - 1,
       port_command := start_engine (stop_engine (port_command p))\<rparr>"

definition head_table :: "u32 \<Rightarrow> nat \<Rightarrow> u64" where
  "head_table cmd_table_phys i = ucast (cmd_table_phys + SIZEOF_COMMAND_TABLE * of_nat i)"

definition ahci_open :: "port_type \<Rightarrow> errno + unit" where
  "ahci_open t = (if t = SATA then Inr () else Inl ENOSYS)"

section \<open>Transfers\<close>

record prdt_entry =
  data_base :: u32
  prdt_size :: u32

text \<open>A command: the fields of its head and of the FIS in its table that a transfer writes.\<close>

record command =
  cfl :: nat
  head_write :: bool
  prefetch :: bool
  clear_r_ok :: bool
  prdt_entries :: u16
  fis_type :: u8
  fis_cmd :: bool
  fis_command :: u8
  lbal :: u64
  lbah :: u64
  fis_device :: u8
  count :: u16
  prdt :: "prdt_entry list"

definition FIS_TYPE_REG_H2D :: u8 where "FIS_TYPE_REG_H2D = 0x27"
definition ATA_CMD_READ_DMA_EX :: u8 where "ATA_CMD_READ_DMA_EX = 0x25"
definition ATA_CMD_WRITE_DMA_EX :: u8 where "ATA_CMD_WRITE_DMA_EX = 0x35"
definition ATA_DEV_BUSY :: u32 where "ATA_DEV_BUSY = 0x80"
definition ATA_DEV_BRQ :: u32 where "ATA_DEV_BRQ = 0x08"
definition SECTOR_SIZE :: u32 where "SECTOR_SIZE = 512"
definition MAX_SECTORS :: u32 where "MAX_SECTORS = ((2 ^ 22) - 1) div SECTOR_SIZE"

text \<open>The inner loop: \<open>k\<close> is the number of entries that are left.\<close>

fun fill_prdt :: "nat \<Rightarrow> u32 \<Rightarrow> u32 \<Rightarrow> prdt_entry list \<times> u32 \<times> u32 \<times> u32" where
  "fill_prdt 0 nblks buf = ([], 0, nblks, buf)"
| "fill_prdt (Suc k) nblks buf =
     (if nblks = 0 then ([], 0, nblks, buf)
      else let nsects = min nblks MAX_SECTORS; sz = nsects * SECTOR_SIZE
           in case fill_prdt k (nblks - nsects) (buf + sz) of
                (es, tot, rest, buf') \<Rightarrow> (\<lparr>data_base = buf, prdt_size = take_bit 22 sz\<rparr> # es, nsects + tot, rest, buf'))"

definition make_command :: "u64 \<Rightarrow> u32 \<Rightarrow> bool \<Rightarrow> prdt_entry list \<Rightarrow> command" where
  "make_command blk tot w es =
     \<lparr>cfl = 20 div 4, head_write = w, prefetch = True, clear_r_ok = True, prdt_entries = of_nat (length es),
      fis_type = FIS_TYPE_REG_H2D, fis_cmd = True, fis_command = (if w then ATA_CMD_WRITE_DMA_EX else ATA_CMD_READ_DMA_EX),
      lbal = blk AND mask 24, lbah = drop_bit 24 blk AND mask 24, fis_device = 0xE0, count = ucast tot, prdt = es\<rparr>"

text \<open>What the reads of the registers return while one command runs: \<open>tfd d i\<close> is read \<open>i\<close> of \<open>task_file_data\<close>, \<open>ci d i\<close> and
  \<open>ist d i\<close> those of \<open>command_issue\<close> and \<open>int_status\<close>. The device is given \<open>MAX_CYCLES\<close> reads to become ready; then the
  command is issued, and the waits for its end have no bound: \<open>n\<close> limits them, \<open>None\<close> when they go on.\<close>

record reads =
  tfd :: "nat \<Rightarrow> u32"
  ci :: "nat \<Rightarrow> u32"
  ist :: "nat \<Rightarrow> u32"

definition MAX_CYCLES :: nat where "MAX_CYCLES = 2 ^ 20"

fun hung :: "(nat \<Rightarrow> u32) \<Rightarrow> nat \<Rightarrow> nat \<Rightarrow> bool" where
  "hung f j 0 \<longleftrightarrow> True"
| "hung f j (Suc k) \<longleftrightarrow> (if f j AND (ATA_DEV_BRQ OR ATA_DEV_BUSY) = 0 then False else hung f (Suc j) k)"

text \<open>The loop on \<open>command_issue\<close>: the number of reads it made, or the error.\<close>

fun wait_issued :: "nat \<Rightarrow> nat \<Rightarrow> reads \<Rightarrow> nat \<Rightarrow> (errno + nat) option" where
  "wait_issued 0 slot d j = None"
| "wait_issued (Suc n) slot d j =
     (if ci d j AND (push_bit slot 1 OR push_bit 5 1) = 0 then Some (if bit (ist d j) 30 then Inl EIO else Inr (Suc j))
      else if bit (ist d j) 30 then Some (Inl EIO)
      else wait_issued n slot d (Suc j))"

fun wait_clear :: "nat \<Rightarrow> reads \<Rightarrow> nat \<Rightarrow> unit option" where
  "wait_clear 0 d j = None"
| "wait_clear (Suc n) d j = (if ci d j = 0 then Some () else wait_clear n d (Suc j))"

datatype hw = Hung | Failed | Completed

definition run_command :: "nat \<Rightarrow> nat \<Rightarrow> reads \<Rightarrow> hw option" where
  "run_command n slot d =
     (if hung (tfd d) 0 MAX_CYCLES then Some Hung
      else case wait_issued n slot d 0 of
             None \<Rightarrow> None
           | Some (Inl _) \<Rightarrow> Some Failed
           | Some (Inr j) \<Rightarrow> map_option (\<lambda>_. Completed) (wait_clear n d j))"

text \<open>The entries describe the memory from \<open>a\<close> to \<open>b\<close>.\<close>

fun spans :: "u32 \<Rightarrow> prdt_entry list \<Rightarrow> u32 \<Rightarrow> bool" where
  "spans a [] b \<longleftrightarrow> a = b"
| "spans a (e # es) b \<longleftrightarrow> data_base e = a \<and> 0 < prdt_size e \<and> prdt_size e < 2 ^ 22 \<and> spans (a + prdt_size e) es b"

lemma MAX_SECTORS_val [simp]: "MAX_SECTORS = 8191" "SECTOR_SIZE = 512"
  by (simp_all add: MAX_SECTORS_def SECTOR_SIZE_def)

lemma sector_bytes:
  assumes "0 < n" "n \<le> 8191"
  shows "take_bit 22 (n * 512) = n * 512 \<and> 0 < n * 512 \<and> n * 512 < (2 ^ 22 :: u32)"
proof -
  have n: "0 < unat n" "unat n \<le> 8191" using assms by (simp_all add: word_less_nat_alt word_le_nat_alt)
  then have u: "unat (n * 512) = unat n * 512" by (simp add: unat_word_ariths)
  then have "n * 512 < 2 ^ 22" "0 < n * 512" using n by (simp_all add: word_less_nat_alt)
  moreover have "take_bit 22 (n * 512) = n * 512"
    using u n by (simp add: word_unat_eq_iff unsigned_take_bit_eq take_bit_nat_eq_self)
  ultimately show ?thesis by simp
qed

lemma fill_prdt_ok:
  assumes "fill_prdt k n buf = (es, tot, rest, buf')"
  shows "unat tot + unat rest = unat n \<and> unat tot \<le> k * 8191 \<and> length es \<le> k \<and> spans buf es buf' \<and> buf' = buf + tot * 512 \<and>
    (0 < k \<longrightarrow> n \<noteq> 0 \<longrightarrow> tot \<noteq> 0)"
  using assms
proof (induction k arbitrary: n buf es tot rest buf')
  case (Suc k)
  show ?case
  proof (cases "n = 0")
    case False
    let ?m = "min n 8191"
    obtain es1 t1 where f: "fill_prdt k (n - ?m) (buf + ?m * 512) = (es1, t1, rest, buf')" "tot = ?m + t1"
      "es = \<lparr>data_base = buf, prdt_size = take_bit 22 (?m * 512)\<rparr> # es1"
      using Suc.prems False by (auto simp: Let_def split: prod.splits)
    note IH = Suc.IH [OF f(1)]
    have m: "0 < ?m" "?m \<le> 8191" "?m \<le> n" using False by (auto simp: min_def word_neq_0_conv)
    have um: "unat (n - ?m) = unat n - unat ?m" using m(3) by (simp add: unat_sub)
    have le: "unat ?m \<le> unat n" "unat ?m \<le> 8191" using m by (simp_all add: word_le_nat_alt)
    have "unat ?m + unat t1 \<le> unat n" using IH um le by linarith
    then have ut: "unat tot = unat ?m + unat t1" using unat_u32_lt [of n] f(2) unat_add_lem [of ?m t1] by simp
    have "tot \<noteq> 0" using ut m(1) by (auto simp: word_less_nat_alt)
    moreover have "spans (buf + ?m * 512) es1 buf'" using IH by blast
    then have "spans buf es buf'" unfolding f(3) using sector_bytes [OF m(1,2)] by simp
    moreover have "buf' = buf + tot * 512" using IH f(2) by (simp add: algebra_simps)
    moreover have "unat tot + unat rest = unat n" using ut IH um le by linarith
    moreover have "unat tot \<le> Suc k * 8191" using ut IH le by simp
    moreover have "length es \<le> Suc k" using IH f(3) by simp
    ultimately show ?thesis by blast
  qed (use Suc.prems in auto)
qed auto

lemma fill_prdt_rest: "fill_prdt NUM_PRDT_ENTRIES n buf = (es, tot, rest, buf') \<Longrightarrow> n \<noteq> 0 \<Longrightarrow> unat rest < unat n"
  using fill_prdt_ok [of NUM_PRDT_ENTRIES n buf es tot rest buf'] unat_gt_0 [of tot] by (auto simp: NUM_PRDT_ENTRIES_def)

text \<open>The commands of a transfer that reach the device, and the result; \<open>run i\<close> is what becomes of the command \<open>i\<close>.\<close>

function transfer_loop :: "(nat \<Rightarrow> hw option) \<Rightarrow> nat \<Rightarrow> u64 \<Rightarrow> u32 \<Rightarrow> u32 \<Rightarrow> bool \<Rightarrow> ((errno + unit) \<times> command list) option" where
  "transfer_loop run i blk nblks buf w =
     (if nblks = 0 then Some (Inr (), [])
      else case fill_prdt NUM_PRDT_ENTRIES nblks buf of (es, tot, rest, buf') \<Rightarrow>
        (case run i of
           None \<Rightarrow> None
         | Some Hung \<Rightarrow> Some (Inl EIO, [])
         | Some Failed \<Rightarrow> Some (Inl EIO, [make_command blk tot w es])
         | Some Completed \<Rightarrow>
             map_option (\<lambda>(r, cs). (r, make_command blk tot w es # cs)) (transfer_loop run (Suc i) (blk + ucast tot) rest buf' w)))"
  by pat_completeness auto
termination
  by (relation "measure (\<lambda>(_, _, _, nblks, _, _). unat nblks)") (auto dest!: fill_prdt_rest [OF sym])

declare transfer_loop.simps [simp del]

definition transfer :: "nat \<Rightarrow> (nat \<Rightarrow> reads) \<Rightarrow> u32 \<Rightarrow> u32 \<Rightarrow> u64 \<Rightarrow> u32 \<Rightarrow> u32 \<Rightarrow> bool \<Rightarrow> ((errno + unit) \<times> command list) option" where
  "transfer n dev sata_active command_issue blk nblks buf w =
     (let slot = find_slot sata_active command_issue
      in if slot < 0 then Some (Inl EBUSY, []) else transfer_loop (\<lambda>i. run_command n (nat slot) (dev i)) 0 blk nblks buf w)"

section \<open>Properties\<close>

text \<open>The commands move \<open>n\<close> sectors from the block \<open>blk\<close> on, to or from the memory at \<open>buf\<close>.\<close>

fun moves :: "u64 \<Rightarrow> nat \<Rightarrow> u32 \<Rightarrow> bool \<Rightarrow> command list \<Rightarrow> bool" where
  "moves blk n buf w [] \<longleftrightarrow> n = 0"
| "moves blk n buf w (c # cs) \<longleftrightarrow>
     lbal c OR push_bit 24 (lbah c) = blk AND mask 48 \<and> head_write c = w \<and> fis_command c = (if w then 0x35 else 0x25) \<and> unat (prdt_entries c) = length (prdt c) \<and> 0 < count c \<and> unat (count c) \<le> n \<and>
     length (prdt c) \<le> 8 \<and> spans buf (prdt c) (buf + ucast (count c) * 512) \<and>
     moves (blk + ucast (count c)) (n - unat (count c)) (buf + ucast (count c) * 512) w cs"

lemma lba_split: "(blk AND mask 24) OR push_bit 24 (drop_bit 24 blk AND mask 24) = blk AND (mask 48 :: u64)"
proof (rule bit_word_eqI)
  fix n
  show "bit ((blk AND mask 24) OR push_bit 24 (drop_bit 24 blk AND mask 24)) n = bit (blk AND mask 48) n"
    by (cases "n < 24") (auto simp: bit_simps)
qed

lemma transfer_loop_moves:
  assumes "\<forall>i. run i = Some Completed"
  shows "\<exists>cs. transfer_loop run i blk nblks buf w = Some (Inr (), cs) \<and> moves blk (unat nblks) buf w cs"
proof (induction "unat nblks" arbitrary: i blk nblks buf rule: less_induct)
  case less
  show ?case
  proof (cases "nblks = 0")
    case False
    obtain es tot rest buf' where f: "fill_prdt 8 nblks buf = (es, tot, rest, buf')" by (metis prod_cases4)
    have ok: "unat tot + unat rest = unat nblks" "unat tot \<le> 65528" "length es \<le> 8" "spans buf es buf'" "buf' = buf + tot * 512" "tot \<noteq> 0"
      using fill_prdt_ok [OF f] False by auto
    have c: "unat (ucast tot :: u16) = unat tot" using ok(2) by (simp add: unsigned_ucast_eq take_bit_nat_eq_self)
    then have u: "(ucast (ucast tot :: u16) :: u32) = tot" "(ucast (ucast tot :: u16) :: u64) = ucast tot"
      using ok(2) by (simp_all add: word_unat_eq_iff unsigned_ucast_eq take_bit_nat_eq_self unsigned_take_bit_eq)
    have "unat rest < unat nblks" using ok(1,6) unat_gt_0 [of tot] by linarith
    from less [OF this, of "Suc i" "blk + ucast tot" buf'] obtain cs
      where cs: "transfer_loop run (Suc i) (blk + ucast tot) rest buf' w = Some (Inr (), cs)" "moves (blk + ucast tot) (unat rest) buf' w cs" by blast
    have "transfer_loop run i blk nblks buf w = Some (Inr (), make_command blk tot w es # cs)"
      using False f cs(1) assms by (subst transfer_loop.simps) (simp add: NUM_PRDT_ENTRIES_def)
    moreover have "0 < (ucast tot :: u16)" using c ok(6) by (simp add: word_less_nat_alt unat_gt_0)
    moreover have "unat nblks - unat tot = unat rest" "unat tot \<le> unat nblks" using ok(1) by linarith+
    moreover have le: "unat (of_nat (length es) :: u16) = length es" using ok(3) by (simp add: unsigned_of_nat take_bit_nat_eq_self)
    ultimately show ?thesis
      using ok c u cs(2) lba_split [of blk]
      by (simp add: make_command_def ATA_CMD_WRITE_DMA_EX_def ATA_CMD_READ_DMA_EX_def le del: push_bit_and)
  qed (simp add: transfer_loop.simps)
qed

lemma slot_from_least:
  "slot_from busy i k = (if \<exists>j. i \<le> j \<and> j < i + k \<and> \<not> bit busy j then int (LEAST j. i \<le> j \<and> \<not> bit busy j) else - 1)"
proof (induction k arbitrary: i)
  case (Suc k)
  show ?case
  proof (cases "bit busy i")
    case True
    have "i \<le> j \<and> \<not> bit busy j \<longleftrightarrow> Suc i \<le> j \<and> \<not> bit busy j" for j using True by (cases "j = i") auto
    moreover have "(\<exists>j. i \<le> j \<and> j < i + Suc k \<and> \<not> bit busy j) \<longleftrightarrow> (\<exists>j. Suc i \<le> j \<and> j < Suc i + k \<and> \<not> bit busy j)"
      using calculation by (metis add_Suc_right add_Suc_shift)
    ultimately show ?thesis using Suc [of "Suc i"] True by (simp only: slot_from.simps simp_thms if_False not_True_eq_False)
  next
    case False
    then have "(LEAST j. i \<le> j \<and> \<not> bit busy j) = i" by (intro Least_equality) auto
    moreover have "\<exists>j. i \<le> j \<and> j < i + Suc k \<and> \<not> bit busy j" using False by (intro exI [of _ i]) simp
    ultimately show ?thesis using False by simp
  qed
qed simp

text \<open>A device that answers: it becomes ready in time, reports no error and ends the command within \<open>n\<close> reads.\<close>

definition answers :: "nat \<Rightarrow> reads \<Rightarrow> bool" where
  "answers n d \<longleftrightarrow> (\<exists>j < MAX_CYCLES. tfd d j AND (ATA_DEV_BRQ OR ATA_DEV_BUSY) = 0) \<and> (\<forall>j. \<not> bit (ist d j) 30) \<and>
     (\<forall>j \<ge> n. ci d j = 0)"

lemma hung_iff: "hung f i k \<longleftrightarrow> (\<forall>j. i \<le> j \<longrightarrow> j < i + k \<longrightarrow> f j AND (ATA_DEV_BRQ OR ATA_DEV_BUSY) \<noteq> 0)"
proof (induction k arbitrary: i)
  case (Suc k)
  show ?case
  proof (cases "f i AND (ATA_DEV_BRQ OR ATA_DEV_BUSY) = 0")
    case False
    then have "(i \<le> j \<longrightarrow> j < i + Suc k \<longrightarrow> f j AND (ATA_DEV_BRQ OR ATA_DEV_BUSY) \<noteq> 0) \<longleftrightarrow>
      (Suc i \<le> j \<longrightarrow> j < Suc i + k \<longrightarrow> f j AND (ATA_DEV_BRQ OR ATA_DEV_BUSY) \<noteq> 0)" for j by (cases "j = i") auto
    then show ?thesis using False Suc [of "Suc i"] by simp
  qed auto
qed simp

lemma wait_issued_ends:
  assumes "\<forall>j. \<not> bit (ist d j) 30" "\<forall>j \<ge> n. ci d j = 0" "n < j + k" "0 < k"
  shows "\<exists>i. wait_issued k slot d j = Some (Inr i)"
  using assms(3,4)
proof (induction k arbitrary: j)
  case (Suc k)
  then show ?case using assms(1,2) by (cases k) auto
qed simp

lemma wait_clear_ends: "\<forall>j \<ge> n. ci d j = 0 \<Longrightarrow> n < j + k \<Longrightarrow> 0 < k \<Longrightarrow> wait_clear k d j = Some ()"
proof (induction k arbitrary: j)
  case (Suc k)
  then show ?case by (cases k) auto
qed simp

lemma run_command_answers: "answers n d \<Longrightarrow> run_command (Suc n) slot d = Some Completed"
  using wait_issued_ends [of d n 0 "Suc n" slot] wait_clear_ends [of n d _ "Suc n"]
  by (fastforce simp: run_command_def answers_def hung_iff)


definition example_reads :: reads where
  "example_reads = \<lparr>tfd = \<lambda>j. if j < 2 then 0x80 else 0x50, ci = \<lambda>j. if j < 3 then 2 else 0, ist = \<lambda>_. 1\<rparr>"

lemma example_answers: "answers 3 example_reads"
  by (auto simp: answers_def example_reads_def MAX_CYCLES_def ATA_DEV_BRQ_def ATA_DEV_BUSY_def bit_simps intro!: exI [of _ 2])


end
