(* ===== verification/Dma.thy ===== *)
theory Dma
  imports Kmalloc Ahci
begin

text \<open>
  The memory of the AHCI driver: the constructor in \<open>kernel/devices/ahci.cpp\<close> takes the command tables, the command heads and the received FIS from
  \<open>kmalloc\<close> of theory \<open>Kmalloc\<close> and maps their physical addresses again, uncached, with \<open>remap\<close> of theory \<open>Memory\<close>.
\<close>

section \<open>Definitions\<close>

definition DMA_FLAGS :: u32 where "DMA_FLAGS = KMALLOC_ALIGN OR KMALLOC_ZERO"

definition kremap :: "(nat \<Rightarrow> u32) \<Rightarrow> u32 \<Rightarrow> u32 \<Rightarrow> u32 \<times> kernel_memory \<Rightarrow> u32 option \<times> u32 \<times> kernel_memory" where
  "kremap phys_of phys sz cst =
     (case remap phys_of phys sz False (fst cst, hpages (kheap (snd cst))) of
        (r, curpos, pg) \<Rightarrow> (r, curpos, (snd cst)\<lparr>kheap := (kheap (snd cst))\<lparr>hpages := pg\<rparr>\<rparr>))"

text \<open>\<open>cmd_head\<close>, \<open>cmd_table\<close> and \<open>fis\<close>, where \<open>None\<close> is the null pointer, with their physical addresses.\<close>

definition dma_buffers :: "(nat \<Rightarrow> u32) \<Rightarrow> u32 \<times> kernel_memory \<Rightarrow> ((u32 option \<times> u32) list \<times> u32 \<times> kernel_memory) option" where
  "dma_buffers phys_of cst = do {
     (p1, t, st1) \<leftarrow> kmalloc phys_of (SIZEOF_COMMAND_TABLE * of_nat NUM_CMD_SLOTS) DMA_FLAGS True (snd cst);
     (p2, h, st2) \<leftarrow> kmalloc phys_of (32 * 32) DMA_FLAGS True st1;
     (p3, f, st3) \<leftarrow> kmalloc phys_of 256 DMA_FLAGS True st2;
     table_phys \<leftarrow> t;
     head_phys \<leftarrow> h;
     fis_phys \<leftarrow> f;
     let (cmd_head, cst4) = kremap phys_of head_phys (32 * 32) (fst cst, st3);
     let (cmd_table, cst5) = kremap phys_of table_phys (SIZEOF_COMMAND_TABLE * of_nat NUM_CMD_SLOTS) cst4;
     let (fis, cst6) = kremap phys_of fis_phys 256 cst5;
     Some ([(cmd_head, head_phys), (cmd_table, table_phys), (fis, fis_phys)], cst6) }"

section \<open>The size of the memory stays\<close>

lemma map_set_memory: "map_set x pos v s = Some s' \<Longrightarrow> memory_size s' = memory_size s"
  by (auto simp: map_set_def)

lemma put_free_memory: "put_free i x s = Some s' \<Longrightarrow> memory_size s' = memory_size s"
  by (auto simp: put_free_def ple_insert_def Let_def dest!: map_set_memory split: Option.bind_splits)

lemma split_loop_memory: "split_loop order i x s = Some s' \<Longrightarrow> memory_size s' = memory_size s"
  by (induction x arbitrary: s) (auto dest!: put_free_memory split: if_splits Option.bind_splits)

lemma alloc_frames_memory: "alloc_frames order s = Some (p, s') \<Longrightarrow> memory_size s' = memory_size s"
  by (auto simp: alloc_frames_def Let_def ple_remove_def dest!: split_loop_memory map_set_memory split: if_splits Option.bind_splits ple.splits)

lemma alloc_page_memory: "alloc_page phys_of d flags i s = Some (ok, s') \<Longrightarrow> memory_size (frames s') = memory_size (frames s)"
  by (auto simp: alloc_page_def alloc_new_def get_page_def new_table_def set_dir_def write_page_def Let_def
      dest!: alloc_frames_memory split: if_splits option.splits Option.bind_splits prod.splits)

lemma alloc_loop_memory: "alloc_loop phys_of d flags is s = Some (ok, s') \<Longrightarrow> memory_size (frames s') = memory_size (frames s)"
  by (induction "is" arbitrary: s) (auto dest!: alloc_page_memory split: if_splits Option.bind_splits)

lemma sbrk_memory: "sbrk phys_of inc s = Some (n, s') \<Longrightarrow> memory_size (frames (hpages s')) = memory_size (frames (hpages s))"
  by (auto simp: sbrk_def Let_def alloc_pages_def dest!: alloc_loop_memory)

lemma insert_list_pages: "insert_list l x s = Some s' \<Longrightarrow> hpages s' = hpages s"
  using relinked_fields(8) [OF relinked_ops(1)] by (auto simp: insert_list_def split: if_splits)

lemma grow_memory: "grow phys_of sz align s = Some (h, s') \<Longrightarrow> memory_size (frames (hpages s')) = memory_size (frames (hpages s))"
  by (auto simp: grow_def last_block_def Let_def write_footer_def write_header_def set_size_def remove_fields
      dest!: sbrk_memory split: if_splits)

lemma split_pages:
  "split_front h s = Some (h', s') \<Longrightarrow> hpages s' = hpages s" "split_back h sz s = Some s' \<Longrightarrow> hpages s' = hpages s"
  by (auto simp: split_front_def split_back_def Let_def write_footer_def write_header_def set_size_def set_used_def set_fheader_def
      dest!: insert_list_pages split: if_splits)

lemma heap_alloc_memory: "heap_alloc phys_of n align s = Some (p, s') \<Longrightarrow> memory_size (frames (hpages s')) = memory_size (frames (hpages s))"
  by (auto simp: heap_alloc_def Let_def set_used_def bind_eq_Some_conv remove_fields dest!: split_pages grow_memory split: if_splits)

lemma kmalloc_memory:
  assumes "kmalloc phys_of n flags want st = Some (p, phys, st')"
  shows "memory_size (frames (hpages (kheap st'))) = memory_size (frames (hpages (kheap st)))"
  using assms by (auto simp: kmalloc_def kmalloc_placement_def Let_def dest!: heap_alloc_memory split: if_splits Option.bind_splits)

section \<open>Low memory cannot be mapped again\<close>

lemma low_phys:
  assumes "unat f < 0x10000"
  shows "push_bit 12 f + (p AND 0xFFF) < KERNEL_IDMAP_SIZE"
proof -
  have "unat (push_bit 12 f) = unat f * 4096" using assms by (subst unat_push_bit_lt) simp_all
  moreover have "unat (p AND 0xFFF :: u32) = unat p mod 4096" by (rule page_offset)
  ultimately have "unat (push_bit 12 f + (p AND 0xFFF)) = unat f * 4096 + unat p mod 4096"
    using assms by (subst unat_add_lt) simp_all
  moreover have "unat p mod 4096 < 4096" by simp
  ultimately show ?thesis using assms by (simp add: word_less_nat_alt KERNEL_IDMAP_SIZE_def)
qed

text \<open>on a machine with at most 256 MiB of memory every uncached \<open>remap\<close> of the physical address of something that \<open>kmalloc\<close> returned gives
  the null pointer and changes nothing. The AHCI driver takes its command heads, command tables and received FIS in this way and writes through
  the pointers without a test.\<close>

theorem dma_remap_null:
  assumes "heap_ok (kheap st) B" "honline (kheap st)" "unat n \<le> 0x20000000"
    and "find_fit (kheap st) (block_size n) (flags AND KMALLOC_ALIGN \<noteq> 0) (hnext (kheap st) free_blocks) \<noteq> Some free_blocks \<or>
      can_grow phys_of n (flags AND KMALLOC_ALIGN \<noteq> 0) (kheap st)"
    and "unat (memory_size (frames (hpages (kheap st)))) \<le> 0x10000000"
  shows "\<exists>p phys st'. kmalloc phys_of n flags True st = Some (p, Some phys, st') \<and> kremap phys_of phys sz (curpos, st') = (None, curpos, st')"
proof -
  from kmalloc_ok [OF assms(1-4), of True] obtain p phys st' where
    k: "kmalloc phys_of n flags True st = Some (p, phys, st')"
    "let e = lookup (hpages (kheap st')) KERNEL_DIR (drop_bit 12 p) in pg_present e \<and> unat (pg_addr e) < frames_total (frames (hpages (kheap st'))) \<and>
       phys = Some (push_bit 12 (pg_addr e) + (p AND 0xFFF))" by blast
  have "unat (memory_size (frames (hpages (kheap st')))) div 4096 \<le> 0x10000000 div 4096"
    using assms(5) by (intro div_le_mono) (simp add: kmalloc_memory [OF k(1)])
  then have "frames_total (frames (hpages (kheap st'))) \<le> 0x10000" by (simp add: frames_total_def PAGE_SHIFT_def)
  then obtain ph where ph: "phys = Some ph" "ph < KERNEL_IDMAP_SIZE" using k(2) low_phys by (auto simp: Let_def)
  then have "kremap phys_of ph sz (curpos, st') = (None, curpos, st')" by (simp add: kremap_def remap_def)
  then show ?thesis using k(1) ph(1) by blast
qed

lemma heap_init_memory: "heap_init phys_of s = Some s' \<Longrightarrow> memory_size (frames (hpages s')) = memory_size (frames (hpages s))"
  by (auto simp: heap_init_def Let_def alloc_pages_def write_footer_def write_header_def
      dest!: insert_list_pages alloc_loop_memory split: Option.bind_splits)

theorem dma_remap_null_witness:
  "\<exists>(st :: kernel_memory) p phys st'. heap_ok (kheap st) {} \<and> kmalloc (\<lambda>t. of_nat t * 4096) 100 DMA_FLAGS True st = Some (p, Some phys, st') \<and>
     kremap (\<lambda>t. of_nat t * 4096) phys 100 (0xF0000000, st') = (None, 0xF0000000, st')"
proof -
  obtain s0 s where s: "heap_init (\<lambda>t. of_nat t * 4096) s0 = Some s" "memory_size (frames (hpages s0)) = 0x800000" "heap_ok s {}" "honline s"
    "find_fit s (block_size 100) True (hnext s free_blocks) = Some HEAP_BASE" using heap_example by blast
  let ?st = "\<lparr>kheap = s, placement_addr = 0, kbytes = \<lparr>mem = \<lambda>_. 7, df = False\<rparr>\<rparr>"
  have f: "DMA_FLAGS AND KMALLOC_ALIGN \<noteq> 0" by (simp add: KMALLOC_ALIGN_def KMALLOC_ZERO_def DMA_FLAGS_def)
  have "HEAP_BASE \<noteq> free_blocks" by (simp add: HEAP_BASE_def free_blocks_def)
  then have fit: "find_fit (kheap ?st) (block_size 100) (DMA_FLAGS AND KMALLOC_ALIGN \<noteq> 0) (hnext (kheap ?st) free_blocks) \<noteq> Some free_blocks"
    using s(5) f by simp
  have "unat (memory_size (frames (hpages (kheap ?st)))) \<le> 0x10000000" using heap_init_memory [OF s(1)] s(2) by simp
  then have "\<exists>p phys st'. kmalloc (\<lambda>t. of_nat t * 4096) 100 DMA_FLAGS True ?st = Some (p, Some phys, st') \<and>
      kremap (\<lambda>t. of_nat t * 4096) phys 100 (0xF0000000, st') = (None, 0xF0000000, st')"
    using dma_remap_null [of ?st "{}" 100 DMA_FLAGS "\<lambda>t. of_nat t * 4096" 100 "0xF0000000"] s(3,4) fit by simp
  then obtain p phys st' where "kmalloc (\<lambda>t. of_nat t * 4096) 100 DMA_FLAGS True ?st = Some (p, Some phys, st')"
      "kremap (\<lambda>t. of_nat t * 4096) phys 100 (0xF0000000, st') = (None, 0xF0000000, st')" by blast
  then show ?thesis using s(3) by (intro exI [of _ ?st] exI [of _ p] exI [of _ phys] exI [of _ st'] conjI) simp_all
qed

end
