(* ===== verification/X86.thy ===== *)
theory X86
  imports KString
begin

text \<open>
  The part of the i386 that the assembly files of the kernel use: general and segment registers, flags, control registers, the
  registers of \<open>sysenter\<close>, physical memory behind a translation of addresses, and the instructions of \<open>switch.s\<close>, \<open>save.s\<close>,
  \<open>schedcall.s\<close>, \<open>irq.s\<close>, \<open>entry.s\<close>, \<open>gdtflush.s\<close> and \<open>boot.s\<close>. A routine is the list of its instructions; a list runs up to
  the first instruction that leaves it. The theory has the processor and the rules to compute with it, the routines are in the
  theories \<open>Switch\<close> and \<open>Stubs\<close>.
\<close>

section \<open>The state of the processor\<close>

datatype reg = EAX | ECX | EDX | EBX | ESP | EBP | ESI | EDI

datatype seg = CS | DS | ES | FS | GS | SS

record x86 =
  rg :: "reg \<Rightarrow> u32"
  sg :: "seg \<Rightarrow> u16"
  ip :: u32
  fl :: u32
  cr0 :: u32
  cr3 :: u32
  cr4 :: u32
  msr :: "u32 \<Rightarrow> u32"
  ram :: mem

text \<open>\<open>tr\<close> translates addresses: \<open>tr c a\<close> is the physical address of \<open>a\<close> in the page directory at the physical address \<open>c\<close>.\<close>

type_synonym translation = "u32 \<Rightarrow> u32 \<Rightarrow> u32"

definition vw :: "translation \<Rightarrow> x86 \<Rightarrow> mem" where
  "vw tr s = (\<lambda>a. ram s (tr (cr3 s) a))"

definition ld32 :: "mem \<Rightarrow> u32 \<Rightarrow> u32" where
  "ld32 m a = ucast (m a) OR push_bit 8 (ucast (m (a + 1))) OR push_bit 16 (ucast (m (a + 2))) OR push_bit 24 (ucast (m (a + 3)))"

definition ld :: "translation \<Rightarrow> x86 \<Rightarrow> u32 \<Rightarrow> u32" where
  "ld tr s a = ld32 (vw tr s) a"

definition st :: "translation \<Rightarrow> u32 \<Rightarrow> u32 \<Rightarrow> x86 \<Rightarrow> x86" where
  "st tr a v s = s\<lparr>ram := (ram s)
     (tr (cr3 s) a := ucast v, tr (cr3 s) (a + 1) := ucast (drop_bit 8 v),
      tr (cr3 s) (a + 2) := ucast (drop_bit 16 v), tr (cr3 s) (a + 3) := ucast (drop_bit 24 v))\<rparr>"

definition set_rg :: "reg \<Rightarrow> u32 \<Rightarrow> x86 \<Rightarrow> x86" where
  "set_rg r v s = s\<lparr>rg := (rg s)(r := v)\<rparr>"

definition set_sg :: "seg \<Rightarrow> u16 \<Rightarrow> x86 \<Rightarrow> x86" where
  "set_sg g v s = s\<lparr>sg := (sg s)(g := v)\<rparr>"

definition set_low :: "reg \<Rightarrow> u16 \<Rightarrow> x86 \<Rightarrow> x86" where
  "set_low r v s = set_rg r ((rg s r AND 0xFFFF0000) OR ucast v) s"

definition cpl :: "x86 \<Rightarrow> u16" where "cpl s = sg s CS AND 3"

definition push :: "translation \<Rightarrow> u32 \<Rightarrow> x86 \<Rightarrow> x86" where
  "push tr v s = set_rg ESP (rg s ESP - 4) (st tr (rg s ESP - 4) v s)"

definition pop_to :: "translation \<Rightarrow> reg \<Rightarrow> x86 \<Rightarrow> x86" where
  "pop_to tr r s = set_rg r (ld tr s (rg s ESP)) (set_rg ESP (4 + rg s ESP) s)"

section \<open>Flags\<close>

definition F_IF :: u32 where "F_IF = 0x200"
definition F_DF :: u32 where "F_DF = 0x400"

text \<open>\<open>popf\<close> in the kernel loads the flags of \<open>F_POP\<close> and clears the resume flag, \<open>iret\<close> loads those of \<open>F_IRET\<close>; bit 1 is always set.
  Flags of a program in protected mode have no other bits.\<close>

definition F_POP :: u32 where "F_POP = 0x00247FD5"
definition F_RF :: u32 where "F_RF = 0x00010000"
definition F_IRET :: u32 where "F_IRET = 0x003D7FD5"

definition flags_ok :: "u32 \<Rightarrow> bool" where
  "flags_ok f \<longleftrightarrow> f AND NOT F_IRET = 2"

definition pop_flags :: "u32 \<Rightarrow> u32 \<Rightarrow> u32" where
  "pop_flags old v = (old AND NOT F_POP AND NOT F_RF) OR (v AND F_POP)"

definition iret_flags :: "u32 \<Rightarrow> u32" where
  "iret_flags v = (v AND F_IRET) OR 2"

definition parity :: "u32 \<Rightarrow> bool" where
  "parity v \<longleftrightarrow> even (length (filter (bit v) [0 ..< 8]))"

text \<open>Carry, parity, adjust, zero, sign and overflow after an addition, a subtraction or a logical operation.\<close>

definition status_flags :: "bool \<Rightarrow> bool \<Rightarrow> bool \<Rightarrow> u32 \<Rightarrow> u32 \<Rightarrow> u32" where
  "status_flags c a ov v f =
     (f AND NOT 0x8D5) OR (if c then 1 else 0) OR (if parity v then 4 else 0) OR (if a then 0x10 else 0) OR
     (if v = 0 then 0x40 else 0) OR (if sint v < 0 then 0x80 else 0) OR (if ov then 0x800 else 0)"

definition add_flags :: "u32 \<Rightarrow> u32 \<Rightarrow> u32 \<Rightarrow> u32" where
  "add_flags x y = status_flags (x + y < x) ((x AND 15) + (y AND 15) > 15) (sint (x + y) \<noteq> sint x + sint y) (x + y)"

definition sub_flags :: "u32 \<Rightarrow> u32 \<Rightarrow> u32 \<Rightarrow> u32" where
  "sub_flags x y = status_flags (x < y) ((x AND 15) < (y AND 15)) (sint (x - y) \<noteq> sint x - sint y) (x - y)"

definition logic_flags :: "u32 \<Rightarrow> u32 \<Rightarrow> u32" where
  "logic_flags v = status_flags False False False v"

definition flag_less :: "u32 \<Rightarrow> bool" where
  "flag_less f \<longleftrightarrow> bit f 7 \<noteq> bit f 11"

section \<open>Instructions\<close>

text \<open>\<open>LOAD r b d\<close> is \<open>mov r, [b+d]\<close> and \<open>STORE b d r\<close> is \<open>mov [b+d], r\<close>, \<open>STOREI a v\<close> is \<open>mov dword [a], v\<close>; the targets of jumps are addresses; \<open>CALL f k\<close> has the address \<open>k\<close> of the
  instruction behind it. The floating point unit, the translation cache and the register of the descriptor table are not part of the state, so that \<open>FNINIT\<close>, \<open>INVLPG\<close> and \<open>LGDT\<close>
  change nothing of it; \<open>HLT\<close> only waits for an interrupt.\<close>

datatype instr =
    CLI | STI | PUSHA | POPA | PUSHF | POPF
  | PUSH reg | PUSHI u32 | POP reg
  | MOV reg reg | MOVI reg u32 | LOAD reg reg u32 | STORE reg u32 reg | STOREI u32 u32 | LEA reg reg u32
  | ADD reg u32 | SUB reg u32 | ORI reg u32 | ANDI reg u32 | CMP reg u32
  | MOVI16 reg u16 | TOSEG seg reg | FROMSEG reg seg
  | TOCR0 reg | TOCR3 reg | TOCR4 reg | FROMCR0 reg | FROMCR4 reg
  | JL u32 | JGE u32 | JMP u32 | JMPF u16 u32 | JMPR reg | JMPTAB u32 reg | CALL u32 u32 | RET | IRET | SYSENTER | SYSEXIT
  | FNINIT | INVLPG u32 | LGDT u32 | HLT

definition pusha :: "translation \<Rightarrow> x86 \<Rightarrow> x86" where
  "pusha tr s =
     push tr (rg s EDI) (push tr (rg s ESI) (push tr (rg s EBP) (push tr (rg s ESP)
       (push tr (rg s EBX) (push tr (rg s EDX) (push tr (rg s ECX) (push tr (rg s EAX) s)))))))"

definition popa :: "translation \<Rightarrow> x86 \<Rightarrow> x86" where
  "popa tr s =
     (let e = rg s ESP
      in s\<lparr>rg := (rg s)(EDI := ld tr s e, ESI := ld tr s (4 + e), EBP := ld tr s (8 + e), EBX := ld tr s (16 + e),
             EDX := ld tr s (20 + e), ECX := ld tr s (24 + e), EAX := ld tr s (28 + e), ESP := 32 + e)\<rparr>)"

text \<open>\<open>iret\<close> takes a stack pointer and a stack segment from the stack when it leaves to a lower privilege.\<close>

definition iret :: "translation \<Rightarrow> x86 \<Rightarrow> x86" where
  "iret tr s =
     (let e = rg s ESP; c = ucast (ld tr s (4 + e)) :: u16;
          s1 = s\<lparr>ip := ld tr s e, fl := iret_flags (ld tr s (8 + e)), sg := (sg s)(CS := c)\<rparr>
      in if cpl s < c AND 3 then set_rg ESP (ld tr s (12 + e)) (set_sg SS (ucast (ld tr s (16 + e))) s1)
         else set_rg ESP (12 + e) s1)"

definition MSR_CS :: u32 where "MSR_CS = 0x174"
definition MSR_ESP :: u32 where "MSR_ESP = 0x175"
definition MSR_EIP :: u32 where "MSR_EIP = 0x176"

definition sysenter :: "x86 \<Rightarrow> x86" where
  "sysenter s =
     (let c = ucast (msr s MSR_CS) AND 0xFFFC :: u16
      in set_rg ESP (msr s MSR_ESP) (s\<lparr>ip := msr s MSR_EIP, fl := fl s AND NOT F_IF AND NOT F_RF, sg := (sg s)(CS := c, SS := c + 8)\<rparr>))"

definition sysexit :: "x86 \<Rightarrow> x86" where
  "sysexit s =
     (let c = ucast (msr s MSR_CS) :: u16
      in set_rg ESP (rg s ECX) (s\<lparr>ip := rg s EDX, sg := (sg s)(CS := (c + 16) OR 3, SS := (c + 24) OR 3)\<rparr>))"

fun step :: "translation \<Rightarrow> instr \<Rightarrow> x86 \<Rightarrow> x86" where
  "step tr CLI s = s\<lparr>fl := fl s AND NOT F_IF\<rparr>"
| "step tr STI s = s\<lparr>fl := fl s OR F_IF\<rparr>"
| "step tr PUSHA s = pusha tr s"
| "step tr POPA s = popa tr s"
| "step tr PUSHF s = push tr (fl s AND 0x00FCFFFF) s"
| "step tr POPF s = set_rg ESP (4 + rg s ESP) (s\<lparr>fl := pop_flags (fl s) (ld tr s (rg s ESP))\<rparr>)"
| "step tr (PUSH r) s = push tr (rg s r) s"
| "step tr (PUSHI v) s = push tr v s"
| "step tr (POP r) s = pop_to tr r s"
| "step tr (MOV r q) s = set_rg r (rg s q) s"
| "step tr (MOVI r v) s = set_rg r v s"
| "step tr (LOAD r b d) s = set_rg r (ld tr s (d + rg s b)) s"
| "step tr (STORE b d r) s = st tr (d + rg s b) (rg s r) s"
| "step tr (STOREI a v) s = st tr a v s"
| "step tr (LEA r b d) s = set_rg r (d + rg s b) s"
| "step tr (ADD r v) s = set_rg r (v + rg s r) (s\<lparr>fl := add_flags (rg s r) v (fl s)\<rparr>)"
| "step tr (SUB r v) s = set_rg r (rg s r - v) (s\<lparr>fl := sub_flags (rg s r) v (fl s)\<rparr>)"
| "step tr (ORI r v) s = set_rg r (rg s r OR v) (s\<lparr>fl := logic_flags (rg s r OR v) (fl s)\<rparr>)"
| "step tr (ANDI r v) s = set_rg r (rg s r AND v) (s\<lparr>fl := logic_flags (rg s r AND v) (fl s)\<rparr>)"
| "step tr (CMP r v) s = s\<lparr>fl := sub_flags (rg s r) v (fl s)\<rparr>"
| "step tr (MOVI16 r v) s = set_low r v s"
| "step tr (TOSEG g r) s = set_sg g (ucast (rg s r)) s"
| "step tr (FROMSEG r g) s = set_low r (sg s g) s"
| "step tr (TOCR0 r) s = s\<lparr>cr0 := rg s r\<rparr>"
| "step tr (TOCR3 r) s = s\<lparr>cr3 := rg s r\<rparr>"
| "step tr (TOCR4 r) s = s\<lparr>cr4 := rg s r\<rparr>"
| "step tr (FROMCR0 r) s = set_rg r (cr0 s) s"
| "step tr (FROMCR4 r) s = set_rg r (cr4 s) s"
| "step tr (JL a) s = (if flag_less (fl s) then s\<lparr>ip := a\<rparr> else s)"
| "step tr (JGE a) s = (if flag_less (fl s) then s else s\<lparr>ip := a\<rparr>)"
| "step tr (JMP a) s = s\<lparr>ip := a\<rparr>"
| "step tr (JMPF c a) s = (set_sg CS c s)\<lparr>ip := a\<rparr>"
| "step tr (JMPR r) s = s\<lparr>ip := rg s r\<rparr>"
| "step tr (JMPTAB a r) s = s\<lparr>ip := ld tr s (4 * rg s r + a)\<rparr>"
| "step tr (CALL a k) s = (push tr k s)\<lparr>ip := a\<rparr>"
| "step tr RET s = set_rg ESP (4 + rg s ESP) (s\<lparr>ip := ld tr s (rg s ESP)\<rparr>)"
| "step tr IRET s = iret tr s"
| "step tr SYSENTER s = sysenter s"
| "step tr SYSEXIT s = sysexit s"
| "step tr FNINIT s = s"
| "step tr (INVLPG a) s = s"
| "step tr (LGDT a) s = s"
| "step tr HLT s = s"

fun leaves :: "instr \<Rightarrow> x86 \<Rightarrow> bool" where
  "leaves (JL a) s = flag_less (fl s)"
| "leaves (JGE a) s = (\<not> flag_less (fl s))"
| "leaves (JMP a) s = True"
| "leaves (JMPF c a) s = True"
| "leaves (JMPR r) s = True"
| "leaves (JMPTAB a r) s = True"
| "leaves (CALL a k) s = True"
| "leaves RET s = True"
| "leaves IRET s = True"
| "leaves SYSENTER s = True"
| "leaves SYSEXIT s = True"
| "leaves i s = False"

primrec run :: "translation \<Rightarrow> instr list \<Rightarrow> x86 \<Rightarrow> x86" where
  "run tr [] s = s"
| "run tr (i # is) s = (if leaves i s then step tr i s else run tr is (step tr i s))"

section \<open>Reading what was written\<close>

definition area :: "u32 \<Rightarrow> nat \<Rightarrow> u32 set" where
  "area b n = {a. unat (a - b) < n}"

definition in_area :: "u32 set \<Rightarrow> u32 \<Rightarrow> bool" where
  "in_area A a \<longleftrightarrow> a \<in> A \<and> a + 1 \<in> A \<and> a + 2 \<in> A \<and> a + 3 \<in> A"

definition apart :: "u32 \<Rightarrow> u32 \<Rightarrow> bool" where
  "apart a b \<longleftrightarrow> 4 \<le> a - b \<and> 4 \<le> b - a"

lemma in_areaI: "unat (a - b) + 4 \<le> n \<Longrightarrow> n \<le> 2 ^ 32 \<Longrightarrow> in_area (area b n) a"
proof -
  assume n: "unat (a - b) + 4 \<le> n" "n \<le> 2 ^ 32"
  have "unat (a + k - b) = unat (a - b) + unat k" if "unat k < 4" for k
  proof -
    have "unat (a - b + k) = unat (a - b) + unat k" using n that by (intro unat_add_lt) simp
    then show ?thesis by (simp add: algebra_simps)
  qed
  from this [of 0] this [of 1] this [of 2] this [of 3] show ?thesis using n by (simp add: in_area_def area_def)
qed

lemma ld32_stos_same: "ld32 (stos 4 v a m) a = v"
proof -
  have "ucast (ucast v :: u8) OR push_bit 8 (ucast (ucast (drop_bit 8 v) :: u8)) OR push_bit 16 (ucast (ucast (drop_bit 16 v) :: u8)) OR
      push_bit 24 (ucast (ucast (drop_bit 24 v) :: u8)) = v"
  proof (rule bit_word_eqI)
    fix n
    assume "n < LENGTH(32)"
    then show "bit (ucast (ucast v :: u8) OR push_bit 8 (ucast (ucast (drop_bit 8 v) :: u8)) OR push_bit 16 (ucast (ucast (drop_bit 16 v) :: u8)) OR
        push_bit 24 (ucast (ucast (drop_bit 24 v) :: u8)) :: u32) n = bit v n"
      by (cases "n < 24"; cases "n < 16") (auto simp: bit_simps)
  qed
  then show ?thesis by (simp add: ld32_def stos_def)
qed

lemma ld32_cong: "(\<And>x. x = a \<or> x = a + 1 \<or> x = a + 2 \<or> x = a + 3 \<Longrightarrow> m x = m' x) \<Longrightarrow> ld32 m a = ld32 m' a"
  by (simp add: ld32_def)

lemma ld32_stos_apart: "apart b a \<Longrightarrow> ld32 (stos 4 v a m) b = ld32 m b"
proof -
  assume ap: "apart b a"
  have "4 \<le> unat (b + k - a)" if "unat k < 4" for k
  proof -
    define d where "d = b - a"
    have d: "4 \<le> unat d" "4 \<le> unat (- d)" using ap by (simp_all add: apart_def d_def word_le_nat_alt)
    have "d \<noteq> 0" using d by auto
    then have "unat (- d) = 2 ^ 32 - unat d" using unat_sub_if_size [of 0 d] by (auto simp: word_size unat_eq_zero)
    then have "unat d + unat k < 2 ^ 32" using d that by linarith
    then have "unat (d + k) = unat d + unat k" by (intro unat_add_lt) simp
    then show ?thesis using d by (simp add: d_def algebra_simps)
  qed
  from this [of 0] this [of 1] this [of 2] this [of 3] show ?thesis by (simp add: ld32_def stos_def)
qed

text \<open>A part of the address space in which no two addresses share a byte of memory.\<close>

locale mapped =
  fixes tr :: translation and c :: u32 and A :: "u32 set"
  assumes inj: "inj_on (tr c) A"
begin

lemma vw_st: "cr3 s = c \<Longrightarrow> in_area A a \<Longrightarrow> x \<in> A \<Longrightarrow> vw tr (st tr a v s) x = stos 4 v a (vw tr s) x"
proof -
  assume h: "cr3 s = c" "in_area A a" "x \<in> A"
  have tr: "tr c x = tr c (a + k) \<longleftrightarrow> x - a = k" if "a + k \<in> A" for k
    using inj_on_eq_iff [OF inj h(3) that] by (auto simp: algebra_simps)
  have z: "a + 0 \<in> A" "a + 1 \<in> A" "a + 2 \<in> A" "a + 3 \<in> A" using h(2) by (simp_all add: in_area_def)
  have "unat (x - a) < 4 \<longleftrightarrow> x - a \<in> {0, 1, 2, 3}"
  proof
    assume "unat (x - a) < 4"
    then have "unat (x - a) \<in> {0, 1, 2, 3}" by auto
    then have "(of_nat (unat (x - a)) :: u32) \<in> of_nat ` {0, 1, 2, 3}" by (rule imageI)
    then show "x - a \<in> {0, 1, 2, 3}" by simp
  qed auto
  then show ?thesis using tr [OF z(1)] tr [OF z(2)] tr [OF z(3)] tr [OF z(4)] h(1)
    by (auto simp: vw_def st_def stos_def)
qed

lemma ld_st_same: "cr3 s = c \<Longrightarrow> in_area A a \<Longrightarrow> ld tr (st tr a v s) a = v"
proof -
  assume h: "cr3 s = c" "in_area A a"
  have "ld32 (vw tr (st tr a v s)) a = ld32 (stos 4 v a (vw tr s)) a"
    using h vw_st [OF h] by (intro ld32_cong) (auto simp: in_area_def)
  then show ?thesis by (simp add: ld_def ld32_stos_same)
qed

lemma ld_st_apart: "cr3 s = c \<Longrightarrow> in_area A a \<Longrightarrow> in_area A b \<Longrightarrow> apart b a \<Longrightarrow> ld tr (st tr a v s) b = ld tr s b"
proof -
  assume h: "cr3 s = c" "in_area A a" "in_area A b" "apart b a"
  have "ld32 (vw tr (st tr a v s)) b = ld32 (stos 4 v a (vw tr s)) b"
    using h(3) vw_st [OF h(1,2)] by (intro ld32_cong) (auto simp: in_area_def)
  then show ?thesis using h(4) by (simp add: ld_def ld32_stos_apart)
qed

end

section \<open>Computing with the processor\<close>

named_theorems x86 "rules that run a list of instructions"

lemma st_sel [x86]:
  "rg (st tr a v s) = rg s" "sg (st tr a v s) = sg s" "ip (st tr a v s) = ip s" "fl (st tr a v s) = fl s" "cr0 (st tr a v s) = cr0 s"
  "cr3 (st tr a v s) = cr3 s" "cr4 (st tr a v s) = cr4 s" "msr (st tr a v s) = msr s"
  by (simp_all add: st_def)

lemma st_upd [x86]:
  "st tr a v (rg_update f1 s) = rg_update f1 (st tr a v s)" "st tr a v (sg_update f2 s) = sg_update f2 (st tr a v s)"
  "st tr a v (ip_update f3 s) = ip_update f3 (st tr a v s)" "st tr a v (fl_update f4 s) = fl_update f4 (st tr a v s)"
  "st tr a v (cr0_update f5 s) = cr0_update f5 (st tr a v s)" "st tr a v (cr4_update f6 s) = cr4_update f6 (st tr a v s)"
  "st tr a v (msr_update f7 s) = msr_update f7 (st tr a v s)"
  by (simp_all add: st_def)

lemma ld_upd [x86]:
  "ld tr (rg_update f1 s) a = ld tr s a" "ld tr (sg_update f2 s) a = ld tr s a" "ld tr (ip_update f3 s) a = ld tr s a" "ld tr (fl_update f4 s) a = ld tr s a"
  "ld tr (cr0_update f5 s) a = ld tr s a" "ld tr (cr4_update f6 s) a = ld tr s a" "ld tr (msr_update f7 s) a = ld tr s a"
  by (simp_all add: ld_def vw_def)

lemmas x86_defs [x86] = set_rg_def set_sg_def set_low_def push_def pop_to_def pusha_def popa_def iret_def sysenter_def sysexit_def cpl_def

text \<open>Addresses of the same area, written from its start.\<close>

lemma area_offset [x86]:
  "unat i + 4 \<le> n \<Longrightarrow> n \<le> 2 ^ 32 \<Longrightarrow> in_area (area b n) (i + b)" "4 \<le> n \<Longrightarrow> n \<le> 2 ^ 32 \<Longrightarrow> in_area (area b n) b"
  using in_areaI [of "i + b" b n] in_areaI [of b b n] by simp_all

lemma apart_offset [x86]:
  "apart (i + b) (j + b) \<longleftrightarrow> apart i j" "apart b (j + b) \<longleftrightarrow> apart 0 j" "apart (i + b) b \<longleftrightarrow> apart i 0"
  by (simp_all add: apart_def)

lemma apart_num [x86]:
  "apart (numeral i) (numeral j) \<longleftrightarrow> 4 \<le> (numeral i - numeral j :: u32) \<and> 4 \<le> (numeral j - numeral i :: u32)"
  "apart 0 (numeral j) \<longleftrightarrow> 4 \<le> - (numeral j :: u32) \<and> 4 \<le> (numeral j :: u32)" "apart (numeral i) 0 \<longleftrightarrow> 4 \<le> (numeral i :: u32) \<and> 4 \<le> - (numeral i :: u32)"
  by (simp_all add: apart_def)

lemma apart_disjoint: "in_area A a \<Longrightarrow> in_area B b \<Longrightarrow> A \<inter> B = {} \<Longrightarrow> apart a b"
proof (rule ccontr)
  assume h: "in_area A a" "in_area B b" "A \<inter> B = {}" "\<not> apart a b"
  have near: "x \<in> {y, y + 1, y + 2, y + 3}" if "x - y < 4" for x y :: u32
  proof -
    have "unat (x - y) \<in> {0, 1, 2, 3}" using that by (auto simp: word_less_nat_alt)
    then have "(of_nat (unat (x - y)) :: u32) \<in> of_nat ` {0, 1, 2, 3}" by (rule imageI)
    then show ?thesis by (auto simp: algebra_simps)
  qed
  have "a \<in> B \<or> b \<in> A" using h near [of a b] near [of b a] by (auto simp: apart_def in_area_def not_le)
  then show False using h by (auto simp: in_area_def)
qed

lemma in_area_union: "in_area A a \<or> in_area B a \<Longrightarrow> in_area (A \<union> B) a"
  by (auto simp: in_area_def)

lemma two_areas:
  assumes "A = area b n \<union> area p m" "area b n \<inter> area p m = {}" "n \<le> 2 ^ 32" "m \<le> 2 ^ 32"
  shows "\<And>k. unat k + 4 \<le> n \<Longrightarrow> in_area A (k + b)" "4 \<le> n \<Longrightarrow> in_area A b"
    "\<And>j. unat j + 4 \<le> m \<Longrightarrow> in_area A (j + p)" "4 \<le> m \<Longrightarrow> in_area A p"
    "\<And>k j. unat k + 4 \<le> n \<Longrightarrow> unat j + 4 \<le> m \<Longrightarrow> apart (k + b) (j + p)" "\<And>k j. unat k + 4 \<le> n \<Longrightarrow> unat j + 4 \<le> m \<Longrightarrow> apart (j + p) (k + b)"
    "4 \<le> n \<Longrightarrow> 4 \<le> m \<Longrightarrow> apart b p" "4 \<le> n \<Longrightarrow> 4 \<le> m \<Longrightarrow> apart p b"
    "\<And>j. 4 \<le> n \<Longrightarrow> unat j + 4 \<le> m \<Longrightarrow> apart b (j + p)" "\<And>j. 4 \<le> n \<Longrightarrow> unat j + 4 \<le> m \<Longrightarrow> apart (j + p) b"
    "\<And>k. 4 \<le> m \<Longrightarrow> unat k + 4 \<le> n \<Longrightarrow> apart (k + b) p" "\<And>k. 4 \<le> m \<Longrightarrow> unat k + 4 \<le> n \<Longrightarrow> apart p (k + b)"
proof -
  have sym: "apart x y \<longleftrightarrow> apart y x" for x y by (auto simp: apart_def)
  show i1: "in_area A (k + b)" if "unat k + 4 \<le> n" for k unfolding assms(1) using assms(3) that by (intro in_area_union) (simp add: area_offset)
  show i2: "in_area A (j + p)" if "unat j + 4 \<le> m" for j unfolding assms(1) using assms(4) that by (intro in_area_union) (simp add: area_offset)
  show ap: "apart (k + b) (j + p)" if "unat k + 4 \<le> n" "unat j + 4 \<le> m" for k j
    using assms(3,4) that by (intro apart_disjoint [OF _ _ assms(2)]) (simp_all add: area_offset)
  then show pa: "apart (j + p) (k + b)" if "unat k + 4 \<le> n" "unat j + 4 \<le> m" for k j using that sym by blast
  show "in_area A b" if "4 \<le> n" using i1 [of 0] that by simp
  show "in_area A p" if "4 \<le> m" using i2 [of 0] that by simp
  show "apart b p" "apart p b" if "4 \<le> n" "4 \<le> m" using ap [of 0 0] pa [of 0 0] that by simp_all
  show "apart b (j + p)" "apart (j + p) b" if "4 \<le> n" "unat j + 4 \<le> m" for j using ap [of 0 j] pa [of 0 j] that by simp_all
  show "apart (k + b) p" "apart p (k + b)" if "4 \<le> m" "unat k + 4 \<le> n" for k using ap [of k 0] pa [of k 0] that by simp_all
qed

lemma area_disjoint: "unat b + n \<le> unat p \<Longrightarrow> unat p + m \<le> 2 ^ 32 \<Longrightarrow> area b n \<inter> area p m = {}"
  using word_region_iff [of b n] word_region_iff [of p m] by (auto simp: area_def)

lemma low16 [x86]: "ucast ((x AND 0xFFFF0000) OR y :: u32) = (ucast y :: u16)"
proof -
  have h: "(0xFFFF0000 :: u32) = NOT (mask 16)" by (simp add: mask_eq_exp_minus_1)
  show ?thesis unfolding h by (intro bit_word_eqI) (auto simp: bit_simps)
qed

lemma ucast_u16 [x86]: "ucast (ucast (x :: u16) :: u32) = x"
  by (rule bit_word_eqI) (simp add: bit_simps)

lemma iret_flags_ok: "flags_ok f \<Longrightarrow> iret_flags f = f"
proof -
  assume "flags_ok f"
  moreover have "f = (f AND F_IRET) OR (f AND NOT F_IRET)" by (simp flip: bit.conj_disj_distrib)
  ultimately show ?thesis by (simp add: flags_ok_def iret_flags_def)
qed

lemma pop_flags_pop [x86]: "pop_flags f v AND F_POP = v AND F_POP"
  unfolding pop_flags_def by (rule bit_word_eqI) (auto simp: bit_simps)

text \<open>The flags that arithmetic does not touch.\<close>

definition F_CTRL :: u32 where "F_CTRL = 0x00247700"

lemma status_flags_ctrl: "status_flags c a ov v f AND F_CTRL = f AND F_CTRL"
proof -
  have m: "F_CTRL = NOT 0x8D5 AND F_CTRL" by (simp add: F_CTRL_def)
  have z: "x AND F_CTRL = 0" if "x AND NOT 0x8D5 = 0" for x
    using that by (subst m) (simp flip: and.assoc)
  have "(f AND NOT 0x8D5) AND F_CTRL = f AND F_CTRL" by (simp add: F_CTRL_def and.assoc)
  then show ?thesis unfolding status_flags_def by (simp add: bit.conj_disj_distrib2 z)
qed

lemma arith_flags_ctrl [x86]: "add_flags x y f AND F_CTRL = f AND F_CTRL" "sub_flags x y f AND F_CTRL = f AND F_CTRL" "logic_flags v f AND F_CTRL = f AND F_CTRL"
  by (simp_all add: add_flags_def sub_flags_def logic_flags_def status_flags_ctrl)

lemma pushf_ctrl [x86]: "(f AND 0x00FCFFFF) AND F_CTRL = f AND F_CTRL"
  by (simp add: F_CTRL_def and.assoc)

lemma status_flags_bits: "bit (status_flags c a ov v f) 7 \<longleftrightarrow> sint v < 0" "bit (status_flags c a ov v f) 11 \<longleftrightarrow> ov"
  by (auto simp: status_flags_def bit_simps)

lemma flag_less_sub [x86]: "flag_less (sub_flags x y f) \<longleftrightarrow> sint x < sint y"
proof -
  have r: "- (2 ^ 31) \<le> sint z \<and> sint z < 2 ^ 31" for z :: u32 using sint_range_size [of z] by (simp add: word_size)
  have "sint (x - y) mod 2 ^ 32 = (sint x - sint y) mod 2 ^ 32"
    by (simp add: sint_word_ariths(2) signed_take_bit_eq_take_bit_shift take_bit_eq_mod mod_simps)
  then have "4294967296 dvd sint (x - y) - (sint x - sint y)" by (simp add: mod_eq_dvd_iff)
  then obtain k where k: "sint (x - y) = sint x - sint y + 4294967296 * k" by (auto elim!: dvdE simp: algebra_simps)
  then have "k = - 1 \<or> k = 0 \<or> k = 1" using r [of x] r [of y] r [of "x - y"] by simp linarith
  then show ?thesis using k r [of x] r [of y] r [of "x - y"]
    unfolding flag_less_def sub_flags_def status_flags_bits by auto
qed

lemma all_regs: "f = g \<longleftrightarrow> f EAX = g EAX \<and> f ECX = g ECX \<and> f EDX = g EDX \<and> f EBX = g EBX \<and> f ESP = g ESP \<and> f EBP = g EBP \<and> f ESI = g ESI \<and> f EDI = g EDI"
proof
  assume h: "f EAX = g EAX \<and> f ECX = g ECX \<and> f EDX = g EDX \<and> f EBX = g EBX \<and> f ESP = g ESP \<and> f EBP = g EBP \<and> f ESI = g ESI \<and> f EDI = g EDI"
  have "f q = g q" for q using h by (cases q) simp_all
  then show "f = g" by blast
qed simp

lemma all_segs: "f = g \<longleftrightarrow> f CS = g CS \<and> f DS = g DS \<and> f ES = g ES \<and> f FS = g FS \<and> f GS = g GS \<and> f SS = g SS"
proof
  assume h: "f CS = g CS \<and> f DS = g DS \<and> f ES = g ES \<and> f FS = g FS \<and> f GS = g GS \<and> f SS = g SS"
  have "f q = g q" for q using h by (cases q) simp_all
  then show "f = g" by blast
qed simp

end
