(* ===== verification/Switch.thy ===== *)
theory Switch
  imports X86 Regs
begin

text \<open>
  The context switch: \<open>kernel/proc/switch.s\<close>, \<open>kernel/proc/save.s\<close> and \<open>kernel/proc/schedcall.s\<close>.
\<close>

section \<open>The routines\<close>

text \<open>\<open>switch.s\<close>; \<open>0x23\<close> and \<open>0x1B\<close> are the selectors of user data and user code with the privilege level 3.\<close>

definition set_user_datasegs :: "instr list" where
  "set_user_datasegs = [MOVI16 EAX 0x23, TOSEG DS EAX, TOSEG ES EAX, TOSEG FS EAX, TOSEG GS EAX]"

definition set_user_flags_cs :: "instr list" where
  "set_user_flags_cs = [PUSHF, POP EAX, ORI EAX 0x200, PUSH EAX, PUSHI 0x1B]"

text \<open>\<open>after\<close> is the address of the label behind the \<open>iret\<close>, where the routine returns.\<close>

definition switch_to_user_curreg :: "u32 \<Rightarrow> instr list" where
  "switch_to_user_curreg after =
     [CLI] @ set_user_datasegs @ [MOV EAX ESP, PUSHI 0x23, PUSH EAX] @ set_user_flags_cs @ [PUSHI after, IRET]"

definition switch_to_user_curreg_end :: "instr list" where
  "switch_to_user_curreg_end = [RET]"

definition switch_proc :: "instr list" where
  "switch_proc =
     [CLI, ADD ESP 16, POPA,
      LOAD EAX ESP (- 44), TOCR3 EAX,
      MOV ECX ESP, LOAD ESP ESP (- 20),
      LOAD EAX ECX (- 36), PUSH EAX,
      LOAD EAX ECX (- 40), PUSH EAX,
      LOAD EAX ECX (- 4), LOAD ECX ECX (- 8),
      POPF, RET]"

definition switch_proc_user :: "instr list" where
  "switch_proc_user =
     [CLI, ADD ESP 16, POPA, PUSH EAX,
      PUSHI 0x23, LOAD EAX ESP (- 12), PUSH EAX, LOAD EAX ESP (- 28), PUSH EAX,
      PUSHI 0x1B, LOAD EAX ESP (- 16), PUSH EAX,
      LOAD EAX ESP (- 20), TOCR3 EAX] @
     set_user_datasegs @ [LOAD EAX ESP 20, IRET]"

text \<open>\<open>save.s\<close>.\<close>

definition save_state :: "instr list" where
  "save_state =
     [LEA EAX ESP 8, LOAD ESP ESP 4, ADD ESP 40, PUSHA, STORE ESP 12 EAX, SUB ESP 4, MOV ECX ESP, PUSHF,
      LEA ESP EAX (- 8), LOAD EAX ESP 0, STORE ECX 0 EAX, RET]"

definition save_state_no_eip_esp :: "instr list" where
  "save_state_no_eip_esp = [MOV EAX ESP, LOAD ESP ESP 4, ADD ESP 40, PUSHA, SUB ESP 4, PUSHF, MOV ESP EAX, RET]"

text \<open>\<open>schedcall.s\<close>: the end of the image \<open>kernel_end\<close>, the top of the stack \<open>kstack_top\<close> and the addresses of the routines come from the linker.
  The second routine is cut at its call.\<close>

definition switch_kstack_and_call :: "u32 \<Rightarrow> u32 \<Rightarrow> u32 \<Rightarrow> instr list" where
  "switch_kstack_and_call kernel_end kstack_top force_online =
     [CMP ESP kernel_end, JL force_online, MOVI ESP kstack_top, JMP force_online]"

definition switch_kstack_save_1 :: "u32 \<Rightarrow> u32 \<Rightarrow> instr list" where
  "switch_kstack_save_1 save after = [LOAD ECX ESP 4, PUSH ECX, CALL save after]"

definition switch_kstack_save_2 :: "u32 \<Rightarrow> u32 \<Rightarrow> u32 \<Rightarrow> instr list" where
  "switch_kstack_save_2 kernel_end kstack_top force_online =
     [POP ECX, LOAD EAX ESP 0, STORE ECX 4 EAX, LEA EAX ESP 4, STORE ECX 20 EAX,
      CMP ESP kernel_end, JL force_online, MOVI ESP kstack_top, JMP force_online]"

definition switch_kstack_and_call_save :: "translation \<Rightarrow> u32 \<Rightarrow> u32 \<Rightarrow> u32 \<Rightarrow> u32 \<Rightarrow> u32 \<Rightarrow> x86 \<Rightarrow> x86" where
  "switch_kstack_and_call_save tr save after kernel_end kstack_top force_online s =
     run tr (switch_kstack_save_2 kernel_end kstack_top force_online)
       (run tr save_state_no_eip_esp (run tr (switch_kstack_save_1 save after) s))"

section \<open>The saved registers in memory\<close>

definition read_state :: "mem \<Rightarrow> u32 \<Rightarrow> cpu_regs" where
  "read_state m a = \<lparr>eflags = ld32 m a, eip = ld32 m (4 + a), edi = ld32 m (8 + a), esi = ld32 m (12 + a), ebp = ld32 m (16 + a),
     esp = ld32 m (20 + a), ebx = ld32 m (24 + a), edx = ld32 m (28 + a), ecx = ld32 m (32 + a), eax = ld32 m (36 + a)\<rparr>"

definition of_state :: "cpu_regs \<Rightarrow> reg \<Rightarrow> u32" where
  "of_state r q = (case q of EAX \<Rightarrow> eax r | ECX \<Rightarrow> ecx r | EDX \<Rightarrow> edx r | EBX \<Rightarrow> ebx r | ESP \<Rightarrow> esp r | EBP \<Rightarrow> ebp r | ESI \<Rightarrow> esi r | EDI \<Rightarrow> edi r)"

section \<open>Switching to a process in user mode\<close>

text \<open>Kernel stack \<open>A\<close> that two page directories share.\<close>

definition shared_area :: "translation \<Rightarrow> u32 \<Rightarrow> u32 \<Rightarrow> u32 set \<Rightarrow> bool" where
  "shared_area tr c d A \<longleftrightarrow> (\<forall>a\<in>A. tr d a = tr c a)"

lemma ld_cr3: "shared_area tr (cr3 s) d A \<Longrightarrow> in_area A a \<Longrightarrow> ld tr (s\<lparr>cr3 := d\<rparr>) a = ld tr s a"
  by (auto simp: shared_area_def in_area_def ld_def vw_def ld32_def)

context mapped
begin

lemma switch_proc_user_run:
  assumes "A = area (rg s ESP) 48" "cr3 s = c" "cpl s = 0" "shared_area tr c (ld tr s (4 + rg s ESP)) A" "s' = run tr switch_proc_user s"
    "r = read_state (vw tr s) (8 + rg s ESP)"
  shows "rg s' = of_state r \<and> ip s' = eip r \<and> fl s' = iret_flags (eflags r) \<and> cr3 s' = ld tr s (4 + rg s ESP) \<and>
    sg s' = (\<lambda>g. if g = CS then 0x1B else 0x23)"
  using assms(3,4) unfolding assms(5,6)
  by (simp add: x86 switch_proc_user_def set_user_datasegs_def assms(1,2) ld_st_same ld_st_apart Let_def ld_cr3
      all_regs all_segs of_state_def read_state_def ld_def [symmetric])

lemma switch_proc_run:
  assumes "A = area e 48 \<union> area (n - 8) 8" "area e 48 \<inter> area (n - 8) 8 = {}" "e = rg s ESP" "n = ld tr s (28 + rg s ESP)"
    "c = ld tr s (4 + rg s ESP)" "shared_area tr (cr3 s) c (area e 48)" "s' = run tr switch_proc s"
    "r = read_state (vw tr s) (8 + rg s ESP)"
  shows "rg s' = of_state r \<and> ip s' = eip r \<and> fl s' AND F_POP = eflags r AND F_POP \<and> cr3 s' = c \<and> sg s' = sg s"
proof -
  note areas = two_areas [OF assms(1,2), simplified]
  have n4: "in_area A (n - 4)" "in_area A (n - 8)" using areas(3) [of 4] areas(4) by simp_all
  have ap: "apart (k + e) (n - 4)" "apart (k + e) (n - 8)" if "unat k + 4 \<le> 48" for k
    using areas(5) [of k 4] areas(11) [of k] that by simp_all
  have sh: "ld tr (t\<lparr>cr3 := c\<rparr>) (k + e) = ld tr t (k + e)" if "cr3 t = cr3 s" "unat k + 4 \<le> 48" for k t
    using assms(6) by (intro ld_cr3 [where A = "area e 48"]) (simp_all add: x86 that)
  have ap2: "apart (n - 4) (n - 8)" by (simp add: apart_def)
  have v: "rg s ESP = e" "ld tr s (4 + e) = c" "ld tr s (28 + e) = n" by (simp_all add: assms(3,4,5))
  show ?thesis
    unfolding assms(7,8)
    by (simp add: x86 switch_proc_def Let_def areas n4 ap ap2 sh v ld_st_same ld_st_apart
      all_regs all_segs of_state_def read_state_def ld_def [symmetric])
qed

lemma kstack_save_run:
  assumes "A = area b 16 \<union> area p 40" "area b 16 \<inter> area p 40 = {}" "rg s ESP = 8 + b" "ld tr s (4 + rg s ESP) = p" "cr3 s = c"
    "s' = switch_kstack_and_call_save tr save after kernel_end kstack_top force_online s" "r = read_state (vw tr s') p"
  shows "edi r = rg s EDI \<and> esi r = rg s ESI \<and> ebp r = rg s EBP \<and> ebx r = rg s EBX \<and> esp r = 4 + rg s ESP \<and> eip r = ld tr s (rg s ESP) \<and>
    eflags r AND F_CTRL = fl s AND F_CTRL \<and> ip s' = force_online \<and> cr3 s' = c \<and> sg s' = sg s \<and>
    rg s' ESP = (if sint (rg s ESP) < sint kernel_end then rg s ESP else kstack_top)"
proof -
  note areas = two_areas [OF assms(1,2), simplified]
  show ?thesis
    using assms(4) unfolding assms(6,7)
    by (simp add: x86 switch_kstack_and_call_save_def switch_kstack_save_1_def switch_kstack_save_2_def save_state_no_eip_esp_def
       areas ld_st_same ld_st_apart assms(3,5) read_state_def ld_def [symmetric])
qed

lemma save_state_run:
  assumes "A = area b 8 \<union> area p 40" "area b 8 \<inter> area p 40 = {}" "rg s ESP = b" "ld tr s (4 + rg s ESP) = p" "cr3 s = c"
    "s' = run tr save_state s" "r = read_state (vw tr s') p"
  shows "edi r = rg s EDI \<and> esi r = rg s ESI \<and> ebp r = rg s EBP \<and> ebx r = rg s EBX \<and> edx r = rg s EDX \<and> ecx r = rg s ECX \<and>
    esp r = 8 + rg s ESP \<and> eip r = ld tr s (rg s ESP) \<and> eflags r AND F_CTRL = fl s AND F_CTRL \<and>
    ip s' = ld tr s (rg s ESP) \<and> rg s' ESP = 4 + rg s ESP \<and> (\<forall>q\<in>{EBX, EBP, ESI, EDI}. rg s' q = rg s q) \<and> cr3 s' = c \<and> sg s' = sg s"
proof -
  note areas = two_areas [OF assms(1,2), simplified]
  show ?thesis
    using assms(4) unfolding assms(6,7)
    by (simp add: x86 save_state_def areas ld_st_same ld_st_apart assms(3,5) read_state_def ld_def [symmetric])
qed

lemma switch_to_user_curreg_run:
  assumes "A = area b 20" "rg s ESP = 20 + b" "cr3 s = c" "cpl s = 0" "s' = run tr (switch_to_user_curreg after) s"
  shows "ip s' = after \<and> rg s' ESP = rg s ESP \<and> (\<forall>q. q \<noteq> EAX \<longrightarrow> rg s' q = rg s q) \<and> fl s' = iret_flags (((fl s AND NOT F_IF) AND 0x00FCFFFF) OR F_IF) \<and>
    sg s' = (\<lambda>g. if g = CS then 0x1B else 0x23) \<and> cr3 s' = c"
  using assms(4) unfolding assms(5)
  by (simp add: x86 switch_to_user_curreg_def set_user_datasegs_def set_user_flags_cs_def assms(1,2,3) ld_st_same ld_st_apart Let_def all_segs F_IF_def)

end

lemma switch_kstack_and_call_run:
  "run tr (switch_kstack_and_call kernel_end kstack_top force_online) s =
     s\<lparr>rg := (if sint (rg s ESP) < sint kernel_end then rg s else (rg s)(ESP := kstack_top)), fl := sub_flags (rg s ESP) kernel_end (fl s), ip := force_online\<rparr>"
  by (simp add: x86 switch_kstack_and_call_def)

section \<open>Properties\<close>

text \<open>given the registers of a process on a stack that its page directory shares with the current one, \<open>switch_proc_user\<close> leaves the
  kernel with every general register, the instruction pointer and the flags of the process, in its page directory, with
  the selectors of user code and user data.\<close>

theorem switch_proc_user_resumes:
  fixes s :: x86 and tr :: translation
  defines "e \<equiv> rg s ESP"
  defines "d \<equiv> ld tr s (4 + e)" and "r \<equiv> read_state (vw tr s) (8 + e)" and "s' \<equiv> run tr switch_proc_user s"
  assumes "cpl s = 0" "inj_on (tr (cr3 s)) (area e 48)" "shared_area tr (cr3 s) d (area e 48)"
  shows "rg s' = of_state r \<and> ip s' = eip r \<and> fl s' = iret_flags (eflags r) \<and> cr3 s' = d \<and> sg s' = (\<lambda>g. if g = CS then 0x1B else 0x23)"
  using mapped.switch_proc_user_run [OF mapped.intro, of tr "cr3 s" "area e 48" s s' r] assms(5-) unfolding assms(1-4) by simp

definition example_x86 :: x86 where
  "example_x86 = \<lparr>rg = (\<lambda>q. 0x2000), sg = (\<lambda>g. if g = CS then 0x08 else 0x10), ip = 0, fl = 2, cr0 = 0, cr3 = 0, cr4 = 0, msr = (\<lambda>_. 0), ram = (\<lambda>a. ucast a)\<rparr>"

theorem switch_proc_user_resumes_witness:
  "rg (run (\<lambda>c a. a) switch_proc_user example_x86) EDI = 0x13121110 \<and> ip (run (\<lambda>c a. a) switch_proc_user example_x86) = 0x0F0E0D0C"
proof -
  have r: "read_state (vw (\<lambda>c a. a) example_x86) (8 + rg example_x86 ESP) =
      \<lparr>eflags = 0x0B0A0908, eip = 0x0F0E0D0C, edi = 0x13121110, esi = 0x17161514, ebp = 0x1B1A1918, esp = 0x1F1E1D1C, ebx = 0x23222120, edx = 0x27262524,
       ecx = 0x2B2A2928, eax = 0x2F2E2D2C\<rparr>"
    by (simp add: read_state_def example_x86_def vw_def ld32_def)
  show ?thesis
    using switch_proc_user_resumes [of example_x86 "\<lambda>c a. a"] unfolding r
    by (simp add: example_x86_def cpl_def shared_area_def of_state_def inj_on_def)
qed

lemma pop_ctrl: "f AND F_POP = g AND F_POP \<Longrightarrow> f AND F_CTRL = g AND F_CTRL"
proof -
  assume h: "f AND F_POP = g AND F_POP"
  have c: "F_CTRL = F_POP AND F_CTRL" by (simp add: F_CTRL_def F_POP_def)
  then have "f AND F_CTRL = (f AND F_POP) AND F_CTRL" "g AND F_CTRL = (g AND F_POP) AND F_CTRL" by (metis and.assoc)+
  then show ?thesis using h by simp
qed

text \<open>C15: a process that calls \<open>__schedule_switch_kstack_and_call_save\<close> goes on in the scheduler, on the shared kernel stack. When \<open>switch_proc\<close>
  gets the saved state back later, from any state of the machine, the call has returned for the process: execution goes on at the return address with
  the stack pointer behind it, with the registers that a function has to preserve and the control flags, the interrupt flag among them, of the call, and in the page
  directory that was given.\<close>

theorem context_switch_returns:
  fixes s t :: x86 and tr :: translation and save after kernel_end kstack_top force_online :: u32
  defines "p \<equiv> ld tr s (4 + rg s ESP)" and "b \<equiv> rg s ESP - 8" and "e \<equiv> rg t ESP" and "d \<equiv> ld tr t (4 + rg t ESP)" and "n \<equiv> 4 + rg s ESP"
    and "s1 \<equiv> switch_kstack_and_call_save tr save after kernel_end kstack_top force_online s" and "t' \<equiv> run tr switch_proc t"
  assumes saving: "inj_on (tr (cr3 s)) (area b 16 \<union> area p 40)" "area b 16 \<inter> area p 40 = {}"
    and copy: "read_state (vw tr t) (8 + e) = read_state (vw tr s1) p"
    and resume: "inj_on (tr d) (area e 48 \<union> area (n - 8) 8)" "area e 48 \<inter> area (n - 8) 8 = {}" "shared_area tr (cr3 t) d (area e 48)"
  shows "ip s1 = force_online \<and> rg s1 ESP = (if sint (rg s ESP) < sint kernel_end then rg s ESP else kstack_top) \<and>
    ip t' = ld tr s (rg s ESP) \<and> rg t' ESP = 4 + rg s ESP \<and> (\<forall>q\<in>{EBX, EBP, ESI, EDI}. rg t' q = rg s q) \<and>
    fl t' AND F_CTRL = fl s AND F_CTRL \<and> cr3 t' = d \<and> sg t' = sg t"
proof -
  define r where "r = read_state (vw tr s1) p"
  have 1: "edi r = rg s EDI \<and> esi r = rg s ESI \<and> ebp r = rg s EBP \<and> ebx r = rg s EBX \<and> esp r = n \<and> eip r = ld tr s (rg s ESP) \<and>
      eflags r AND F_CTRL = fl s AND F_CTRL \<and> ip s1 = force_online \<and> rg s1 ESP = (if sint (rg s ESP) < sint kernel_end then rg s ESP else kstack_top)"
    using mapped.kstack_save_run [OF mapped.intro [of tr "cr3 s", OF saving(1)] refl saving(2) _ _ refl s1_def [THEN meta_eq_to_obj_eq] r_def]
    by (simp add: b_def p_def n_def)
  have "ld tr t (28 + e) = esp (read_state (vw tr t) (8 + e))" by (simp add: read_state_def ld_def)
  then have n: "n = ld tr t (28 + rg t ESP)" using 1 copy by (simp add: r_def e_def)
  have "rg t' = of_state r \<and> ip t' = eip r \<and> fl t' AND F_POP = eflags r AND F_POP \<and> cr3 t' = d \<and> sg t' = sg t"
    using mapped.switch_proc_run [OF mapped.intro [of tr d, OF resume(1)] refl resume(2) _ n _ resume(3) t'_def [THEN meta_eq_to_obj_eq], of r] copy
    by (simp add: e_def d_def r_def)
  then show ?thesis using 1 pop_ctrl [of "fl t'" "eflags r"] by (simp add: of_state_def n_def)
qed

theorem context_switch_returns_witness:
  "\<exists>s t s1. s1 = switch_kstack_and_call_save (\<lambda>c a. a) 0 0 0xC0200000 0xC0104000 0xC0100000 s \<and> rg t ESP \<noteq> rg s ESP \<and>
     read_state (vw (\<lambda>c a. a) t) (8 + rg t ESP) = read_state (vw (\<lambda>c a. a) s1) 0x07060504 \<and>
     ip (run (\<lambda>c a. a) switch_proc t) = 0x03020100 \<and> rg (run (\<lambda>c a. a) switch_proc t) ESP = 0x2004 \<and>
     (\<forall>q\<in>{EBX, EBP, ESI, EDI}. rg (run (\<lambda>c a. a) switch_proc t) q = 0x2000)"
proof -
  let ?tr = "\<lambda>(c :: u32) (a :: u32). a"
  let ?s1 = "switch_kstack_and_call_save ?tr 0 0 0xC0200000 0xC0104000 0xC0100000 example_x86"
  let ?t = "?s1\<lparr>rg := (\<lambda>q. 0x070604FC)\<rparr>"
  have e: "rg example_x86 q = 0x2000" for q by (simp add: example_x86_def)
  have p: "ld ?tr example_x86 0x2004 = 0x07060504" "ld ?tr example_x86 0x2000 = 0x03020100"
    by (simp_all add: example_x86_def ld_def vw_def ld32_def)
  have d1: "area 0x1FF8 16 \<inter> area 0x07060504 40 = {}" by (rule area_disjoint) simp_all
  have d2: "area 0x070604FC 48 \<inter> area 0x1FFC 8 = {}" by (subst Int_commute, rule area_disjoint) simp_all
  have c: "read_state (vw ?tr ?t) (8 + rg ?t ESP) = read_state (vw ?tr ?s1) 0x07060504" by (simp add: vw_def)
  have "ip (run ?tr switch_proc ?t) = 0x03020100 \<and> rg (run ?tr switch_proc ?t) ESP = 0x2004 \<and> (\<forall>q\<in>{EBX, EBP, ESI, EDI}. rg (run ?tr switch_proc ?t) q = 0x2000)"
    using context_switch_returns [where s = example_x86 and t = ?t and tr = ?tr and save = 0 and after = 0 and kernel_end = "0xC0200000" and kstack_top = "0xC0104000"
      and force_online = "0xC0100000"] d1 d2 c
    by (simp add: e p shared_area_def inj_on_def)
  then show ?thesis using c by (intro exI [of _ example_x86] exI [of _ ?t] exI [of _ ?s1]) (simp add: e)
qed

end
