(* ===== verification/Stubs.thy ===== *)
theory Stubs
  imports Switch Tables
begin

text \<open>
  The interrupt entry points of \<open>kernel/irq.s\<close> between the processor and the handlers of \<open>kernel/isr.cpp\<close>, and \<open>kernel/gdtflush.s\<close>. The
  processor puts the interrupted state on a stack, the entry point completes it to the structure \<open>isr::registers\<close>, the handler gets
  that structure as an argument, and the code behind the call restores the state.
\<close>

section \<open>The entry points\<close>

definition SET_KERNEL_STATE :: "instr list" where
  "SET_KERNEL_STATE = [PUSHA, FROMSEG EBX DS, MOVI16 EAX 0x10, TOSEG DS EAX, TOSEG ES EAX, TOSEG FS EAX, TOSEG GS EAX]"

definition RESTORE_CPU_STATE :: "instr list" where
  "RESTORE_CPU_STATE = [TOSEG DS EBX, TOSEG ES EBX, TOSEG FS EBX, TOSEG GS EBX, POPA, ADD ESP 8, IRET]"

text \<open>The entry points up to the call; \<open>handler\<close> is the address of \<open>isr_handler\<close> or \<open>irq_handler\<close> and \<open>after\<close> the one behind the call, where
  \<open>RESTORE_CPU_STATE\<close> follows.\<close>

definition ISR_NOERR :: "u32 \<Rightarrow> u32 \<Rightarrow> u32 \<Rightarrow> instr list" where
  "ISR_NOERR n handler after = [PUSHI 0, PUSHI n] @ SET_KERNEL_STATE @ [CALL handler after]"

definition ISR_ERR :: "u32 \<Rightarrow> u32 \<Rightarrow> u32 \<Rightarrow> instr list" where
  "ISR_ERR n handler after = [PUSHI n] @ SET_KERNEL_STATE @ [CALL handler after]"

definition isr_errs :: "u32 list" where
  "isr_errs = [8, 10, 11, 12, 13, 14]"

definition isr_entry :: "u32 \<Rightarrow> u32 \<Rightarrow> u32 \<Rightarrow> instr list" where
  "isr_entry n = (if n \<in> set isr_errs then ISR_ERR n else ISR_NOERR n)"

definition irq_entry :: "u32 \<Rightarrow> u32 \<Rightarrow> u32 \<Rightarrow> instr list" where
  "irq_entry i = ISR_NOERR (i + 32)"

text \<open>\<open>gdt_flush\<close> up to the far jump to its own end \<open>flush\<close>, and the end.\<close>

definition gdt_flush :: "u32 \<Rightarrow> u32 \<Rightarrow> instr list" where
  "gdt_flush gdt_ptr flush = [LGDT gdt_ptr, MOVI16 EAX 0x10, TOSEG DS EAX, TOSEG ES EAX, TOSEG FS EAX, TOSEG GS EAX, TOSEG SS EAX, JMPF 0x08 flush]"

definition gdt_flush_end :: "instr list" where
  "gdt_flush_end = [RET]"

definition get_eip :: "instr list" where
  "get_eip = [LOAD EAX ESP 0, RET]"

section \<open>The processor takes an interrupt\<close>

text \<open>The exceptions for which the processor pushes an error code.\<close>

definition cpu_errs :: "u32 list" where
  "cpu_errs = [8, 10, 11, 12, 13, 14, 17]"

definition cpu_error :: "u32 \<Rightarrow> u32 \<Rightarrow> u32 option" where
  "cpu_error n e = (if n \<in> set cpu_errs then Some e else None)"

text \<open>Through a gate with the selector \<open>sel\<close> and the address \<open>h\<close>; from user mode the stack is the one of the task state segment, \<open>ss0\<close> and \<open>esp0\<close>.\<close>

definition interrupt :: "translation \<Rightarrow> u16 \<Rightarrow> u32 \<Rightarrow> u16 \<Rightarrow> u32 \<Rightarrow> u32 option \<Rightarrow> x86 \<Rightarrow> x86" where
  "interrupt tr ss0 esp0 sel h err s =
     (let s1 = (if cpl s = 0 then s else push tr (rg s ESP) (push tr (ucast (sg s SS)) (set_sg SS ss0 (set_rg ESP esp0 s))));
          s2 = push tr (ip s) (push tr (ucast (sg s CS)) (push tr (fl s) s1));
          s3 = (case err of None \<Rightarrow> s2 | Some e \<Rightarrow> push tr e s2)
      in s3\<lparr>ip := h, fl := fl s AND NOT F_IF AND NOT 0x34100, sg := (sg s3)(CS := sel)\<rparr>)"

section \<open>The argument of the handlers\<close>

definition read_registers :: "mem \<Rightarrow> u32 \<Rightarrow> registers" where
  "read_registers m a = \<lparr>r_edi = ld32 m a, r_esi = ld32 m (4 + a), r_ebp = ld32 m (8 + a), r_esp = ld32 m (12 + a), r_ebx = ld32 m (16 + a),
     r_edx = ld32 m (20 + a), r_ecx = ld32 m (24 + a), r_eax = ld32 m (28 + a), int_no = ld32 m (32 + a), r_err = ld32 m (36 + a),
     r_eip = ld32 m (40 + a), r_cs = ld32 m (44 + a), r_eflags = ld32 m (48 + a), espcpu = ld32 m (52 + a), r_ss = ld32 m (56 + a)\<rparr>"

text \<open>The registers that describe the interrupted program.\<close>

definition describes :: "registers \<Rightarrow> x86 \<Rightarrow> bool" where
  "describes r s \<longleftrightarrow> r_edi r = rg s EDI \<and> r_esi r = rg s ESI \<and> r_ebp r = rg s EBP \<and> r_esp r = rg s ESP \<and> r_ebx r = rg s EBX \<and> r_edx r = rg s EDX \<and>
     r_ecx r = rg s ECX \<and> r_eax r = rg s EAX \<and> r_eip r = ip s \<and> r_cs r = ucast (sg s CS) \<and> r_eflags r = fl s"

text \<open>What the processor leaves on the stack that ends at \<open>64 + b\<close>, or at \<open>56 + b\<close> when the program was in the kernel.\<close>

definition int_frame :: "translation \<Rightarrow> u32 \<Rightarrow> x86 \<Rightarrow> x86 \<Rightarrow> bool" where
  "int_frame tr b s t \<longleftrightarrow> ld tr t (44 + b) = ip s \<and> ld tr t (48 + b) = ucast (sg s CS) \<and> ld tr t (52 + b) = fl s \<and>
     (cpl s = 0 \<and> rg s ESP = 56 + b \<or> cpl s = 3 \<and> ld tr t (56 + b) = rg s ESP \<and> ld tr t (60 + b) = ucast (sg s SS))"

lemma ucast_low2: "ucast (sg s CS) AND 3 = (0 :: u32) \<longleftrightarrow> cpl s = 0"
proof -
  have h: "3 = (mask 2 :: u32)" "3 = (mask 2 :: u16)" by (simp_all add: mask_eq_exp_minus_1)
  have "ucast (sg s CS) AND 3 = (ucast (cpl s) :: u32)" unfolding cpl_def h by (rule bit_word_eqI) (auto simp: bit_simps)
  then show ?thesis by (metis ucast_u16 unsigned_0)
qed

context mapped
begin

lemma interrupt_run:
  assumes "A = area b 64" "cr3 s = c" "cpl s = 0 \<and> rg s ESP = 56 + b \<or> cpl s = 3 \<and> esp0 = 64 + b" "t = interrupt tr ss0 esp0 sel g err s"
  shows "int_frame tr b s t \<and> rg t = (rg s)(ESP := (if err = None then 44 else 40) + b) \<and> (\<forall>e. err = Some e \<longrightarrow> ld tr t (40 + b) = e) \<and>
    sg t = (sg s)(CS := sel, SS := (if cpl s = 0 then sg s SS else ss0)) \<and> cr3 t = c \<and> ip t = g"
proof (cases "cpl s = 0")
  case True
  then have "sg s CS AND 3 = 0" "rg s ESP = 56 + b" using assms(3) by (auto simp: cpl_def)
  then show ?thesis unfolding assms(4) int_frame_def
    by (cases err) (simp_all add: x86 interrupt_def Let_def assms(1,2) ld_st_same ld_st_apart all_segs fun_eq_iff)
next
  case False
  then have "sg s CS AND 3 = 3" "esp0 = 64 + b" using assms(3) by (auto simp: cpl_def)
  then show ?thesis unfolding assms(4) int_frame_def
    by (cases err) (simp_all add: x86 interrupt_def Let_def assms(1,2) ld_st_same ld_st_apart all_segs fun_eq_iff)
qed

lemma frame_run:
  assumes "A = area b 64" "cr3 s = c" "cpl s = 0 \<and> rg s ESP = 56 + b \<or> cpl s = 3 \<and> esp0 = 64 + b"
    "err = None \<longrightarrow> pre = [PUSHI 0]" "err \<noteq> None \<longrightarrow> pre = []" "u = run tr pre (interrupt tr ss0 esp0 sel g err s)"
  shows "int_frame tr b s u \<and> rg u = (rg s)(ESP := 40 + b) \<and> ld tr u (40 + b) = (case err of None \<Rightarrow> 0 | Some e \<Rightarrow> e) \<and>
    sg u = (sg s)(CS := sel, SS := (if cpl s = 0 then sg s SS else ss0)) \<and> cr3 u = c"
proof (cases err)
  case None
  have i: "int_frame tr b s (interrupt tr ss0 esp0 sel g err s)" "rg (interrupt tr ss0 esp0 sel g err s) = (rg s)(ESP := 44 + b)"
    "sg (interrupt tr ss0 esp0 sel g err s) = (sg s)(CS := sel, SS := (if cpl s = 0 then sg s SS else ss0))" "cr3 (interrupt tr ss0 esp0 sel g err s) = c"
    using interrupt_run [OF assms(1-3) refl] None by simp_all
  then show ?thesis using assms(4) None unfolding assms(6)
    by (simp add: x86 int_frame_def assms(1) ld_st_same ld_st_apart)
next
  case (Some e)
  then show ?thesis using interrupt_run [OF assms(1-3) refl, of ss0 sel g err] assms(5) unfolding assms(6) by simp
qed

lemma stub_run:
  assumes "A = area b 64" "cr3 t = c" "rg t ESP = 40 + b" "s1 = run tr ([PUSHI n] @ SET_KERNEL_STATE @ [CALL handler after]) t"
    "r = read_registers (vw tr s1) (4 + b)"
  shows "rg s1 ESP = b \<and> ip s1 = handler \<and> ld tr s1 b = after \<and> cr3 s1 = c \<and> ucast (rg s1 EBX) = sg t DS \<and>
    sg s1 = (sg t)(DS := 0x10, ES := 0x10, FS := 0x10, GS := 0x10) \<and>
    r = \<lparr>r_edi = rg t EDI, r_esi = rg t ESI, r_ebp = rg t EBP, r_esp = 36 + b, r_ebx = rg t EBX, r_edx = rg t EDX, r_ecx = rg t ECX, r_eax = rg t EAX,
      int_no = n, r_err = ld tr t (40 + b), r_eip = ld tr t (44 + b), r_cs = ld tr t (48 + b), r_eflags = ld tr t (52 + b), espcpu = ld tr t (56 + b),
      r_ss = ld tr t (60 + b)\<rparr>"
  unfolding assms(4,5)
  by (simp add: x86 SET_KERNEL_STATE_def assms(1,2,3) ld_st_same ld_st_apart read_registers_def ld_def [symmetric])

lemma restore_run:
  assumes "cr3 t = c" "rg t ESP = 4 + b" "cpl t = 0" "t' = run tr RESTORE_CPU_STATE t" "r = read_registers (vw tr t) (4 + b)"
  shows "rg t' = (\<lambda>q. case q of EAX \<Rightarrow> r_eax r | ECX \<Rightarrow> r_ecx r | EDX \<Rightarrow> r_edx r | EBX \<Rightarrow> r_ebx r | EBP \<Rightarrow> r_ebp r | ESI \<Rightarrow> r_esi r | EDI \<Rightarrow> r_edi r
      | ESP \<Rightarrow> if ucast (r_cs r) AND 3 = (0 :: u16) then 56 + b else espcpu r) \<and>
    ip t' = r_eip r \<and> fl t' = iret_flags (r_eflags r) \<and> cr3 t' = c \<and>
    sg t' = (\<lambda>g. case g of CS \<Rightarrow> ucast (r_cs r) | SS \<Rightarrow> if ucast (r_cs r) AND 3 = (0 :: u16) then sg t SS else ucast (r_ss r) | _ \<Rightarrow> ucast (rg t EBX))"
proof -
  have p: "(0 < x) = (x \<noteq> 0)" for x :: u16 by (simp add: word_neq_0_conv)
  show ?thesis using assms(3) unfolding assms(4,5)
    by (simp add: x86 RESTORE_CPU_STATE_def Let_def assms(1,2) read_registers_def ld_def [symmetric] all_regs all_segs p)
qed

end

section \<open>The handlers as functions on the machine\<close>

text \<open>What the entry points rely on: a function that follows the calling convention returns to its caller, keeps the registers it has to preserve, the
  segments and the page directory, and leaves in its argument everything but the member \<open>esp\<close> as it was.\<close>

locale isr_call =
  fixes tr :: translation and h :: "x86 \<Rightarrow> x86"
  assumes returns: "inj_on (tr (cr3 s)) (area (rg s ESP) 64) \<Longrightarrow> ip (h s) = ld tr s (rg s ESP) \<and> rg (h s) ESP = 4 + rg s ESP \<and> sg (h s) = sg s \<and> cr3 (h s) = cr3 s"
    and keeps: "inj_on (tr (cr3 s)) (area (rg s ESP) 64) \<Longrightarrow> q \<in> {EBX, EBP, ESI, EDI} \<Longrightarrow> rg (h s) q = rg s q"
    and argument: "inj_on (tr (cr3 s)) (area (rg s ESP) 64) \<Longrightarrow>
      \<exists>v. read_registers (vw tr (h s)) (4 + rg s ESP) = (read_registers (vw tr s) (4 + rg s ESP))\<lparr>r_esp := v\<rparr>"
begin

lemma transparent:
  assumes inj: "inj_on (tr (cr3 s)) (area b 64)" and mode: "cpl s = 0 \<and> rg s ESP = 56 + b \<or> cpl s = 3 \<and> esp0 = 64 + b"
    and flags: "flags_ok (fl s)" and sel: "sel AND 3 = 0"
    and e: "err = None \<longrightarrow> pre = [PUSHI 0]" "err \<noteq> None \<longrightarrow> pre = []"
    and s1: "s1 = run tr (pre @ [PUSHI n] @ SET_KERNEL_STATE @ [CALL handler after]) (interrupt tr ss0 esp0 sel g err s)"
    and t: "t = run tr RESTORE_CPU_STATE (h s1)"
  shows "ip s1 = handler \<and> ip (h s1) = after \<and> describes (correct_esp (read_registers (vw tr s1) (4 + b))) s \<and> int_no (read_registers (vw tr s1) (4 + b)) = n \<and>
    rg t = rg s \<and> ip t = ip s \<and> fl t = fl s \<and> sg t = (\<lambda>g. if g \<in> {CS, SS} then sg s g else sg s DS) \<and> cr3 t = cr3 s \<and>
    sg s1 = (\<lambda>g. if g = CS then sel else if g = SS then if cpl s = 0 then sg s SS else ss0 else 0x10)"
proof -
  define u where "u = run tr pre (interrupt tr ss0 esp0 sel g err s)"
  define r where "r = read_registers (vw tr s1) (4 + b)"
  note m = mapped.intro [of tr "cr3 s", OF inj]
  have u: "int_frame tr b s u" "rg u = (rg s)(ESP := 40 + b)" "sg u = (sg s)(CS := sel, SS := (if cpl s = 0 then sg s SS else ss0))" "cr3 u = cr3 s"
    using mapped.frame_run [OF m refl refl mode e u_def] by simp_all
  have "s1 = run tr ([PUSHI n] @ SET_KERNEL_STATE @ [CALL handler after]) u"
    using e unfolding s1 u_def by (cases err) simp_all
  then have s1': "rg s1 ESP = b" "ip s1 = handler" "ld tr s1 b = after" "cr3 s1 = cr3 s" "ucast (rg s1 EBX) = sg s DS" "sg s1 SS = sg u SS" "cpl s1 = 0"
    and sg1: "sg s1 = (\<lambda>g. if g = CS then sel else if g = SS then if cpl s = 0 then sg s SS else ss0 else 0x10)"
    and r: "r = \<lparr>r_edi = rg s EDI, r_esi = rg s ESI, r_ebp = rg s EBP, r_esp = 36 + b, r_ebx = rg s EBX, r_edx = rg s EDX, r_ecx = rg s ECX, r_eax = rg s EAX,
      int_no = n, r_err = ld tr u (40 + b), r_eip = ip s, r_cs = ucast (sg s CS), r_eflags = fl s, espcpu = ld tr u (56 + b), r_ss = ld tr u (60 + b)\<rparr>"
    using mapped.stub_run [OF m refl u(4), of s1 n handler after r] u sel by (simp_all add: r_def int_frame_def cpl_def all_segs)
  have h: "ip (h s1) = after" "rg (h s1) ESP = 4 + b" "sg (h s1) = sg s1" "cr3 (h s1) = cr3 s" "rg (h s1) EBX = rg s1 EBX"
    using returns [of s1] keeps [of s1 EBX] inj s1' by simp_all
  obtain v where v: "read_registers (vw tr (h s1)) (4 + b) = r\<lparr>r_esp := v\<rparr>"
    using argument [of s1] inj s1' by (auto simp: r_def)
  have c: "ucast (sg s CS) AND 3 = (0 :: u32) \<longleftrightarrow> cpl s = 0" by (rule ucast_low2)
  have m: "cpl s = 0 \<and> rg s ESP = 56 + b \<or> cpl s = 3 \<and> ld tr u (56 + b) = rg s ESP \<and> ld tr u (60 + b) = ucast (sg s SS)"
    using u(1) by (simp add: int_frame_def)
  have "describes (correct_esp r) s"
    using m by (auto simp: describes_def correct_esp_def r c)
  have "cpl (h s1) = 0" using h(3) s1'(7) by (simp add: cpl_def)
  note R = mapped.restore_run [OF mapped.intro [OF inj_on_empty] h(4) h(2) this t v [symmetric]]
  have cs: "sg s CS AND 3 = cpl s" by (simp add: cpl_def)
  have "ip t = ip s \<and> fl t = fl s \<and> cr3 t = cr3 s" using R iret_flags_ok [OF flags] by (simp add: r)
  moreover have "rg t = rg s" using R m by (auto simp: r all_regs ucast_u16 cs)
  moreover have "sg t = (\<lambda>g. if g \<in> {CS, SS} then sg s g else sg s DS)" using R m h s1' u(3) by (auto simp: r all_segs ucast_u16 cs)
  ultimately have "rg t = rg s \<and> ip t = ip s \<and> fl t = fl s \<and> sg t = (\<lambda>g. if g \<in> {CS, SS} then sg s g else sg s DS) \<and> cr3 t = cr3 s" by simp
  then show ?thesis using s1' sg1 h \<open>describes (correct_esp r) s\<close> by (simp add: r_def [symmetric]) (simp add: r)
qed

end

text \<open>What \<open>isr_handler\<close> and \<open>irq_handler\<close> do to their argument; the registered handlers only read it.\<close>

definition call_handler :: "translation \<Rightarrow> x86 \<Rightarrow> x86" where
  "call_handler tr s = step tr RET (st tr (16 + rg s ESP) (r_esp (correct_esp (read_registers (vw tr s) (4 + rg s ESP)))) s)"

interpretation handler: isr_call tr "call_handler tr" for tr
proof (unfold_locales, goal_cases)
  case (1 s)
  then show ?case
    by (simp add: call_handler_def x86 mapped.ld_st_apart [OF mapped.intro, of tr "cr3 s" "area (rg s ESP) 64"])
next
  case (2 s q)
  then show ?case by (auto simp: call_handler_def x86)
next
  case (3 s)
  define v where "v = r_esp (correct_esp (read_registers (vw tr s) (4 + rg s ESP)))"
  have "read_registers (vw tr (call_handler tr s)) (4 + rg s ESP) = (read_registers (vw tr s) (4 + rg s ESP))\<lparr>r_esp := v\<rparr>"
    unfolding call_handler_def v_def [symmetric]
    by (simp add: read_registers_def ld_def [symmetric] x86 mapped.ld_st_same [OF mapped.intro [of tr "cr3 s", OF 3]] mapped.ld_st_apart [OF mapped.intro [of tr "cr3 s", OF 3]])
  then show ?case by blast
qed

section \<open>Properties\<close>

lemma isr_entry_split: "n \<noteq> 17 \<Longrightarrow> isr_entry n handler after = (if n \<in> set cpu_errs then [] else [PUSHI 0]) @ [PUSHI n] @ SET_KERNEL_STATE @ [CALL handler after]"
  by (auto simp: isr_entry_def isr_errs_def cpu_errs_def ISR_ERR_def ISR_NOERR_def)

lemma irq_entry_isr: "unat i \<le> 16 \<Longrightarrow> irq_entry i = isr_entry (i + 32) \<and> i + 32 \<noteq> 17 \<and> i + 32 \<notin> set cpu_errs"
proof -
  assume "unat i \<le> 16"
  then have "unat (i + 32) = unat i + 32" by (simp add: unat_add_lt)
  then have "32 \<le> unat (i + 32)" by simp
  then have "i + 32 \<noteq> k" if "unat k < 32" for k using that by auto
  from this [of 8] this [of 10] this [of 11] this [of 12] this [of 13] this [of 14] this [of 17] show ?thesis
    by (simp add: irq_entry_def isr_entry_def isr_errs_def cpu_errs_def)
qed


definition example_user :: x86 where
  "example_user = example_x86\<lparr>sg := (\<lambda>g. if g = CS then 0x1B else 0x23), fl := 0x202, ip := 0x08048000\<rparr>"


text \<open>the processor pushes an error code for the alignment check, vector 17, too, but the entry point is one for an exception without: the code is not
  taken off the stack, and the return goes to the address that is the error code.\<close>

theorem alignment_check_lost:
  fixes s :: x86 and tr :: translation and e stk g handler after :: u32
  defines "b \<equiv> if cpl s = 0 then rg s ESP - 56 else stk - 64"
  defines "s1 \<equiv> run tr (isr_entry 17 handler after) (interrupt tr 0x10 stk 0x08 g (Some e) s)"
  assumes mode: "cpl s \<in> {0, 3}" and inj: "inj_on (tr (cr3 s)) (area (b - 4) 68)"
  shows "ip (run tr RESTORE_CPU_STATE (call_handler tr s1)) = e"
proof -
  define i where "i = interrupt tr 0x10 stk 0x08 g (Some e) s"
  define u where "u = push tr 0 i"
  have sub: "area b 64 \<subseteq> area (b - 4) 68" "area (b - 4) 64 \<subseteq> area (b - 4) 68"
  proof -
    have le: "unat (x - (b - 4)) \<le> unat (x - b) + 4" for x
    proof -
      have "unat (x - b + 4) \<le> unat (x - b) + unat (4 :: u32)" unfolding unat_word_ariths by (rule mod_less_eq_dividend)
      moreover have "x - (b - 4) = x - b + 4" "unat (4 :: u32) = 4" by simp_all
      ultimately show ?thesis by metis
    qed
    show "area b 64 \<subseteq> area (b - 4) 68"
    proof
      fix x
      assume "x \<in> area b 64"
      then have "unat (x - b) < 64" by (simp add: area_def)
      then have "unat (x - (b - 4)) < 68" using le [of x] by linarith
      then show "x \<in> area (b - 4) 68" by (simp add: area_def)
    qed
  qed (auto simp: area_def)
  note m1 = mapped.intro [of tr "cr3 s", OF inj_on_subset [OF inj sub(1)]] and m2 = mapped.intro [of tr "cr3 s", OF inj_on_subset [OF inj sub(2)]]
  have m: "cpl s = 0 \<and> rg s ESP = 56 + b \<or> cpl s = 3 \<and> stk = 64 + b" using mode by (auto simp: b_def)
  have i: "rg i = (rg s)(ESP := 40 + b)" "ld tr i (40 + b) = e" "sg i CS = 8" "cr3 i = cr3 s"
    using mapped.interrupt_run [OF m1 refl refl m i_def] by auto
  have u: "rg u ESP = 40 + (b - 4)" "cr3 u = cr3 s" "sg u CS = 8" "ld tr u (44 + (b - 4)) = e"
    using i mapped.ld_st_apart [OF m2, of i "36 + b" "40 + b" 0] in_areaI [of "36 + b" "b - 4" 64] in_areaI [of "40 + b" "b - 4" 64]
    by (simp_all add: u_def push_def set_rg_def st_sel ld_upd apart_offset apart_num)
  define r where "r = read_registers (vw tr s1) (4 + (b - 4))"
  have s1: "s1 = run tr ([PUSHI 17] @ SET_KERNEL_STATE @ [CALL handler after]) u"
    by (simp add: s1_def i_def u_def isr_entry_def isr_errs_def ISR_NOERR_def)
  have s1': "rg s1 ESP = b - 4" "cr3 s1 = cr3 s" "sg s1 CS = 8" "r_eip r = e"
    using mapped.stub_run [OF m2 refl u(2,1) s1 r_def] u by simp_all
  have inj': "inj_on (tr (cr3 s1)) (area (rg s1 ESP) 64)" using inj_on_subset [OF inj sub(2)] s1' by simp
  obtain v where v: "read_registers (vw tr (call_handler tr s1)) (4 + (b - 4)) = r\<lparr>r_esp := v\<rparr>"
    using handler.argument [of tr s1, OF inj'] by (auto simp: r_def s1')
  have "cr3 (call_handler tr s1) = cr3 s" "rg (call_handler tr s1) ESP = 4 + (b - 4)" "cpl (call_handler tr s1) = 0"
    using handler.returns [of tr s1, OF inj'] s1' by (simp_all add: cpl_def)
  from mapped.restore_run [OF mapped.intro [OF inj_on_empty] this refl v [symmetric]] show ?thesis using s1'(4) by simp
qed

end
