(* ===== verification/Entry.thy ===== *)
theory Entry
  imports Stubs
begin

text \<open>
  System calls between user mode and the functions of the kernel: the stub of \<open>include/sys/syscall.h\<close>, \<open>kernel/syscall/entry.s\<close>, and the
  registers of \<open>sysenter\<close> that \<open>syscall::init\<close> and \<open>process::init\<close> set.
\<close>

section \<open>The code\<close>

text \<open>\<open>SYSENTER_ASM\<close>; \<open>after\<close> is the label behind \<open>sysenter\<close>.\<close>

definition SYSENTER_ASM :: "u32 \<Rightarrow> instr list" where
  "SYSENTER_ASM after = [MOV EBP ESP, MOVI EBX after, SYSENTER]"

definition entry_code :: "u32 \<Rightarrow> u32 \<Rightarrow> u32 \<Rightarrow> instr list" where
  "entry_code table enosys ret =
     [CMP EAX 11, JGE enosys, PUSH ECX, PUSH EDX, PUSH ESI, PUSH EDI,
      MOVI16 ECX 0x10, TOSEG DS ECX, TOSEG ES ECX, TOSEG FS ECX, TOSEG GS ECX,
      PUSHI ret, JMPTAB table EAX]"

definition entry_enosys :: "instr list" where
  "entry_enosys = [MOVI EAX (- 88), MOV ECX EBP, MOV EDX EBX, STI, SYSEXIT]"

definition entry_ret :: "instr list" where
  "entry_ret =
     [CLI, ADD ESP 16,
      MOVI16 ECX 0x23, TOSEG DS ECX, TOSEG ES ECX, TOSEG FS ECX, TOSEG GS ECX,
      MOV ECX EBP, MOV EDX EBX, STI, SYSEXIT]"

definition KERNEL_STACK_TOP :: u32 where "KERNEL_STACK_TOP = 0xffffc000"

text \<open>The model specific registers after the start of the kernel: \<open>entry\<close> is the address of \<open>syscall_entry\<close>.\<close>

definition sysenter_set :: "u32 \<Rightarrow> x86 \<Rightarrow> bool" where
  "sysenter_set entry s \<longleftrightarrow> msr s MSR_CS = KERNEL_CODE_SEG \<and> msr s MSR_ESP = KERNEL_STACK_TOP \<and> msr s MSR_EIP = entry"

text \<open>A state in which a function that follows the calling convention can return.\<close>

definition cdecl_return :: "translation \<Rightarrow> x86 \<Rightarrow> x86 \<Rightarrow> bool" where
  "cdecl_return tr s s' \<longleftrightarrow> ip s' = ld tr s (rg s ESP) \<and> rg s' ESP = 4 + rg s ESP \<and> (\<forall>q\<in>{EBX, EBP, ESI, EDI}. rg s' q = rg s q) \<and>
     sg s' = sg s \<and> msr s' = msr s \<and> cr3 s' = cr3 s"

section \<open>Into the kernel and back\<close>

definition user_mode :: "x86 \<Rightarrow> bool" where
  "user_mode s \<longleftrightarrow> sg s = (\<lambda>g. if g = CS then 0x1B else 0x23)"

definition kernel_mode :: "x86 \<Rightarrow> bool" where
  "kernel_mode s \<longleftrightarrow> sg s = (\<lambda>g. if g = CS then 0x08 else 0x10)"

text \<open>The state behind the stub of a process: only the stack pointer and the flags are new to the kernel.\<close>

lemma sysenter_run:
  assumes "sysenter_set entry s" "u = run tr (SYSENTER_ASM after) s"
  shows "ip u = entry \<and> rg u = (rg s)(EBP := rg s ESP, EBX := after, ESP := KERNEL_STACK_TOP) \<and> sg u = (sg s)(CS := 0x08, SS := 0x10) \<and>
    fl u = fl s AND NOT F_IF AND NOT F_RF \<and> cr3 u = cr3 s \<and> ram u = ram s \<and> msr u = msr s"
  using assms by (simp add: x86 SYSENTER_ASM_def sysenter_set_def Let_def KERNEL_CODE_SEG_def)

lemma enosys_run:
  assumes "sysenter_set entry u" "v = run tr entry_enosys u"
  shows "ip v = rg u EBX \<and> rg v ESP = rg u EBP \<and> rg v EAX = - 88 \<and> (\<forall>q\<in>{EBX, EBP, ESI, EDI}. rg v q = rg u q) \<and>
    sg v = (sg u)(CS := 0x1B, SS := 0x23) \<and> fl v = fl u OR F_IF \<and> cr3 v = cr3 u \<and> ram v = ram u"
  using assms by (simp add: x86 entry_enosys_def sysenter_set_def Let_def KERNEL_CODE_SEG_def)

lemma ret_run:
  assumes "sysenter_set entry u" "v = run tr entry_ret u" "kernel_mode u"
  shows "ip v = rg u EBX \<and> rg v ESP = rg u EBP \<and> rg v EAX = rg u EAX \<and> (\<forall>q\<in>{EBX, EBP, ESI, EDI}. rg v q = rg u q) \<and>
    user_mode v \<and> bit (fl v) 9 \<and> cr3 v = cr3 u \<and> ram v = ram u"
  using assms by (simp add: x86 entry_ret_def sysenter_set_def Let_def KERNEL_CODE_SEG_def user_mode_def kernel_mode_def all_segs F_IF_def bit_simps)

lemma entry_refused: "11 \<le> sint (rg u EAX) \<Longrightarrow> run tr (entry_code table enosys ret) u = u\<lparr>fl := sub_flags (rg u EAX) 11 (fl u), ip := enosys\<rparr>"
  by (simp add: x86 entry_code_def)

context mapped
begin

lemma entry_run:
  assumes "A = area b 20 \<union> area w 4" "area b 20 \<inter> area w 4 = {}" "rg u ESP = 20 + b" "w = 4 * rg u EAX + table" "cr3 u = c"
    "sint (rg u EAX) < 11" "v = run tr (entry_code table enosys ret) u"
  shows "ip v = ld tr u w \<and> rg v ESP = b \<and> ld tr v b = ret \<and> ld tr v (4 + b) = rg u EDI \<and> ld tr v (8 + b) = rg u ESI \<and> ld tr v (12 + b) = rg u EDX \<and>
    ld tr v (16 + b) = rg u ECX \<and> (\<forall>q. q \<noteq> ESP \<and> q \<noteq> ECX \<longrightarrow> rg v q = rg u q) \<and> sg v = (sg u)(DS := 0x10, ES := 0x10, FS := 0x10, GS := 0x10) \<and>
    cr3 v = c \<and> msr v = msr u \<and> fl v AND F_CTRL = fl u AND F_CTRL"
proof -
  note areas = two_areas [OF assms(1,2), simplified]
  have n: "\<not> 11 \<le> sint (rg u EAX)" using assms(6) by simp
  show ?thesis unfolding assms(7)
    using n by (simp add: x86 entry_code_def areas ld_st_same ld_st_apart assms(3,5) flip: assms(4))
qed

end

section \<open>Selectors and descriptors\<close>

text \<open>What the processor asks of a selector: it is not the one of a local table, its descriptor is present and of the right kind, and the privilege levels fit.\<close>

definition descriptor :: "gdt_entry list \<Rightarrow> u16 \<Rightarrow> gdt_entry option" where
  "descriptor gdt x = (let i = unat (drop_bit 3 x) in if bit x 2 \<or> i = 0 \<or> length gdt \<le> i then None else Some (gdt ! i))"

definition code_sel :: "gdt_entry list \<Rightarrow> u16 \<Rightarrow> bool" where
  "code_sel gdt x = (case descriptor gdt x of None \<Rightarrow> False | Some g \<Rightarrow> bit (g_access g) 7 \<and> bit (g_access g) 4 \<and> bit (g_access g) 3 \<and> gdt_dpl g = unat (x AND 3))"

definition data_sel :: "gdt_entry list \<Rightarrow> nat \<Rightarrow> u16 \<Rightarrow> bool" where
  "data_sel gdt p x = (case descriptor gdt x of None \<Rightarrow> False
     | Some g \<Rightarrow> bit (g_access g) 7 \<and> bit (g_access g) 4 \<and> \<not> bit (g_access g) 3 \<and> bit (g_access g) 1 \<and> p \<le> gdt_dpl g \<and> unat (x AND 3) \<le> gdt_dpl g)"

definition stack_sel :: "gdt_entry list \<Rightarrow> nat \<Rightarrow> u16 \<Rightarrow> bool" where
  "stack_sel gdt p x \<longleftrightarrow> data_sel gdt p x \<and> unat (x AND 3) = p \<and> (case descriptor gdt x of None \<Rightarrow> False | Some g \<Rightarrow> gdt_dpl g = p)"

definition well_typed :: "gdt_entry list \<Rightarrow> x86 \<Rightarrow> bool" where
  "well_typed gdt s \<longleftrightarrow> code_sel gdt (sg s CS) \<and> stack_sel gdt (unat (cpl s)) (sg s SS) \<and> list_all (\<lambda>g. data_sel gdt (unat (cpl s)) (sg s g)) [DS, ES, FS, GS]"

text \<open>The descriptors of the kernel's table behind the four selectors that the code loads.\<close>

lemma descriptor_init:
  "descriptor (gdt_init tss) 0x08 = Some (gdt_gate 0 0xFFFFFFFF 0x9A 0xCF)" "descriptor (gdt_init tss) 0x10 = Some (gdt_gate 0 0xFFFFFFFF 0x92 0xCF)"
  "descriptor (gdt_init tss) 0x1B = Some (gdt_gate 0 0xFFFFFFFF 0xFA 0xCF)" "descriptor (gdt_init tss) 0x23 = Some (gdt_gate 0 0xFFFFFFFF 0xF2 0xCF)"
  by (simp_all add: descriptor_def gdt_init_def Let_def)

lemma gate_access: "g_access (gdt_gate b l acc g) = acc" "gdt_dpl (gdt_gate b l acc g) = unat (drop_bit 5 acc AND 3)"
  by (simp_all add: gdt_gate_def gdt_dpl_def)

lemma sel_init [simp]:
  "code_sel (gdt_init tss) 0x08" "stack_sel (gdt_init tss) 0 0x10" "data_sel (gdt_init tss) 0 0x10"
  "code_sel (gdt_init tss) 0x1B" "stack_sel (gdt_init tss) 3 0x23" "data_sel (gdt_init tss) 3 0x23"
  by (simp_all add: code_sel_def data_sel_def stack_sel_def descriptor_init gate_access)

lemma kernel_typed: "kernel_mode s \<Longrightarrow> well_typed (gdt_init tss) s \<and> cpl s = 0"
  by (simp add: kernel_mode_def well_typed_def cpl_def)

lemma user_typed: "user_mode s \<Longrightarrow> well_typed (gdt_init tss) s \<and> cpl s = 3"
  by (simp add: user_mode_def well_typed_def cpl_def)

lemma data_sel_lower: "data_sel gdt p x \<Longrightarrow> q \<le> p \<Longrightarrow> data_sel gdt q x"
  by (auto simp: data_sel_def split: option.splits)

text \<open>Everything that changes segment registers once the table is loaded. A process may load any data selector that the processor accepts; the interrupt rules need the
  stack of the processor to be mapped, the switches the stack of their arguments. \<open>other\<close> is all other code.\<close>

inductive seg_step :: "translation \<Rightarrow> gdt_entry list \<Rightarrow> x86 \<Rightarrow> x86 \<Rightarrow> bool" for tr gdt where
  flush: "seg_step tr gdt s (run tr (gdt_flush gp f) s)"
| load: "cpl s = 3 \<Longrightarrow> g \<in> {DS, ES, FS, GS} \<Longrightarrow> data_sel gdt 3 x \<Longrightarrow> seg_step tr gdt s (set_sg g x s)"
| trap: "inj_on (tr (cr3 s)) (area b 64) \<Longrightarrow> cpl s = 0 \<and> rg s ESP = 56 + b \<or> cpl s = 3 \<and> stk = 64 + b \<Longrightarrow> flags_ok (fl s) \<Longrightarrow> n \<noteq> 17 \<Longrightarrow>
    seg_step tr gdt s (run tr (isr_entry n handler after) (interrupt tr 0x10 stk 0x08 a (cpu_error n e) s))"
| trap_return: "inj_on (tr (cr3 s)) (area b 64) \<Longrightarrow> cpl s = 0 \<and> rg s ESP = 56 + b \<or> cpl s = 3 \<and> stk = 64 + b \<Longrightarrow> flags_ok (fl s) \<Longrightarrow> n \<noteq> 17 \<Longrightarrow>
    seg_step tr gdt s (run tr RESTORE_CPU_STATE (call_handler tr (run tr (isr_entry n handler after) (interrupt tr 0x10 stk 0x08 a (cpu_error n e) s))))"
| sys_call: "cpl s = 3 \<Longrightarrow> sysenter_set entry s \<Longrightarrow> seg_step tr gdt s (run tr (entry_code table enosys ret) (run tr (SYSENTER_ASM k) s))"
| sys_refused: "cpl s = 3 \<Longrightarrow> sysenter_set entry s \<Longrightarrow> 11 \<le> sint (rg s EAX) \<Longrightarrow>
    seg_step tr gdt s (run tr entry_enosys (run tr (entry_code table enosys ret) (run tr (SYSENTER_ASM k) s)))"
| sys_return: "kernel_mode s \<Longrightarrow> sysenter_set entry s \<Longrightarrow> seg_step tr gdt s (run tr entry_ret s)"
| switch_user: "cpl s = 0 \<Longrightarrow> inj_on (tr (cr3 s)) (area (rg s ESP) 48) \<Longrightarrow> shared_area tr (cr3 s) (ld tr s (4 + rg s ESP)) (area (rg s ESP) 48) \<Longrightarrow>
    seg_step tr gdt s (run tr switch_proc_user s)"
| switch_kernel: "seg_step tr gdt s (run tr switch_proc s)"
| other: "sg s' = sg s \<Longrightarrow> seg_step tr gdt s s'"

lemma typed_cong: "sg s' = sg s \<Longrightarrow> well_typed gdt s' = well_typed gdt s \<and> cpl s' = cpl s"
  by (simp add: well_typed_def cpl_def)

lemma switch_proc_sg: "sg (run tr switch_proc s) = sg s"
  by (simp add: switch_proc_def x86 Let_def)

lemma trap_sg:
  assumes "inj_on (tr (cr3 s)) (area b 64)" "cpl s = 0 \<and> rg s ESP = 56 + b \<or> cpl s = 3 \<and> stk = 64 + b" "flags_ok (fl s)" "n \<noteq> 17"
    "s1 = run tr (isr_entry n handler after) (interrupt tr 0x10 stk 0x08 a (cpu_error n e) s)"
  shows "sg s1 = (\<lambda>g. if g = CS then 0x08 else if g = SS then if cpl s = 0 then sg s SS else 0x10 else 0x10) \<and>
    sg (run tr RESTORE_CPU_STATE (call_handler tr s1)) = (\<lambda>g. if g \<in> {CS, SS} then sg s g else sg s DS)"
  using handler.transparent [OF assms(1-3) _ _ _ assms(5) [unfolded isr_entry_split [OF assms(4)]] refl] by (auto simp: cpu_error_def split: if_splits)

lemma seg_step_typed:
  assumes "seg_step tr (gdt_init tss) s s'" "well_typed (gdt_init tss) s" "cpl s \<in> {0, 3}"
  shows "well_typed (gdt_init tss) s' \<and> cpl s' \<in> {0, 3}"
  using assms
proof cases
  case (flush f)
  then have "kernel_mode s'" by (simp add: gdt_flush_def x86 kernel_mode_def all_segs)
  then show ?thesis using kernel_typed by simp
next
  case (load g x)
  then show ?thesis using assms by (auto simp: well_typed_def set_sg_def cpl_def)
next
  case (trap b stk n handler after a e)
  show ?thesis using trap_sg [where tr = tr and s = s, OF trap(2-5,1)] assms
    by (auto simp: well_typed_def cpl_def)
next
  case (trap_return b stk n handler after a e)
  show ?thesis using trap_sg [where tr = tr and s = s, OF trap_return(2-5) refl, of handler after a e] assms trap_return(1)
    by (auto simp: well_typed_def cpl_def)
next
  case (sys_call entry table enosys ret k)
  let ?u = "run tr (SYSENTER_ASM k) s"
  have u: "sg ?u = (sg s)(CS := 0x08, SS := 0x10)" using sysenter_run [OF sys_call(3) refl] by blast
  show ?thesis
  proof (cases "11 \<le> sint (rg ?u EAX)")
    case True
    then have "sg s' = sg ?u" by (simp add: sys_call(1) entry_refused)
    then show ?thesis using u assms sys_call(2) data_sel_lower [of "gdt_init tss" 3 _ 0]
      by (auto simp: well_typed_def cpl_def)
  next
    case False
    then have "sg s' = (sg ?u)(DS := 0x10, ES := 0x10, FS := 0x10, GS := 0x10)" unfolding sys_call(1) by (simp add: x86 entry_code_def)
    then have "kernel_mode s'" using u by (simp add: kernel_mode_def all_segs)
    then show ?thesis using kernel_typed by simp
  qed
next
  case (sys_refused entry table enosys ret k)
  let ?u = "run tr (SYSENTER_ASM k) s"
  let ?v = "run tr (entry_code table enosys ret) ?u"
  have u: "sg ?u = (sg s)(CS := 0x08, SS := 0x10)" "rg ?u EAX = rg s EAX" "msr ?u = msr s" using sysenter_run [OF sys_refused(3) refl] by simp_all
  then have "sg ?v = sg ?u" "sysenter_set entry ?v" using sys_refused(3,4) by (simp_all add: entry_refused sysenter_set_def)
  then have "sg s' = (sg s)(CS := 0x1B, SS := 0x23)" using enosys_run [of entry ?v s'] sys_refused(1) u by simp
  then show ?thesis using assms sys_refused(2)
    by (auto simp: well_typed_def cpl_def)
next
  case (sys_return entry)
  then have "user_mode s'" using ret_run by blast
  then show ?thesis using user_typed by simp
next
  case switch_user
  then have "user_mode s'" using mapped.switch_proc_user_run [OF mapped.intro [of tr "cr3 s"], OF switch_user(3) refl refl switch_user(2,4,1) refl]
    by (simp add: user_mode_def)
  then show ?thesis using user_typed by simp
next
  case switch_kernel
  then show ?thesis using typed_cong [OF switch_proc_sg] assms by metis
next
  case other
  then show ?thesis using typed_cong assms by metis
qed



end
