(* ===== verification/BootAsm.thy ===== *)
theory BootAsm
  imports Entry
begin

text \<open>
  The start of the kernel before \<open>kmain\<close>: \<open>kernel/boot.s\<close> with its multiboot header, its first page directory and the code of \<open>_start\<close>, and the
  frame of \<open>_init\<close> from \<open>kernel/lib/crti.s\<close> and \<open>kernel/lib/crtn.s\<close>.
\<close>

section \<open>Data\<close>

definition HEADER_MAGIC :: u32 where "HEADER_MAGIC = 0x1BADB002"
definition HEADER_FLAGS :: u32 where "HEADER_FLAGS = push_bit 0 1 OR push_bit 1 1"
definition CHECKSUM :: u32 where "CHECKSUM = - (HEADER_MAGIC + HEADER_FLAGS)"

definition multiboot_header :: "u32 list" where
  "multiboot_header = [HEADER_MAGIC, HEADER_FLAGS, CHECKSUM]"

definition KERNEL_BASE :: u32 where "KERNEL_BASE = 0xC0000000"
definition KERNEL_PAGE_NUMBER :: nat where "KERNEL_PAGE_NUMBER = unat (drop_bit 22 KERNEL_BASE)"

text \<open>\<open>dir\<close> is the address of the directory in the kernel's address space.\<close>

definition kernel_page_dir :: "u32 \<Rightarrow> u32 list" where
  "kernel_page_dir dir =
     [0x83] @ replicate (KERNEL_PAGE_NUMBER - 1) 0 @ [0x83] @ replicate (1024 - KERNEL_PAGE_NUMBER - 1) 0 @ replicate 1024 0 @ [dir - KERNEL_BASE]"

text \<open>How the processor translates an address with a directory of pages of 4 MiB.\<close>

definition pse_translate :: "u32 list \<Rightarrow> u32 \<Rightarrow> u32 option" where
  "pse_translate pd a =
     (let e = pd ! unat (drop_bit 22 a)
      in if bit e 0 \<and> bit e 7 then Some ((e AND 0xFFC00000) OR (a AND 0x3FFFFF)) else None)"

definition kernel_tr :: translation where
  "kernel_tr c a = a - KERNEL_BASE"

section \<open>Code\<close>

text \<open>\<open>_start\<close> up to the jump into the upper half.\<close>

definition boot_start :: "u32 \<Rightarrow> u32 \<Rightarrow> instr list" where
  "boot_start dir higherhalf =
     [CLI, MOVI EDX (dir - KERNEL_BASE), TOCR3 EDX,
      FROMCR4 EDX, ORI EDX 0x00000610, TOCR4 EDX,
      FROMCR0 EDX, ANDI EDX 0xFFFB, ORI EDX 0x80000002, TOCR0 EDX,
      FNINIT, MOVI EDX higherhalf, JMPR EDX]"

text \<open>From \<open>.higherhalf\<close> to the call of \<open>_init\<close>, from there to the call of \<open>kmain\<close>, and what follows if that returns.\<close>

definition boot_higherhalf :: "u32 \<Rightarrow> u32 \<Rightarrow> u32 \<Rightarrow> u32 \<Rightarrow> instr list" where
  "boot_higherhalf dir kstack_top init ret =
     [STOREI dir 0, INVLPG 0, MOVI ESP kstack_top, ADD EBX KERNEL_BASE, PUSH EBX, PUSH ESI, PUSH EDI, CALL init ret]"

definition boot_call_kmain :: "u32 \<Rightarrow> u32 \<Rightarrow> instr list" where
  "boot_call_kmain kmain halt = [POP EDI, POP ESI, CALL kmain halt]"

definition boot_halt :: "u32 \<Rightarrow> instr list" where
  "boot_halt halt = [CLI, HLT, JMP halt]"

text \<open>\<open>crti.s\<close> and \<open>crtn.s\<close>: the beginning and the end of \<open>_init\<close> and of \<open>_fini\<close>; between them the linker puts the constructors.\<close>

definition init_prologue :: "instr list" where "init_prologue = [PUSH EBP, MOV EBP ESP]"
definition init_epilogue :: "instr list" where "init_epilogue = [POP EBP, RET]"

section \<open>Properties\<close>

interpretation boot_map: mapped kernel_tr c A for c A
  by unfold_locales (simp add: inj_on_def kernel_tr_def)

lemma page_number: "KERNEL_PAGE_NUMBER = 768"
  by (simp add: KERNEL_PAGE_NUMBER_def KERNEL_BASE_def)

lemma dir_entry:
  "i < 1024 \<Longrightarrow> kernel_page_dir dir ! i = (if i = 0 \<or> i = 768 then 0x83 else 0)"
  by (auto simp: kernel_page_dir_def page_number nth_append nth_Cons')

lemma translate_first: "pse_translate pd a = Some x \<Longrightarrow> pd ! unat (drop_bit 22 a) = 0x83 \<Longrightarrow> x = a AND 0x3FFFFF"
  by (auto simp: pse_translate_def split: if_splits)

lemma top_bits: "unat (drop_bit 22 (a :: u32)) = unat a div 4194304" "unat (drop_bit 22 (a :: u32)) < 1024"
proof -
  show "unat (drop_bit 22 a) = unat a div 4194304" by (simp add: unat_drop_bit)
  then show "unat (drop_bit 22 a) < 1024" using unat_u32_lt [of a] by simp
qed

lemma low_bits: "unat (a AND 0x3FFFFF :: u32) = unat a mod 4194304"
proof -
  have "(0x3FFFFF :: u32) = mask 22" by (simp add: mask_eq_exp_minus_1)
  then have "a AND 0x3FFFFF = take_bit 22 a" by (simp only: take_bit_eq_mask)
  then show ?thesis by (simp add: unat_mod take_bit_eq_mod)
qed

text \<open>The first directory shows the first 4 MiB of memory twice, at the bottom of the address space and at the base of the kernel, and nothing else; without its first entry only
  at the base of the kernel.\<close>

lemma boot_translate:
  "pse_translate (kernel_page_dir dir) a =
     (if a < 0x400000 then Some a else if KERNEL_BASE \<le> a \<and> a < KERNEL_BASE + 0x400000 then Some (kernel_tr c a) else None)"
  "pse_translate ((kernel_page_dir dir)[0 := 0]) a =
     (if KERNEL_BASE \<le> a \<and> a < KERNEL_BASE + 0x400000 then Some (kernel_tr c a) else None)"
proof -
  let ?i = "unat a div 4194304"
  have low: "a < 0x400000 \<longleftrightarrow> ?i = 0" by (simp add: word_less_nat_alt div_eq_0_iff)
  have high: "KERNEL_BASE \<le> a \<and> a < KERNEL_BASE + 0x400000 \<longleftrightarrow> ?i = 768"
    by (auto simp: KERNEL_BASE_def word_less_nat_alt word_le_nat_alt)
  have v0: "a AND 0x3FFFFF = a" if "?i = 0" using that by (intro word_unat_eq_iff [THEN iffD2]) (simp add: low_bits)
  have v1: "a AND 0x3FFFFF = kernel_tr c a" if "?i = 768"
  proof (rule word_unat_eq_iff [THEN iffD2])
    have "KERNEL_BASE \<le> a" using high that by blast
    then have "unat (a - KERNEL_BASE) = unat a - 3221225472" by (simp add: unat_sub KERNEL_BASE_def)
    moreover have "unat a mod 4194304 = unat a - 3221225472" using that by (simp add: modulo_nat_def)
    ultimately show "unat (a AND 0x3FFFFF) = unat (kernel_tr c a)" by (simp add: low_bits kernel_tr_def)
  qed
  have e: "kernel_page_dir dir ! ?i = (if ?i = 0 \<or> ?i = 768 then 0x83 else 0)" using dir_entry top_bits [of a] by simp
  have e0: "(kernel_page_dir dir)[0 := 0] ! ?i = (if ?i = 768 then 0x83 else 0)"
    using e by (cases "?i = 0") (auto simp: kernel_page_dir_def)
  show "pse_translate (kernel_page_dir dir) a =
     (if a < 0x400000 then Some a else if KERNEL_BASE \<le> a \<and> a < KERNEL_BASE + 0x400000 then Some (kernel_tr c a) else None)"
    unfolding high low pse_translate_def top_bits e using v0 v1 by simp
  show "pse_translate ((kernel_page_dir dir)[0 := 0]) a =
     (if KERNEL_BASE \<le> a \<and> a < KERNEL_BASE + 0x400000 then Some (kernel_tr c a) else None)"
    unfolding high pse_translate_def top_bits e0 using v1 by simp
qed

lemma start_run:
  "run tr (boot_start dir higherhalf) s =
     s\<lparr>rg := (rg s)(EDX := higherhalf), ip := higherhalf, fl := fl (run tr (boot_start dir higherhalf) s),
       cr0 := (cr0 s AND 0xFFFB) OR 0x80000002, cr3 := dir - KERNEL_BASE, cr4 := cr4 s OR 0x610\<rparr>"
  by (simp add: boot_start_def x86)

lemma higherhalf_run:
  assumes "area b 24 \<inter> area dir 4 = {}" "s1 = run kernel_tr (boot_higherhalf dir (20 + b) init ret) s"
  shows "ip s1 = init \<and> rg s1 ESP = 4 + b \<and> ld kernel_tr s1 (4 + b) = ret \<and> ld kernel_tr s1 (8 + b) = rg s EDI \<and> ld kernel_tr s1 (12 + b) = rg s ESI \<and>
    ld kernel_tr s1 (16 + b) = rg s EBX + KERNEL_BASE \<and> ld kernel_tr s1 dir = 0"
proof -
  note areas = two_areas [OF refl assms(1), simplified]
  have c: "in_area UNIV x" for x by (simp add: in_area_def)
  note l = boot_map.ld_st_same [where A = UNIV, OF _ c] boot_map.ld_st_apart [where A = UNIV, OF _ c c]
  show ?thesis unfolding assms(2)
    by (simp add: boot_higherhalf_def x86 areas l)
qed

text \<open>A kernel without constructors: \<open>_init\<close> keeps to the calling convention and to the four bytes below its return address.\<close>

lemma empty_init:
  "cdecl_return kernel_tr s (run kernel_tr (init_prologue @ init_epilogue) s)"
  "apart a (rg s ESP - 4) \<Longrightarrow> ld kernel_tr (run kernel_tr (init_prologue @ init_epilogue) s) a = ld kernel_tr s a"
proof -
  have c: "in_area UNIV x" for x by (simp add: in_area_def)
  note l = boot_map.ld_st_same [where A = UNIV, OF _ c] boot_map.ld_st_apart [where A = UNIV, OF _ c c]
  have ap: "apart (rg s ESP) (rg s ESP - 4)" by (simp add: apart_def)
  show "cdecl_return kernel_tr s (run kernel_tr (init_prologue @ init_epilogue) s)"
    using l(2) [OF _ ap] by (simp add: init_prologue_def init_epilogue_def x86 l(1) cdecl_return_def)
  show "ld kernel_tr (run kernel_tr (init_prologue @ init_epilogue) s) a = ld kernel_tr s a" if "apart a (rg s ESP - 4)"
    using that by (simp add: init_prologue_def init_epilogue_def x86 l)
qed

text \<open>C9: the multiboot header sums to zero. The first directory shows the first 4 MiB at the bottom of the address space and at 3 GiB, so that the jump into the
  upper half is possible; after its first entry is cleared only the upper view is left. \<open>_start\<close> turns on paging with that directory, 4 MiB pages and the floating
  point unit, and enters \<open>kmain\<close> on the kernel stack with the address of the multiboot information in the upper half as its argument, when \<open>_init\<close> returns as the calling convention
  says and leaves its caller's stack alone. From the old value of \<open>cr0\<close> only bits 0, 1 and 3 to 15 are kept.\<close>

theorem boot_enters_kernel:
  fixes s z :: x86 and dir kstack_top hh init ret kmain halt :: u32
  defines "s1 \<equiv> run kernel_tr (boot_start dir hh) s"
  defines "s2 \<equiv> run kernel_tr (boot_higherhalf dir kstack_top init ret) s1" and "b \<equiv> kstack_top - 20"
  defines "s3 \<equiv> run kernel_tr (boot_call_kmain kmain halt) z"
  assumes disj: "area b 24 \<inter> area dir 4 = {}" and z: "cdecl_return kernel_tr s2 z" "\<forall>k\<in>{8, 12, 16}. ld kernel_tr z (k + b) = ld kernel_tr s2 (k + b)"
  shows "sum_list multiboot_header = 0 \<and>
    pse_translate (kernel_page_dir dir) a =
      (if a < 0x400000 then Some a else if KERNEL_BASE \<le> a \<and> a < KERNEL_BASE + 0x400000 then Some (a - KERNEL_BASE) else None) \<and>
    pse_translate ((kernel_page_dir dir)[0 := 0]) a = (if KERNEL_BASE \<le> a \<and> a < KERNEL_BASE + 0x400000 then Some (a - KERNEL_BASE) else None) \<and>
    ip s1 = hh \<and> cr3 s1 = dir - KERNEL_BASE \<and> cr4 s1 = cr4 s OR 0x610 \<and> cr0 s1 = (cr0 s AND 0xFFFB) OR 0x80000002 \<and>
    ip s2 = init \<and> ld kernel_tr s2 dir = 0 \<and> ip z = ret \<and>
    ip s3 = kmain \<and> rg s3 ESP = kstack_top - 8 \<and> ld kernel_tr s3 (kstack_top - 8) = halt \<and> ld kernel_tr s3 (kstack_top - 4) = rg s EBX + KERNEL_BASE \<and>
    rg s3 EDI = rg s EDI \<and> rg s3 ESI = rg s ESI"
proof -
  have top: "kstack_top = 20 + b" by (simp add: b_def)
  have s1: "ip s1 = hh" "cr3 s1 = dir - KERNEL_BASE" "cr4 s1 = cr4 s OR 0x610" "cr0 s1 = (cr0 s AND 0xFFFB) OR 0x80000002"
    "rg s1 = (rg s)(EDX := hh)" using start_run [of kernel_tr dir hh s] unfolding s1_def by (simp_all add: boot_start_def x86)
  have s2: "ip s2 = init" "rg s2 ESP = 4 + b" "ld kernel_tr s2 (4 + b) = ret" "ld kernel_tr s2 (8 + b) = rg s EDI" "ld kernel_tr s2 (12 + b) = rg s ESI"
      "ld kernel_tr s2 (16 + b) = rg s EBX + KERNEL_BASE" "ld kernel_tr s2 dir = 0"
    using higherhalf_run [OF disj, of s2 init ret s1] s1(5) by (simp_all add: s2_def top)
  have zz: "ip z = ret" "rg z ESP = 8 + b" "ld kernel_tr z (8 + b) = rg s EDI" "ld kernel_tr z (12 + b) = rg s ESI" "ld kernel_tr z (16 + b) = rg s EBX + KERNEL_BASE"
    using z s2 by (simp_all add: cdecl_return_def)
  have c: "in_area UNIV x" for x by (simp add: in_area_def)
  note l = boot_map.ld_st_same [where A = UNIV, OF _ c] boot_map.ld_st_apart [where A = UNIV, OF _ c c]
  have s3: "ip s3 = kmain" "rg s3 ESP = 12 + b" "ld kernel_tr s3 (12 + b) = halt" "ld kernel_tr s3 (16 + b) = rg s EBX + KERNEL_BASE"
      "rg s3 EDI = rg s EDI" "rg s3 ESI = rg s ESI"
    unfolding s3_def using zz by (simp_all add: boot_call_kmain_def x86 l)
  have m: "sum_list multiboot_header = 0" by (simp add: multiboot_header_def CHECKSUM_def)
  show ?thesis using m s1 s2 zz s3 boot_translate [of dir a 0] by (simp add: top kernel_tr_def)
qed

theorem boot_enters_kernel_witness:
  "\<exists>s3. ip s3 = 0xC0100200 \<and> rg s3 ESP = 0xC0103FF8 \<and> ld kernel_tr s3 0xC0103FFC = 0xC0002000 \<and>
     s3 = run kernel_tr (boot_call_kmain 0xC0100200 0xC0100100) (run kernel_tr (init_prologue @ init_epilogue)
       (run kernel_tr (boot_higherhalf 0xC0101000 0xC0104000 0xC0100300 0xC01000F0) (run kernel_tr (boot_start 0xC0101000 0xC0100050) example_x86)))"
proof -
  let ?s2 = "run kernel_tr (boot_higherhalf 0xC0101000 0xC0104000 0xC0100300 0xC01000F0) (run kernel_tr (boot_start 0xC0101000 0xC0100050) example_x86)"
  let ?z = "run kernel_tr (init_prologue @ init_epilogue) ?s2"
  have d: "area (0xC0104000 - 20) 24 \<inter> area 0xC0101000 4 = {}" by (subst Int_commute, rule area_disjoint) simp_all
  have sp: "rg ?s2 ESP = 0xC0103FF0" by (simp add: boot_start_def boot_higherhalf_def x86)
  have z: "cdecl_return kernel_tr ?s2 ?z" "\<forall>k\<in>{8, 12, 16}. ld kernel_tr ?z (k + (0xC0104000 - 20)) = ld kernel_tr ?s2 (k + (0xC0104000 - 20))"
    by (rule empty_init) (auto intro!: empty_init(2) simp: sp apart_def)
  show ?thesis
    using boot_enters_kernel [where kmain = "0xC0100200" and halt = "0xC0100100", OF d z]
    by (simp add: KERNEL_BASE_def) (simp add: example_x86_def)
qed

end
