(* ===== verification/SysEntry.thy ===== *)
theory SysEntry
  imports Entry Syscall
begin

text \<open>
  The entry code of system calls, theory \<open>Entry\<close>, against the dispatch of theory \<open>Syscall\<close>: what the instructions do for each value of
  \<open>syscall_jump\<close>.
\<close>

section \<open>What the kernel tells the processor at its start\<close>

text \<open>\<open>tss_entry_struct\<close> and \<open>process::init\<close> up to the loading of the task register. The processor takes stack and stack segment of an interrupt from user mode from \<open>esp0\<close>
  and \<open>ss0\<close>; these are the arguments of \<^const>\<open>interrupt\<close>.\<close>

record tss_entry_struct =
  prev_tss :: u32  esp0 :: u32  ss0 :: u32  esp1 :: u32  ss1 :: u32  esp2 :: u32  ss2 :: u32  tss_cr3 :: u32  tss_eip :: u32  tss_eflags :: u32
  tss_eax :: u32  tss_ecx :: u32  tss_edx :: u32  tss_ebx :: u32  tss_esp :: u32  tss_ebp :: u32  tss_esi :: u32  tss_edi :: u32
  tss_es :: u32  tss_cs :: u32  tss_ss :: u32  tss_ds :: u32  tss_fs :: u32  tss_gs :: u32  ldt :: u32  trap :: u16  iomap_base :: u16

definition fill_tss :: "u32 \<Rightarrow> tss_entry_struct \<Rightarrow> tss_entry_struct" where
  "fill_tss irq_stack_top t =
     t\<lparr>ss0 := KERNEL_DATA_SEG, tss_cs := KERNEL_CODE_SEG OR 3, tss_ss := KERNEL_DATA_SEG OR 3, tss_ds := KERNEL_DATA_SEG OR 3, tss_es := KERNEL_DATA_SEG OR 3,
       tss_fs := KERNEL_DATA_SEG OR 3, tss_gs := KERNEL_DATA_SEG OR 3, esp0 := irq_stack_top\<rparr>"

definition process_init_msrs :: "(u32 \<times> u32) list" where
  "process_init_msrs = [(0x175, KERNEL_STACK_TOP)]"

definition wrmsr :: "u32 \<Rightarrow> u32 \<Rightarrow> x86 \<Rightarrow> x86" where
  "wrmsr reg val s = s\<lparr>msr := (msr s)(reg := val)\<rparr>"

text \<open>After \<open>syscall::init\<close> and \<open>process::init\<close>, in the order of \<open>kmain\<close>, a \<open>sysenter\<close> leads to the entry code on the kernel stack.\<close>

lemma start_sets_sysenter:
  "sysenter_set entry (fold (\<lambda>(reg, val). wrmsr reg val) (syscall_init KERNEL_CODE_SEG entry @ process_init_msrs) s)"
  by (simp add: sysenter_set_def syscall_init_def process_init_msrs_def wrmsr_def MSR_CS_def MSR_ESP_def MSR_EIP_def)

lemma interrupt_stack_segment: "ucast (ss0 (fill_tss irq_stack_top t)) = (0x10 :: u16)"
  by (simp add: fill_tss_def KERNEL_DATA_SEG_def)

section \<open>The entry code and the dispatch\<close>

text \<open>The arguments of a function of the table on the stack, behind its return address.\<close>

definition stack_args :: "mem \<Rightarrow> u32 \<Rightarrow> args" where
  "stack_args m b = \<lparr>arg1 = ld32 m (4 + b), arg2 = ld32 m (8 + b), arg3 = ld32 m (12 + b), arg4 = ld32 m (16 + b)\<rparr>"

text \<open>A process is back behind its \<open>sysenter\<close> with the value \<open>x\<close>.\<close>

definition back_in_user :: "u32 \<Rightarrow> u32 \<Rightarrow> x86 \<Rightarrow> x86 \<Rightarrow> bool" where
  "back_in_user x cont s y \<longleftrightarrow> ip y = cont \<and> rg y EAX = x \<and> (\<forall>q\<in>{ESP, ESI, EDI}. rg y q = rg s q) \<and> user_mode y \<and> bit (fl y) 9 \<and> cr3 y = cr3 s"

lemma jump_signed: "11 \<le> sint n \<longleftrightarrow> syscall_jump n = No_call"
  by (simp add: syscall_jump_def SYSCALL_COUNT_def)

text \<open>C18: the code between a process and the functions of the kernel implements the dispatch. After \<open>sysenter\<close> the kernel runs on the kernel stack of the
  process. When the number is refused the process is back behind its \<open>sysenter\<close> with the value -88. Else the function whose address is in the table at that number
  is called with kernel segments and the four arguments of the registers, and when it returns as the calling convention says, with any value, the process is
  back with that value, its stack pointer and its registers \<open>esi\<close> and \<open>edi\<close>, in user mode with interrupts on.\<close>

theorem syscall_round_trip:
  fixes s :: x86 and tr :: translation and cont "entry" table enosys ret :: u32
  defines "b \<equiv> KERNEL_STACK_TOP - 20" and "w \<equiv> 4 * rg s EAX + table" and "u \<equiv> run tr (SYSENTER_ASM cont) s"
  defines "v \<equiv> run tr (entry_code table enosys ret) u"
  assumes user: "user_mode s" and msrs: "sysenter_set entry s"
    and inj: "inj_on (tr (cr3 s)) (area b 20 \<union> area w 4)" and disj: "area b 20 \<inter> area w 4 = {}"
  shows "ip u = entry \<and> rg u ESP = KERNEL_STACK_TOP \<and>
    (if syscall_jump (rg s EAX) = No_call then ip v = enosys \<and> back_in_user (- 88) cont s (run tr entry_enosys v)
     else ip v = ld tr s w \<and> kernel_mode v \<and> stack_args (vw tr v) (rg v ESP) = \<lparr>arg1 = rg s EDI, arg2 = rg s ESI, arg3 = rg s EDX, arg4 = rg s ECX\<rparr> \<and>
       (\<forall>z. cdecl_return tr v z \<longrightarrow> ip z = ret \<and> back_in_user (rg z EAX) cont s (run tr entry_ret z)))"
proof -
  have u: "ip u = entry" "rg u = (rg s)(EBP := rg s ESP, EBX := cont, ESP := KERNEL_STACK_TOP)" "sg u = (sg s)(CS := 0x08, SS := 0x10)" "cr3 u = cr3 s"
    "ram u = ram s" "msr u = msr s"
    using sysenter_run [OF msrs, of u tr cont] by (simp_all add: u_def)
  show ?thesis
  proof (cases "syscall_jump (rg s EAX) = No_call")
    case True
    then have v: "v = u\<lparr>fl := sub_flags (rg u EAX) 11 (fl u), ip := enosys\<rparr>" unfolding v_def using u by (intro entry_refused) (simp add: jump_signed)
    have "sysenter_set entry v" using msrs u v by (simp add: sysenter_set_def)
    from enosys_run [OF this refl, of tr] have "back_in_user (- 88) cont s (run tr entry_enosys v)"
      using user u v by (simp add: back_in_user_def user_mode_def all_segs F_IF_def bit_simps)
    then show ?thesis using True u v by simp
  next
    case False
    then have "sint (rg u EAX) < 11" using u jump_signed [of "rg s EAX"] by simp
    moreover have "w = 4 * rg u EAX + table" "rg u ESP = 20 + b" using u by (simp_all add: w_def b_def)
    ultimately have v: "ip v = ld tr u w" "rg v ESP = b" "ld tr v b = ret" "ld tr v (4 + b) = rg u EDI" "ld tr v (8 + b) = rg u ESI"
        "ld tr v (12 + b) = rg u EDX" "ld tr v (16 + b) = rg u ECX" "\<forall>q. q \<noteq> ESP \<and> q \<noteq> ECX \<longrightarrow> rg v q = rg u q"
        "sg v = (sg u)(DS := 0x10, ES := 0x10, FS := 0x10, GS := 0x10)" "cr3 v = cr3 s" "msr v = msr u"
      using mapped.entry_run [OF mapped.intro [of tr "cr3 s", OF inj] refl disj _ _ u(4) _ v_def [THEN meta_eq_to_obj_eq]] by simp_all
    have k: "kernel_mode v" using v(9) u(3) by (simp add: kernel_mode_def all_segs)
    have "ip z = ret \<and> back_in_user (rg z EAX) cont s (run tr entry_ret z)" if z: "cdecl_return tr v z" for z
    proof -
      have "sysenter_set entry z" "kernel_mode z" using z msrs k u v by (simp_all add: cdecl_return_def sysenter_set_def kernel_mode_def)
      from ret_run [OF this(1) refl this(2), of tr] show ?thesis using z u v by (simp add: back_in_user_def cdecl_return_def)
    qed
    moreover have "ld tr u w = ld tr s w" using u by (simp add: ld_def vw_def)
    ultimately show ?thesis using False u v k by (simp add: stack_args_def ld_def)
  qed
qed

theorem syscall_round_trip_witness:
  "\<exists>s v. user_mode s \<and> rg s EAX = 5 \<and> v = run (\<lambda>c a. a) (entry_code 0xC0120000 0xC0110040 0xC0110080) (run (\<lambda>c a. a) (SYSENTER_ASM 0x08048100) s) \<and>
     ip v = 0x17161514 \<and> arg1 (stack_args (vw (\<lambda>c a. a) v) (rg v ESP)) = 5 \<and>
     back_in_user 7 0x08048100 s (run (\<lambda>c a. a) entry_ret (step (\<lambda>c a. a) RET (set_rg EAX 7 v)))"
proof -
  define s0 where "s0 = fold (\<lambda>(reg, val). wrmsr reg val) (syscall_init KERNEL_CODE_SEG 0xC0110000 @ process_init_msrs) (example_user\<lparr>rg := (\<lambda>q. 5)\<rparr>)"
  let ?tr = "\<lambda>(c :: u32) (a :: u32). a"
  let ?v = "run ?tr (entry_code 0xC0120000 0xC0110040 0xC0110080) (run ?tr (SYSENTER_ASM 0x08048100) s0)"
  have s: "rg s0 = (\<lambda>q. 5)" "sg s0 = sg example_user" "cr3 s0 = cr3 example_user" "ram s0 = ram example_user" by (simp_all add: s0_def syscall_init_def process_init_msrs_def wrmsr_def)
  have m: "user_mode s0" "sysenter_set 0xC0110000 s0" using s(2) by (simp_all add: user_mode_def example_user_def s0_def start_sets_sysenter del: fold_append)
  have d: "area (KERNEL_STACK_TOP - 20) 20 \<inter> area (4 * rg s0 EAX + 0xC0120000) 4 = {}"
    by (subst Int_commute, rule area_disjoint) (simp_all add: KERNEL_STACK_TOP_def s)
  have i: "inj_on (?tr (cr3 s0)) X" for X by (simp add: inj_on_def)
  have j: "syscall_jump 5 \<noteq> No_call" by (simp add: syscall_jump_def SYSCALL_COUNT_def syscall_table_def)
  have w: "ld ?tr s0 0xC0120014 = 0x17161514" by (simp add: s ld_def vw_def) (simp add: example_user_def example_x86_def ld32_def)
  note r = syscall_round_trip [where s = s0 and tr = ?tr and cont = "0x08048100" and table = "0xC0120000" and enosys = "0xC0110040" and ret = "0xC0110080", OF m i d]
  define z where "z = step ?tr RET (set_rg EAX 7 ?v)"
  have c: "cdecl_return ?tr ?v z" "rg z EAX = 7" by (simp_all add: z_def cdecl_return_def x86)
  have "ip ?v = 0x17161514" using r j w s(1) by simp
  moreover have "arg1 (stack_args (vw ?tr ?v) (rg ?v ESP)) = 5" using r j s(1) by simp
  moreover have "back_in_user 7 0x08048100 s0 (run ?tr entry_ret z)" using r j c s(1) by fastforce
  ultimately show ?thesis using m s(1) by (intro exI [of _ s0] exI [of _ ?v]) (simp add: z_def)
qed

end
