(* ===== verification/Preempt.thy ===== *)
theory Preempt
  imports Entry Sched
begin

text \<open>
  Preemption: the timer interrupt of theory \<open>Stubs\<close>, the registers that the scheduler of theory \<open>Sched\<close> keeps of the process it takes the processor from,
  and the switch of theory \<open>Switch\<close> that gives it back.
\<close>

text \<open>The members of \<open>isr::registers\<close> that \<open>schedule\<close> copies.\<close>

definition isr_of :: "registers \<Rightarrow> isr_regs" where
  "isr_of r =
     \<lparr>iregs = \<lparr>eflags = r_eflags r, eip = r_eip r, edi = r_edi r, esi = r_esi r, ebp = r_ebp r, esp = r_esp r, ebx = r_ebx r, edx = r_edx r, ecx = r_ecx r,
       eax = r_eax r\<rparr>, ics = r_cs r\<rparr>"

lemma put_back_saves:
  assumes "put_back c delta (Some regs) k = Some k'"
  shows "\<exists>w. procs k' c = Some w \<and> gregs (pstate w) = iregs regs \<and> (user w \<longleftrightarrow> ics regs AND 3 \<noteq> 0)"
proof -
  obtain v k1 k2 where v: "procs k c = Some v"
    and k2: "modify c (\<lambda>w. save_fpu (cpu_fpu k) (save_regs (Some regs) (w\<lparr>vruntime := vruntime w + delta\<rparr>))) k1 = Some k2"
    and k': "(if cur_queue v = RUN_QUEUE then Option.bind (modify c (\<lambda>w. w\<lparr>status := READY\<rparr>) k2) (run_insert c) else Some k2) = Some k'"
    using assms by (auto simp: put_back_def deref_def split: Option.bind_splits)
  obtain w where w: "procs k2 c = Some w" "gregs (pstate w) = iregs regs" "user w \<longleftrightarrow> ics regs AND 3 \<noteq> 0"
    using k2 by (auto simp: modify_def save_fpu_def save_regs_def)
  show ?thesis
  proof (cases "cur_queue v = RUN_QUEUE")
    case True
    then show ?thesis using k' w by (auto simp: modify_def run_insert_def split: Option.bind_splits)
  next
    case False
    then show ?thesis using k' w by simp
  qed
qed

lemma describes_state: "describes r s \<Longrightarrow> of_state (iregs (isr_of r)) = rg s \<and> eip (iregs (isr_of r)) = ip s \<and> eflags (iregs (isr_of r)) = fl s \<and> (ics (isr_of r) AND 3 \<noteq> 0 \<longleftrightarrow> cpl s \<noteq> 0)"
  by (simp add: describes_def isr_of_def of_state_def all_regs ucast_low2)

lemma irq_describes:
  assumes inj: "inj_on (tr (cr3 s)) (area b 64)" and m: "cpl s = 0 \<and> rg s ESP = 56 + b \<or> cpl s = 3 \<and> stk = 64 + b" and flags: "flags_ok (fl s)" and i: "unat i \<le> 16"
  shows "describes (correct_esp (read_registers (vw tr (run tr (irq_entry i handler ret) (interrupt tr 0x10 stk 0x08 g None s))) (4 + b))) s"
proof -
  have code: "irq_entry i handler ret = [PUSHI 0] @ [PUSHI (i + 32)] @ SET_KERNEL_STATE @ [CALL handler ret]"
    using irq_entry_isr [OF i] by (simp add: isr_entry_split)
  show ?thesis
    using handler.transparent [OF inj m flags _ _ _ arg_cong [OF code, of "\<lambda>x. run tr x (interrupt tr 0x10 stk 0x08 g None s)"] refl] by simp
qed

text \<open>C16: a process is interrupted by a hardware interrupt, in user mode or in the kernel, and the scheduler takes the processor from it and keeps the registers of the interrupt.
  Whenever, and in whatever state of the machine, the switch routine for the mode that the scheduler noted is later given the kept registers, the process
  goes on where it was interrupted: with all its general registers and its flags (in the kernel all that \<open>popf\<close> can load), in the page directory it is given, and in user
  mode with user segments.\<close>

theorem preempted_resumes:
  fixes s t :: x86 and tr :: translation and i e0 stk g handler ret :: u32 and k k' :: kern
  defines "b \<equiv> if cpl s = 0 then rg s ESP - 56 else stk - 64"
  defines "r \<equiv> correct_esp (read_registers (vw tr (run tr (irq_entry i handler ret) (interrupt tr 0x10 stk 0x08 g None s))) (4 + b))"
  defines "e \<equiv> rg t ESP" and "d \<equiv> ld tr t (4 + rg t ESP)" and "n \<equiv> rg s ESP"
  assumes i: "unat i \<le> 16" and mode: "cpl s \<in> {0, 3}" and flags: "flags_ok (fl s)" and inj: "inj_on (tr (cr3 s)) (area b 64)"
    and sched: "put_back c delta (Some (isr_of r)) k = Some k'" "procs k' c = Some w"
    and copy: "read_state (vw tr t) (8 + e) = gregs (pstate w)"
    and stack: "cpl t = 0" "inj_on (tr (cr3 t)) (area e 48)" "shared_area tr (cr3 t) d (area e 48)"
    and room: "cpl s = 0 \<longrightarrow> inj_on (tr d) (area e 48 \<union> area (n - 8) 8) \<and> area e 48 \<inter> area (n - 8) 8 = {}"
  shows "(user w \<longleftrightarrow> cpl s = 3) \<and>
    (\<exists>t'. t' = run tr (if user w then switch_proc_user else switch_proc) t \<and> rg t' = rg s \<and> ip t' = ip s \<and> cr3 t' = d \<and>
       (if user w then fl t' = fl s \<and> user_mode t' else fl t' AND F_POP = fl s AND F_POP \<and> sg t' = sg t))"
proof -
  have m: "cpl s = 0 \<and> rg s ESP = 56 + b \<or> cpl s = 3 \<and> stk = 64 + b" using mode by (auto simp: b_def)
  have "describes r s" unfolding r_def by (rule irq_describes [where tr = tr, OF inj m flags i])
  note r = describes_state [OF this]
  have w: "gregs (pstate w) = iregs (isr_of r)" "user w \<longleftrightarrow> cpl s \<noteq> 0" using put_back_saves [OF sched(1)] sched(2) r by auto
  show ?thesis
  proof (cases "cpl s = 0")
    case True
    have "esp (iregs (isr_of r)) = n" using r by (simp add: n_def of_state_def all_regs)
    moreover have "esp (read_state (vw tr t) (8 + e)) = ld tr t (28 + rg t ESP)" by (simp add: read_state_def ld_def e_def)
    ultimately have n: "n = ld tr t (28 + rg t ESP)" using copy w(1) by simp
    have a: "inj_on (tr d) (area e 48 \<union> area (n - 8) 8)" "area e 48 \<inter> area (n - 8) 8 = {}" using room True by simp_all
    from mapped.switch_proc_run [OF mapped.intro [of tr d, OF a(1)] refl a(2) _ n _ stack(3) refl refl]
    show ?thesis using True w r copy by (simp add: e_def d_def)
  next
    case False
    from mapped.switch_proc_user_run [OF mapped.intro [of tr "cr3 t", OF stack(2)] _ refl stack(1) _ refl refl]
    show ?thesis using False mode w r copy stack(3) iret_flags_ok [OF flags] by (simp add: e_def d_def user_mode_def)
  qed
qed

definition example_switch :: x86 where
  "example_switch = example_x86\<lparr>rg := (\<lambda>q. 0x4000),
     ram := (\<lambda>a. let j = unat (a - 0x4008); v = (if j < 4 then 0x202 else if j < 8 then 0x08048000 else 0x2000) :: u32 in ucast (drop_bit (8 * (j mod 4)) v))\<rparr>"

theorem preempted_resumes_witness:
  "rg (run (\<lambda>c a. a) switch_proc_user example_switch) = (\<lambda>q. 0x2000) \<and> ip (run (\<lambda>c a. a) switch_proc_user example_switch) = 0x08048000 \<and>
   fl (run (\<lambda>c a. a) switch_proc_user example_switch) = 0x202"
proof -
  let ?tr = "\<lambda>(c :: u32) (a :: u32). a"
  let ?r = "correct_esp (read_registers (vw ?tr (run ?tr (irq_entry 0 0xC0100000 0xC0100100) (interrupt ?tr 0x10 0x9000 0x08 0xC0100080 None example_user)))
      (4 + (if cpl example_user = 0 then rg example_user ESP - 56 else 0x9000 - 64)))"
  let ?k = "example_kern [1 \<mapsto> example_proc 7]"
  define w where "w = save_fpu (cpu_fpu ?k) (save_regs (Some (isr_of ?r)) ((example_proc 7)\<lparr>vruntime := 3\<rparr>))"
  have u: "cpl example_user = 3" "fl example_user = 0x202" "rg example_user = (\<lambda>q. 0x2000)" "ip example_user = 0x08048000"
    by (simp_all add: example_user_def example_x86_def cpl_def)
  have f: "flags_ok (fl example_user)" by (simp add: u flags_ok_def F_IRET_def)
  have q: "cur_queue (example_proc 7) = NO_QUEUE" "vruntime (example_proc 7) = 0" "\<not> fpu_used (pstate (example_proc 7))" by (simp_all add: example_proc_def)
  have s: "put_back 1 3 (Some (isr_of ?r)) ?k = Some (?k\<lparr>procs := [1 \<mapsto> w]\<rparr>)" "procs (?k\<lparr>procs := [1 \<mapsto> w]\<rparr>) 1 = Some w"
    by (simp_all add: put_back_def deref_def modify_def q example_kern_def w_def)
  have i: "inj_on (?tr c) X" for c X by (simp add: inj_on_def)
  have "describes ?r example_user" by (rule irq_describes [where tr = ?tr, OF i _ f]) (simp_all add: u)
  then have g: "gregs (pstate w) = \<lparr>eflags = 0x202, eip = 0x08048000, edi = 0x2000, esi = 0x2000, ebp = 0x2000, esp = 0x2000, ebx = 0x2000, edx = 0x2000, ecx = 0x2000, eax = 0x2000\<rparr>"
    and us: "user w" using u by (simp_all add: w_def save_fpu_def save_regs_def q isr_of_def describes_def example_user_def)
  have c: "read_state (vw ?tr example_switch) (8 + rg example_switch ESP) = gregs (pstate w)"
    unfolding g by (simp add: example_switch_def read_state_def vw_def ld32_def Let_def)
  have sh: "shared_area ?tr c d X" for c d X by (simp add: shared_area_def)
  have "cpl example_switch = 0" by (simp add: example_switch_def example_x86_def cpl_def)
  then show ?thesis
    using preempted_resumes [where s = example_user and t = example_switch and tr = ?tr and stk = "0x9000" and g = "0xC0100080" and handler = "0xC0100000" and ret = "0xC0100100" and i = 0
      and c = 1 and delta = 3 and k = ?k and w = w, OF _ _ f i s c _ i sh] u us by simp
qed

end
