(* ===== verification/Family.thy ===== *)
theory Family
  imports Sched
begin

text \<open>
  The children of a process, \<open>proc::remove\<close> and \<open>proc::get_child_pid\<close> of \<open>kernel/include/proc.h\<close> and their use in \<open>clone\<close> and \<open>waitpid\<close>
  of \<open>kernel/proc/proc.cpp\<close>: the pointers \<open>last_child\<close>, \<open>next_sibling\<close> and \<open>prev_sibling\<close> hold a list of processes.
\<close>

section \<open>The list of children\<close>

text \<open>From \<open>cu\<close> on, with \<open>prv\<close> before it, the pointers run through \<open>xs\<close>, all of them children of \<open>q\<close>, and then to \<open>nx\<close>.\<close>

fun siblings :: "kern \<Rightarrow> nat \<Rightarrow> nat option \<Rightarrow> nat option \<Rightarrow> nat list \<Rightarrow> nat option \<Rightarrow> bool" where
  "siblings k q prv cu [] nx \<longleftrightarrow> cu = nx"
| "siblings k q prv cu (x # xs) nx \<longleftrightarrow> cu = Some x \<and>
     (case procs k x of None \<Rightarrow> False
      | Some v \<Rightarrow> pparent v = Some q \<and> prev_sibling v = prv \<and> siblings k q (Some x) (next_sibling v) xs nx)"

definition family :: "kern \<Rightarrow> nat \<Rightarrow> nat list \<Rightarrow> bool" where
  "family k q xs \<longleftrightarrow> (case procs k q of None \<Rightarrow> False | Some v \<Rightarrow> siblings k q None (last_child v) xs None) \<and> distinct (q # xs)"

definition sib_links :: "proc \<Rightarrow> nat option \<times> nat option \<times> nat option" where
  "sib_links v = (pparent v, prev_sibling v, next_sibling v)"

lemma siblings_cong:
  "(\<And>x. x \<in> set xs \<Longrightarrow> map_option sib_links (procs k' x) = map_option sib_links (procs k x)) \<Longrightarrow> siblings k' q prv cu xs nx = siblings k q prv cu xs nx"
proof (induction xs arbitrary: prv cu)
  case (Cons x xs)
  have "map_option sib_links (procs k' x) = map_option sib_links (procs k x)" using Cons.prems by simp
  then show ?case using Cons by (cases "procs k x"; cases "procs k' x") (auto simp: sib_links_def)
qed simp

lemma siblings_append:
  "siblings k q prv cu (xs @ ys) nx \<longleftrightarrow> (\<exists>m. siblings k q prv cu xs m \<and> siblings k q (if xs = [] then prv else Some (last xs)) m ys nx)"
proof (induction xs arbitrary: prv cu)
  case (Cons x xs)
  then show ?case by (cases "procs k x") auto
qed simp

lemma siblings_alive: "siblings k q prv cu xs nx \<Longrightarrow> x \<in> set xs \<Longrightarrow> \<exists>v. procs k x = Some v \<and> pparent v = Some q"
proof (induction xs arbitrary: prv cu)
  case (Cons y ys)
  then show ?case by (cases "procs k y") auto
qed simp

text \<open>The loops over the children stop, at the first one that they look for.\<close>

lemma find_sibling_list:
  "siblings k q prv cu xs None \<Longrightarrow> find_sibling P k cu = Some (List.find (\<lambda>x. P (the (procs k x))) xs)"
proof (induction xs arbitrary: prv cu)
  case Nil
  then show ?case by (subst find_sibling.simps) simp
next
  case (Cons x xs)
  then obtain v where "cu = Some x" "procs k x = Some v" "siblings k q (Some x) (next_sibling v) xs None" by (cases "procs k x") auto
  then show ?case using Cons.IH by (subst find_sibling.simps) (simp add: deref_def)
qed

section \<open>Linking and removing\<close>

text \<open>Everything of a process but its place in the tree.\<close>

definition body :: "proc \<Rightarrow> proc" where
  "body v = v\<lparr>last_child := None, next_sibling := None, prev_sibling := None\<rparr>"

lemma family_links:
  "(\<And>x. map_option (\<lambda>w. (sib_links w, last_child w)) (procs k' x) = map_option (\<lambda>w. (sib_links w, last_child w)) (procs k x)) \<Longrightarrow> family k' q xs = family k q xs"
proof -
  assume h: "\<And>x. map_option (\<lambda>w. (sib_links w, last_child w)) (procs k' x) = map_option (\<lambda>w. (sib_links w, last_child w)) (procs k x)"
  have "map_option sib_links (procs k' x) = map_option sib_links (procs k x)" "map_option last_child (procs k' x) = map_option last_child (procs k x)" for x
    using h [of x] by (cases "procs k x"; cases "procs k' x"; simp)+
  moreover from this have "siblings k' q None l0 xs None = siblings k q None l0 xs None" for l0 by (intro siblings_cong)
  ultimately show ?thesis by (cases "procs k q"; cases "procs k' q") (auto simp: family_def dest: spec [of _ q], (metis map_option_eq_Some option.distinct(1) option.inject)+)
qed

lemma link_child_family:
  assumes f: "family k q xs" and a: "procs k a = Some w" "prev_sibling w = None" "a \<noteq> q" "a \<notin> set xs"
  shows "\<exists>k'. link_child a q k = Some k' \<and> family k' q (a # xs) \<and> k'\<lparr>procs := procs k\<rparr> = k \<and>
    map_option body (procs k' a) = Some (body (w\<lparr>pparent := Some q\<rparr>)) \<and> (\<forall>p. p \<noteq> a \<longrightarrow> map_option body (procs k' p) = map_option body (procs k p))"
proof -
  obtain v where v: "procs k q = Some v" "siblings k q None (last_child v) xs None" "distinct (q # xs)" using f by (auto simp: family_def split: option.splits)
  let ?w = "w\<lparr>pparent := Some q, next_sibling := last_child v\<rparr>"
  show ?thesis
  proof (cases xs)
    case Nil
    then have "last_child v = None" using v by simp
    then show ?thesis using a v Nil by (auto simp: link_child_def deref_def modify_def opt_modify_def family_def body_def)
  next
    case (Cons x ys)
    then obtain u where u: "last_child v = Some x" "procs k x = Some u" "pparent u = Some q" "siblings k q (Some x) (next_sibling u) ys None"
      using v by (auto split: option.splits)
    let ?k = "k\<lparr>procs := (procs k)(a \<mapsto> ?w, x \<mapsto> u\<lparr>prev_sibling := Some a\<rparr>, q \<mapsto> v\<lparr>last_child := Some a\<rparr>)\<rparr>"
    have n: "x \<noteq> a" "x \<noteq> q" "x \<notin> set ys" "q \<notin> set ys" "a \<notin> set ys" "distinct ys" using v(3) a Cons by auto
    have "siblings ?k q (Some x) (next_sibling u) ys None = siblings k q (Some x) (next_sibling u) ys None"
      using n by (intro siblings_cong) auto
    then have "family ?k q (a # xs)" using u v a n Cons by (simp add: family_def)
    moreover have "link_child a q k = Some ?k" using u(1,2) v(1) a n by (simp add: link_child_def deref_def modify_def opt_modify_def)
    ultimately show ?thesis using u(2) v(1) n a(3) by (intro exI [of _ ?k]) (auto simp: body_def)
  qed
qed

lemma modify_procs: "procs k x = Some v \<Longrightarrow> modify x f k = Some (k\<lparr>procs := (procs k)(x \<mapsto> f v)\<rparr>)"
  by (simp add: modify_def)

lemma retarget_prev:
  assumes "siblings k q p na zs None" "distinct zs"
  shows "\<exists>k1. opt_modify na (\<lambda>w. w\<lparr>prev_sibling := pa\<rparr>) k = Some k1 \<and> siblings k1 q pa na zs None \<and>
    (\<exists>g. k1 = k\<lparr>procs := (\<lambda>x. if x \<in> set zs then map_option (\<lambda>w. w\<lparr>prev_sibling := g x (prev_sibling w)\<rparr>) (procs k x) else procs k x)\<rparr>)"
proof (cases zs)
  case Nil
  then show ?thesis using assms by (simp add: opt_modify_def)
next
  case (Cons z zs')
  then obtain u where u: "na = Some z" "procs k z = Some u" "pparent u = Some q" "siblings k q (Some z) (next_sibling u) zs' None"
    using assms(1) by (auto split: option.splits)
  let ?k = "k\<lparr>procs := (procs k)(z \<mapsto> u\<lparr>prev_sibling := pa\<rparr>)\<rparr>"
  have "siblings ?k q (Some z) (next_sibling u) zs' None" using u(4) assms(2) Cons by (subst siblings_cong [of _ _ k]) auto
  then have "siblings ?k q pa na zs None" using u Cons by simp
  moreover have "procs ?k = (\<lambda>x. if x \<in> set zs then map_option (\<lambda>w. w\<lparr>prev_sibling := (if x = z then pa else prev_sibling w)\<rparr>) (procs k x) else procs k x)"
    using u(2) Cons by (auto simp: fun_eq_iff option.map_ident)
  ultimately show ?thesis using u(1,2) by (intro exI [of _ ?k] conjI exI [of _ "\<lambda>x y. if x = z then pa else y"]) (simp_all add: opt_modify_def modify_procs)
qed

lemma retarget_next:
  assumes "siblings k q p l0 (ys @ [y]) nx" "y \<notin> set ys"
  shows "\<exists>u. procs k y = Some u \<and> siblings (k\<lparr>procs := (procs k)(y \<mapsto> u\<lparr>next_sibling := na\<rparr>)\<rparr>) q p l0 (ys @ [y]) na"
proof -
  obtain m where m: "siblings k q p l0 ys m" "siblings k q (if ys = [] then p else Some (last ys)) m [y] nx"
    using assms(1) unfolding siblings_append by blast
  then obtain u where u: "procs k y = Some u" "m = Some y" "pparent u = Some q" "prev_sibling u = (if ys = [] then p else Some (last ys))"
    by (auto split: option.splits)
  let ?k = "k\<lparr>procs := (procs k)(y \<mapsto> u\<lparr>next_sibling := na\<rparr>)\<rparr>"
  have "siblings ?k q p l0 ys m" using m(1) assms(2) by (subst siblings_cong [of _ _ k]) auto
  then show ?thesis using u by (intro exI [of _ u]) (auto simp: siblings_append)
qed

lemma proc_remove_family:
  assumes f: "family k q (ys @ a # zs)"
  shows "\<exists>k'. proc_remove a k = Some k' \<and> family k' q (ys @ zs) \<and> k'\<lparr>procs := procs k\<rparr> = k \<and> (\<forall>p. map_option body (procs k' p) = map_option body (procs k p))"
proof -
  obtain v where v: "procs k q = Some v" "siblings k q None (last_child v) (ys @ a # zs) None" and dist: "distinct (q # ys @ a # zs)"
    using f by (auto simp: family_def split: option.splits)
  define pa where "pa = (if ys = [] then None else Some (last ys))"
  obtain u where ys: "siblings k q None (last_child v) ys (Some a)" and u: "procs k a = Some u" "pparent u = Some q" "prev_sibling u = pa"
    and zs: "siblings k q (Some a) (next_sibling u) zs None"
    using v(2) unfolding siblings_append pa_def by (auto split: option.splits)
  obtain k1 g where k1: "opt_modify (next_sibling u) (\<lambda>w. w\<lparr>prev_sibling := pa\<rparr>) k = Some k1" "siblings k1 q pa (next_sibling u) zs None"
    "k1 = k\<lparr>procs := (\<lambda>x. if x \<in> set zs then map_option (\<lambda>w. w\<lparr>prev_sibling := g x (prev_sibling w)\<rparr>) (procs k x) else procs k x)\<rparr>"
    using retarget_prev [OF zs, of pa] dist by auto
  have same1: "procs k1 x = procs k x" if "x \<notin> set zs" for x using that k1(3) by simp
  have b1: "map_option body (procs k1 p) = map_option body (procs k p)" for p using k1(3) by (cases "procs k p") (auto simp: body_def)
  have ys1: "siblings k1 q None (last_child v) ys (Some a)"
  proof -
    have "procs k1 x = procs k x" if "x \<in> set ys" for x using same1 [of x] dist that by auto
    then show ?thesis using ys by (subst siblings_cong [of _ _ k]) auto
  qed
  have a1: "procs k1 a = Some u" "procs k1 q = Some v" using u(1) v(1) same1 dist by auto
  show ?thesis
  proof (cases ys rule: rev_cases)
    case Nil
    let ?k = "k1\<lparr>procs := (procs k1)(q \<mapsto> v\<lparr>last_child := next_sibling u\<rparr>, a \<mapsto> u\<lparr>next_sibling := None, prev_sibling := None\<rparr>)\<rparr>"
    have l0: "last_child v = Some a" and pa: "pa = None" using ys Nil by (simp_all add: pa_def)
    have "proc_remove a k = Some ?k"
      using u k1(1) a1 l0 pa dist by (simp add: proc_remove_def deref_def unlink_parent_def modify_procs)
    moreover have "siblings ?k q None (next_sibling u) zs None" using k1(2) pa dist by (subst siblings_cong [of _ _ k1]) auto
    ultimately show ?thesis using a1 b1 dist Nil u(1) v(1) by (intro exI [of _ ?k]) (auto simp: family_def k1(3) body_def)
  next
    case (snoc ys' y)
    then obtain w where w: "procs k1 y = Some w" "siblings (k1\<lparr>procs := (procs k1)(y \<mapsto> w\<lparr>next_sibling := next_sibling u\<rparr>)\<rparr>) q None (last_child v) ys (next_sibling u)"
      using retarget_next [of k1 q None "last_child v" ys' y "Some a" "next_sibling u"] ys1 dist by auto
    let ?k2 = "k1\<lparr>procs := (procs k1)(y \<mapsto> w\<lparr>next_sibling := next_sibling u\<rparr>)\<rparr>"
    let ?k = "?k2\<lparr>procs := (procs ?k2)(a \<mapsto> u\<lparr>next_sibling := None, prev_sibling := None\<rparr>)\<rparr>"
    have pa: "pa = Some y" and ne: "y \<noteq> a" "y \<noteq> q" "y \<notin> set zs" using snoc dist by (auto simp: pa_def)
    have "proc_remove a k = Some ?k"
      using u k1(1) a1 pa w(1) ne by (simp add: proc_remove_def deref_def modify_procs)
    moreover have "siblings ?k q None (last_child v) ys (next_sibling u)" using w(2) dist by (subst siblings_cong [of _ _ ?k2]) auto
    moreover have "siblings ?k q (Some y) (next_sibling u) zs None" using k1(2) pa dist ne by (subst siblings_cong [of _ _ k1]) auto
    ultimately show ?thesis using a1 b1 w(1) dist snoc u(1) ne
      by (intro exI [of _ ?k]) (auto simp: family_def siblings_append k1(3) body_def)
  qed
qed

section \<open>Waiting for a child\<close>

text \<open>Someone else still refers to the page directory of the process.\<close>

definition dir_held :: "kern \<Rightarrow> proc \<Rightarrow> bool" where
  "dir_held k w = (case pdir w of None \<Rightarrow> True | Some d \<Rightarrow> 1 < refs k d)"

lemma family_procs: "family k q xs \<Longrightarrow> a \<notin> set (q # xs) \<Longrightarrow> procs k' = (procs k)(a := z) \<Longrightarrow> family k' q xs"
proof -
  assume h: "family k q xs" "a \<notin> set (q # xs)" "procs k' = (procs k)(a := z)"
  have "siblings k' q None l0 xs None = siblings k q None l0 xs None" for l0 using h by (intro siblings_cong) auto
  then show ?thesis using h by (auto simp: family_def split: option.splits)
qed

lemma wait_reap_family:
  assumes f: "family k q (ys @ a # zs)" and w: "procs k a = Some w" "dir_held k w"
  shows "\<exists>k'. wait_reap a k = Some (Wait_ret (Inr (pid w, exit_status w)), k') \<and> family k' q (ys @ zs) \<and> procs k' a = None \<and>
    (\<forall>p. p \<noteq> a \<longrightarrow> map_option body (procs k' p) = map_option body (procs k p))"
proof -
  obtain k1 where k1: "proc_remove a k = Some k1" "family k1 q (ys @ zs)" "k1\<lparr>procs := procs k\<rparr> = k" "\<forall>p. map_option body (procs k1 p) = map_option body (procs k p)"
    using proc_remove_family [OF f] by blast
  let ?k = "k1\<lparr>procs := (procs k1)(a := None)\<rparr>"
  have "refs k1 = refs k" using k1(3) by (metis kern.ext_inject kern.surjective kern.update_convs(1))
  then obtain k2 where k2: "release (pdir w) ?k = Some k2" "procs k2 = procs ?k"
    using w(2) by (subst (asm) release.simps, cases "pdir w") (auto simp: dir_held_def release.simps)
  have "a \<notin> set (q # ys @ zs)" using f by (auto simp: family_def)
  then have "family k2 q (ys @ zs)" using family_procs [OF k1(2), of a k2 None] k2(2) by simp
  then show ?thesis using k1 k2 w(1) by (auto simp: wait_reap_def waitpid_ret_def delete_proc_def deref_def)
qed

lemma find_split: "List.find P xs = Some a \<Longrightarrow> \<exists>ys zs. xs = ys @ a # zs \<and> P a \<and> (\<forall>y\<in>set ys. \<not> P y)"
  by (induction xs) (auto split: if_splits intro: exI [of _ "[]"], metis append_Cons set_ConsD)

lemma remove1_split: "distinct (ys @ a # zs) \<Longrightarrow> remove1 a (ys @ a # zs) = ys @ zs"
  by (simp add: remove1_append)

text \<open>What a successful wait for the child \<open>a\<close> gives: its number and status, and a kernel without it, in which the other children and all other processes are as they were.\<close>

definition reaped :: "kern \<Rightarrow> nat \<Rightarrow> nat list \<Rightarrow> nat \<Rightarrow> (waitres \<times> kern) option \<Rightarrow> bool" where
  "reaped k c xs a r \<longleftrightarrow> (\<exists>w k'. procs k a = Some w \<and> r = Some (Wait_ret (Inr (pid w, exit_status w)), k') \<and> family k' c (remove1 a xs) \<and> procs k' a = None \<and>
     (\<forall>p. p \<noteq> a \<longrightarrow> map_option body (procs k' p) = map_option body (procs k p)))"

lemma wait_reap_reaped:
  assumes f: "family k c xs" and a: "a \<in> set xs" and held: "\<forall>w. procs k a = Some w \<longrightarrow> dir_held k w"
  shows "reaped k c xs a (wait_reap a k)"
proof -
  obtain ys zs where x: "xs = ys @ a # zs" using a split_list by metis
  obtain w where "procs k a = Some w" using f a siblings_alive by (fastforce simp: family_def split: option.splits)
  then show ?thesis using wait_reap_family [of k c ys a zs w] f held x remove1_split [of ys a zs] by (auto simp: reaped_def family_def)
qed

text \<open>The child that \<open>waitpid\<close> takes: any zombie for a number up to zero, else the one with the number.\<close>

definition wanted :: "int \<Rightarrow> proc \<Rightarrow> bool" where
  "wanted p w = (if p \<le> 0 then status w = ZOMBIE else pid w = p)"

section \<open>New children\<close>

text \<open>The order of the queues looks only at the processes in them.\<close>

lemma ordered_keys_grow:
  assumes "ordered_keys (on_procs proc_less k) (numbered k) q xs" "numbered k \<subseteq> numbered k'"
    and "\<And>p. p \<in> numbered k \<Longrightarrow> sched_key k' p = sched_key k p"
  shows "ordered_keys (on_procs proc_less k') (numbered k') q xs"
proof -
  have n: "rkey (nd q x) \<in> numbered k" if "x \<in> set xs" for x using that assms(1) by (simp add: ordered_keys_def)
  have "on_procs proc_less k' (rkey (nd q x)) (rkey (nd q y))"
    if "x \<in> set xs" "y \<in> set xs" "on_procs proc_less k (rkey (nd q x)) (rkey (nd q y))" for x y
    using that on_procs_key [OF assms(3) assms(3), OF n n, of x y] by blast
  moreover have "sorted_wrt (\<lambda>x y. on_procs proc_less k (rkey (nd q x)) (rkey (nd q y))) xs" using assms(1) by (simp add: ordered_keys_def)
  ultimately have "sorted_wrt (\<lambda>x y. on_procs proc_less k' (rkey (nd q x)) (rkey (nd q y))) xs" by (rule sorted_wrt_mono_rel)
  then show ?thesis using n assms(2) by (auto simp: ordered_keys_def)
qed

text \<open>A kernel with one more process, of a number that no process has had.\<close>

definition joined :: "kern \<Rightarrow> nat \<Rightarrow> proc \<Rightarrow> kern \<Rightarrow> bool" where
  "joined k a u k' \<longleftrightarrow> procs k a = None \<and> map_option body (procs k' a) = Some (body u) \<and> (\<forall>p w. procs k p = Some w \<longrightarrow> tid w \<noteq> tid u) \<and>
     (\<forall>p. p \<noteq> a \<longrightarrow> map_option body (procs k' p) = map_option body (procs k p))"

lemma body_keep [simp]: "tid (body x) = tid x" "key_of (body x) = key_of x" "pid (body x) = pid x" "pstate (body x) = pstate x" "user (body x) = user x"
  "pdir (body x) = pdir x" "cur_queue (body x) = cur_queue x" "vruntime (body x) = vruntime x" "nice (body x) = nice x"
  by (simp_all add: body_def key_of_def)

lemma body_sel: "body w = body v \<Longrightarrow> tid w = tid v \<and> key_of w = key_of v \<and> pid w = pid v \<and> pstate w = pstate v \<and> user w = user v \<and> pdir w = pdir v
    \<and> cur_queue w = cur_queue v \<and> vruntime w = vruntime v \<and> nice w = nice v"
  by (metis body_keep)

lemma joined_numbered:
  assumes "joined k a u k'"
  shows "a \<notin> numbered k" "a \<in> numbered k'" "numbered k \<subseteq> numbered k'" "p \<noteq> a \<Longrightarrow> sched_key k' p = sched_key k p"
proof -
  have o: "\<exists>w. procs k p = Some w \<and> tid w = tid w' \<and> key_of w = key_of w'" if h: "procs k' p = Some w'" "p \<noteq> a" for p w'
  proof -
    have "map_option body (procs k' p) = map_option body (procs k p)" using assms h(2) by (simp add: joined_def)
    then obtain w where "procs k p = Some w" "body w' = body w" using h(1) by (cases "procs k p") simp_all
    then show ?thesis using body_sel [of w' w] by auto
  qed
  have i: "\<exists>w'. procs k' p = Some w' \<and> tid w' = tid w \<and> key_of w' = key_of w" if h: "procs k p = Some w" for p w
  proof -
    have "map_option body (procs k' p) = map_option body (procs k p)" using assms h by (cases "p = a") (auto simp: joined_def)
    then obtain w' where "procs k' p = Some w'" "body w' = body w" using h by auto
    then show ?thesis using body_sel [of w' w] by auto
  qed
  obtain u' where "procs k' a = Some u'" "body u' = body u" using assms by (auto simp: joined_def)
  then have u: "procs k' a = Some u'" "tid u' = tid u" using body_sel [of u' u] by simp_all
  have d: "tid w \<noteq> tid u" if "procs k p = Some w" for p w using assms that by (auto simp: joined_def)
  show "a \<notin> numbered k" using assms by (auto simp: numbered_def joined_def)
  show "a \<in> numbered k'" using u o d by (fastforce simp: numbered_def)
  show "sched_key k' p = sched_key k p" if "p \<noteq> a"
    using o [OF _ that] i [of p] by (cases "procs k p"; cases "procs k' p") (auto simp: sched_key_def)
  show "numbered k \<subseteq> numbered k'"
  proof
    fix p
    assume "p \<in> numbered k"
    then obtain w where w: "procs k p = Some w" "\<And>b v. procs k b = Some v \<Longrightarrow> tid v = tid w \<Longrightarrow> b = p" by (rule numberedE) blast
    obtain w' where w': "procs k' p = Some w'" "tid w' = tid w" using i [OF w(1)] by blast
    have "b = p" if "procs k' b = Some v" "tid v = tid w'" for b v
    proof (cases "b = a")
      case True
      then show ?thesis using that u w'(2) d [OF w(1)] by simp
    next
      case False
      then show ?thesis using o [OF that(1)] that(2) w(2) w'(2) by auto
    qed
    then show "p \<in> numbered k'" unfolding numbered_def using w'(1) by blast
  qed
qed

lemma joined_queue:
  assumes "joined k a u k'"
  shows "run_queue_ok k T \<Longrightarrow> run_queue k' = run_queue k \<Longrightarrow> run_queue_ok k' T \<and> queued k' T = queued k T \<and> a \<notin> set (queued k T)"
    and "ordered_keys (on_procs proc_less k) (numbered k) q xs \<Longrightarrow> ordered_keys (on_procs proc_less k') (numbered k') q xs"
proof -
  note n = joined_numbered [OF assms]
  have s: "sched_key k' p = sched_key k p" if "p \<in> numbered k" for p using n(1) n(4) [of p] that by auto
  show g: "ordered_keys (on_procs proc_less k') (numbered k') q xs" if "ordered_keys (on_procs proc_less k) (numbered k) q xs" for q xs
    using ordered_keys_grow [OF that n(3) s] .
  show "run_queue_ok k' T \<and> queued k' T = queued k T \<and> a \<notin> set (queued k T)" if "run_queue_ok k T" "run_queue k' = run_queue k"
  proof -
    have o: "ordered_keys (on_procs proc_less k) (numbered k) (run_queue k) (inorder T)" using that(1) by (simp add: run_queue_ok_def)
    then have "a \<notin> set (queued k T)" using n(1) by (auto simp: queued_def ordered_keys_def)
    then show ?thesis using g [OF o] that by (simp add: run_queue_ok_def queued_def)
  qed
qed

text \<open>What \<open>clone\<close> has made when it comes to linking the child: all of the new process but its place in the tree and the queues.\<close>

definition cloned :: "u32 \<Rightarrow> proc \<Rightarrow> cpu_regs \<Rightarrow> kern \<Rightarrow> proc \<Rightarrow> bool" where
  "cloned flags v saved k u \<longleftrightarrow> tid u = next_tid k \<and> pid u = (if flags AND CLONE_THREAD \<noteq> 0 then pid v else next_tid k) \<and>
     gregs (pstate u) = saved \<and> \<not> user u \<and> nice u = nice v \<and> pdir u = Some (Suc (next_addr k))"

lemma clone_makes:
  assumes "procs k (next_addr k) = None" "sdir_of (pdir v) k = Some d" "dir_clone phys_of d flags STACK_TABLE STACK_TABLE (mm k) = Some (d', m)"
    and "new_proc (pbrk v) k = (a, k0)"
  shows "\<exists>k1 k2 u. clone_dir phys_of flags v a k0 = Some k1 \<and> modify a (clone_proc flags v saved fpu) k1 = Some k2 \<and> a = next_addr k \<and>
    procs k2 = (procs k)(a \<mapsto> u) \<and> cloned flags v saved k u \<and> prev_sibling u = None \<and> cur_queue u = NO_QUEUE \<and>
    map_option sdir (shared k2 (Suc a)) = Some d' \<and> mm k2 = m \<and> run_queue k2 = run_queue k \<and> proc_list k2 = proc_list k"
proof -
  obtain u where k0: "a = next_addr k" "mm k0 = mm k" "shared k0 = shared k" "next_addr k0 = Suc a" "run_queue k0 = run_queue k" "proc_list k0 = proc_list k"
    and u: "procs k0 = (procs k)(a \<mapsto> u)" "tid u = next_tid k" "pid u = next_tid k" "prev_sibling u = None" "cur_queue u = NO_QUEUE"
    using assms(4) by (auto simp: new_proc_def Let_def)
  let ?u = "clone_proc flags v saved fpu (u\<lparr>pdir := Some (Suc a)\<rparr>)"
  have r: "procs (retain x y) = procs y" "shared (retain x y) = shared y" "mm (retain x y) = mm y" "run_queue (retain x y) = run_queue y" "proc_list (retain x y) = proc_list y"
    for x y by (simp_all add: retain_def split: option.splits)
  obtain k1 where k1: "clone_dir phys_of flags v a k0 = Some k1" "procs k1 = (procs k)(a \<mapsto> u\<lparr>pdir := Some (Suc a)\<rparr>)"
    "map_option sdir (shared k1 (Suc a)) = Some d'" "mm k1 = m" "run_queue k1 = run_queue k" "proc_list k1 = proc_list k"
  proof (rule that)
    let ?k = "k0\<lparr>mm := m, shared := (shared k0)(Suc a \<mapsto> \<lparr>sdir = d', cloned_dir = (if flags AND CLONE_VM \<noteq> 0 then pdir v else None)\<rparr>),
      refs := (refs k0)(Suc a := 1), next_addr := Suc (Suc a)\<rparr>"
    let ?k1 = "retain (if flags AND CLONE_VM \<noteq> 0 then pdir v else None) ?k"
    have "sdir_of (pdir v) k0 = Some d" using assms(2) k0(3) by (simp add: sdir_of_def)
    then show "clone_dir phys_of flags v a k0 = Some (?k1\<lparr>procs := (procs k)(a \<mapsto> u\<lparr>pdir := Some (Suc a)\<rparr>)\<rparr>)"
      using assms(3) k0 u(1) r(1) [of _ ?k] by (simp add: clone_dir_def)
  qed (simp_all add: r k0)
  then have "modify a (clone_proc flags v saved fpu) k1 = Some (k1\<lparr>procs := (procs k)(a \<mapsto> ?u)\<rparr>)" by simp
  moreover have "cloned flags v saved k ?u" "prev_sibling ?u = None" "cur_queue ?u = NO_QUEUE" using u k0(1) by (simp_all add: cloned_def clone_proc_def)
  ultimately show ?thesis using k0(1) k1 by (intro exI [of _ k1] exI [of _ "k1\<lparr>procs := (procs k)(a \<mapsto> ?u)\<rparr>"] exI [of _ ?u]) simp
qed



section \<open>The call\<close>



end
